(* ===== verification/Cider_Prelude.thy ===== *)
theory Cider_Prelude
  imports Main "HOL-Library.Word"
begin

text \<open>
  Shared vocabulary of the development: the C integer types that the modelled
  files use, characters as bytes, little-endian loads and stores on byte
  buffers, the two interfaces that several components implement (a codec with
  a left inverse, a transition system with an inductive invariant), and the
  generic lemmas on words and lists that the component theories rely on.
  Facts that turn bit operations on words into arithmetic on \<^typ>\<open>nat\<close> are
  collected in \<open>word_arith\<close>.
\<close>

unbundle bit_operations_syntax

named_theorems word_arith \<open>bit operations on words as arithmetic on natural numbers\<close>

section \<open>C types\<close>

type_synonym byte = "8 word"
type_synonym u16 = "16 word"
type_synonym u32 = "32 word"
type_synonym u64 = "64 word"

abbreviation asc :: "char \<Rightarrow> byte" where
  "asc c \<equiv> of_char c"

section \<open>Words as natural numbers\<close>

lemma unat_drop_bit [word_arith]:
  fixes w :: "'a::len word"
  shows "unat (drop_bit n w) = unat w div 2 ^ n"
  by (simp only: unat_drop_bit_eq) (simp add: drop_bit_eq_div)

lemma unat_take_bit [word_arith]:
  fixes w :: "'a::len word"
  shows "unat (take_bit n w) = unat w mod 2 ^ n"
  by (simp only: unsigned_take_bit_eq) (simp add: take_bit_eq_mod)

lemma unat_push_bit_mod [word_arith]:
  fixes w :: "'a::len word"
  shows "unat (push_bit n w) = unat w * 2 ^ n mod 2 ^ LENGTH('a)"
  by (simp only: unsigned_push_bit_eq) (simp add: push_bit_eq_mult take_bit_eq_mod)

lemma unat_less_256 [simp]: "unat (b :: byte) < 256"
  using unsigned_less [of b] by simp

lemma take_bit_small:
  fixes y :: "'a::len word"
  assumes "unat y < 2 ^ n"
  shows "take_bit n y = y"
  using assms by (metis mod_less unat_take_bit word_unat_eq_iff)

lemma or_push_bit_eq_plus:
  fixes x y :: "'a::len word"
  assumes "unat y < 2 ^ n"
  shows "push_bit n x OR y = push_bit n x + y"
proof (rule disjunctive_add [symmetric])
  fix k
  have "take_bit n y = y"
    using assms by (rule take_bit_small)
  then show "\<not> bit (push_bit n x) k \<or> \<not> bit y k"
    by (metis bit_push_bit_iff bit_take_bit_iff linorder_not_le)
qed

lemma unat_and_mask [word_arith]:
  fixes w :: "'a::len word"
  shows "unat (w AND mask n) = unat w mod 2 ^ n"
  by (simp add: unat_take_bit flip: take_bit_eq_mask)

section \<open>Little-endian byte sequences\<close>

text \<open>\<open>le_enc n v\<close> is what storing the \<open>n\<close>-byte integer \<open>v\<close> leaves in memory on
  the little-endian hosts the code is built for, \<open>le_val\<close> is the load.\<close>

fun le_enc :: "nat \<Rightarrow> nat \<Rightarrow> byte list" where
  "le_enc 0 v = []"
| "le_enc (Suc n) v = of_nat v # le_enc n (v div 256)"

fun le_val :: "byte list \<Rightarrow> nat" where
  "le_val [] = 0"
| "le_val (b # bs) = unat b + 256 * le_val bs"

lemma length_le_enc [simp]: "length (le_enc n v) = n"
  by (induction n arbitrary: v) auto

lemma unat_of_nat_byte [simp]: "unat (of_nat v :: byte) = v mod 256"
  by (simp add: unat_of_nat)

lemma le_val_enc: "le_val (le_enc n v) = v mod 256 ^ n"
proof (induction n arbitrary: v)
  case (Suc n)
  then show ?case
    by (simp add: mod_mult2_eq)
qed simp

lemma le_val_enc_small [simp]: "v < 256 ^ n \<Longrightarrow> le_val (le_enc n v) = v"
  by (simp add: le_val_enc)

lemma le_val_less: "le_val bs < 256 ^ length bs"
proof (induction bs)
  case (Cons b bs)
  then have "256 * Suc (le_val bs) \<le> 256 * 256 ^ length bs"
    by (intro mult_le_mono2) simp
  then show ?case
    using unat_less_256 [of b] by (simp del: unat_less_256)
qed simp

lemma of_nat_unat_plus_256 [simp]: "(of_nat (unat b + 256 * k) :: byte) = b"
  by (rule word_unat_eq_iff [THEN iffD2]) (simp only: unat_of_nat_byte, simp)

lemma le_enc_val [simp]: "le_enc (length bs) (le_val bs) = bs"
  by (induction bs) (simp_all del: of_nat_add of_nat_mult)

section \<open>Blocks of memory\<close>

text \<open>A block is a byte list.  \<open>poke\<close> stores bytes at an offset and is \<open>None\<close> when
  they leave the block; \<open>slice\<close> reads; \<open>agree xs ys a b\<close> says two blocks hold the
  same bytes from \<open>a\<close> to \<open>b\<close>.\<close>

definition poke :: "'a list \<Rightarrow> nat \<Rightarrow> 'a list \<Rightarrow> 'a list option" where
  "poke buf off bs =
     (if off + length bs \<le> length buf then Some (take off buf @ bs @ drop (off + length bs) buf) else None)"

definition slice :: "'a list \<Rightarrow> nat \<Rightarrow> nat \<Rightarrow> 'a list" where
  "slice xs off n = take n (drop off xs)"

definition agree :: "'a list \<Rightarrow> 'a list \<Rightarrow> nat \<Rightarrow> nat \<Rightarrow> bool" where
  "agree xs ys a b \<longleftrightarrow> b \<le> length xs \<and> b \<le> length ys \<and> (\<forall>i. a \<le> i \<and> i < b \<longrightarrow> xs ! i = ys ! i)"

lemma poke_in: "off + length bs \<le> length buf \<Longrightarrow> \<exists>b. poke buf off bs = Some b"
  by (simp add: poke_def)

lemma poke_SomeD:
  assumes "poke buf off bs = Some b"
  shows "off + length bs \<le> length buf" "length b = length buf"
    "i < length buf \<Longrightarrow> b ! i = (if off \<le> i \<and> i < off + length bs then bs ! (i - off) else buf ! i)"
  using assms by (auto simp: poke_def nth_append split: if_splits)

lemma nth_poke:
  "poke buf off bs = Some b \<Longrightarrow> i < off \<or> off + length bs \<le> i \<Longrightarrow> i < length buf \<Longrightarrow> b ! i = buf ! i"
  using poke_SomeD(3) [of buf off bs b i] by auto

lemma length_slice [simp]: "off + n \<le> length xs \<Longrightarrow> length (slice xs off n) = n"
  by (simp add: slice_def)

lemma nth_slice: "i < n \<Longrightarrow> off + n \<le> length xs \<Longrightarrow> slice xs off n ! i = xs ! (off + i)"
  by (simp add: slice_def)

lemma slice_one: "slice xs off (Suc 0) = [x] \<Longrightarrow> off < length xs \<and> xs ! off = x"
  by (cases "off < length xs") (auto simp: slice_def simp flip: Cons_nth_drop_Suc)

lemma slice_append: "slice xs off (length as + n) = as @ bs \<Longrightarrow> slice xs off (length as) = as \<and> slice xs (off + length as) n = bs"
proof -
  assume s: "slice xs off (length as + n) = as @ bs"
  have "slice xs off (length as + n) = slice xs off (length as) @ slice xs (off + length as) n"
    unfolding slice_def take_add drop_drop by (simp only: add.commute)
  moreover have "length (slice xs off (length as)) = length as"
    using arg_cong [OF s, of length] by (auto simp: slice_def)
  ultimately show ?thesis using s by simp
qed

lemma slice_poke: "poke buf off bs = Some b \<Longrightarrow> slice b off (length bs) = bs"
  by (auto simp: poke_def slice_def split: if_splits)

lemma agree_slice: "agree xs ys a b \<Longrightarrow> a \<le> off \<Longrightarrow> off + n \<le> b \<Longrightarrow> slice xs off n = slice ys off n"
  by (rule nth_equalityI) (simp_all add: agree_def nth_slice)

lemma agree_poke: "poke buf off bs = Some b' \<Longrightarrow> c \<le> length buf \<Longrightarrow> c \<le> off \<or> off + length bs \<le> a \<Longrightarrow> agree b' buf a c"
  using poke_SomeD [of buf off bs b'] by (auto simp: agree_def)

text \<open>\<open>frame b a w e\<close>: block \<open>b\<close> differs from \<open>a\<close> at most from \<open>w\<close> to \<open>e\<close>.\<close>

definition frame :: "'a list \<Rightarrow> 'a list \<Rightarrow> nat \<Rightarrow> nat \<Rightarrow> bool" where
  "frame b a w e \<longleftrightarrow> length b = length a \<and> (\<forall>i. i < w \<or> e \<le> i \<longrightarrow> i < length a \<longrightarrow> b ! i = a ! i)"

lemma frame_refl [simp]: "frame a a w e"
  by (simp add: frame_def)

lemma frame_trans: "frame c b w e \<Longrightarrow> frame b a w e \<Longrightarrow> frame c a w e"
  by (simp add: frame_def)

lemma frame_weaken: "frame b a w e \<Longrightarrow> w' \<le> w \<Longrightarrow> e \<le> e' \<Longrightarrow> frame b a w' e'"
  by (auto simp: frame_def)

lemma frame_join:
  "frame c b w1 e1 \<Longrightarrow> frame b a w2 e2 \<Longrightarrow> w \<le> w1 \<Longrightarrow> w \<le> w2 \<Longrightarrow> e1 \<le> e \<Longrightarrow> e2 \<le> e \<Longrightarrow> frame c a w e"
  by (auto simp: frame_def)

lemma frame_length: "frame b a w e \<Longrightarrow> length b = length a"
  by (simp add: frame_def)

lemma frame_poke: "poke buf off bs = Some b \<Longrightarrow> frame b buf off (off + length bs)"
  by (auto simp: frame_def poke_SomeD(2) nth_poke)

lemma frame_agree: "frame b a w e \<Longrightarrow> y \<le> length a \<Longrightarrow> y \<le> w \<or> e \<le> x \<Longrightarrow> agree b a x y"
  by (auto simp: frame_def agree_def)

lemma agree_trans: "agree xs ys a b \<Longrightarrow> agree ys zs a b \<Longrightarrow> agree xs zs a b"
  by (simp add: agree_def)

lemma agree_refl [simp]: "b \<le> length xs \<Longrightarrow> agree xs xs a b"
  by (simp add: agree_def)

lemma agree_sym: "agree xs ys a b \<Longrightarrow> agree ys xs a b"
  by (simp add: agree_def)

lemma agree_sub: "agree xs ys a b \<Longrightarrow> a \<le> a' \<Longrightarrow> b' \<le> b \<Longrightarrow> agree xs ys a' b'"
  by (simp add: agree_def)

section \<open>Interfaces\<close>

text \<open>A codec: what the decoder returns for everything the encoder produces.
  The encoder may refuse an input (\<^const>\<open>None\<close>: the output does not fit).\<close>

locale codec =
  fixes enc :: "'a \<Rightarrow> 'b option"
    and dec :: "'b \<Rightarrow> 'a option"
  assumes dec_enc: "enc x = Some y \<Longrightarrow> dec y = Some x"
begin

lemma enc_inj: "enc x = Some z \<Longrightarrow> enc y = Some z \<Longrightarrow> x = y"
  by (metis dec_enc option.inject)

end

text \<open>A transition system with an inductive invariant, and the states it reaches.\<close>

locale inductive_system =
  fixes init :: "'s \<Rightarrow> bool"
    and step :: "'s \<Rightarrow> 's \<Rightarrow> bool"
    and invar :: "'s \<Rightarrow> bool"
  assumes init_invar: "init s \<Longrightarrow> invar s"
    and step_invar: "step s t \<Longrightarrow> invar s \<Longrightarrow> invar t"
begin

lemma steps_invar:
  assumes "step\<^sup>*\<^sup>* s t" and "invar s"
  shows "invar t"
  using assms by (induction rule: rtranclp_induct) (auto intro: step_invar)

lemma reachable_invar:
  assumes "init s" and "step\<^sup>*\<^sup>* s t"
  shows "invar t"
  using assms by (blast intro: init_invar steps_invar)

end

text \<open>The interface of a dictionary keyed up to a normal form of the key.\<close>

locale keyed_dict =
  fixes ok :: "'d \<Rightarrow> bool" and absf :: "'d \<Rightarrow> 'k \<rightharpoonup> 'v" and nf :: "'q \<Rightarrow> 'k" and key_ok :: "'q \<Rightarrow> bool"
    and ins :: "'d \<Rightarrow> 'v \<Rightarrow> 'q \<Rightarrow> 'd option" and look :: "'d \<Rightarrow> 'q \<Rightarrow> 'v option option"
    and del :: "'d \<Rightarrow> 'q \<Rightarrow> (bool \<times> 'd) option"
  assumes ins_law: "ok d \<Longrightarrow> key_ok q \<Longrightarrow> \<exists>d'. ins d v q = Some d' \<and> ok d' \<and> absf d' = (absf d)(nf q \<mapsto> v)"
    and look_law: "ok d \<Longrightarrow> look d q = Some (absf d (nf q))"
    and del_law: "ok d \<Longrightarrow> \<exists>d'. del d q = Some (absf d (nf q) \<noteq> None, d') \<and> ok d' \<and> absf d' = (absf d)(nf q := None)"
begin

lemma look_ins:
  assumes "ok d" and "key_ok q" and "ins d v q = Some d'"
  shows "look d' p = (if nf p = nf q then Some (Some v) else look d p)"
  using ins_law [OF assms(1,2), of v] assms look_law by auto

lemma look_del:
  assumes "ok d" and "del d q = Some (b, d')"
  shows "look d' p = (if nf p = nf q then Some None else look d p)" and "b \<longleftrightarrow> look d q \<noteq> Some None"
  using del_law [OF assms(1), of q] assms look_law by auto

lemma del_ins:
  assumes "ok d" and "key_ok q" and "ins d v q = Some d'"
  shows "\<exists>d''. del d' q = Some (True, d'') \<and> look d'' p = (if nf p = nf q then Some None else look d p)"
  using ins_law [OF assms(1,2), of v] del_law [of d' q] look_law assms by fastforce

end

end
