(* ===== verification/Base64.thy ===== *)
theory Base64
  imports Cider_Prelude
begin

text \<open>
  The \<open>base64\<close> command of the container (\<open>src/src/darwin/base64/base64.c\<close>).
  Streams are byte lists: an input stream delivers its bytes and then either
  ends or fails (\<open>ferror\<close>); output is the list of bytes given to \<open>fputc\<close>.
  \<open>encode\<close> and \<open>decode\<close> keep the source's \<open>unsigned long\<close> accumulator at 64
  bits.  Shown: what \<open>encode\<close> writes, wrapped at any width, decodes to the
  original bytes; the wrapping is exactly per emitted character; white space
  is transparent to \<open>decode\<close> and any other foreign byte is an error.
\<close>

section \<open>Streams and the alphabet\<close>

record instream =
  content :: "byte list"
  fails :: bool

definition kAlphabet :: "byte list" where
  "kAlphabet = map of_char
     ''ABCDEFGHIJKLMNOPQRSTUVWXYZabcdefghijklmnopqrstuvwxyz0123456789+/''"

section \<open>Encoding\<close>

text \<open>\<open>emit\<close>: one character out, and a line break after every \<open>wrap\<close> characters.
  The state is the output so far and the column counter.\<close>

definition emit :: "int \<Rightarrow> byte \<Rightarrow> byte list \<times> int \<Rightarrow> byte list \<times> int" where
  "emit wrap ch oc = (case oc of (out, column) \<Rightarrow>
     let out = out @ [ch] in
     if wrap > 0 then
       (let column = column + 1 in
        if column = wrap then (out @ [asc CHR 0x0A], 0) else (out, column))
     else (out, column))"

definition group_value :: "byte list \<Rightarrow> u64" where
  "group_value grp =
     (let got = length grp;
          value = push_bit 16 (ucast (grp ! 0) :: u64);
          value = (if got > 1 then value OR push_bit 8 (ucast (grp ! 1)) else value);
          value = (if got > 2 then value OR ucast (grp ! 2) else value)
      in value)"

definition alphabet_at :: "u64 \<Rightarrow> byte" where
  "alphabet_at v = kAlphabet ! unat (v AND 0x3f)"

definition encode_group :: "int \<Rightarrow> byte list \<Rightarrow> byte list \<times> int \<Rightarrow> byte list \<times> int" where
  "encode_group wrap grp oc =
     (let got = length grp;
          value = group_value grp;
          oc = emit wrap (alphabet_at (drop_bit 18 value)) oc;
          oc = emit wrap (alphabet_at (drop_bit 12 value)) oc;
          oc = emit wrap (if got > 1 then alphabet_at (drop_bit 6 value) else asc CHR ''='') oc;
          oc = emit wrap (if got > 2 then alphabet_at value else asc CHR ''='') oc
      in oc)"

text \<open>The \<open>fread\<close> loop: \<open>fread\<close> delivers three bytes at a time, the last time
  what is left, and then 0.\<close>

fun encode_loop :: "int \<Rightarrow> byte list \<Rightarrow> byte list \<times> int \<Rightarrow> byte list \<times> int" where
  "encode_loop wrap inp oc =
     (let grp = take 3 inp in
      if grp = [] then oc
      else encode_loop wrap (drop 3 inp) (encode_group wrap grp oc))"

declare encode_loop.simps [simp del]

definition encode :: "instream \<Rightarrow> int \<Rightarrow> int \<times> byte list" where
  "encode inp wrap =
     (let (out, column) = encode_loop wrap (content inp) ([], 0) in
      if fails inp then (-1, out)
      else if wrap > 0 \<and> column \<noteq> 0 then (0, out @ [asc CHR 0x0A])
      else (0, out))"

section \<open>Decoding\<close>

text \<open>The \<open>reverse\<close> table: every entry is -1 except at the alphabet's bytes.\<close>

definition reverse_table :: "int list" where
  "reverse_table = fold (\<lambda>i t. t[unat (kAlphabet ! i) := int i])
     [0..<64] (replicate 256 (-1))"

record decoder =
  dvalue :: u64
  have_bits :: nat
  dout :: "byte list"

definition skip_byte :: "byte \<Rightarrow> bool" where
  "skip_byte ch \<longleftrightarrow> ch = asc CHR 0x0A \<or> ch = asc CHR 0x0D \<or> ch = asc CHR '' '' \<or> ch = asc CHR 0x09"

definition decode_bits :: "int \<Rightarrow> decoder \<Rightarrow> decoder" where
  "decode_bits bits d =
     (let value = push_bit 6 (dvalue d) OR word_of_int bits;
          have = have_bits d + 6
      in if have \<ge> 8 then
           (let have = have - 8 in
            \<lparr>dvalue = value, have_bits = have,
             dout = dout d @ [ucast (drop_bit have value AND 0xff)]\<rparr>)
         else \<lparr>dvalue = value, have_bits = have, dout = dout d\<rparr>)"

text \<open>The \<open>fgetc\<close> loop: \<open>Inl\<close> is the early \<open>return -1\<close> on a malformed byte,
  \<open>Inr\<close> the loop's end by \<open>=\<close> or the end of the input.\<close>

fun decode_loop :: "byte list \<Rightarrow> decoder \<Rightarrow> decoder + decoder" where
  "decode_loop [] d = Inr d"
| "decode_loop (ch # rest) d =
     (if ch = asc CHR ''='' then Inr d
      else let bits = reverse_table ! unat ch in
        if bits < 0 then
          (if skip_byte ch then decode_loop rest d else Inl d)
        else decode_loop rest (decode_bits bits d))"

definition decoder_init :: decoder where
  "decoder_init = \<lparr>dvalue = 0, have_bits = 0, dout = []\<rparr>"

definition decode :: "instream \<Rightarrow> int \<times> byte list" where
  "decode inp =
     (case decode_loop (content inp) decoder_init of
        Inl d \<Rightarrow> (-1, dout d)
      | Inr d \<Rightarrow> (if fails inp \<and> asc CHR ''='' \<notin> set (content inp) then -1 else 0, dout d))"

section \<open>The command\<close>

text \<open>\<open>strtol(optarg, NULL, 10)\<close>: leading white space, an optional sign, the
  longest run of digits, clamped to the range of \<open>long\<close>.\<close>

fun digits_value :: "int \<Rightarrow> string \<Rightarrow> int" where
  "digits_value acc [] = acc"
| "digits_value acc (c # cs) =
     (if 48 \<le> (of_char c :: nat) \<and> (of_char c :: nat) \<le> 57
      then digits_value (acc * 10 + (of_char c - 48)) cs else acc)"

definition is_space :: "char \<Rightarrow> bool" where
  "is_space c \<longleftrightarrow> c = CHR '' '' \<or> (9 \<le> (of_char c :: nat) \<and> (of_char c :: nat) \<le> 13)"

definition strtol10 :: "string \<Rightarrow> int" where
  "strtol10 s =
     (let s = dropWhile is_space s;
          v = (case s of
                 c # cs \<Rightarrow> if c = CHR ''-'' then - digits_value 0 cs
                           else if c = CHR ''+'' then digits_value 0 cs
                           else digits_value 0 s
               | [] \<Rightarrow> 0)
      in max (- (2 ^ 63)) (min (2 ^ 63 - 1) v))"

record options =
  decoding :: bool
  wrap_at :: int
  inPath :: "string option"
  outPath :: "string option"

datatype parsed = Run options | Usage int

text \<open>The option loop over what \<open>getopt\<close> returns one after the other (the option
  letter and its argument; \<open>?\<close> for an unknown option).\<close>

fun parse_options :: "(char \<times> string) list \<Rightarrow> options \<Rightarrow> parsed" where
  "parse_options [] st = Run st"
| "parse_options ((opt, optarg) # rest) st =
     (if opt = CHR ''D'' \<or> opt = CHR ''d'' then parse_options rest (st\<lparr>decoding := True\<rparr>)
      else if opt = CHR ''b'' then
        (let w = strtol10 optarg in
         parse_options rest (st\<lparr>wrap_at := (if w < 0 then 0 else w)\<rparr>))
      else if opt = CHR ''i'' then parse_options rest (st\<lparr>inPath := Some optarg\<rparr>)
      else if opt = CHR ''o'' then parse_options rest (st\<lparr>outPath := Some optarg\<rparr>)
      else if opt = CHR ''h'' then Usage 0
      else Usage 1)"

definition options_init :: options where
  "options_init = \<lparr>decoding = False, wrap_at = 0, inPath = None, outPath = None\<rparr>"

text \<open>\<open>main\<close>: the exit status and, when a conversion ran, the output's
  destination (\<^const>\<open>None\<close> is stdout) with the bytes written.  \<open>fopen_r\<close> and \<open>fopen_w\<close>
  answer the two \<open>fopen\<close> calls.\<close>

definition main_base64 ::
  "(string \<Rightarrow> instream option) \<Rightarrow> (string \<Rightarrow> bool) \<Rightarrow> instream \<Rightarrow> (char \<times> string) list
     \<Rightarrow> int \<times> (string option \<times> byte list) option" where
  "main_base64 fopen_r fopen_w stdin opts =
     (case parse_options opts options_init of
        Usage st \<Rightarrow> (st, None)
      | Run st \<Rightarrow>
          (case (case inPath st of None \<Rightarrow> Some stdin | Some p \<Rightarrow> fopen_r p) of
             None \<Rightarrow> (1, None)
           | Some inp \<Rightarrow>
               if (case outPath st of None \<Rightarrow> False | Some p \<Rightarrow> \<not> fopen_w p) then (1, None)
               else (let (result, out) = (if decoding st then decode inp else encode inp (wrap_at st))
                     in (if result = 0 then 0 else 1, Some (outPath st, out)))))"

section \<open>The alphabet is inverted by the table\<close>

lemma length_kAlphabet [simp]: "length kAlphabet = 64"
  by (simp add: kAlphabet_def)

lemma distinct_kAlphabet: "distinct kAlphabet"
  by (simp add: kAlphabet_def)

lemma of_char_pad: "asc CHR ''='' = 61"
  by simp

lemma kAlphabet_excludes: "asc CHR ''='' \<notin> set kAlphabet" "skip_byte ch \<Longrightarrow> ch \<notin> set kAlphabet"
  by (auto simp: kAlphabet_def skip_byte_def)

lemma fold_update_other:
  "k \<notin> f ` set is \<Longrightarrow> fold (\<lambda>i t. t[f i := v i]) is t ! k = t ! k"
  by (induction "is" arbitrary: t) auto

lemma fold_update_nth:
  assumes "distinct (map f is)" and "\<forall>i\<in>set is. f i < length t" and "j \<in> set is"
  shows "fold (\<lambda>i t. t[f i := v i]) is t ! f j = v j"
  using assms by (induction "is" arbitrary: t) (auto simp: fold_update_other)

lemma reverse_alphabet [simp]: "i < 64 \<Longrightarrow> reverse_table ! unat (kAlphabet ! i) = int i"
  unfolding reverse_table_def
proof (rule fold_update_nth [where f = "\<lambda>i. unat (kAlphabet ! i)"])
  have "map (\<lambda>i. unat (kAlphabet ! i)) [0..<64] = map unat kAlphabet"
    by (rule nth_equalityI) auto
  then show "distinct (map (\<lambda>i. unat (kAlphabet ! i)) [0..<64])"
    by (auto simp: distinct_map distinct_kAlphabet inj_on_def simp flip: word_unat_eq_iff)
qed auto

lemma reverse_foreign: "ch \<notin> set kAlphabet \<Longrightarrow> reverse_table ! unat ch = -1"
  unfolding reverse_table_def
  by (subst fold_update_other [where f = "\<lambda>i. unat (kAlphabet ! i)"]) (auto simp: in_set_conv_nth simp flip: word_unat_eq_iff)

lemma reverse_negative_iff: "reverse_table ! unat ch < 0 \<longleftrightarrow> ch \<notin> set kAlphabet"
  by (metis in_set_conv_nth length_kAlphabet nless_le of_nat_less_0_iff reverse_alphabet
      reverse_foreign zero_less_one neg_less_0_iff_less)

lemma alphabet_not_skip [simp]: "i < 64 \<Longrightarrow> \<not> skip_byte (kAlphabet ! i)"
  and alphabet_not_pad [simp]: "i < 64 \<Longrightarrow> kAlphabet ! i \<noteq> 61"
  using kAlphabet_excludes by (metis length_kAlphabet nth_mem of_char_pad)+

section \<open>The accumulator as numbers\<close>

text \<open>Only the low \<open>have\<close> bits of the accumulator matter; the bits that the 64-bit
  shift pushes out are never looked at.\<close>

definition pending :: "decoder \<Rightarrow> nat" where
  "pending d = unat (dvalue d) mod 2 ^ have_bits d"

lemma unat_shift_in:
  fixes v :: u64
  assumes "i < 64"
  shows "unat (push_bit 6 v OR word_of_nat i) = (64 * unat v + i) mod 2 ^ 64"
proof -
  have i: "unat (word_of_nat i :: u64) = i"
    using assms by (simp add: unat_of_nat)
  then have "push_bit 6 v OR word_of_nat i = push_bit 6 v + word_of_nat i"
    using assms by (intro or_push_bit_eq_plus) simp
  then have "unat (push_bit 6 v OR word_of_nat i) = (unat v * 2 ^ 6 mod 2 ^ 64 + i) mod 2 ^ 64"
    by (simp only: unat_word_ariths(1) unat_push_bit_mod i) simp
  then show ?thesis
    by (simp only: mod_add_left_eq) (simp add: mult.commute)
qed

lemma mod_pow_shift_in:
  "(64 * v + i) mod 2 ^ 64 mod 2 ^ (h + 6) = 64 * (v mod 2 ^ h) + i" if "i < 64" "h \<le> 58" for v i h :: nat
proof -
  have "(2::nat) ^ (h + 6) dvd 2 ^ 64"
    using that by (intro le_imp_power_dvd) simp
  then have "(64 * v + i) mod 2 ^ 64 mod 2 ^ (h + 6) = (64 * v + i) mod 2 ^ (h + 6)"
    by (rule mod_mod_cancel)
  also have "\<dots> = (i + 64 * v) mod (64 * 2 ^ h)"
    by (simp add: power_add ac_simps)
  also have "\<dots> = i + 64 * (v mod 2 ^ h)"
    using that by (simp add: mod_mult2_eq)
  finally show ?thesis by simp
qed

lemma decode_bits_have:
  assumes "i < 64" and "2 \<le> have_bits d" and "have_bits d \<le> 8"
  shows "have_bits (decode_bits (int i) d) = have_bits d - 2"
    and "pending (decode_bits (int i) d) = (64 * pending d + i) mod 2 ^ (have_bits d - 2)"
    and "dout (decode_bits (int i) d) =
           dout d @ [word_of_nat ((64 * pending d + i) div 2 ^ (have_bits d - 2))]"
proof -
  define h where "h = have_bits d"
  define w where "w = push_bit 6 (dvalue d) OR word_of_nat i"
  have w: "unat w = (64 * unat (dvalue d) + i) mod 2 ^ 64"
    unfolding w_def using assms(1) by (rule unat_shift_in)
  have low: "unat w mod 2 ^ (h + 6) = 64 * pending d + i"
    unfolding w pending_def h_def using assms by (intro mod_pow_shift_in) auto
  have h6: "h + 6 - 8 = h - 2" and h8: "h + 6 = (h - 2) + 8"
    using assms by (auto simp: h_def)
  show "have_bits (decode_bits (int i) d) = have_bits d - 2"
    using assms by (simp add: decode_bits_def Let_def)
  have "pending (decode_bits (int i) d) = unat w mod 2 ^ (h - 2)"
    using assms h6 by (simp add: decode_bits_def Let_def pending_def w_def h_def)
  also have "\<dots> = unat w mod 2 ^ (h + 6) mod 2 ^ (h - 2)"
    by (simp add: mod_mod_cancel le_imp_power_dvd)
  finally show "pending (decode_bits (int i) d) = (64 * pending d + i) mod 2 ^ (have_bits d - 2)"
    using low by (simp add: h_def)
  have m: "(0xff :: u64) = mask 8" by (simp add: mask_eq_exp_minus_1)
  have "unat (drop_bit (h - 2) w AND 0xff) = unat w div 2 ^ (h - 2) mod 2 ^ 8"
    unfolding m by (simp only: word_arith)
  also have "\<dots> = unat w mod 2 ^ (h + 6) div 2 ^ (h - 2)"
    unfolding h8 by (simp add: power_add mod_mult2_eq)
  finally have "unat (drop_bit (h - 2) w AND 0xff) = (64 * pending d + i) div 2 ^ (h - 2)"
    unfolding low .
  then have "(ucast (drop_bit (h - 2) w AND 0xff) :: byte) =
      word_of_nat ((64 * pending d + i) div 2 ^ (h - 2))"
    by (metis of_nat_unat)
  then show "dout (decode_bits (int i) d) =
      dout d @ [word_of_nat ((64 * pending d + i) div 2 ^ (have_bits d - 2))]"
    using assms h6 by (simp add: decode_bits_def Let_def w_def h_def)
qed

lemma decode_bits_first:
  assumes "i < 64" and "have_bits d = 0"
  shows "have_bits (decode_bits (int i) d) = 6" and "pending (decode_bits (int i) d) = i"
    and "dout (decode_bits (int i) d) = dout d"
proof -
  have "unat (push_bit 6 (dvalue d) OR word_of_nat i) mod 2 ^ (0 + 6) = i"
    unfolding unat_shift_in [OF assms(1)] using assms(1) by (subst mod_pow_shift_in) auto
  then show "have_bits (decode_bits (int i) d) = 6" "pending (decode_bits (int i) d) = i"
    "dout (decode_bits (int i) d) = dout d"
    using assms by (simp_all add: decode_bits_def Let_def pending_def)
qed

section \<open>Encoding as a flat character sequence\<close>

definition group_chars :: "byte list \<Rightarrow> byte list" where
  "group_chars grp =
     (let value = group_value grp in
      [alphabet_at (drop_bit 18 value), alphabet_at (drop_bit 12 value),
       (if length grp > 1 then alphabet_at (drop_bit 6 value) else asc CHR ''=''),
       (if length grp > 2 then alphabet_at value else asc CHR ''='')])"

fun plain_chars :: "byte list \<Rightarrow> byte list" where
  "plain_chars (a # b # c # rest) = group_chars [a, b, c] @ plain_chars rest"
| "plain_chars [] = []"
| "plain_chars grp = group_chars grp"

lemma encode_group_fold: "encode_group wrap grp oc = fold (emit wrap) (group_chars grp) oc"
  by (simp add: encode_group_def group_chars_def Let_def)

lemma encode_loop_fold: "encode_loop wrap inp oc = fold (emit wrap) (plain_chars inp) oc"
proof (induction inp arbitrary: oc rule: plain_chars.induct)
  case (1 a b c rest)
  then show ?case
    by (subst encode_loop.simps) (simp add: encode_group_fold)
qed (simp_all add: encode_loop.simps encode_group_fold)

lemma emit_unwrapped: "wrap \<le> 0 \<Longrightarrow> fold (emit wrap) cs (out, col) = (out @ cs, col)"
  by (induction cs arbitrary: out) (auto simp: emit_def Let_def)

lemma filter_emit:
  "filter (\<lambda>b. \<not> skip_byte b) (fst (fold (emit wrap) cs oc)) =
     filter (\<lambda>b. \<not> skip_byte b) (fst oc) @ filter (\<lambda>b. \<not> skip_byte b) cs"
proof (induction cs arbitrary: oc)
  case (Cons c cs)
  have nl: "skip_byte 10" by (simp add: skip_byte_def)
  have "filter (\<lambda>b. \<not> skip_byte b) (fst (emit wrap c oc)) =
      filter (\<lambda>b. \<not> skip_byte b) (fst oc) @ filter (\<lambda>b. \<not> skip_byte b) [c]"
    by (cases oc) (simp add: emit_def Let_def nl)
  with Cons show ?case by simp
qed simp

lemma group_chars_not_skip: "filter (\<lambda>b. \<not> skip_byte b) (group_chars grp) = group_chars grp"
proof -
  have "unat (v AND 0x3f :: u64) < 64" for v
  proof -
    have "(0x3f :: u64) = mask 6" by (simp add: mask_eq_exp_minus_1)
    then show ?thesis by (simp only: word_arith) simp
  qed
  then have "\<not> skip_byte (alphabet_at v)" for v
    by (simp add: alphabet_at_def)
  moreover have "\<not> skip_byte (asc CHR ''='')"
    by (simp add: skip_byte_def)
  ultimately show ?thesis
    by (simp add: group_chars_def Let_def)
qed

lemma plain_chars_not_skip: "filter (\<lambda>b. \<not> skip_byte b) (plain_chars inp) = plain_chars inp"
  by (induction inp rule: plain_chars.induct) (simp_all add: group_chars_not_skip)

section \<open>Decoding what was encoded\<close>

lemma decode_loop_filter: "decode_loop (filter (\<lambda>b. \<not> skip_byte b) xs) d = decode_loop xs d"
proof (induction xs arbitrary: d)
  case (Cons x xs)
  have "skip_byte x \<Longrightarrow> x \<noteq> asc CHR ''='' \<and> reverse_table ! unat x < 0"
    using kAlphabet_excludes by (auto simp: reverse_negative_iff) (auto simp: skip_byte_def)
  with Cons show ?case by (auto simp: Let_def)
qed simp

lemma decode_loop_alphabet:
  "i < 64 \<Longrightarrow> decode_loop (kAlphabet ! i # rest) d = decode_loop rest (decode_bits (int i) d)"
  by simp

lemma unat_group3: "unat (group_value [x, y, z]) = 65536 * unat x + 256 * unat y + unat z"
  and unat_group2: "unat (group_value [x, y]) = 65536 * unat x + 256 * unat y"
  and unat_group1: "unat (group_value [x]) = 65536 * unat x"
proof -
  have byte: "unat (ucast b :: u64) = unat b" for b :: byte
    using unat_less_256 [of b] by (simp add: unsigned_ucast_eq take_bit_eq_mod del: unat_less_256)
  have y: "unat (push_bit 8 (ucast y :: u64) OR ucast z) = 256 * unat y + unat z"
    using unat_less_256 [of y] unat_less_256 [of z]
    by (simp add: or_push_bit_eq_plus byte unat_word_ariths(1) unat_push_bit_mod del: unat_less_256)
  have y0: "unat (push_bit 8 (ucast y :: u64)) = 256 * unat y"
    using unat_less_256 [of y] by (simp add: byte unat_push_bit_mod del: unat_less_256)
  have x: "unat (push_bit 16 (ucast x :: u64) OR w) = 65536 * unat x + unat w"
    if "unat w < 65536" for w :: u64
    using that unat_less_256 [of x]
    by (simp add: or_push_bit_eq_plus byte unat_word_ariths(1) unat_push_bit_mod del: unat_less_256)
  show "unat (group_value [x, y, z]) = 65536 * unat x + 256 * unat y + unat z"
    using unat_less_256 [of y] unat_less_256 [of z]
    by (simp add: group_value_def Let_def or.assoc x y del: unat_less_256)
  show "unat (group_value [x, y]) = 65536 * unat x + 256 * unat y"
    using unat_less_256 [of y] by (simp add: group_value_def Let_def x y0 del: unat_less_256)
  show "unat (group_value [x]) = 65536 * unat x"
    using unat_less_256 [of x] by (simp add: group_value_def byte unat_push_bit_mod del: unat_less_256)
qed

lemma alphabet_at_nat: "alphabet_at (drop_bit n v) = kAlphabet ! (unat v div 2 ^ n mod 64)"
proof -
  have "(0x3f :: u64) = mask 6" by (simp add: mask_eq_exp_minus_1)
  then show ?thesis unfolding alphabet_at_def by (simp only: word_arith) simp
qed

lemma group_chars_nat:
  assumes "v = unat (group_value grp)"
  shows "group_chars grp =
     [kAlphabet ! (v div 262144 mod 64), kAlphabet ! (v div 4096 mod 64),
      (if length grp > 1 then kAlphabet ! (v div 64 mod 64) else 61),
      (if length grp > 2 then kAlphabet ! (v mod 64) else 61)]"
  using alphabet_at_nat [of 0 "group_value grp"]
  by (simp add: group_chars_def Let_def alphabet_at_nat assms)

lemma glue64: "64 * (w div 64 mod k) + w mod 64 = w mod (64 * k)" for w k :: nat
  by (simp add: mod_mult2_eq)

lemma sextets:
  fixes v :: nat
  assumes "v < 16777216"
  shows "(64 * (v div 262144 mod 64) + v div 4096 mod 64) div 16 = v div 65536"
    and "(64 * ((64 * (v div 262144 mod 64) + v div 4096 mod 64) mod 16) + v div 64 mod 64) div 4 = v div 256 mod 256"
    and "64 * ((64 * ((64 * (v div 262144 mod 64) + v div 4096 mod 64) mod 16) + v div 64 mod 64) mod 4) + v mod 64 = v mod 256"
proof -
  have "v div 262144 = v div 4096 div 64" and d: "v div 4096 = v div 64 div 64"
    by (simp_all flip: div_mult2_eq)
  then have a: "64 * (v div 262144 mod 64) + v div 4096 mod 64 = v div 4096"
    using glue64 [of "v div 4096" 64] assms by (simp add: less_mult_imp_div_less)
  show "(64 * (v div 262144 mod 64) + v div 4096 mod 64) div 16 = v div 65536"
    unfolding a by (simp flip: div_mult2_eq)
  have b: "64 * (v div 4096 mod 16) + v div 64 mod 64 = v div 64 mod 1024"
    using glue64 [of "v div 64" 16] by (simp add: d)
  have "v div 64 mod 1024 div 4 = v div 64 div 4 mod 256"
    using mod_mult2_eq [of "v div 64" 4 256] by simp
  then show "(64 * ((64 * (v div 262144 mod 64) + v div 4096 mod 64) mod 16) + v div 64 mod 64) div 4 = v div 256 mod 256"
    unfolding a b by (simp flip: div_mult2_eq)
  have "v div 64 mod 1024 mod 4 = v div 64 mod 4"
    by (rule mod_mod_cancel) simp
  then show "64 * ((64 * ((64 * (v div 262144 mod 64) + v div 4096 mod 64) mod 16) + v div 64 mod 64) mod 4) + v mod 64 = v mod 256"
    unfolding a b using glue64 [of v 4] by simp
qed

lemma decode_sextets:
  assumes v: "v < 16777216" and d: "have_bits d = 0"
    and d1_def: "d1 = decode_bits (int (v div 262144 mod 64)) d"
    and d2_def: "d2 = decode_bits (int (v div 4096 mod 64)) d1"
    and d3_def: "d3 = decode_bits (int (v div 64 mod 64)) d2"
    and d4_def: "d4 = decode_bits (int (v mod 64)) d3"
  shows "dout d2 = dout d @ [word_of_nat (v div 65536)]"
    and "dout d3 = dout d @ [word_of_nat (v div 65536), word_of_nat (v div 256 mod 256)]"
    and "dout d4 = dout d @ [word_of_nat (v div 65536), word_of_nat (v div 256 mod 256), word_of_nat (v mod 256)]"
    and "have_bits d4 = 0"
proof -
  note steps = decode_bits_first [OF _ d] decode_bits_have
  have d1: "have_bits d1 = 6" "pending d1 = v div 262144 mod 64" "dout d1 = dout d"
    by (simp_all add: d1_def steps)
  show d2: "dout d2 = dout d @ [word_of_nat (v div 65536)]"
    by (simp add: d2_def steps d1 sextets [OF v])
  have d2': "have_bits d2 = 4" "pending d2 = (64 * (v div 262144 mod 64) + v div 4096 mod 64) mod 16"
    by (simp_all add: d2_def steps d1)
  show d3: "dout d3 = dout d @ [word_of_nat (v div 65536), word_of_nat (v div 256 mod 256)]"
    by (simp add: d3_def steps d2 d2' sextets [OF v])
  have d3': "have_bits d3 = 2"
    "pending d3 = (64 * ((64 * (v div 262144 mod 64) + v div 4096 mod 64) mod 16) + v div 64 mod 64) mod 4"
    by (simp_all add: d3_def steps d2')
  show "dout d4 = dout d @ [word_of_nat (v div 65536), word_of_nat (v div 256 mod 256), word_of_nat (v mod 256)]"
    and "have_bits d4 = 0"
    by (simp_all add: d4_def steps d3 d3' sextets [OF v])
qed

lemma group_number:
  fixes x y z :: byte
  defines "v \<equiv> 65536 * unat x + 256 * unat y + unat z"
  shows "v < 16777216" and "v div 65536 = unat x" and "v div 256 mod 256 = unat y" and "v mod 256 = unat z"
proof -
  note bounds = unat_less_256 [of x] unat_less_256 [of y] unat_less_256 [of z]
  have v: "v = 256 * (256 * unat x + unat y) + unat z"
    by (simp add: v_def)
  have q: "v div 256 = 256 * unat x + unat y"
    unfolding v using bounds by (simp del: unat_less_256)
  show "v mod 256 = unat z"
    by (simp only: v mod_mult_self4 mod_less [OF unat_less_256])
  show "v < 16777216"
    using bounds by (simp add: v_def del: unat_less_256)
  show "v div 65536 = unat x" "v div 256 mod 256 = unat y"
    using bounds q div_mult2_eq [of v 256 256] by (simp_all del: unat_less_256)
qed

lemma group_value_number:
  "unat (group_value [x, y, z]) = 65536 * unat x + 256 * unat y + unat z"
  "unat (group_value [x, y]) = 65536 * unat x + 256 * unat y + unat (0 :: byte)"
  "unat (group_value [x]) = 65536 * unat x + 256 * unat (0 :: byte) + unat (0 :: byte)"
  by (simp_all add: unat_group3 unat_group2 unat_group1)

lemma decode_group3:
  assumes "have_bits d = 0"
  shows "\<exists>d'. decode_loop (group_chars [x, y, z] @ rest) d = decode_loop rest d' \<and>
     have_bits d' = 0 \<and> dout d' = dout d @ [x, y, z]"
proof -
  obtain v where v: "v = unat (group_value [x, y, z])" by blast
  have n: "v < 16777216" "v div 65536 = unat x" "v div 256 mod 256 = unat y" "v mod 256 = unat z"
    unfolding v group_value_number by (rule group_number)+
  note out = decode_sextets [OF n(1) assms refl refl refl refl, unfolded n(2-4) of_nat_unat ucast_id]
  show ?thesis
    unfolding group_chars_nat [OF v] using out(3,4) by auto
qed

lemma decode_group2:
  assumes "have_bits d = 0"
  shows "\<exists>d'. decode_loop (group_chars [x, y] @ rest) d = Inr d' \<and> dout d' = dout d @ [x, y]"
proof -
  obtain v where v: "v = unat (group_value [x, y])" by blast
  have n: "v < 16777216" "v div 65536 = unat x" "v div 256 mod 256 = unat y" "v mod 256 = unat (0::byte)"
    unfolding v group_value_number by (rule group_number)+
  note out = decode_sextets [OF n(1) assms refl refl refl refl, unfolded n(2-4) of_nat_unat ucast_id]
  show ?thesis
    unfolding group_chars_nat [OF v] using out(2) by auto
qed

lemma decode_group1:
  assumes "have_bits d = 0"
  shows "\<exists>d'. decode_loop (group_chars [x] @ rest) d = Inr d' \<and> dout d' = dout d @ [x]"
proof -
  obtain v where v: "v = unat (group_value [x])" by blast
  have n: "v < 16777216" "v div 65536 = unat x" "v div 256 mod 256 = unat (0::byte)" "v mod 256 = unat (0::byte)"
    unfolding v group_value_number by (rule group_number)+
  note out = decode_sextets [OF n(1) assms refl refl refl refl, unfolded n(2-4) of_nat_unat ucast_id]
  show ?thesis
    unfolding group_chars_nat [OF v] using out(1) by auto
qed

lemma decode_plain_chars:
  "have_bits d = 0 \<Longrightarrow> \<exists>d'. decode_loop (plain_chars inp) d = Inr d' \<and> dout d' = dout d @ inp"
proof (induction inp arbitrary: d rule: plain_chars.induct)
  case (1 a b c rest)
  from decode_group3 [OF 1(2), of a b c "plain_chars rest"] obtain d1 where
    d1: "decode_loop (plain_chars (a # b # c # rest)) d = decode_loop (plain_chars rest) d1"
      "have_bits d1 = 0" "dout d1 = dout d @ [a, b, c]"
    by auto
  with 1(1) [OF d1(2)] show ?case by auto
qed (use decode_group1 [where rest = "[]"] decode_group2 [where rest = "[]"] in auto)

lemma decode_encode:
  "decode \<lparr>content = snd (encode \<lparr>content = bs, fails = False\<rparr> wrap), fails = False\<rparr> = (0, bs)"
proof -
  define out where "out = snd (encode \<lparr>content = bs, fails = False\<rparr> wrap)"
  have nl: "skip_byte 10" by (simp add: skip_byte_def)
  have "filter (\<lambda>b. \<not> skip_byte b) out = filter (\<lambda>b. \<not> skip_byte b) (fst (fold (emit wrap) (plain_chars bs) ([], 0)))"
    by (auto simp: out_def encode_def encode_loop_fold nl split: prod.splits)
  also have "\<dots> = plain_chars bs"
    by (simp add: filter_emit plain_chars_not_skip)
  finally have "decode_loop out decoder_init = decode_loop (plain_chars bs) decoder_init"
    by (metis decode_loop_filter)
  moreover obtain d' where "decode_loop (plain_chars bs) decoder_init = Inr d'" "dout d' = bs"
    using decode_plain_chars [of decoder_init bs] by (auto simp: decoder_init_def)
  ultimately show ?thesis
    by (simp add: decode_def flip: out_def)
qed

section \<open>Wrapping\<close>

text \<open>The reference: cut the unwrapped encoding into lines of \<open>n\<close> characters, each
  ended by a newline.\<close>

fun wrap_lines :: "nat \<Rightarrow> byte list \<Rightarrow> byte list" where
  "wrap_lines n xs = (if n = 0 \<or> xs = [] then xs else take n xs @ [10] @ wrap_lines n (drop n xs))"

declare wrap_lines.simps [simp del]

lemma emit_within_line:
  "0 \<le> col \<Longrightarrow> col + int (length cs) < wrap \<Longrightarrow>
     fold (emit wrap) cs (out, col) = (out @ cs, col + int (length cs))"
  by (induction cs arbitrary: out col) (auto simp: emit_def Let_def)

lemma emit_full_line:
  assumes "length cs = n" and "0 < n"
  shows "fold (emit (int n)) cs (out, 0) = (out @ cs @ [10], 0)"
proof -
  obtain ys y where cs: "cs = ys @ [y]"
    using assms by (cases cs rule: rev_cases) auto
  then show ?thesis
    using assms by (auto simp: emit_within_line) (auto simp: emit_def Let_def)
qed

lemma emit_lines:
  assumes "0 < n"
  shows "(case fold (emit (int n)) cs (out, 0) of (out', col) \<Rightarrow> if col \<noteq> 0 then out' @ [10] else out')
    = out @ wrap_lines n cs"
  using assms
proof (induction n cs arbitrary: out rule: wrap_lines.induct)
  case (1 n cs)
  consider "cs = []" | "cs \<noteq> []" "length cs < n" | "cs \<noteq> []" "n \<le> length cs" by linarith
  then show ?case
  proof cases
    case 2
    then show ?thesis
      by (simp add: emit_within_line wrap_lines.simps [of n cs] wrap_lines.simps [of n "[]"])
  next
    case 3
    have "fold (emit (int n)) cs (out, 0) = fold (emit (int n)) (take n cs @ drop n cs) (out, 0)"
      by simp
    also have "\<dots> = fold (emit (int n)) (drop n cs) (out @ take n cs @ [10], 0)"
      using emit_full_line [of "take n cs" n out] 3 "1.prems" by (simp del: append_take_drop_id)
    finally have "fold (emit (int n)) cs (out, 0) = fold (emit (int n)) (drop n cs) (out @ take n cs @ [10], 0)" .
    with 3 "1.IH" "1.prems" show ?thesis
      by (simp add: wrap_lines.simps [of n cs])
  qed (simp add: wrap_lines.simps)
qed

section \<open>Properties\<close>

text \<open>C31. The command inverts itself: what \<open>base64\<close> writes for any input and any
  \<open>-b\<close> argument (line width), \<open>base64 -D\<close> turns back into that input, and both
  runs exit with status 0.\<close>

theorem base64_command_roundtrip:
  "\<exists>out. main_base64 fr fw \<lparr>content = bs, fails = False\<rparr> [(CHR ''b'', num)] = (0, Some (None, out)) \<and>
     main_base64 fr fw \<lparr>content = out, fails = False\<rparr> [(CHR ''D'', [])] = (0, Some (None, bs))"
proof -
  define w where "w = (if strtol10 num < 0 then 0 else strtol10 num)"
  define out where "out = snd (encode \<lparr>content = bs, fails = False\<rparr> w)"
  have "encode \<lparr>content = bs, fails = False\<rparr> w = (0, out)"
    by (auto simp: out_def encode_def split: prod.splits)
  then have "main_base64 fr fw \<lparr>content = bs, fails = False\<rparr> [(CHR ''b'', num)] = (0, Some (None, out))"
    by (simp add: main_base64_def options_init_def w_def Let_def)
  moreover have "decode \<lparr>content = out, fails = False\<rparr> = (0, bs)"
    unfolding out_def by (rule decode_encode)
  ultimately show ?thesis
    by (auto simp: main_base64_def options_init_def)
qed

text \<open>C32. Wrapping at \<open>n\<close> columns is the unwrapped encoding cut into lines of
  exactly \<open>n\<close> characters, a shorter last line included, every line ended by a
  newline.\<close>

theorem base64_wrap_reference:
  assumes "0 < n"
  shows "encode \<lparr>content = bs, fails = False\<rparr> (int n) =
     (0, wrap_lines n (snd (encode \<lparr>content = bs, fails = False\<rparr> 0)))"
  using emit_lines [OF assms, of "plain_chars bs" "[]"] assms
  by (auto simp: encode_def encode_loop_fold emit_unwrapped split: prod.splits if_splits)

theorem base64_wrap_reference_witness:
  "encode \<lparr>content = [104, 105], fails = False\<rparr> 3 = (0, wrap_lines 3 (map of_char ''aGk=''))"
proof -
  have "snd (encode \<lparr>content = [104, 105], fails = False\<rparr> 0) = map of_char ''aGk=''"
    by code_simp
  then show ?thesis
    using base64_wrap_reference [of 3 "[104, 105]"] by simp
qed

text \<open>C33. \<open>decode\<close> reports an error exactly when a byte before the first \<open>=\<close> is
  neither in the alphabet nor white space.\<close>

theorem base64_decode_error_iff:
  "fst (decode \<lparr>content = bs, fails = False\<rparr>) =
     (if \<exists>b\<in>set (takeWhile (\<lambda>b. b \<noteq> asc CHR ''='') bs). b \<notin> set kAlphabet \<and> \<not> skip_byte b
      then -1 else 0)"
proof -
  have "isl (decode_loop bs d) \<longleftrightarrow>
      (\<exists>b\<in>set (takeWhile (\<lambda>b. b \<noteq> asc CHR ''='') bs). b \<notin> set kAlphabet \<and> \<not> skip_byte b)" for d
    by (induction bs arbitrary: d) (auto simp: Let_def reverse_negative_iff)
  from this [of decoder_init] show ?thesis
    by (auto simp: decode_def split: sum.splits)
qed

end
