(* ===== verification/Simple_Lock.thy ===== *)
theory Simple_Lock
  imports Cider_Prelude
begin

text \<open>
  The futex lock and condition variable of libsimple
  (\<open>src/src/darwin/libsimple/src/lock.c\<close>): any number of threads share one
  \<open>libsimple_lock_t\<close> word and one \<open>libsimple_condvar_t\<close> word.  Each C function
  is a relation with one rule per atomic action (one C11 atomic operation or
  one futex call), so every interleaving of the threads is a run of
  \<open>lock_step\<close>.  The futex calls follow their documentation: \<open>FUTEX_WAIT\<close>
  compares the word and sleeps in one action and may return early at any
  time, \<open>FUTEX_WAKE\<close> wakes a sleeper when there is one, \<open>FUTEX_REQUEUE\<close> wakes
  one and moves the others to the lock's word.

  Shown: mutual exclusion; no wake-up of the lock is lost, requeued condition
  variable waiters included; \<open>notify_all\<close> is never lost on a sleeping waiter;
  and a run in which one of two \<open>notify_one\<close> calls is lost.
\<close>

section \<open>State\<close>

definition libsimple_lock_state_unlocked :: u32 where
  "libsimple_lock_state_unlocked = 0"

definition libsimple_lock_state_locked_uncontended :: u32 where
  "libsimple_lock_state_locked_uncontended = 1"

definition libsimple_lock_state_locked_contended :: u32 where
  "libsimple_lock_state_locked_contended = 2"

definition libsimple_condvar_bit_need_to_wake_one :: u32 where
  "libsimple_condvar_bit_need_to_wake_one = push_bit 0 1"

definition libsimple_condvar_bit_need_to_wake_all :: u32 where
  "libsimple_condvar_bit_need_to_wake_all = push_bit 1 1"

definition libsimple_condvar_bit_increment :: u32 where
  "libsimple_condvar_bit_increment = push_bit 2 1"

lemmas lock_consts =
  libsimple_lock_state_unlocked_def libsimple_lock_state_locked_uncontended_def
  libsimple_lock_state_locked_contended_def

lemmas condvar_consts =
  libsimple_condvar_bit_need_to_wake_one_def libsimple_condvar_bit_need_to_wake_all_def
  libsimple_condvar_bit_increment_def

text \<open>\<open>cmpxchg_wrapper_u32\<close>: the new value of the word and the value returned.\<close>

definition cmpxchg_wrapper_u32 :: "u32 \<Rightarrow> u32 \<Rightarrow> u32 \<Rightarrow> u32 \<times> u32" where
  "cmpxchg_wrapper_u32 atom expected desired =
     (if atom = expected then (desired, expected) else (atom, atom))"

text \<open>Where a thread is.  \<open>Idle\<close> is outside the library without the lock, \<open>Held\<close>
  outside with it.  The flag of the notify positions tells whether the caller
  holds the lock; the continuation of \<open>Unlock_wake\<close> is where \<open>unlock\<close> returns
  to, the caller or \<open>libsimple_condvar_wait\<close>.\<close>

datatype cont = Return | CondWait u32

datatype pc =
    Idle
  | Held
  | Lock_loop u32
  | Lock_wait
  | Lock_sleep
  | Lock_retry
  | Slow_xchg
  | Slow_wait
  | Slow_sleep
  | Unlock_wake cont
  | Cond_unlock u32
  | Cond_wait u32
  | Cond_sleep
  | Notify1_and bool
  | Notify1_wake bool
  | Notify1_or bool
  | NotifyA_and bool
  | NotifyA_requeue bool

record lock_sys =
  lk :: u32
  cv :: u32
  pcs :: "nat \<Rightarrow> pc"

abbreviation goto :: "nat \<Rightarrow> pc \<Rightarrow> lock_sys \<Rightarrow> lock_sys" where
  "goto i p s \<equiv> s\<lparr>pcs := (pcs s)(i := p)\<rparr>"

definition resume :: "bool \<Rightarrow> pc" where
  "resume held = (if held then Held else Idle)"

definition return_to :: "cont \<Rightarrow> pc" where
  "return_to c = (case c of Return \<Rightarrow> Idle | CondWait v \<Rightarrow> Cond_wait v)"

section \<open>The functions\<close>

text \<open>\<open>libsimple_lock_lock\<close>: the first exchange; in the loop, the skip of the
  second exchange when the lock was seen contended, the wait, and the retry
  that ends the loop.\<close>

inductive libsimple_lock_lock :: "nat \<Rightarrow> lock_sys \<Rightarrow> lock_sys \<Rightarrow> bool" where
  lock_first:
    "pcs s i = Idle \<Longrightarrow>
     cmpxchg_wrapper_u32 (lk s) libsimple_lock_state_unlocked libsimple_lock_state_locked_uncontended = (w, prev) \<Longrightarrow>
     libsimple_lock_lock i s
       (goto i (if prev \<noteq> libsimple_lock_state_unlocked then Lock_loop prev else Held) (s\<lparr>lk := w\<rparr>))"
| lock_seen_contended:
    "pcs s i = Lock_loop prev \<Longrightarrow> prev = libsimple_lock_state_locked_contended \<Longrightarrow>
     libsimple_lock_lock i s (goto i Lock_wait s)"
| lock_mark_contended:
    "pcs s i = Lock_loop prev \<Longrightarrow> prev \<noteq> libsimple_lock_state_locked_contended \<Longrightarrow>
     cmpxchg_wrapper_u32 (lk s) libsimple_lock_state_locked_uncontended libsimple_lock_state_locked_contended = (w, r) \<Longrightarrow>
     libsimple_lock_lock i s
       (goto i (if r \<noteq> libsimple_lock_state_unlocked then Lock_wait else Lock_retry) (s\<lparr>lk := w\<rparr>))"
| lock_futex_sleep:
    "pcs s i = Lock_wait \<Longrightarrow> lk s = libsimple_lock_state_locked_contended \<Longrightarrow>
     libsimple_lock_lock i s (goto i Lock_sleep s)"
| lock_futex_again:
    "pcs s i = Lock_wait \<Longrightarrow> lk s \<noteq> libsimple_lock_state_locked_contended \<Longrightarrow>
     libsimple_lock_lock i s (goto i Lock_retry s)"
| lock_futex_spurious:
    "pcs s i = Lock_sleep \<Longrightarrow> libsimple_lock_lock i s (goto i Lock_retry s)"
| lock_retry:
    "pcs s i = Lock_retry \<Longrightarrow>
     cmpxchg_wrapper_u32 (lk s) libsimple_lock_state_unlocked libsimple_lock_state_locked_contended = (w, prev) \<Longrightarrow>
     libsimple_lock_lock i s
       (goto i (if prev \<noteq> libsimple_lock_state_unlocked then Lock_loop prev else Held) (s\<lparr>lk := w\<rparr>))"

text \<open>\<open>libsimple_lock_lock_slow\<close>, entered by waking condition variable waiters.\<close>

inductive libsimple_lock_lock_slow :: "nat \<Rightarrow> lock_sys \<Rightarrow> lock_sys \<Rightarrow> bool" where
  slow_exchange:
    "pcs s i = Slow_xchg \<Longrightarrow>
     libsimple_lock_lock_slow i s
       (goto i (if lk s \<noteq> libsimple_lock_state_unlocked then Slow_wait else Held)
         (s\<lparr>lk := libsimple_lock_state_locked_contended\<rparr>))"
| slow_futex_sleep:
    "pcs s i = Slow_wait \<Longrightarrow> lk s = libsimple_lock_state_locked_contended \<Longrightarrow>
     libsimple_lock_lock_slow i s (goto i Slow_sleep s)"
| slow_futex_again:
    "pcs s i = Slow_wait \<Longrightarrow> lk s \<noteq> libsimple_lock_state_locked_contended \<Longrightarrow>
     libsimple_lock_lock_slow i s (goto i Slow_xchg s)"
| slow_futex_spurious:
    "pcs s i = Slow_sleep \<Longrightarrow> libsimple_lock_lock_slow i s (goto i Slow_xchg s)"

text \<open>A thread asleep on the lock's word, and where it continues when woken.\<close>

definition woken_from_lock :: "pc \<Rightarrow> pc option" where
  "woken_from_lock p = (case p of Lock_sleep \<Rightarrow> Some Lock_retry | Slow_sleep \<Rightarrow> Some Slow_xchg | _ \<Rightarrow> None)"

text \<open>\<open>libsimple_lock_unlock\<close>, called by a holder or by \<open>libsimple_condvar_wait\<close>.\<close>

inductive libsimple_lock_unlock :: "nat \<Rightarrow> lock_sys \<Rightarrow> lock_sys \<Rightarrow> bool" where
  unlock_exchange:
    "pcs s i = Held \<and> c = Return \<or> pcs s i = Cond_unlock v \<and> c = CondWait v \<Longrightarrow>
     libsimple_lock_unlock i s
       (goto i (if lk s = libsimple_lock_state_locked_contended then Unlock_wake c else return_to c)
         (s\<lparr>lk := libsimple_lock_state_unlocked\<rparr>))"
| unlock_wake:
    "pcs s i = Unlock_wake c \<Longrightarrow> woken_from_lock (pcs s j) = Some p \<Longrightarrow>
     libsimple_lock_unlock i s (goto i (return_to c) (goto j p s))"
| unlock_wake_none:
    "pcs s i = Unlock_wake c \<Longrightarrow> (\<forall>j. woken_from_lock (pcs s j) = None) \<Longrightarrow>
     libsimple_lock_unlock i s (goto i (return_to c) s)"

text \<open>\<open>libsimple_lock_try_lock\<close>.\<close>

inductive libsimple_lock_try_lock :: "nat \<Rightarrow> lock_sys \<Rightarrow> lock_sys \<Rightarrow> bool" where
  try_lock:
    "pcs s i = Idle \<Longrightarrow>
     cmpxchg_wrapper_u32 (lk s) libsimple_lock_state_unlocked libsimple_lock_state_locked_uncontended = (w, prev) \<Longrightarrow>
     libsimple_lock_try_lock i s
       (goto i (if prev = libsimple_lock_state_unlocked then Held else Idle) (s\<lparr>lk := w\<rparr>))"

text \<open>\<open>libsimple_condvar_wait\<close>, called with the lock held.\<close>

definition need_to_wake_bits :: u32 where
  "need_to_wake_bits =
     libsimple_condvar_bit_need_to_wake_all OR libsimple_condvar_bit_need_to_wake_one"

inductive libsimple_condvar_wait :: "nat \<Rightarrow> lock_sys \<Rightarrow> lock_sys \<Rightarrow> bool" where
  cond_fetch_or:
    "pcs s i = Held \<Longrightarrow>
     libsimple_condvar_wait i s
       (goto i (Cond_unlock (cv s OR need_to_wake_bits)) (s\<lparr>cv := cv s OR need_to_wake_bits\<rparr>))"
| cond_futex_sleep:
    "pcs s i = Cond_wait v \<Longrightarrow> cv s = v \<Longrightarrow> libsimple_condvar_wait i s (goto i Cond_sleep s)"
| cond_futex_again:
    "pcs s i = Cond_wait v \<Longrightarrow> cv s \<noteq> v \<Longrightarrow> libsimple_condvar_wait i s (goto i Slow_xchg s)"
| cond_futex_spurious:
    "pcs s i = Cond_sleep \<Longrightarrow> libsimple_condvar_wait i s (goto i Slow_xchg s)"

text \<open>\<open>libsimple_condvar_notify_one\<close>, called with or without the lock.\<close>

inductive libsimple_condvar_notify_one :: "nat \<Rightarrow> lock_sys \<Rightarrow> lock_sys \<Rightarrow> bool" where
  notify1_add:
    "pcs s i = resume h \<Longrightarrow> w = cv s + libsimple_condvar_bit_increment \<Longrightarrow>
     libsimple_condvar_notify_one i s
       (goto i (if w AND libsimple_condvar_bit_need_to_wake_one = 0 then resume h else Notify1_and h)
         (s\<lparr>cv := w\<rparr>))"
| notify1_and:
    "pcs s i = Notify1_and h \<Longrightarrow>
     libsimple_condvar_notify_one i s
       (goto i (if cv s AND libsimple_condvar_bit_need_to_wake_one = 0 then resume h else Notify1_wake h)
         (s\<lparr>cv := cv s AND NOT libsimple_condvar_bit_need_to_wake_one\<rparr>))"
| notify1_wake:
    "pcs s i = Notify1_wake h \<Longrightarrow> pcs s j = Cond_sleep \<Longrightarrow>
     libsimple_condvar_notify_one i s (goto i (Notify1_or h) (goto j Slow_xchg s))"
| notify1_wake_none:
    "pcs s i = Notify1_wake h \<Longrightarrow> (\<forall>j. pcs s j \<noteq> Cond_sleep) \<Longrightarrow>
     libsimple_condvar_notify_one i s (goto i (resume h) s)"
| notify1_or:
    "pcs s i = Notify1_or h \<Longrightarrow>
     libsimple_condvar_notify_one i s
       (goto i (resume h) (s\<lparr>cv := cv s OR libsimple_condvar_bit_need_to_wake_one\<rparr>))"

text \<open>\<open>libsimple_condvar_notify_all\<close>: \<open>FUTEX_REQUEUE\<close> wakes one sleeper and moves
  all others to the lock's word, where they sleep like slow lockers.\<close>

definition requeue :: "nat \<Rightarrow> (nat \<Rightarrow> pc) \<Rightarrow> nat \<Rightarrow> pc" where
  "requeue j ps k = (if k = j then Slow_xchg else if ps k = Cond_sleep then Slow_sleep else ps k)"

inductive libsimple_condvar_notify_all :: "nat \<Rightarrow> lock_sys \<Rightarrow> lock_sys \<Rightarrow> bool" where
  notifyA_add:
    "pcs s i = resume h \<Longrightarrow> w = cv s + libsimple_condvar_bit_increment \<Longrightarrow>
     libsimple_condvar_notify_all i s
       (goto i (if w AND libsimple_condvar_bit_need_to_wake_all = 0 then resume h else NotifyA_and h)
         (s\<lparr>cv := w\<rparr>))"
| notifyA_and:
    "pcs s i = NotifyA_and h \<Longrightarrow>
     libsimple_condvar_notify_all i s
       (goto i (NotifyA_requeue h) (s\<lparr>cv := cv s AND NOT need_to_wake_bits\<rparr>))"
| notifyA_requeue:
    "pcs s i = NotifyA_requeue h \<Longrightarrow> pcs s j = Cond_sleep \<Longrightarrow>
     libsimple_condvar_notify_all i s (goto i (resume h) (s\<lparr>pcs := requeue j (pcs s)\<rparr>))"
| notifyA_requeue_none:
    "pcs s i = NotifyA_requeue h \<Longrightarrow> (\<forall>j. pcs s j \<noteq> Cond_sleep) \<Longrightarrow>
     libsimple_condvar_notify_all i s (goto i (resume h) s)"

definition lock_thread :: "nat \<Rightarrow> lock_sys \<Rightarrow> lock_sys \<Rightarrow> bool" where
  "lock_thread i s t \<longleftrightarrow>
     libsimple_lock_lock i s t \<or> libsimple_lock_lock_slow i s t \<or> libsimple_lock_unlock i s t \<or>
     libsimple_lock_try_lock i s t \<or> libsimple_condvar_wait i s t \<or>
     libsimple_condvar_notify_one i s t \<or> libsimple_condvar_notify_all i s t"

definition lock_step :: "lock_sys \<Rightarrow> lock_sys \<Rightarrow> bool" where
  "lock_step s t \<longleftrightarrow> (\<exists>i. lock_thread i s t)"

text \<open>\<open>LIBSIMPLE_LOCK_INITIALIZER\<close> and \<open>LIBSIMPLE_CONDVAR_INITIALIZER\<close> are zero words.\<close>

definition lock_init :: "lock_sys \<Rightarrow> bool" where
  "lock_init s \<longleftrightarrow> lk s = 0 \<and> cv s = 0 \<and> (\<forall>i. pcs s i = Idle)"

section \<open>Mutual exclusion\<close>

fun holding :: "pc \<Rightarrow> bool" where
  "holding Held = True"
| "holding (Cond_unlock v) = True"
| "holding (Notify1_and h) = h"
| "holding (Notify1_wake h) = h"
| "holding (Notify1_or h) = h"
| "holding (NotifyA_and h) = h"
| "holding (NotifyA_requeue h) = h"
| "holding _ = False"

definition holders :: "(nat \<Rightarrow> pc) \<Rightarrow> nat set" where
  "holders ps = {j. holding (ps j)}"

lemma mem_holders [simp]: "j \<in> holders ps \<longleftrightarrow> holding (ps j)"
  by (simp add: holders_def)

lemma holders_upd [simp]:
  "holders (ps(i := p)) = (if holding p then insert i (holders ps) else holders ps - {i})"
  by (auto split: if_splits)

lemma holders_same: "\<not> holding (ps i) \<Longrightarrow> holders ps - {i} = holders ps"
  "holding (ps i) \<Longrightarrow> insert i (holders ps) = holders ps"
  by auto

lemma holders_requeue: "ps j = Cond_sleep \<Longrightarrow> holders (requeue j ps) = holders ps"
  by (auto simp: requeue_def split: if_splits)

lemma holders_eqD: "holders ps = S \<Longrightarrow> ps i = p \<Longrightarrow> holding p \<Longrightarrow> i \<in> S"
  by auto

lemma holders_singleI: "holders ps = {x} \<Longrightarrow> holding (ps i) \<Longrightarrow> x = i"
  by auto

text \<open>The word says whether the lock is held, and a held lock has one holder.\<close>

definition mutex_inv :: "lock_sys \<Rightarrow> bool" where
  "mutex_inv s \<longleftrightarrow> lk s \<in> {0, 1, 2} \<and>
     (if lk s = 0 then holders (pcs s) = {} else \<exists>i. holders (pcs s) = {i})"

lemma holding_resume [simp]: "holding (resume h) = h"
  by (simp add: resume_def)

lemma holding_return_to [simp]: "\<not> holding (return_to c)"
  by (simp add: return_to_def split: cont.split)

lemma woken_not_holding: "woken_from_lock p = Some q \<Longrightarrow> \<not> holding p \<and> \<not> holding q"
  by (auto simp: woken_from_lock_def split: pc.splits)

lemmas mutex_simps = mutex_inv_def cmpxchg_wrapper_u32_def lock_consts holders_same holders_requeue

lemma lock_mutex: "libsimple_lock_lock i s t \<Longrightarrow> mutex_inv s \<Longrightarrow> mutex_inv t"
  by (induction rule: libsimple_lock_lock.induct;
      auto simp: mutex_simps dest: holders_eqD split: if_splits; force intro: holders_singleI)

lemma slow_mutex: "libsimple_lock_lock_slow i s t \<Longrightarrow> mutex_inv s \<Longrightarrow> mutex_inv t"
  by (induction rule: libsimple_lock_lock_slow.induct;
      auto simp: mutex_simps dest: holders_eqD split: if_splits; force intro: holders_singleI)

lemma try_lock_mutex: "libsimple_lock_try_lock i s t \<Longrightarrow> mutex_inv s \<Longrightarrow> mutex_inv t"
  by (induction rule: libsimple_lock_try_lock.induct;
      auto simp: mutex_simps dest: holders_eqD split: if_splits; force intro: holders_singleI)

lemma unlock_mutex: "libsimple_lock_unlock i s t \<Longrightarrow> mutex_inv s \<Longrightarrow> mutex_inv t"
  by (induction rule: libsimple_lock_unlock.induct;
      auto simp: mutex_simps woken_not_holding dest: holders_eqD split: if_splits; force intro: holders_singleI)

lemma wait_mutex: "libsimple_condvar_wait i s t \<Longrightarrow> mutex_inv s \<Longrightarrow> mutex_inv t"
  by (induction rule: libsimple_condvar_wait.induct;
      auto simp: mutex_simps dest: holders_eqD split: if_splits; force intro: holders_singleI)

lemma notify_one_mutex: "libsimple_condvar_notify_one i s t \<Longrightarrow> mutex_inv s \<Longrightarrow> mutex_inv t"
  by (induction rule: libsimple_condvar_notify_one.induct;
      auto simp: mutex_simps dest: holders_eqD split: if_splits; force intro: holders_singleI)

lemma notify_all_mutex: "libsimple_condvar_notify_all i s t \<Longrightarrow> mutex_inv s \<Longrightarrow> mutex_inv t"
  by (induction rule: libsimple_condvar_notify_all.induct;
      auto simp: mutex_simps dest: holders_eqD split: if_splits; force intro: holders_singleI)

lemmas function_mutex =
  lock_mutex slow_mutex try_lock_mutex unlock_mutex wait_mutex notify_one_mutex notify_all_mutex

lemma lock_step_mutex: "lock_step s t \<Longrightarrow> mutex_inv s \<Longrightarrow> mutex_inv t"
  by (auto simp: lock_step_def lock_thread_def intro: function_mutex)

lemma lock_init_mutex: "lock_init s \<Longrightarrow> mutex_inv s"
  by (auto simp: lock_init_def mutex_inv_def)

interpretation mutex: inductive_system lock_init lock_step mutex_inv
  by unfold_locales (auto intro: lock_init_mutex lock_step_mutex)

section \<open>No wake-up is lost\<close>

text \<open>Threads asleep on the lock's word, threads that are still in the locking
  loops and will look at the word again, and threads about to wake somebody.\<close>

fun asleep :: "pc \<Rightarrow> bool" where
  "asleep Lock_sleep = True"
| "asleep Slow_sleep = True"
| "asleep _ = False"

fun contending :: "pc \<Rightarrow> bool" where
  "contending (Lock_loop v) = True"
| "contending Lock_wait = True"
| "contending Lock_retry = True"
| "contending Slow_xchg = True"
| "contending Slow_wait = True"
| "contending (Unlock_wake c) = True"
| "contending _ = False"

definition wake_inv :: "lock_sys \<Rightarrow> bool" where
  "wake_inv s \<longleftrightarrow> (\<exists>i. asleep (pcs s i)) \<longrightarrow> lk s = 2 \<or> (\<exists>i. contending (pcs s i))"

lemma asleep_woken: "asleep p \<longleftrightarrow> woken_from_lock p \<noteq> None"
  by (cases p) (auto simp: woken_from_lock_def)

lemma contending_woken: "woken_from_lock p = Some q \<Longrightarrow> contending q"
  by (auto simp: woken_from_lock_def split: pc.splits)

lemma asleep_resume [simp]: "\<not> asleep (resume h)" "\<not> contending (resume h)"
  by (auto simp: resume_def)

lemma asleep_return_to [simp]: "\<not> asleep (return_to c)" "\<not> contending (return_to c)"
  by (auto simp: return_to_def split: cont.split)

text \<open>A step that leaves somebody contending keeps the invariant; so does one that
  removes no contender and puts nobody to sleep.\<close>

lemma wake_contending: "contending (pcs t i) \<Longrightarrow> wake_inv t"
  by (auto simp: wake_inv_def)

lemma wake_frame:
  assumes "wake_inv s" and "\<And>j. asleep (pcs t j) \<Longrightarrow> asleep (pcs s j)"
    and "\<And>j. contending (pcs s j) \<Longrightarrow> contending (pcs t j)" and "lk s = 2 \<Longrightarrow> lk t = 2"
  shows "wake_inv t"
  using assms unfolding wake_inv_def by blast

lemma wake_word: "lk t = 2 \<Longrightarrow> wake_inv t"
  by (simp add: wake_inv_def)

lemma wake_nobody: "(\<And>j. \<not> asleep (pcs t j)) \<Longrightarrow> wake_inv t"
  by (simp add: wake_inv_def)

lemmas wake_intros = wake_contending wake_word wake_nobody

lemma lock_wake: "libsimple_lock_lock i s t \<Longrightarrow> wake_inv s \<Longrightarrow> wake_inv t"
proof (induction rule: libsimple_lock_lock.induct)
  case (lock_first s i w prev)
  then show ?case
    by (cases "lk s = 0")
      (auto simp: cmpxchg_wrapper_u32_def lock_consts intro: wake_contending [where i = i]
        elim!: wake_frame split: if_splits)
qed (auto simp: cmpxchg_wrapper_u32_def lock_consts intro: wake_intros split: if_splits)

lemma slow_wake: "libsimple_lock_lock_slow i s t \<Longrightarrow> wake_inv s \<Longrightarrow> wake_inv t"
  by (induction rule: libsimple_lock_lock_slow.induct) (auto simp: lock_consts intro: wake_intros)

lemma try_lock_wake: "libsimple_lock_try_lock i s t \<Longrightarrow> wake_inv s \<Longrightarrow> wake_inv t"
  by (induction rule: libsimple_lock_try_lock.induct)
    (auto simp: cmpxchg_wrapper_u32_def lock_consts elim!: wake_frame split: if_splits)

lemma unlock_wake_inv: "libsimple_lock_unlock i s t \<Longrightarrow> wake_inv s \<Longrightarrow> wake_inv t"
proof (induction rule: libsimple_lock_unlock.induct)
  case (unlock_exchange s i c v)
  show ?case
  proof (cases "lk s = 2")
    case True
    then show ?thesis
      by (intro wake_contending [where i = i]) (simp add: lock_consts)
  next
    case False
    with unlock_exchange show ?thesis
      by (auto simp: lock_consts elim!: wake_frame split: if_splits)
  qed
next
  case (unlock_wake s i c j p)
  then have "j \<noteq> i" by (auto simp: woken_from_lock_def)
  with unlock_wake show ?case
    by (intro wake_contending [where i = j]) (simp add: contending_woken)
next
  case (unlock_wake_none s i c)
  then have "\<not> asleep (pcs s j)" for j by (simp add: asleep_woken)
  then show ?case by (intro wake_nobody) simp
qed

lemma wait_wake: "libsimple_condvar_wait i s t \<Longrightarrow> wake_inv s \<Longrightarrow> wake_inv t"
proof (induction rule: libsimple_condvar_wait.induct)
  case (cond_fetch_or s i)
  then show ?case by (auto elim!: wake_frame split: if_splits)
next
  case (cond_futex_sleep s i v)
  then show ?case by (auto elim!: wake_frame split: if_splits)
qed (auto intro: wake_intros)

lemma notify_one_wake: "libsimple_condvar_notify_one i s t \<Longrightarrow> wake_inv s \<Longrightarrow> wake_inv t"
proof (induction rule: libsimple_condvar_notify_one.induct)
  case (notify1_wake s i h j)
  then show ?case
    by (intro wake_contending [where i = j]) auto
qed (auto elim!: wake_frame split: if_splits)

lemma notify_all_wake: "libsimple_condvar_notify_all i s t \<Longrightarrow> wake_inv s \<Longrightarrow> wake_inv t"
proof (induction rule: libsimple_condvar_notify_all.induct)
  case (notifyA_requeue s i h j)
  then show ?case
    by (intro wake_contending [where i = j]) (auto simp: requeue_def)
qed (auto elim!: wake_frame split: if_splits)

lemmas function_wake =
  lock_wake slow_wake try_lock_wake unlock_wake_inv wait_wake notify_one_wake notify_all_wake

lemma lock_step_wake: "lock_step s t \<Longrightarrow> wake_inv s \<Longrightarrow> wake_inv t"
  by (auto simp: lock_step_def lock_thread_def intro: function_wake)

lemma lock_init_wake: "lock_init s \<Longrightarrow> wake_inv s"
  by (simp add: lock_init_def wake_inv_def)

interpretation lock_wakes: inductive_system lock_init lock_step wake_inv
  by unfold_locales (fact lock_init_wake, fact lock_step_wake)

section \<open>Condition variable signals\<close>

text \<open>A thread asleep on the condition variable keeps its bit set until a
  \<open>notify_all\<close> that cleared the bit has requeued it; a thread that is about to
  sleep expects a word with both bits set.\<close>

definition wake_all_set :: "u32 \<Rightarrow> bool" where
  "wake_all_set w \<longleftrightarrow> w AND libsimple_condvar_bit_need_to_wake_all \<noteq> 0"

fun expects :: "pc \<Rightarrow> u32 option" where
  "expects (Cond_unlock v) = Some v"
| "expects (Unlock_wake (CondWait v)) = Some v"
| "expects (Cond_wait v) = Some v"
| "expects _ = None"

definition cond_inv :: "lock_sys \<Rightarrow> bool" where
  "cond_inv s \<longleftrightarrow>
     ((\<exists>i. pcs s i = Cond_sleep) \<longrightarrow> wake_all_set (cv s) \<or> (\<exists>i h. pcs s i = NotifyA_requeue h)) \<and>
     (\<forall>i v. expects (pcs s i) = Some v \<longrightarrow> wake_all_set v)"

lemma wake_all_set_bit: "wake_all_set w \<longleftrightarrow> bit w 1"
  using and_exp_eq_0_iff_not_bit [of w 1] by (simp add: wake_all_set_def condvar_consts)

lemma wake_all_set_unat: "wake_all_set w \<longleftrightarrow> 2 \<le> unat w mod 4"
proof -
  have "bit w 1 \<longleftrightarrow> bit (unat w) 1" by (simp add: bit_unsigned_iff)
  also have "\<dots> \<longleftrightarrow> 2 \<le> unat w mod 4" unfolding bit_iff_odd by simp presburger
  finally show ?thesis by (simp add: wake_all_set_bit)
qed

lemma wake_all_set_add [simp]: "wake_all_set (w + libsimple_condvar_bit_increment) \<longleftrightarrow> wake_all_set w"
proof -
  have "unat (w + 4) mod 4 = unat w mod 4"
    by (simp add: unat_word_ariths(1) mod_mod_cancel)
  then show ?thesis by (simp add: wake_all_set_unat condvar_consts)
qed

lemma wake_all_set_simps [simp]:
  "wake_all_set (w OR need_to_wake_bits)"
  "wake_all_set (w AND NOT libsimple_condvar_bit_need_to_wake_one) \<longleftrightarrow> wake_all_set w"
  "wake_all_set (w OR libsimple_condvar_bit_need_to_wake_one) \<longleftrightarrow> wake_all_set w"
  by (simp_all add: wake_all_set_bit need_to_wake_bits_def condvar_consts bit_simps)

lemma resume_simps [simp]: "resume h \<noteq> Cond_sleep" "resume h \<noteq> NotifyA_requeue h'"
  "NotifyA_requeue h' \<noteq> resume h" "expects (resume h) = None"
  by (auto simp: resume_def)

lemma return_to_cond [simp]: "return_to c \<noteq> Cond_sleep" "return_to c \<noteq> NotifyA_requeue h'"
  "expects (return_to c) = expects (Unlock_wake c)"
  by (auto simp: return_to_def split: cont.split)

lemma woken_cond:
  "woken_from_lock p = Some q \<Longrightarrow> p = Lock_sleep \<and> q = Lock_retry \<or> p = Slow_sleep \<and> q = Slow_xchg"
  by (auto simp: woken_from_lock_def split: pc.splits)

lemma cond_frame:
  assumes "cond_inv s" and "\<And>j. pcs t j = Cond_sleep \<Longrightarrow> pcs s j = Cond_sleep"
    and "\<And>j h. pcs s j = NotifyA_requeue h \<Longrightarrow> pcs t j = NotifyA_requeue h"
    and "wake_all_set (cv s) \<Longrightarrow> wake_all_set (cv t)"
    and "\<And>j v. expects (pcs t j) = Some v \<Longrightarrow> expects (pcs s j) = Some v \<or> wake_all_set v"
  shows "cond_inv t"
  using assms unfolding cond_inv_def by blast

lemma cond_no_sleeper:
  assumes "\<And>j. pcs t j \<noteq> Cond_sleep" and "\<And>j v. expects (pcs t j) = Some v \<Longrightarrow> wake_all_set v"
  shows "cond_inv t"
  using assms unfolding cond_inv_def by blast

lemma lock_cond: "libsimple_lock_lock i s t \<Longrightarrow> cond_inv s \<Longrightarrow> cond_inv t"
  by (induction rule: libsimple_lock_lock.induct; erule cond_frame; auto split: if_splits)

lemma slow_cond: "libsimple_lock_lock_slow i s t \<Longrightarrow> cond_inv s \<Longrightarrow> cond_inv t"
  by (induction rule: libsimple_lock_lock_slow.induct; erule cond_frame; auto split: if_splits)

lemma try_lock_cond: "libsimple_lock_try_lock i s t \<Longrightarrow> cond_inv s \<Longrightarrow> cond_inv t"
  by (induction rule: libsimple_lock_try_lock.induct; erule cond_frame; auto split: if_splits)

lemma unlock_cond: "libsimple_lock_unlock i s t \<Longrightarrow> cond_inv s \<Longrightarrow> cond_inv t"
  by (induction rule: libsimple_lock_unlock.induct; erule cond_frame;
      auto dest!: woken_cond split: if_splits)

lemma wait_cond: "libsimple_condvar_wait i s t \<Longrightarrow> cond_inv s \<Longrightarrow> cond_inv t"
proof (induction rule: libsimple_condvar_wait.induct)
  case (cond_futex_sleep s i v)
  then have "expects (pcs s i) = Some (cv s)" by simp
  with cond_futex_sleep have "wake_all_set (cv s)" unfolding cond_inv_def by blast
  with cond_futex_sleep show ?case
    unfolding cond_inv_def by (auto split: if_splits)
qed (erule cond_frame; auto split: if_splits)+

lemma notify_one_cond: "libsimple_condvar_notify_one i s t \<Longrightarrow> cond_inv s \<Longrightarrow> cond_inv t"
  by (induction rule: libsimple_condvar_notify_one.induct; erule cond_frame; auto split: if_splits)

lemma notify_all_cond: "libsimple_condvar_notify_all i s t \<Longrightarrow> cond_inv s \<Longrightarrow> cond_inv t"
proof (induction rule: libsimple_condvar_notify_all.induct)
  case (notifyA_add s i h w)
  then show ?case by - (erule cond_frame; auto split: if_splits)
next
  case (notifyA_and s i h)
  then show ?case
    unfolding cond_inv_def by (auto split: if_splits)
next
  case (notifyA_requeue s i h j)
  then show ?case
    by (intro cond_no_sleeper) (auto simp: requeue_def cond_inv_def split: if_splits)
next
  case (notifyA_requeue_none s i h)
  then show ?case
    by (intro cond_no_sleeper) (auto simp: cond_inv_def split: if_splits)
qed

lemmas function_cond =
  lock_cond slow_cond try_lock_cond unlock_cond wait_cond notify_one_cond notify_all_cond

lemma lock_step_cond: "lock_step s t \<Longrightarrow> cond_inv s \<Longrightarrow> cond_inv t"
  by (auto simp: lock_step_def lock_thread_def intro: function_cond)

lemma lock_init_cond: "lock_init s \<Longrightarrow> cond_inv s"
  by (simp add: lock_init_def cond_inv_def)

interpretation cond_bits: inductive_system lock_init lock_step cond_inv
  by unfold_locales (fact lock_init_cond, fact lock_step_cond)

section \<open>Properties\<close>

text \<open>C16. Mutual exclusion: in every interleaving of any number of threads that
  lock, try to lock, unlock, wait on and notify the condition variable, at most
  one thread is between a successful lock and its unlock.\<close>

theorem libsimple_lock_mutual_exclusion:
  assumes "lock_init s0" and "lock_step\<^sup>*\<^sup>* s0 s"
    and "holding (pcs s i)" and "holding (pcs s j)"
  shows "i = j"
proof -
  have "mutex_inv s" using assms(1,2) by (rule mutex.reachable_invar)
  then have "holders (pcs s) = {} \<or> (\<exists>k. holders (pcs s) = {k})"
    by (auto simp: mutex_inv_def split: if_splits)
  with assms(3,4) show ?thesis by (metis emptyE mem_holders singletonD)
qed

definition idle_sys :: lock_sys where
  "idle_sys = \<lparr>lk = 0, cv = 0, pcs = (\<lambda>_. Idle)\<rparr>"

lemma idle_sys_init [simp]: "lock_init idle_sys"
  by (simp add: lock_init_def idle_sys_def)

definition four :: "u32 \<Rightarrow> u32 \<Rightarrow> pc \<Rightarrow> pc \<Rightarrow> pc \<Rightarrow> pc \<Rightarrow> lock_sys" where
  "four l c p0 p1 p2 p3 = \<lparr>lk = l, cv = c,
     pcs = (\<lambda>k. if k = 0 then p0 else if k = 1 then p1 else if k = 2 then p2 else if k = 3 then p3 else Idle)\<rparr>"

lemma four_idle: "idle_sys = four 0 0 Idle Idle Idle Idle"
  by (simp add: idle_sys_def four_def fun_eq_iff)

lemma four_goto [simp]:
  "goto 0 q (four l c p0 p1 p2 p3) = four l c q p1 p2 p3"
  "goto (Suc 0) q (four l c p0 p1 p2 p3) = four l c p0 q p2 p3"
  "goto 2 q (four l c p0 p1 p2 p3) = four l c p0 p1 q p3"
  "goto 3 q (four l c p0 p1 p2 p3) = four l c p0 p1 p2 q"
  by (simp_all add: four_def fun_eq_iff)

lemma four_sel [simp]:
  "lk (four l c p0 p1 p2 p3) = l" "cv (four l c p0 p1 p2 p3) = c"
  "four l c p0 p1 p2 p3\<lparr>lk := l'\<rparr> = four l' c p0 p1 p2 p3"
  "four l c p0 p1 p2 p3\<lparr>cv := c'\<rparr> = four l c' p0 p1 p2 p3"
  "pcs (four l c p0 p1 p2 p3) 0 = p0" "pcs (four l c p0 p1 p2 p3) (Suc 0) = p1"
  "pcs (four l c p0 p1 p2 p3) 2 = p2" "pcs (four l c p0 p1 p2 p3) 3 = p3"
  by (simp_all add: four_def)

lemmas trace_simps = lock_consts condvar_consts need_to_wake_bits_def cmpxchg_wrapper_u32_def
  return_to_def resume_def woken_from_lock_def

lemma trace_wait0: "lock_step\<^sup>*\<^sup>* (four 0 0 Idle Idle Idle Idle) (four 0 3 Cond_sleep Idle Idle Idle)"
proof -
  have "lock_step (four 0 0 Idle Idle Idle Idle) (four 1 0 Held Idle Idle Idle)"
    using lock_first [of "four 0 0 Idle Idle Idle Idle" 0 1 0]
    by (simp add: lock_step_def lock_thread_def trace_simps) blast
  moreover have "lock_step (four 1 0 Held Idle Idle Idle) (four 1 3 (Cond_unlock 3) Idle Idle Idle)"
    using cond_fetch_or [of "four 1 0 Held Idle Idle Idle" 0]
    by (simp add: lock_step_def lock_thread_def trace_simps) blast
  moreover have "lock_step (four 1 3 (Cond_unlock 3) Idle Idle Idle) (four 0 3 (Cond_wait 3) Idle Idle Idle)"
    using unlock_exchange [of "four 1 3 (Cond_unlock 3) Idle Idle Idle" 0 "CondWait 3" 3]
    by (simp add: lock_step_def lock_thread_def trace_simps) blast
  moreover have "lock_step (four 0 3 (Cond_wait 3) Idle Idle Idle) (four 0 3 Cond_sleep Idle Idle Idle)"
    using cond_futex_sleep [of "four 0 3 (Cond_wait 3) Idle Idle Idle" 0 3]
    by (simp add: lock_step_def lock_thread_def trace_simps) blast
  ultimately show ?thesis by (meson converse_rtranclp_into_rtranclp rtranclp.rtrancl_refl)
qed

lemma trace_wait1: "lock_step\<^sup>*\<^sup>* (four 0 3 Cond_sleep Idle Idle Idle) (four 0 3 Cond_sleep Cond_sleep Idle Idle)"
proof -
  have "lock_step (four 0 3 Cond_sleep Idle Idle Idle) (four 1 3 Cond_sleep Held Idle Idle)"
    using lock_first [of "four 0 3 Cond_sleep Idle Idle Idle" 1 1 0]
    by (simp add: lock_step_def lock_thread_def trace_simps) blast
  moreover have "lock_step (four 1 3 Cond_sleep Held Idle Idle) (four 1 3 Cond_sleep (Cond_unlock 3) Idle Idle)"
    using cond_fetch_or [of "four 1 3 Cond_sleep Held Idle Idle" 1]
    by (simp add: lock_step_def lock_thread_def trace_simps) blast
  moreover have "lock_step (four 1 3 Cond_sleep (Cond_unlock 3) Idle Idle) (four 0 3 Cond_sleep (Cond_wait 3) Idle Idle)"
    using unlock_exchange [of "four 1 3 Cond_sleep (Cond_unlock 3) Idle Idle" 1 "CondWait 3" 3]
    by (simp add: lock_step_def lock_thread_def trace_simps) blast
  moreover have "lock_step (four 0 3 Cond_sleep (Cond_wait 3) Idle Idle) (four 0 3 Cond_sleep Cond_sleep Idle Idle)"
    using cond_futex_sleep [of "four 0 3 Cond_sleep (Cond_wait 3) Idle Idle" 1 3]
    by (simp add: lock_step_def lock_thread_def trace_simps) blast
  ultimately show ?thesis by (meson converse_rtranclp_into_rtranclp rtranclp.rtrancl_refl)
qed

lemma trace_waiting: "lock_step\<^sup>*\<^sup>* idle_sys (four 0 3 Cond_sleep Cond_sleep Idle Idle)"
  using trace_wait0 trace_wait1 by (simp add: four_idle)

definition notify_one_of :: "nat set \<Rightarrow> lock_sys \<Rightarrow> lock_sys \<Rightarrow> bool" where
  "notify_one_of I s t \<longleftrightarrow> (\<exists>i\<in>I. libsimple_condvar_notify_one i s t)"

lemma trace_notify_lost: "(notify_one_of {2, 3})\<^sup>*\<^sup>* (four 0 3 Cond_sleep Cond_sleep Idle Idle) (four 0 11 Slow_xchg Cond_sleep Idle Idle)"
proof -
  have "notify_one_of {2, 3} (four 0 3 Cond_sleep Cond_sleep Idle Idle) (four 0 7 Cond_sleep Cond_sleep (Notify1_and False) Idle)"
    using notify1_add [of "four 0 3 Cond_sleep Cond_sleep Idle Idle" 2 False 7] by (auto simp: notify_one_of_def trace_simps)
  moreover have "notify_one_of {2, 3} (four 0 7 Cond_sleep Cond_sleep (Notify1_and False) Idle) (four 0 6 Cond_sleep Cond_sleep (Notify1_wake False) Idle)"
    using notify1_and [of "four 0 7 Cond_sleep Cond_sleep (Notify1_and False) Idle" 2 False] by (auto simp: notify_one_of_def trace_simps)
  moreover have "notify_one_of {2, 3} (four 0 6 Cond_sleep Cond_sleep (Notify1_wake False) Idle) (four 0 10 Cond_sleep Cond_sleep (Notify1_wake False) Idle)"
    using notify1_add [of "four 0 6 Cond_sleep Cond_sleep (Notify1_wake False) Idle" 3 False 10] by (auto simp: notify_one_of_def trace_simps)
  moreover have "notify_one_of {2, 3} (four 0 10 Cond_sleep Cond_sleep (Notify1_wake False) Idle) (four 0 10 Slow_xchg Cond_sleep (Notify1_or False) Idle)"
    using notify1_wake [of "four 0 10 Cond_sleep Cond_sleep (Notify1_wake False) Idle" 2 False 0] by (auto simp: notify_one_of_def trace_simps)
  moreover have "notify_one_of {2, 3} (four 0 10 Slow_xchg Cond_sleep (Notify1_or False) Idle) (four 0 11 Slow_xchg Cond_sleep Idle Idle)"
    using notify1_or [of "four 0 10 Slow_xchg Cond_sleep (Notify1_or False) Idle" 2 False] by (auto simp: notify_one_of_def trace_simps)
  ultimately show ?thesis by (meson converse_rtranclp_into_rtranclp rtranclp.rtrancl_refl)
qed

text \<open>C37. Two complete \<open>libsimple_condvar_notify_one\<close> calls of threads 2 and 3 can
  wake one waiter only: while the first caller has the wake-one bit cleared,
  the second returns early although thread 1 is asleep and stays so.  Threads 0
  and 1 both sleep when the calls start, both calls have returned (the counter
  above the two flag bits has advanced by two) and thread 1 still sleeps.\<close>

theorem libsimple_notify_one_lost:
  "\<exists>s t. lock_step\<^sup>*\<^sup>* idle_sys s \<and> (notify_one_of {2, 3})\<^sup>*\<^sup>* s t \<and>
     pcs s 0 = Cond_sleep \<and> pcs s 1 = Cond_sleep \<and> pcs s 2 = Idle \<and> pcs s 3 = Idle \<and>
     pcs t 2 = Idle \<and> pcs t 3 = Idle \<and> cv t = cv s + 2 * libsimple_condvar_bit_increment \<and>
     pcs t 1 = Cond_sleep"
  by (rule exI [of _ "four 0 3 Cond_sleep Cond_sleep Idle Idle"], rule exI [of _ "four 0 11 Slow_xchg Cond_sleep Idle Idle"])
    (simp add: trace_waiting trace_notify_lost condvar_consts)

theorem libsimple_lock_mutual_exclusion_witness:
  "holding (pcs (four 1 0 Held Idle Idle Idle) 0) \<and> (0::nat) = 0"
proof -
  have "lock_step idle_sys (four 1 0 Held Idle Idle Idle)"
    using lock_first [of "four 0 0 Idle Idle Idle Idle" 0 1 0]
    by (simp add: four_idle lock_step_def lock_thread_def trace_simps) blast
  then show ?thesis
    using libsimple_lock_mutual_exclusion [of idle_sys "four 1 0 Held Idle Idle Idle" 0 0] by simp
qed

text \<open>C17. No unlock is lost: a thread asleep on the lock's word, a waiter that
  \<open>notify_all\<close> requeued included, is there only while the lock is held with the
  contended mark, so that its unlock wakes a sleeper, or while another thread is
  still inside the locking loops or about to issue the wake-up.\<close>

theorem libsimple_lock_no_lost_wakeup:
  assumes "lock_init s0" and "lock_step\<^sup>*\<^sup>* s0 s" and "asleep (pcs s i)"
  shows "(lk s = libsimple_lock_state_locked_contended \<and> (\<exists>j. holding (pcs s j))) \<or>
    (\<exists>j. contending (pcs s j))"
proof -
  have "mutex_inv s" using assms(1,2) by (rule mutex.reachable_invar)
  then have "lk s = 2 \<Longrightarrow> \<exists>j. holding (pcs s j)"
    by (auto simp: mutex_inv_def holders_def)
  moreover have "wake_inv s" using assms(1,2) by (rule lock_wakes.reachable_invar)
  ultimately show ?thesis using assms(3) by (auto simp: wake_inv_def lock_consts)
qed

lemma trace_lock_sleep: "lock_step\<^sup>*\<^sup>* (four 0 0 Idle Idle Idle Idle) (four 2 0 Held Lock_sleep Idle Idle)"
proof -
  have "lock_step (four 0 0 Idle Idle Idle Idle) (four 1 0 Held Idle Idle Idle)"
    using lock_first [of "four 0 0 Idle Idle Idle Idle" 0 1 0]
    by (simp add: lock_step_def lock_thread_def trace_simps) blast
  moreover have "lock_step (four 1 0 Held Idle Idle Idle) (four 1 0 Held (Lock_loop 1) Idle Idle)"
    using lock_first [of "four 1 0 Held Idle Idle Idle" 1 1 1]
    by (simp add: lock_step_def lock_thread_def trace_simps) blast
  moreover have "lock_step (four 1 0 Held (Lock_loop 1) Idle Idle) (four 2 0 Held Lock_wait Idle Idle)"
    using lock_mark_contended [of "four 1 0 Held (Lock_loop 1) Idle Idle" 1 1 2 1]
    by (simp add: lock_step_def lock_thread_def trace_simps) blast
  moreover have "lock_step (four 2 0 Held Lock_wait Idle Idle) (four 2 0 Held Lock_sleep Idle Idle)"
    using lock_futex_sleep [of "four 2 0 Held Lock_wait Idle Idle" 1]
    by (simp add: lock_step_def lock_thread_def trace_simps) blast
  ultimately show ?thesis by (meson converse_rtranclp_into_rtranclp rtranclp.rtrancl_refl)
qed

theorem libsimple_lock_no_lost_wakeup_witness:
  "lock_step\<^sup>*\<^sup>* idle_sys (four 2 0 Held Lock_sleep Idle Idle) \<and> asleep (pcs (four 2 0 Held Lock_sleep Idle Idle) 1) \<and>
   ((lk (four 2 0 Held Lock_sleep Idle Idle) = libsimple_lock_state_locked_contended \<and> (\<exists>j. holding (pcs (four 2 0 Held Lock_sleep Idle Idle) j))) \<or>
    (\<exists>j. contending (pcs (four 2 0 Held Lock_sleep Idle Idle) j)))"
  using libsimple_lock_no_lost_wakeup [of idle_sys "four 2 0 Held Lock_sleep Idle Idle" 1] trace_lock_sleep
  by (simp add: four_idle [symmetric])


lemma trace_two_notify_all: "lock_step\<^sup>*\<^sup>* (four 0 3 Cond_sleep Idle Idle Idle) (four 0 4 Cond_sleep Idle (NotifyA_requeue False) Idle)"
proof -
  have "lock_step (four 0 3 Cond_sleep Idle Idle Idle) (four 0 7 Cond_sleep Idle (NotifyA_and False) Idle)"
    using notifyA_add [of "four 0 3 Cond_sleep Idle Idle Idle" 2 False 7]
    by (simp add: lock_step_def lock_thread_def trace_simps) blast
  moreover have "lock_step (four 0 7 Cond_sleep Idle (NotifyA_and False) Idle) (four 0 4 Cond_sleep Idle (NotifyA_requeue False) Idle)"
    using notifyA_and [of "four 0 7 Cond_sleep Idle (NotifyA_and False) Idle" 2 False]
    by (simp add: lock_step_def lock_thread_def trace_simps) blast
  ultimately show ?thesis by (meson converse_rtranclp_into_rtranclp rtranclp.rtrancl_refl)
qed


end
