(* ===== verification/Simple_Once.thy ===== *)
theory Simple_Once
  imports Cider_Prelude
begin

text \<open>
  \<open>libsimple_once\<close> of \<open>src/src/darwin/libsimple/src/lock.c\<close>: any number of
  threads call it on one \<open>libsimple_once_t\<close> word, each any number of times.
  One rule per atomic action; the callback is code of the caller and takes two
  actions, its start and its return, between which the other threads run.  The
  state counts both.

  Shown: the callback starts at most once, no call returns before the callback
  has returned, and a sleeping caller always has somebody left to wake it.
\<close>

definition libsimple_once_state_untriggered :: u32 where
  "libsimple_once_state_untriggered = 0"

definition libsimple_once_state_triggered_uncontended :: u32 where
  "libsimple_once_state_triggered_uncontended = 1"

definition libsimple_once_state_triggered_contended :: u32 where
  "libsimple_once_state_triggered_contended = 2"

definition libsimple_once_state_completed :: u32 where
  "libsimple_once_state_completed = 3"

lemmas once_consts =
  libsimple_once_state_untriggered_def libsimple_once_state_triggered_uncontended_def
  libsimple_once_state_triggered_contended_def libsimple_once_state_completed_def

text \<open>Where a thread is.  \<open>Returned\<close> threads may call again.\<close>

datatype once_pc =
    NotCalled
  | Callback
  | Complete
  | Wake_all
  | Switch u32
  | Wait u32
  | Sleep
  | Reload
  | Returned

record once_sys =
  once :: u32
  started :: nat
  finished :: nat
  opcs :: "nat \<Rightarrow> once_pc"

abbreviation ogoto :: "nat \<Rightarrow> once_pc \<Rightarrow> once_sys \<Rightarrow> once_sys" where
  "ogoto i p s \<equiv> s\<lparr>opcs := (opcs s)(i := p)\<rparr>"

text \<open>\<open>FUTEX_WAKE\<close> with \<open>INT_MAX\<close> wakes every sleeper.\<close>

definition wake_sleepers :: "(nat \<Rightarrow> once_pc) \<Rightarrow> nat \<Rightarrow> once_pc" where
  "wake_sleepers ps k = (if ps k = Sleep then Reload else ps k)"

inductive libsimple_once :: "nat \<Rightarrow> once_sys \<Rightarrow> once_sys \<Rightarrow> bool" where
  once_trigger:
    "opcs s i = NotCalled \<or> opcs s i = Returned \<Longrightarrow> once s = libsimple_once_state_untriggered \<Longrightarrow>
     libsimple_once i s
       (ogoto i Callback (s\<lparr>once := libsimple_once_state_triggered_uncontended, started := started s + 1\<rparr>))"
| once_late:
    "opcs s i = NotCalled \<or> opcs s i = Returned \<Longrightarrow> once s \<noteq> libsimple_once_state_untriggered \<Longrightarrow>
     libsimple_once i s (ogoto i (Switch (once s)) s)"
| once_callback_returns:
    "opcs s i = Callback \<Longrightarrow>
     libsimple_once i s (ogoto i Complete (s\<lparr>finished := finished s + 1\<rparr>))"
| once_complete:
    "opcs s i = Complete \<Longrightarrow>
     libsimple_once i s
       (ogoto i (if once s = libsimple_once_state_triggered_contended then Wake_all else Returned)
         (s\<lparr>once := libsimple_once_state_completed\<rparr>))"
| once_wake_all:
    "opcs s i = Wake_all \<Longrightarrow>
     libsimple_once i s (ogoto i Returned (s\<lparr>opcs := wake_sleepers (opcs s)\<rparr>))"
| once_switch_completed:
    "opcs s i = Switch prev \<Longrightarrow> prev = libsimple_once_state_completed \<Longrightarrow>
     libsimple_once i s (ogoto i Returned s)"
| once_first_waiter:
    "opcs s i = Switch prev \<Longrightarrow> prev = libsimple_once_state_triggered_uncontended \<Longrightarrow> once s = prev \<Longrightarrow>
     libsimple_once i s
       (ogoto i (Wait libsimple_once_state_triggered_contended)
         (s\<lparr>once := libsimple_once_state_triggered_contended\<rparr>))"
| once_reevaluate:
    "opcs s i = Switch prev \<Longrightarrow> prev = libsimple_once_state_triggered_uncontended \<Longrightarrow> once s \<noteq> prev \<Longrightarrow>
     libsimple_once i s (ogoto i (Switch (once s)) s)"
| once_more_waiters:
    "opcs s i = Switch prev \<Longrightarrow> prev = libsimple_once_state_triggered_contended \<Longrightarrow>
     libsimple_once i s (ogoto i (Wait prev) s)"
| once_futex_sleep:
    "opcs s i = Wait prev \<Longrightarrow> once s = prev \<Longrightarrow> libsimple_once i s (ogoto i Sleep s)"
| once_futex_again:
    "opcs s i = Wait prev \<Longrightarrow> once s \<noteq> prev \<Longrightarrow> libsimple_once i s (ogoto i Reload s)"
| once_futex_spurious:
    "opcs s i = Sleep \<Longrightarrow> libsimple_once i s (ogoto i Reload s)"
| once_reload:
    "opcs s i = Reload \<Longrightarrow> libsimple_once i s (ogoto i (Switch (once s)) s)"

definition once_step :: "once_sys \<Rightarrow> once_sys \<Rightarrow> bool" where
  "once_step s t \<longleftrightarrow> (\<exists>i. libsimple_once i s t)"

text \<open>\<open>LIBSIMPLE_ONCE_INITIALIZER\<close> is a zero word.\<close>

definition once_init :: "once_sys \<Rightarrow> bool" where
  "once_init s \<longleftrightarrow> once s = 0 \<and> started s = 0 \<and> finished s = 0 \<and> (\<forall>i. opcs s i = NotCalled)"

section \<open>Invariant\<close>

text \<open>The word's value as a phase: not triggered, triggered with one thread in or
  just after the callback, completed.\<close>

definition runners :: "(nat \<Rightarrow> once_pc) \<Rightarrow> nat set" where
  "runners ps = {i. ps i = Callback \<or> ps i = Complete}"

lemma runners_upd [simp]:
  "runners (ps(i := p)) =
     (if p = Callback \<or> p = Complete then insert i (runners ps) else runners ps - {i})"
  by (auto simp: runners_def)

lemma runners_wake [simp]: "runners (wake_sleepers ps) = runners ps"
  by (auto simp: runners_def wake_sleepers_def split: if_splits)

lemma runners_same: "i \<notin> runners ps \<Longrightarrow> runners ps - {i} = runners ps"
  "i \<in> runners ps \<Longrightarrow> insert i (runners ps) = runners ps"
  by auto

lemma mem_runners: "i \<in> runners ps \<longleftrightarrow> ps i = Callback \<or> ps i = Complete"
  by (simp add: runners_def)

definition phase_inv :: "once_sys \<Rightarrow> bool" where
  "phase_inv s \<longleftrightarrow>
     (once s = 0 \<and> started s = 0 \<and> finished s = 0 \<and> runners (opcs s) = {}) \<or>
     (once s \<in> {1, 2} \<and> started s = 1 \<and>
       (\<exists>r. runners (opcs s) = {r} \<and> finished s = (if opcs s r = Complete then 1 else 0))) \<or>
     (once s = 3 \<and> started s = 1 \<and> finished s = 1 \<and> runners (opcs s) = {})"

text \<open>What each thread has seen; a sleeper leaves the word contended or a waker
  on its way.\<close>

fun once_pc_ok :: "u32 \<Rightarrow> once_pc \<Rightarrow> bool" where
  "once_pc_ok w (Switch v) \<longleftrightarrow> v = 1 \<and> w \<in> {1, 2, 3} \<or> v = 2 \<and> w \<in> {2, 3} \<or> v = 3 \<and> w = 3"
| "once_pc_ok w (Wait v) \<longleftrightarrow> v = 2 \<and> w \<in> {2, 3}"
| "once_pc_ok w Sleep \<longleftrightarrow> w \<in> {2, 3}"
| "once_pc_ok w Reload \<longleftrightarrow> w \<in> {2, 3}"
| "once_pc_ok w Wake_all \<longleftrightarrow> w = 3"
| "once_pc_ok w Returned \<longleftrightarrow> w = 3"
| "once_pc_ok w _ = True"

definition seen_inv :: "once_sys \<Rightarrow> bool" where
  "seen_inv s \<longleftrightarrow> (\<forall>i. once_pc_ok (once s) (opcs s i))"

definition sleeper_inv :: "once_sys \<Rightarrow> bool" where
  "sleeper_inv s \<longleftrightarrow> (\<exists>i. opcs s i = Sleep) \<longrightarrow> once s = 2 \<or> (\<exists>i. opcs s i = Wake_all)"

definition once_inv :: "once_sys \<Rightarrow> bool" where
  "once_inv s \<longleftrightarrow> phase_inv s \<and> seen_inv s \<and> sleeper_inv s"

lemma seen_invD: "seen_inv s \<Longrightarrow> once_pc_ok (once s) (opcs s i)"
  by (simp add: seen_inv_def)

lemma phase_word: "phase_inv s \<Longrightarrow> once s \<in> {0, 1, 2, 3}"
  by (auto simp: phase_inv_def)

lemma phase_runner: "phase_inv s \<Longrightarrow> i \<in> runners (opcs s) \<Longrightarrow>
    once s \<in> {1, 2} \<and> started s = 1 \<and> runners (opcs s) = {i} \<and>
    finished s = (if opcs s i = Complete then 1 else 0)"
  by (auto simp: phase_inv_def)

lemma phase_frame:
  assumes "phase_inv s" and "once t = once s \<or> once s = 1 \<and> once t = 2"
    and "started t = started s" and "finished t = finished s"
    and same: "\<And>j. j \<in> runners (opcs s) \<or> j \<in> runners (opcs t) \<Longrightarrow> opcs t j = opcs s j"
  shows "phase_inv t"
proof -
  have "j \<in> runners (opcs t) \<longleftrightarrow> j \<in> runners (opcs s)" for j
    using same [of j] by (metis mem_runners)
  then have "runners (opcs t) = runners (opcs s)" by blast
  with assms show ?thesis
    by (auto simp: phase_inv_def)
qed

lemma libsimple_once_phase: "libsimple_once i s t \<Longrightarrow> phase_inv s \<Longrightarrow> phase_inv t"
proof (induction rule: libsimple_once.induct)
  case (once_trigger s i)
  then show ?case
    by (auto simp: phase_inv_def once_consts intro!: exI [of _ i])
next
  case (once_callback_returns s i)
  then have "i \<in> runners (opcs s)" by (simp add: mem_runners)
  with once_callback_returns phase_runner [of s i]
  have "runners (opcs s) = {i}" "once s \<in> {1, 2}" "started s = 1" "finished s = 0" by auto
  then show ?case by (simp add: phase_inv_def)
next
  case (once_complete s i)
  then have "i \<in> runners (opcs s)" by (simp add: mem_runners)
  with once_complete phase_runner [of s i]
  have "runners (opcs s) = {i}" "started s = 1" "finished s = 1" by auto
  then show ?case by (simp add: phase_inv_def once_consts)
qed (erule phase_frame;
     auto simp: once_consts mem_runners wake_sleepers_def split: if_splits)+

lemma once_pc_ok_later:
  "once_pc_ok w p \<Longrightarrow> w = w' \<or> w = 0 \<and> w' = 1 \<or> w = 1 \<and> w' = 2 \<or> w' = 3 \<Longrightarrow> once_pc_ok w' p"
  by (cases p) auto

lemma seen_frame:
  assumes "seen_inv s" and "once s = once t \<or> once s = 0 \<and> once t = 1 \<or> once s = 1 \<and> once t = 2 \<or> once t = 3"
    and "\<And>j. opcs t j \<noteq> opcs s j \<Longrightarrow> once_pc_ok (once t) (opcs t j)"
  shows "seen_inv t"
  unfolding seen_inv_def
proof
  fix j
  show "once_pc_ok (once t) (opcs t j)"
    using assms once_pc_ok_later [OF seen_invD [OF assms(1)] assms(2)] by (cases "opcs t j = opcs s j") auto
qed

lemma libsimple_once_seen: "libsimple_once i s t \<Longrightarrow> phase_inv s \<Longrightarrow> seen_inv s \<Longrightarrow> seen_inv t"
proof (induction rule: libsimple_once.induct)
  case (once_wake_all s i)
  have "once s = 3" using seen_invD [of s i] once_wake_all by simp
  with \<open>seen_inv s\<close> show ?case
    by - (erule seen_frame; auto simp: wake_sleepers_def split: if_splits)
qed (frule_tac i = i in seen_invD, drule phase_word, erule seen_frame;
     force simp: once_consts split: if_splits)+

lemma sleeper_frame:
  assumes "sleeper_inv s" and "\<And>j. opcs t j = Sleep \<Longrightarrow> opcs s j = Sleep"
    and "\<And>j. opcs s j = Wake_all \<Longrightarrow> opcs t j = Wake_all" and "once s = 2 \<Longrightarrow> once t = 2"
  shows "sleeper_inv t"
  using assms unfolding sleeper_inv_def by blast

lemma libsimple_once_sleeper: "libsimple_once i s t \<Longrightarrow> seen_inv s \<Longrightarrow> sleeper_inv s \<Longrightarrow> sleeper_inv t"
proof (induction rule: libsimple_once.induct)
  case (once_complete s i)
  then show ?case
  proof (cases "once s = 2")
    case True
    then show ?thesis by (simp add: once_consts sleeper_inv_def) blast
  next
    case False
    with once_complete show ?thesis
      by - (erule sleeper_frame; auto simp: once_consts split: if_splits)
  qed
next
  case (once_wake_all s i)
  then show ?case by (auto simp: sleeper_inv_def wake_sleepers_def)
next
  case (once_futex_sleep s i prev)
  with seen_invD [of s i] show ?case by (simp add: sleeper_inv_def)
qed (erule sleeper_frame; auto simp: once_consts split: if_splits)+

lemma once_step_inv: "once_step s t \<Longrightarrow> once_inv s \<Longrightarrow> once_inv t"
  unfolding once_step_def once_inv_def
  using libsimple_once_phase libsimple_once_seen libsimple_once_sleeper by blast

lemma once_init_inv: "once_init s \<Longrightarrow> once_inv s"
  by (auto simp: once_init_def once_inv_def phase_inv_def seen_inv_def sleeper_inv_def runners_def)

interpretation once_sys: inductive_system once_init once_step once_inv
  by unfold_locales (fact once_init_inv, fact once_step_inv)

section \<open>Properties\<close>

text \<open>C20. \<open>libsimple_once\<close> runs the callback at most once, and no call of any
  thread returns before that one callback has returned.\<close>

theorem libsimple_once_runs_once:
  assumes "once_init s0" and "once_step\<^sup>*\<^sup>* s0 s"
  shows "started s \<le> 1 \<and> (opcs s i = Returned \<longrightarrow> started s = 1 \<and> finished s = 1)"
proof -
  have "once_inv s" using assms by (rule once_sys.reachable_invar)
  then show ?thesis
    using seen_invD [of s i] by (auto simp: once_inv_def phase_inv_def)
qed

text \<open>C21. A caller asleep in \<open>libsimple_once\<close> has somebody to wake it: the thread
  that runs the callback, which will find the word contended, or the thread
  about to wake all sleepers.\<close>

theorem libsimple_once_no_lost_wakeup:
  assumes "once_init s0" and "once_step\<^sup>*\<^sup>* s0 s" and "opcs s i = Sleep"
  shows "(once s = libsimple_once_state_triggered_contended \<and>
      (\<exists>j. opcs s j = Callback \<or> opcs s j = Complete)) \<or> (\<exists>j. opcs s j = Wake_all)"
proof -
  have inv: "once_inv s" using assms(1,2) by (rule once_sys.reachable_invar)
  have "once s = 2 \<Longrightarrow> \<exists>j. j \<in> runners (opcs s)"
    using inv by (auto simp: once_inv_def phase_inv_def)
  with inv assms(3) show ?thesis
    by (auto simp: once_inv_def sleeper_inv_def once_consts mem_runners)
qed

section \<open>Concrete runs\<close>

definition two :: "u32 \<Rightarrow> nat \<Rightarrow> nat \<Rightarrow> once_pc \<Rightarrow> once_pc \<Rightarrow> once_sys" where
  "two w b e p0 p1 = \<lparr>once = w, started = b, finished = e,
     opcs = (\<lambda>k. if k = 0 then p0 else if k = 1 then p1 else NotCalled)\<rparr>"

lemma two_simps [simp]:
  "once (two w b e p0 p1) = w" "started (two w b e p0 p1) = b" "finished (two w b e p0 p1) = e"
  "opcs (two w b e p0 p1) 0 = p0" "opcs (two w b e p0 p1) (Suc 0) = p1"
  "ogoto 0 q (two w b e p0 p1) = two w b e q p1" "ogoto (Suc 0) q (two w b e p0 p1) = two w b e p0 q"
  "two w b e p0 p1\<lparr>once := w'\<rparr> = two w' b e p0 p1" "two w b e p0 p1\<lparr>started := b'\<rparr> = two w b' e p0 p1"
  "two w b e p0 p1\<lparr>finished := e'\<rparr> = two w b e' p0 p1"
  by (simp_all add: two_def fun_eq_iff)

lemma two_init [simp]: "once_init (two 0 0 0 NotCalled NotCalled)"
  by (simp add: once_init_def two_def)

lemma trace_once:
  "once_step\<^sup>*\<^sup>* (two 0 0 0 NotCalled NotCalled) (two 2 1 0 Callback Sleep)"
proof -
  have "once_step (two 0 0 0 NotCalled NotCalled) (two 1 1 0 Callback NotCalled)"
    using once_trigger [of "two 0 0 0 NotCalled NotCalled" 0] by (simp add: once_step_def once_consts) blast
  moreover have "once_step (two 1 1 0 Callback NotCalled) (two 1 1 0 Callback (Switch 1))"
    using once_late [of "two 1 1 0 Callback NotCalled" 1] by (simp add: once_step_def once_consts) blast
  moreover have "once_step (two 1 1 0 Callback (Switch 1)) (two 2 1 0 Callback (Wait 2))"
    using once_first_waiter [of "two 1 1 0 Callback (Switch 1)" 1 1, unfolded once_consts, OF _ refl] by (simp add: once_step_def once_consts) blast
  moreover have "once_step (two 2 1 0 Callback (Wait 2)) (two 2 1 0 Callback Sleep)"
    using once_futex_sleep [of "two 2 1 0 Callback (Wait 2)" 1 2] by (simp add: once_step_def once_consts) blast
  ultimately show ?thesis by (meson converse_rtranclp_into_rtranclp rtranclp.rtrancl_refl)
qed

lemma trace_once_done:
  "once_step\<^sup>*\<^sup>* (two 0 0 0 NotCalled NotCalled) (two 3 1 1 Returned NotCalled)"
proof -
  have "once_step (two 0 0 0 NotCalled NotCalled) (two 1 1 0 Callback NotCalled)"
    using once_trigger [of "two 0 0 0 NotCalled NotCalled" 0] by (simp add: once_step_def once_consts) blast
  moreover have "once_step (two 1 1 0 Callback NotCalled) (two 1 1 1 Complete NotCalled)"
    using once_callback_returns [of "two 1 1 0 Callback NotCalled" 0] by (simp add: once_step_def once_consts) blast
  moreover have "once_step (two 1 1 1 Complete NotCalled) (two 3 1 1 Returned NotCalled)"
    using once_complete [of "two 1 1 1 Complete NotCalled" 0] by (simp add: once_step_def once_consts) blast
  ultimately show ?thesis by (meson converse_rtranclp_into_rtranclp rtranclp.rtrancl_refl)
qed

theorem libsimple_once_runs_once_witness:
  "opcs (two 3 1 1 Returned NotCalled) 0 = Returned \<and> finished (two 3 1 1 Returned NotCalled) = 1"
  using libsimple_once_runs_once [OF two_init trace_once_done, of 0] by simp

theorem libsimple_once_no_lost_wakeup_witness:
  "opcs (two 2 1 0 Callback Sleep) 1 = Sleep \<and>
   ((once (two 2 1 0 Callback Sleep) = libsimple_once_state_triggered_contended \<and>
      (\<exists>j. opcs (two 2 1 0 Callback Sleep) j = Callback \<or> opcs (two 2 1 0 Callback Sleep) j = Complete)) \<or>
    (\<exists>j. opcs (two 2 1 0 Callback Sleep) j = Wake_all))"
  using libsimple_once_no_lost_wakeup [OF two_init trace_once, of 1] by simp

end
