(* ===== verification/Simple_RWLock.thy ===== *)
theory Simple_RWLock
  imports Cider_Prelude
begin

text \<open>
  The reader-writer lock of \<open>src/src/darwin/libsimple/src/lock.c\<close>: threads
  \<open>0 .. N-1\<close> share one \<open>libsimple_rwlock_t\<close> word whose low 30 bits count the
  readers and whose top bits mark a writer and the need to wake sleepers.  One
  rule per atomic action; \<open>FUTEX_WAIT_BITSET\<close> with the reader or the writer bit
  keeps two kinds of sleepers apart, and a weak compare-and-exchange may fail
  although the word has the expected value.

  Shown, for fewer than \<open>2^30\<close> threads: a writer excludes everybody, the count
  is the number of readers and never runs into the flag bits, and no sleeping
  reader or writer is forgotten.
\<close>

section \<open>The word\<close>

definition libsimple_rwlock_bit_locked_write :: u32 where
  "libsimple_rwlock_bit_locked_write = push_bit 30 1"

definition libsimple_rwlock_bit_need_to_wake :: u32 where
  "libsimple_rwlock_bit_need_to_wake = push_bit 31 1"

abbreviation LW :: u32 where "LW \<equiv> libsimple_rwlock_bit_locked_write"
abbreviation NW :: u32 where "NW \<equiv> libsimple_rwlock_bit_need_to_wake"

lemmas rw_consts = libsimple_rwlock_bit_locked_write_def libsimple_rwlock_bit_need_to_wake_def

definition lwb :: "u32 \<Rightarrow> bool" where "lwb w = bit w 30"
definition nwb :: "u32 \<Rightarrow> bool" where "nwb w = bit w 31"
definition cnt :: "u32 \<Rightarrow> nat" where "cnt w = unat w mod 2 ^ 30"

lemma field_bits: "lwb w \<longleftrightarrow> odd (unat w div 2 ^ 30)" "nwb w \<longleftrightarrow> odd (unat w div 2 ^ 31)"
proof -
  have "bit w 30 \<longleftrightarrow> bit (unat w) 30" "bit w 31 \<longleftrightarrow> bit (unat w) 31"
    by (simp_all add: bit_unsigned_iff)
  then show "lwb w \<longleftrightarrow> odd (unat w div 2 ^ 30)" "nwb w \<longleftrightarrow> odd (unat w div 2 ^ 31)"
    by (simp_all add: lwb_def nwb_def bit_iff_odd)
qed

lemma word_fields: "unat w = cnt w + of_bool (lwb w) * 2 ^ 30 + of_bool (nwb w) * 2 ^ 31"
proof -
  define q where "q = unat w div 2 ^ 30"
  have "unat w < 2 ^ 32" using unsigned_less [of w] by simp
  then have "q < 4" by (simp add: q_def less_mult_imp_div_less)
  then have "q = 0 \<or> q = 1 \<or> q = 2 \<or> q = 3" by auto
  then have "q = of_bool (odd q) + 2 * of_bool (odd (q div 2))" by (elim disjE) simp_all
  moreover have "unat w div 2 ^ 31 = q div 2" by (simp add: q_def div_mult2_eq [symmetric])
  moreover have "unat w = q * 2 ^ 30 + cnt w" by (simp add: cnt_def q_def)
  ultimately show ?thesis unfolding field_bits q_def [symmetric] by simp
qed

lemma cnt_less: "cnt w < 2 ^ 30"
  by (simp add: cnt_def)

lemma fields_eq: "w = v \<longleftrightarrow> cnt w = cnt v \<and> lwb w = lwb v \<and> nwb w = nwb v"
proof
  assume "cnt w = cnt v \<and> lwb w = lwb v \<and> nwb w = nwb v"
  then have "unat w = unat v" using word_fields [of w] word_fields [of v] by simp
  then show "w = v" by (simp add: word_unat_eq_iff)
qed simp

lemma fields_of:
  assumes "unat w = c + of_bool l * 2 ^ 30 + of_bool n * 2 ^ 31" and "c < 2 ^ 30"
  shows "cnt w = c" "lwb w = l" "nwb w = n"
  using assms word_fields [of w] cnt_less [of w]
  by (cases l; cases n; cases "lwb w"; cases "nwb w"; simp)+

lemma fields_incr:
  assumes "cnt w + 1 < 2 ^ 30"
  shows "cnt (w + 1) = cnt w + 1" "lwb (w + 1) = lwb w" "nwb (w + 1) = nwb w"
proof -
  have "unat (w + 1) = (unat w + 1) mod 2 ^ 32" by (simp add: unat_word_ariths(1))
  also have "\<dots> = (cnt w + 1) + of_bool (lwb w) * 2 ^ 30 + of_bool (nwb w) * 2 ^ 31"
    using word_fields [of w] assms by (cases "lwb w"; cases "nwb w"; simp)
  finally show "cnt (w + 1) = cnt w + 1" "lwb (w + 1) = lwb w" "nwb (w + 1) = nwb w"
    using assms by (rule fields_of)+
qed

lemma fields_decr:
  assumes "0 < cnt w"
  shows "cnt (w - 1) = cnt w - 1" "lwb (w - 1) = lwb w" "nwb (w - 1) = nwb w"
proof -
  have "1 \<le> unat w" using assms word_fields [of w] by simp
  then have "unat (w - 1) = unat w - 1" by (simp add: unat_sub word_le_nat_alt)
  also have "\<dots> = (cnt w - 1) + of_bool (lwb w) * 2 ^ 30 + of_bool (nwb w) * 2 ^ 31"
    using word_fields [of w] assms by simp
  finally show "cnt (w - 1) = cnt w - 1" "lwb (w - 1) = lwb w" "nwb (w - 1) = nwb w"
    using less_imp_diff_less [OF cnt_less] by (rule fields_of)+
qed

lemma cnt_take_bit: "cnt w = unat (take_bit 30 w)"
  by (simp add: cnt_def unat_take_bit)

lemma fields_or_nw [simp]: "cnt (w OR NW) = cnt w" "lwb (w OR NW) = lwb w" "nwb (w OR NW)"
proof -
  have "take_bit 30 (w OR NW) = take_bit 30 w"
    by (rule bit_eqI) (auto simp: rw_consts bit_simps)
  then show "cnt (w OR NW) = cnt w" by (simp add: cnt_take_bit)
qed (simp_all add: lwb_def nwb_def rw_consts bit_simps)

lemma fields_const [simp]:
  "cnt 0 = 0" "\<not> lwb 0" "\<not> nwb 0" "cnt LW = 0" "lwb LW" "\<not> nwb LW" "cnt NW = 0" "\<not> lwb NW" "nwb NW"
  by (simp_all add: cnt_def lwb_def nwb_def rw_consts)

lemma bit_nw: "bit NW n \<longleftrightarrow> n = 31"
  unfolding rw_consts by (subst bit_push_bit_iff) (auto simp: bit_1_iff)

lemma and_not_nw: "cnt (w AND NOT NW) = cnt w" "lwb (w AND NOT NW) = lwb w" "\<not> nwb (w AND NOT NW)"
proof -
  have "take_bit 30 (w AND NOT NW) = take_bit 30 w"
    by (rule bit_eqI) (auto simp: bit_simps bit_nw)
  then show "cnt (w AND NOT NW) = cnt w" by (simp add: cnt_take_bit)
qed (simp_all add: lwb_def nwb_def bit_nw bit_simps)

lemma and_tests:
  "w AND NW = 0 \<longleftrightarrow> \<not> nwb w" "w AND (LW OR NW) = 0 \<longleftrightarrow> \<not> lwb w \<and> \<not> nwb w"
  "w AND NOT NW = 0 \<longleftrightarrow> \<not> lwb w \<and> cnt w = 0" "w AND NOT NW = 1 \<longleftrightarrow> \<not> lwb w \<and> cnt w = 1"
proof -
  show nw: "w AND NW = 0 \<longleftrightarrow> \<not> nwb w"
    using and_exp_eq_0_iff_not_bit [of w 31] by (simp add: rw_consts nwb_def)
  have "w AND LW = 0 \<longleftrightarrow> \<not> lwb w"
    using and_exp_eq_0_iff_not_bit [of w 30] by (simp add: rw_consts lwb_def)
  with nw show "w AND (LW OR NW) = 0 \<longleftrightarrow> \<not> lwb w \<and> \<not> nwb w"
    by (simp add: bit.conj_disj_distrib or_eq_0_iff)
  show "w AND NOT NW = 0 \<longleftrightarrow> \<not> lwb w \<and> cnt w = 0"
    by (auto simp: fields_eq [of "w AND NOT NW"] and_not_nw)
  have "cnt 1 = 1" "\<not> lwb 1" "\<not> nwb 1" by (simp_all add: cnt_def lwb_def nwb_def bit_1_iff)
  then show "w AND NOT NW = 1 \<longleftrightarrow> \<not> lwb w \<and> cnt w = 1"
    by (auto simp: fields_eq [of "w AND NOT NW"] and_not_nw)
qed
section \<open>State and functions\<close>

text \<open>Where a thread is.  The argument of \<open>RL\<close>, \<open>WL\<close> and their waits is the local
  \<open>state2\<close>.\<close>

datatype rw_pc =
    Idle
  | RHeld
  | WHeld
  | RL u32
  | RL_wait u32
  | RL_sleep
  | RT u32
  | RU_cas
  | RU_wake
  | WL u32
  | WL_wait u32
  | WL_sleep
  | WU_wake_r
  | WU_wake_w

record rw_sys =
  st :: u32
  rpcs :: "nat \<Rightarrow> rw_pc"

abbreviation rgoto :: "nat \<Rightarrow> rw_pc \<Rightarrow> rw_sys \<Rightarrow> rw_sys" where
  "rgoto i p s \<equiv> s\<lparr>rpcs := (rpcs s)(i := p)\<rparr>"

text \<open>\<open>libsimple_rwlock_lock_read\<close>.  The second exchange is weak.\<close>

inductive libsimple_rwlock_lock_read :: "nat \<Rightarrow> rw_sys \<Rightarrow> rw_sys \<Rightarrow> bool" where
  rl_load:
    "rpcs s i = Idle \<Longrightarrow> libsimple_rwlock_lock_read i s (rgoto i (RL (st s)) s)"
| rl_acquire:
    "rpcs s i = RL state2 \<Longrightarrow> state2 AND (LW OR NW) = 0 \<Longrightarrow> st s = state2 \<Longrightarrow>
     libsimple_rwlock_lock_read i s (rgoto i RHeld (s\<lparr>st := state2 + 1\<rparr>))"
| rl_changed:
    "rpcs s i = RL state2 \<Longrightarrow> state2 AND (LW OR NW) = 0 \<Longrightarrow> st s \<noteq> state2 \<Longrightarrow>
     libsimple_rwlock_lock_read i s (rgoto i (RL (st s)) s)"
| rl_mark:
    "rpcs s i = RL state2 \<Longrightarrow> state2 AND (LW OR NW) \<noteq> 0 \<Longrightarrow> state2 AND NW = 0 \<Longrightarrow> st s = state2 \<Longrightarrow>
     libsimple_rwlock_lock_read i s (rgoto i (RL_wait (LW OR NW)) (s\<lparr>st := LW OR NW\<rparr>))"
| rl_mark_failed:
    "rpcs s i = RL state2 \<Longrightarrow> state2 AND (LW OR NW) \<noteq> 0 \<Longrightarrow> state2 AND NW = 0 \<Longrightarrow>
     libsimple_rwlock_lock_read i s (rgoto i (RL (st s)) s)"
| rl_marked:
    "rpcs s i = RL state2 \<Longrightarrow> state2 AND NW \<noteq> 0 \<Longrightarrow>
     libsimple_rwlock_lock_read i s (rgoto i (RL_wait state2) s)"
| rl_futex_sleep:
    "rpcs s i = RL_wait state2 \<Longrightarrow> st s = state2 \<Longrightarrow> libsimple_rwlock_lock_read i s (rgoto i RL_sleep s)"
| rl_futex_again:
    "rpcs s i = RL_wait state2 \<Longrightarrow> st s \<noteq> state2 \<Longrightarrow> libsimple_rwlock_lock_read i s (rgoto i (RL 0) s)"
| rl_futex_spurious:
    "rpcs s i = RL_sleep \<Longrightarrow> libsimple_rwlock_lock_read i s (rgoto i (RL 0) s)"

text \<open>\<open>libsimple_rwlock_try_lock_read\<close>: \<open>Idle\<close> afterwards is the result false.\<close>

inductive libsimple_rwlock_try_lock_read :: "nat \<Rightarrow> rw_sys \<Rightarrow> rw_sys \<Rightarrow> bool" where
  rt_load:
    "rpcs s i = Idle \<Longrightarrow>
     libsimple_rwlock_try_lock_read i s
       (rgoto i (if st s AND (LW OR NW) \<noteq> 0 then Idle else RT (st s)) s)"
| rt_exchange:
    "rpcs s i = RT state2 \<Longrightarrow> st s = state2 \<Longrightarrow>
     libsimple_rwlock_try_lock_read i s (rgoto i RHeld (s\<lparr>st := state2 + 1\<rparr>))"
| rt_failed:
    "rpcs s i = RT state2 \<Longrightarrow> st s \<noteq> state2 \<Longrightarrow> libsimple_rwlock_try_lock_read i s (rgoto i Idle s)"

text \<open>\<open>libsimple_rwlock_unlock_read\<close>, with its weak exchange.\<close>

inductive libsimple_rwlock_unlock_read :: "nat \<Rightarrow> rw_sys \<Rightarrow> rw_sys \<Rightarrow> bool" where
  ru_sub:
    "rpcs s i = RHeld \<Longrightarrow>
     libsimple_rwlock_unlock_read i s
       (rgoto i (if st s AND NOT NW = 1 \<and> st s AND NW \<noteq> 0 then RU_cas else Idle) (s\<lparr>st := st s - 1\<rparr>))"
| ru_clear:
    "rpcs s i = RU_cas \<Longrightarrow> st s = NW \<Longrightarrow>
     libsimple_rwlock_unlock_read i s (rgoto i RU_wake (s\<lparr>st := 0\<rparr>))"
| ru_clear_failed:
    "rpcs s i = RU_cas \<Longrightarrow> libsimple_rwlock_unlock_read i s (rgoto i RU_wake s)"
| ru_wake:
    "rpcs s i = RU_wake \<Longrightarrow> rpcs s j = WL_sleep \<Longrightarrow>
     libsimple_rwlock_unlock_read i s (rgoto i Idle (rgoto j (WL 0) s))"
| ru_wake_none:
    "rpcs s i = RU_wake \<Longrightarrow> (\<forall>j. rpcs s j \<noteq> WL_sleep) \<Longrightarrow>
     libsimple_rwlock_unlock_read i s (rgoto i Idle s)"

text \<open>\<open>libsimple_rwlock_lock_write\<close>.\<close>

inductive libsimple_rwlock_lock_write :: "nat \<Rightarrow> rw_sys \<Rightarrow> rw_sys \<Rightarrow> bool" where
  wl_fast:
    "rpcs s i = Idle \<Longrightarrow> st s = 0 \<Longrightarrow>
     libsimple_rwlock_lock_write i s (rgoto i WHeld (s\<lparr>st := LW\<rparr>))"
| wl_fast_failed:
    "rpcs s i = Idle \<Longrightarrow> st s \<noteq> 0 \<Longrightarrow> libsimple_rwlock_lock_write i s (rgoto i (WL (st s)) s)"
| wl_acquire:
    "rpcs s i = WL state2 \<Longrightarrow> state2 AND NOT NW = 0 \<Longrightarrow> st s = state2 \<Longrightarrow>
     libsimple_rwlock_lock_write i s (rgoto i WHeld (s\<lparr>st := LW OR NW\<rparr>))"
| wl_changed:
    "rpcs s i = WL state2 \<Longrightarrow> state2 AND NOT NW = 0 \<Longrightarrow> st s \<noteq> state2 \<Longrightarrow>
     libsimple_rwlock_lock_write i s (rgoto i (WL (st s)) s)"
| wl_mark:
    "rpcs s i = WL state2 \<Longrightarrow> state2 AND NOT NW \<noteq> 0 \<Longrightarrow> state2 AND NW = 0 \<Longrightarrow> st s = state2 \<Longrightarrow>
     libsimple_rwlock_lock_write i s (rgoto i (WL_wait (state2 OR NW)) (s\<lparr>st := state2 OR NW\<rparr>))"
| wl_mark_failed:
    "rpcs s i = WL state2 \<Longrightarrow> state2 AND NOT NW \<noteq> 0 \<Longrightarrow> state2 AND NW = 0 \<Longrightarrow> st s \<noteq> state2 \<Longrightarrow>
     libsimple_rwlock_lock_write i s (rgoto i (WL (st s)) s)"
| wl_marked:
    "rpcs s i = WL state2 \<Longrightarrow> state2 AND NOT NW \<noteq> 0 \<Longrightarrow> state2 AND NW \<noteq> 0 \<Longrightarrow>
     libsimple_rwlock_lock_write i s (rgoto i (WL_wait state2) s)"
| wl_futex_sleep:
    "rpcs s i = WL_wait state2 \<Longrightarrow> st s = state2 \<Longrightarrow> libsimple_rwlock_lock_write i s (rgoto i WL_sleep s)"
| wl_futex_again:
    "rpcs s i = WL_wait state2 \<Longrightarrow> st s \<noteq> state2 \<Longrightarrow> libsimple_rwlock_lock_write i s (rgoto i (WL 0) s)"
| wl_futex_spurious:
    "rpcs s i = WL_sleep \<Longrightarrow> libsimple_rwlock_lock_write i s (rgoto i (WL 0) s)"

text \<open>\<open>libsimple_rwlock_try_lock_write\<close>.\<close>

inductive libsimple_rwlock_try_lock_write :: "nat \<Rightarrow> rw_sys \<Rightarrow> rw_sys \<Rightarrow> bool" where
  wt_exchange:
    "rpcs s i = Idle \<Longrightarrow> st s = 0 \<Longrightarrow>
     libsimple_rwlock_try_lock_write i s (rgoto i WHeld (s\<lparr>st := LW\<rparr>))"
| wt_failed:
    "rpcs s i = Idle \<Longrightarrow> st s \<noteq> 0 \<Longrightarrow> libsimple_rwlock_try_lock_write i s s"

text \<open>\<open>libsimple_rwlock_unlock_write\<close>: wakes every sleeping reader, then one
  sleeping writer.\<close>

definition wake_readers :: "(nat \<Rightarrow> rw_pc) \<Rightarrow> nat \<Rightarrow> rw_pc" where
  "wake_readers ps k = (if ps k = RL_sleep then RL 0 else ps k)"

inductive libsimple_rwlock_unlock_write :: "nat \<Rightarrow> rw_sys \<Rightarrow> rw_sys \<Rightarrow> bool" where
  wu_exchange:
    "rpcs s i = WHeld \<Longrightarrow>
     libsimple_rwlock_unlock_write i s
       (rgoto i (if st s AND NW \<noteq> 0 then WU_wake_r else Idle) (s\<lparr>st := 0\<rparr>))"
| wu_wake_readers:
    "rpcs s i = WU_wake_r \<Longrightarrow>
     libsimple_rwlock_unlock_write i s (rgoto i WU_wake_w (s\<lparr>rpcs := wake_readers (rpcs s)\<rparr>))"
| wu_wake_writer:
    "rpcs s i = WU_wake_w \<Longrightarrow> rpcs s j = WL_sleep \<Longrightarrow>
     libsimple_rwlock_unlock_write i s (rgoto i Idle (rgoto j (WL 0) s))"
| wu_wake_none:
    "rpcs s i = WU_wake_w \<Longrightarrow> (\<forall>j. rpcs s j \<noteq> WL_sleep) \<Longrightarrow>
     libsimple_rwlock_unlock_write i s (rgoto i Idle s)"

definition rw_thread :: "nat \<Rightarrow> rw_sys \<Rightarrow> rw_sys \<Rightarrow> bool" where
  "rw_thread i s t \<longleftrightarrow>
     libsimple_rwlock_lock_read i s t \<or> libsimple_rwlock_try_lock_read i s t \<or>
     libsimple_rwlock_unlock_read i s t \<or> libsimple_rwlock_lock_write i s t \<or>
     libsimple_rwlock_try_lock_write i s t \<or> libsimple_rwlock_unlock_write i s t"

definition rw_step :: "nat \<Rightarrow> rw_sys \<Rightarrow> rw_sys \<Rightarrow> bool" where
  "rw_step N s t \<longleftrightarrow> (\<exists>i<N. rw_thread i s t)"

text \<open>\<open>LIBSIMPLE_RWLOCK_INITIALIZER\<close> is a zero word.\<close>

definition rw_init :: "nat \<Rightarrow> rw_sys \<Rightarrow> bool" where
  "rw_init N s \<longleftrightarrow> N < 2 ^ 30 \<and> st s = 0 \<and> (\<forall>i. rpcs s i = Idle)"

section \<open>The word describes the holders\<close>

definition readers :: "(nat \<Rightarrow> rw_pc) \<Rightarrow> nat set" where
  "readers ps = {i. ps i = RHeld}"

definition writers :: "(nat \<Rightarrow> rw_pc) \<Rightarrow> nat set" where
  "writers ps = {i. ps i = WHeld}"

lemma rw_holders_upd [simp]:
  "readers (ps(i := p)) = (if p = RHeld then insert i (readers ps) else readers ps - {i})"
  "writers (ps(i := p)) = (if p = WHeld then insert i (writers ps) else writers ps - {i})"
  by (auto simp: readers_def writers_def)

lemma holders_wake [simp]: "readers (wake_readers ps) = readers ps" "writers (wake_readers ps) = writers ps"
  by (auto simp: readers_def writers_def wake_readers_def split: if_splits)

lemma not_holder: "ps i \<noteq> RHeld \<Longrightarrow> readers ps - {i} = readers ps" "ps i \<noteq> WHeld \<Longrightarrow> writers ps - {i} = writers ps"
  by (auto simp: readers_def writers_def)

definition word_inv :: "nat \<Rightarrow> rw_sys \<Rightarrow> bool" where
  "word_inv N s \<longleftrightarrow> N < 2 ^ 30 \<and> readers (rpcs s) \<subseteq> {..<N} \<and> cnt (st s) = card (readers (rpcs s)) \<and>
     (if lwb (st s) then cnt (st s) = 0 \<and> (\<exists>i. writers (rpcs s) = {i}) else writers (rpcs s) = {})"

text \<open>What the local \<open>state2\<close> of a thread can be.\<close>

fun rw_pc_ok :: "rw_pc \<Rightarrow> bool" where
  "rw_pc_ok (RL v) \<longleftrightarrow> lwb v \<longrightarrow> cnt v = 0"
| "rw_pc_ok (RL_wait v) \<longleftrightarrow> nwb v"
| "rw_pc_ok (RT v) \<longleftrightarrow> \<not> lwb v \<and> \<not> nwb v"
| "rw_pc_ok (WL v) \<longleftrightarrow> lwb v \<longrightarrow> cnt v = 0"
| "rw_pc_ok (WL_wait v) \<longleftrightarrow> nwb v \<and> (lwb v \<or> 0 < cnt v)"
| "rw_pc_ok _ \<longleftrightarrow> True"

definition local_inv :: "rw_sys \<Rightarrow> bool" where
  "local_inv s \<longleftrightarrow> (\<forall>i. rw_pc_ok (rpcs s i))"

lemma local_invD: "local_inv s \<Longrightarrow> rpcs s i = p \<Longrightarrow> rw_pc_ok p"
  by (auto simp: local_inv_def)

lemma word_frame:
  assumes "word_inv N s" and "readers (rpcs t) = readers (rpcs s)" and "writers (rpcs t) = writers (rpcs s)"
    and "cnt (st t) = cnt (st s)" and "lwb (st t) = lwb (st s)"
  shows "word_inv N t"
  using assms by (auto simp: word_inv_def split: if_splits)

lemma word_add_reader:
  assumes "word_inv N s" and "i < N" and "rpcs s i \<noteq> RHeld" and "rpcs s i \<noteq> WHeld"
    and "\<not> lwb (st s)" and "\<not> nwb (st s)"
  shows "word_inv N (rgoto i RHeld (s\<lparr>st := st s + 1\<rparr>)) \<and> \<not> lwb (st s + 1) \<and> \<not> nwb (st s + 1)"
proof -
  let ?R = "readers (rpcs s)"
  have i: "i \<notin> ?R" using assms(3) by (simp add: readers_def)
  have sub: "insert i ?R \<subseteq> {..<N}" using assms(1,2) by (simp add: word_inv_def)
  then have fin: "finite ?R" by (meson finite_lessThan finite_subset subset_insertI)
  have "card (insert i ?R) \<le> N" using card_mono [OF _ sub] by simp
  then have "cnt (st s) + 1 < 2 ^ 30" using assms(1) i fin by (simp add: word_inv_def)
  then show ?thesis
    using assms i fin sub by (simp add: word_inv_def fields_incr not_holder)
qed

lemma word_remove_reader:
  assumes "word_inv N s" and "rpcs s i = RHeld" and "p \<noteq> RHeld" and "p \<noteq> WHeld"
  shows "word_inv N (rgoto i p (s\<lparr>st := st s - 1\<rparr>))" and "0 < cnt (st s)" and "\<not> lwb (st s)"
proof -
  let ?R = "readers (rpcs s)"
  have i: "i \<in> ?R" using assms(2) by (simp add: readers_def)
  have sub: "?R \<subseteq> {..<N}" using assms(1) by (simp add: word_inv_def)
  then have "finite ?R" by (rule finite_subset) simp
  with i have "card (?R - {i}) = card ?R - 1" "0 < card ?R" by (auto simp: card_gt_0_iff)
  with assms i sub show "0 < cnt (st s)" "\<not> lwb (st s)" "word_inv N (rgoto i p (s\<lparr>st := st s - 1\<rparr>))"
    by (auto simp: word_inv_def fields_decr not_holder split: if_splits)
qed

lemma word_add_writer:
  assumes "word_inv N s" and "rpcs s i \<noteq> RHeld" and "cnt (st s) = 0" and "\<not> lwb (st s)"
    and "cnt w = 0" and "lwb w"
  shows "word_inv N (rgoto i WHeld (s\<lparr>st := w\<rparr>))"
  using assms by (simp add: word_inv_def not_holder)

lemma word_remove_writer:
  assumes "word_inv N s" and "rpcs s i = WHeld" and "p \<noteq> RHeld" and "p \<noteq> WHeld"
  shows "word_inv N (rgoto i p (s\<lparr>st := 0\<rparr>))"
proof -
  have "i \<in> writers (rpcs s)" using assms(2) by (simp add: writers_def)
  with assms have "writers (rpcs s) = {i}" "cnt (st s) = 0" by (auto simp: word_inv_def split: if_splits)
  with assms show ?thesis by (simp add: word_inv_def not_holder)
qed

lemma fields_both [simp]: "cnt (LW OR NW) = 0" "lwb (LW OR NW)" "nwb (LW OR NW)"
  by simp_all

lemma local_frame:
  assumes "local_inv s" and "\<And>j. rpcs t j \<noteq> rpcs s j \<Longrightarrow> rw_pc_ok (rpcs t j)"
  shows "local_inv t"
  using assms unfolding local_inv_def by metis

lemma word_valid: "word_inv N s \<Longrightarrow> lwb (st s) \<Longrightarrow> cnt (st s) = 0"
  by (simp add: word_inv_def)

lemma lock_read_word: "libsimple_rwlock_lock_read i s t \<Longrightarrow> i < N \<Longrightarrow> word_inv N s \<Longrightarrow> local_inv s \<Longrightarrow> word_inv N t"
proof (induction rule: libsimple_rwlock_lock_read.induct)
  case (rl_acquire s i state2)
  then show ?case using word_add_reader [of N s i] by (simp add: and_tests)
next
  case (rl_mark s i state2)
  then have "cnt (st s) = 0" "lwb (st s)" using word_valid [of N s] by (auto simp: and_tests)
  with rl_mark show ?case by - (erule word_frame; simp add: not_holder)
qed (erule word_frame; simp add: not_holder)+

lemma try_lock_read_word: "libsimple_rwlock_try_lock_read i s t \<Longrightarrow> i < N \<Longrightarrow> word_inv N s \<Longrightarrow> local_inv s \<Longrightarrow> word_inv N t"
proof (induction rule: libsimple_rwlock_try_lock_read.induct)
  case (rt_exchange s i state2)
  then show ?case using word_add_reader [of N s i] local_invD [of s i] by simp
qed (erule word_frame; simp add: not_holder)+

lemma unlock_read_word: "libsimple_rwlock_unlock_read i s t \<Longrightarrow> word_inv N s \<Longrightarrow> word_inv N t"
proof (induction rule: libsimple_rwlock_unlock_read.induct)
  case (ru_sub s i)
  then show ?case using word_remove_reader(1) [of N s i] by simp
qed (erule word_frame; simp add: not_holder)+

lemma lock_write_word: "libsimple_rwlock_lock_write i s t \<Longrightarrow> word_inv N s \<Longrightarrow> word_inv N t"
proof (induction rule: libsimple_rwlock_lock_write.induct)
  case (wl_fast s i)
  then show ?case using word_add_writer [of N s i LW] by simp
next
  case (wl_acquire s i state2)
  then show ?case using word_add_writer [of N s i "LW OR NW"] by (simp add: and_tests)
qed (erule word_frame; simp add: not_holder)+

lemma try_lock_write_word: "libsimple_rwlock_try_lock_write i s t \<Longrightarrow> word_inv N s \<Longrightarrow> word_inv N t"
proof (induction rule: libsimple_rwlock_try_lock_write.induct)
  case (wt_exchange s i)
  then show ?case using word_add_writer [of N s i LW] by simp
qed

lemma unlock_write_word: "libsimple_rwlock_unlock_write i s t \<Longrightarrow> word_inv N s \<Longrightarrow> word_inv N t"
proof (induction rule: libsimple_rwlock_unlock_write.induct)
  case (wu_exchange s i)
  then show ?case using word_remove_writer [of N s i] by simp
qed (erule word_frame; simp add: not_holder wake_readers_def)+

lemma word_valid_imp: "word_inv N s \<Longrightarrow> lwb (st s) \<longrightarrow> cnt (st s) = 0"
  using word_valid by blast

text \<open>The local values: they were read from the word or built from such a value.\<close>

lemma lock_read_local: "libsimple_rwlock_lock_read i s t \<Longrightarrow> word_inv N s \<Longrightarrow> local_inv s \<Longrightarrow> local_inv t"
  by (induction rule: libsimple_rwlock_lock_read.induct; frule_tac i = i in local_invD, assumption;
      drule word_valid_imp; erule local_frame; auto simp: and_tests wake_readers_def split: if_splits)

lemma try_lock_read_local: "libsimple_rwlock_try_lock_read i s t \<Longrightarrow> word_inv N s \<Longrightarrow> local_inv s \<Longrightarrow> local_inv t"
  by (induction rule: libsimple_rwlock_try_lock_read.induct; frule_tac i = i in local_invD, assumption;
      drule word_valid_imp; erule local_frame; auto simp: and_tests wake_readers_def split: if_splits)

lemma unlock_read_local: "libsimple_rwlock_unlock_read i s t \<Longrightarrow> word_inv N s \<Longrightarrow> local_inv s \<Longrightarrow> local_inv t"
  by (induction rule: libsimple_rwlock_unlock_read.induct; frule_tac i = i in local_invD, assumption;
      drule word_valid_imp; erule local_frame; auto simp: and_tests wake_readers_def split: if_splits)

lemma lock_write_local: "libsimple_rwlock_lock_write i s t \<Longrightarrow> word_inv N s \<Longrightarrow> local_inv s \<Longrightarrow> local_inv t"
  by (induction rule: libsimple_rwlock_lock_write.induct; frule_tac i = i in local_invD, assumption;
      drule word_valid_imp; erule local_frame; auto simp: and_tests wake_readers_def split: if_splits)

lemma try_lock_write_local: "libsimple_rwlock_try_lock_write i s t \<Longrightarrow> word_inv N s \<Longrightarrow> local_inv s \<Longrightarrow> local_inv t"
  by (induction rule: libsimple_rwlock_try_lock_write.induct; frule_tac i = i in local_invD, assumption;
      drule word_valid_imp; erule local_frame; auto simp: and_tests wake_readers_def split: if_splits)

lemma unlock_write_local: "libsimple_rwlock_unlock_write i s t \<Longrightarrow> word_inv N s \<Longrightarrow> local_inv s \<Longrightarrow> local_inv t"
  by (induction rule: libsimple_rwlock_unlock_write.induct; frule_tac i = i in local_invD, assumption;
      drule word_valid_imp; erule local_frame; auto simp: and_tests wake_readers_def split: if_splits)

section \<open>No sleeper is forgotten\<close>

fun contending :: "rw_pc \<Rightarrow> bool" where
  "contending (WL v) = True"
| "contending (WL_wait v) = True"
| "contending _ = False"

fun reader_leaving :: "rw_pc \<Rightarrow> bool" where
  "reader_leaving RU_cas = True"
| "reader_leaving RU_wake = True"
| "reader_leaving _ = False"

text \<open>While no writer is inside its locking loop: the wake bit without a writer
  stands for a sleeping writer, the bare wake bit has a leaving reader to clear
  it, and every sleeper has the wake bit or a thread on its way to wake it.\<close>

definition quiet_inv :: "rw_sys \<Rightarrow> bool" where
  "quiet_inv s \<longleftrightarrow>
     (nwb (st s) \<and> \<not> lwb (st s) \<longrightarrow> (\<exists>i. rpcs s i = WL_sleep)) \<and>
     (st s = NW \<longrightarrow> (\<exists>i. reader_leaving (rpcs s i))) \<and>
     ((\<exists>i. rpcs s i = RL_sleep) \<longrightarrow> nwb (st s) \<or> (\<exists>i. rpcs s i = WU_wake_r) \<or>
        (\<exists>i. rpcs s i = WL_sleep) \<and> (\<exists>i. reader_leaving (rpcs s i))) \<and>
     ((\<exists>i. rpcs s i = WL_sleep) \<longrightarrow> nwb (st s) \<or> (\<exists>i. reader_leaving (rpcs s i)) \<or>
        (\<exists>i. rpcs s i = WU_wake_r) \<or> (\<exists>i. rpcs s i = WU_wake_w))"

definition forgotten_inv :: "rw_sys \<Rightarrow> bool" where
  "forgotten_inv s \<longleftrightarrow> (\<exists>i. contending (rpcs s i)) \<or> quiet_inv s"

lemma forgotten_contending: "contending (rpcs t i) \<Longrightarrow> forgotten_inv t"
  by (auto simp: forgotten_inv_def)

lemma forgotten_locked: "lwb (st t) \<Longrightarrow> nwb (st t) \<Longrightarrow> forgotten_inv t"
  by (auto simp: forgotten_inv_def quiet_inv_def)

lemma forgotten_frame:
  assumes "forgotten_inv s" and "\<And>j. contending (rpcs s j) \<Longrightarrow> contending (rpcs t j)"
    and "\<And>j. rpcs t j = RL_sleep \<Longrightarrow> rpcs s j = RL_sleep \<or> nwb (st t)"
    and "\<And>j. rpcs t j = WL_sleep \<longleftrightarrow> rpcs s j = WL_sleep"
    and "\<And>j. reader_leaving (rpcs s j) \<Longrightarrow> reader_leaving (rpcs t j)"
    and "\<And>j. rpcs s j = WU_wake_r \<Longrightarrow> rpcs t j = WU_wake_r"
    and "\<And>j. rpcs s j = WU_wake_w \<Longrightarrow> rpcs t j = WU_wake_w"
    and "nwb (st t) = nwb (st s)" and "nwb (st t) \<Longrightarrow> \<not> lwb (st t) \<Longrightarrow> \<not> lwb (st s)"
    and "st t = NW \<Longrightarrow> st s \<noteq> NW \<Longrightarrow> \<exists>j. reader_leaving (rpcs t j)"
  shows "forgotten_inv t"
proof (cases "\<exists>j. contending (rpcs s j)")
  case True
  then show ?thesis using assms(2) by (auto simp: forgotten_inv_def)
next
  case False
  then have "quiet_inv s" using assms(1) by (simp add: forgotten_inv_def)
  then have "quiet_inv t" using assms(3-10) unfolding quiet_inv_def by (smt (verit))
  then show ?thesis by (simp add: forgotten_inv_def)
qed

lemma forgotten_no_writer:
  assumes "forgotten_inv s" and "st t = st s" and "\<forall>j. rpcs s j \<noteq> WL_sleep"
    and "\<And>j. contending (rpcs s j) \<Longrightarrow> contending (rpcs t j)"
    and "\<And>j. rpcs t j = RL_sleep \<Longrightarrow> rpcs s j = RL_sleep" and "\<And>j. rpcs t j \<noteq> WL_sleep"
    and "\<And>j. rpcs s j = WU_wake_r \<Longrightarrow> rpcs t j = WU_wake_r"
  shows "forgotten_inv t"
proof (cases "\<exists>j. contending (rpcs s j)")
  case True
  then show ?thesis using assms(4) by (auto simp: forgotten_inv_def)
next
  case False
  with assms(1,3) have "\<not> (nwb (st s) \<and> \<not> lwb (st s))" and
    "(\<exists>j. rpcs s j = RL_sleep) \<longrightarrow> nwb (st s) \<or> (\<exists>j. rpcs s j = WU_wake_r)"
    by (auto simp: forgotten_inv_def quiet_inv_def)
  with assms(2,5-7) have "quiet_inv t" unfolding quiet_inv_def by (auto; metis)
  then show ?thesis by (simp add: forgotten_inv_def)
qed

lemma forgotten_no_reader:
  assumes "forgotten_inv s" and "st t = st s" and "\<And>j. rpcs t j \<noteq> RL_sleep" and "rpcs t i = WU_wake_w"
    and "\<And>j. contending (rpcs s j) \<Longrightarrow> contending (rpcs t j)"
    and "\<And>j. rpcs s j = WL_sleep \<Longrightarrow> rpcs t j = WL_sleep"
    and "\<And>j. reader_leaving (rpcs s j) \<Longrightarrow> reader_leaving (rpcs t j)"
  shows "forgotten_inv t"
proof (cases "\<exists>j. contending (rpcs s j)")
  case True
  then show ?thesis using assms(5) by (auto simp: forgotten_inv_def)
next
  case False
  with assms(1) have "quiet_inv s" by (simp add: forgotten_inv_def)
  with assms(2-4,6,7) have "quiet_inv t" unfolding quiet_inv_def by metis
  then show ?thesis by (simp add: forgotten_inv_def)
qed

fun plain :: "rw_pc \<Rightarrow> bool" where
  "plain Idle = True"
| "plain RHeld = True"
| "plain WHeld = True"
| "plain (RL v) = True"
| "plain (RL_wait v) = True"
| "plain (RT v) = True"
| "plain _ = False"

lemma forgotten_plain:
  assumes "forgotten_inv s" and "rpcs t = (rpcs s)(i := p)" and "plain p"
    and "plain (rpcs s i) \<or> rpcs s i = RL_sleep"
    and "nwb (st t) = nwb (st s)" and "nwb (st t) \<Longrightarrow> \<not> lwb (st t) \<Longrightarrow> \<not> lwb (st s)"
    and "nwb (st t) \<Longrightarrow> st t = NW \<Longrightarrow> st s = NW"
  shows "forgotten_inv t"
proof -
  have "\<not> contending (rpcs s i)" "rpcs s i \<noteq> WL_sleep" "\<not> reader_leaving (rpcs s i)"
    "rpcs s i \<noteq> WU_wake_r" "rpcs s i \<noteq> WU_wake_w"
    using assms(4) by (cases "rpcs s i"; simp)+
  moreover have "p \<noteq> RL_sleep" "p \<noteq> WL_sleep" using assms(3) by auto
  ultimately show ?thesis
    using assms(1,2,5-7) by - (rule forgotten_frame [of s], auto split: if_splits)
qed

lemma forgotten_goto:
  "forgotten_inv s \<Longrightarrow> plain p \<Longrightarrow> plain (rpcs s i) \<or> rpcs s i = RL_sleep \<Longrightarrow> forgotten_inv (rgoto i p s)"
  by (rule forgotten_plain [of s _ i p]) auto

lemma lock_read_forgotten:
  "libsimple_rwlock_lock_read i s t \<Longrightarrow> i < N \<Longrightarrow> word_inv N s \<Longrightarrow> local_inv s \<Longrightarrow> forgotten_inv s \<Longrightarrow> forgotten_inv t"
proof (induction rule: libsimple_rwlock_lock_read.induct)
  case (rl_acquire s i state2)
  then have "\<not> nwb state2" "\<not> nwb (state2 + 1)" using word_add_reader [of N s i] by (auto simp: and_tests)
  with rl_acquire show ?case by - (rule forgotten_plain [of s], auto)
next
  case (rl_futex_sleep s i state2)
  then have "nwb (st s)" using local_invD [of s i] by auto
  with rl_futex_sleep show ?case
    by - (rule forgotten_frame [of s], auto split: if_splits)
next
  case (rl_mark s i state2)
  show ?case by (intro forgotten_locked) simp_all
qed (erule forgotten_goto; simp)+

lemma try_lock_read_forgotten:
  "libsimple_rwlock_try_lock_read i s t \<Longrightarrow> i < N \<Longrightarrow> word_inv N s \<Longrightarrow> local_inv s \<Longrightarrow> forgotten_inv s \<Longrightarrow> forgotten_inv t"
proof (induction rule: libsimple_rwlock_try_lock_read.induct)
  case (rt_exchange s i state2)
  then have "\<not> nwb state2" "\<not> nwb (state2 + 1)"
    using local_invD [of s i] word_add_reader [of N s i] by auto
  with rt_exchange show ?case by - (rule forgotten_plain [of s], auto)
qed (erule forgotten_goto; simp)+

lemma unlock_read_forgotten:
  "libsimple_rwlock_unlock_read i s t \<Longrightarrow> word_inv N s \<Longrightarrow> forgotten_inv s \<Longrightarrow> forgotten_inv t"
proof (induction rule: libsimple_rwlock_unlock_read.induct)
  case (ru_sub s i)
  let ?t = "rgoto i (if st s AND NOT NW = 1 \<and> st s AND NW \<noteq> 0 then RU_cas else Idle) (s\<lparr>st := st s - 1\<rparr>)"
  have "0 < cnt (st s)" "\<not> lwb (st s)"
    using word_remove_reader(2,3) [OF ru_sub(2,1), of Idle] by auto
  note w = fields_decr [OF this(1)] this
  have "st s - 1 = NW \<Longrightarrow> \<exists>j. reader_leaving (rpcs ?t j)"
    using w by (auto simp: and_tests fields_eq [of "st s - 1"])
  with ru_sub w show ?case
    by - (rule forgotten_frame [of s], auto split: if_splits)
next
  case (ru_clear s i)
  then obtain j where "contending (rpcs s j) \<or> rpcs s j = WL_sleep"
    by (auto simp: forgotten_inv_def quiet_inv_def)
  moreover from this ru_clear have "j \<noteq> i" by auto
  moreover have "reader_leaving (rpcs (rgoto i RU_wake (s\<lparr>st := 0\<rparr>)) i)" by simp
  ultimately show ?case
    unfolding forgotten_inv_def quiet_inv_def
    by (auto simp: fields_eq)
next
  case (ru_clear_failed s i)
  then show ?case by - (rule forgotten_frame [of s], auto split: if_splits)
next
  case (ru_wake s i j)
  then show ?case by (intro forgotten_contending [of _ j]) auto
next
  case (ru_wake_none s i)
  then show ?case by - (rule forgotten_no_writer [of s], auto split: if_splits)
qed

lemma lock_write_forgotten:
  "libsimple_rwlock_lock_write i s t \<Longrightarrow> word_inv N s \<Longrightarrow> local_inv s \<Longrightarrow> forgotten_inv s \<Longrightarrow> forgotten_inv t"
proof (induction rule: libsimple_rwlock_lock_write.induct)
  case (wl_fast s i)
  then show ?case by - (rule forgotten_plain [of s], auto simp: fields_eq)
next
  case (wl_acquire s i state2)
  show ?case by (intro forgotten_locked) simp_all
next
  case (wl_futex_sleep s i state2)
  then have "nwb (st s)" "st s \<noteq> NW" using local_invD [of s i] by (auto simp: fields_eq)
  then show ?case unfolding forgotten_inv_def quiet_inv_def by auto
qed (auto intro: forgotten_contending)

lemma try_lock_write_forgotten:
  "libsimple_rwlock_try_lock_write i s t \<Longrightarrow> forgotten_inv s \<Longrightarrow> forgotten_inv t"
proof (induction rule: libsimple_rwlock_try_lock_write.induct)
  case (wt_exchange s i)
  then show ?case by - (rule forgotten_plain [of s], auto simp: fields_eq)
qed

lemma unlock_write_forgotten:
  "libsimple_rwlock_unlock_write i s t \<Longrightarrow> word_inv N s \<Longrightarrow> forgotten_inv s \<Longrightarrow> forgotten_inv t"
proof (induction rule: libsimple_rwlock_unlock_write.induct)
  case (wu_exchange s i)
  show ?case
  proof (cases "nwb (st s)")
    case True
    then have "rpcs (rgoto i (if st s AND NW \<noteq> 0 then WU_wake_r else Idle) (s\<lparr>st := 0\<rparr>)) i = WU_wake_r"
      by (simp add: and_tests)
    then show ?thesis
      unfolding forgotten_inv_def quiet_inv_def by (auto simp: fields_eq)
  next
    case False
    with wu_exchange show ?thesis
      by - (rule forgotten_plain [of s _ i Idle], auto simp: and_tests)
  qed
next
  case (wu_wake_readers s i)
  then show ?case
    by - (rule forgotten_no_reader [of s _ i], auto simp: wake_readers_def split: if_splits)
next
  case (wu_wake_writer s i j)
  then show ?case by (intro forgotten_contending [of _ j]) auto
next
  case (wu_wake_none s i)
  then show ?case by - (rule forgotten_no_writer [of s], auto split: if_splits)
qed

definition rw_inv :: "nat \<Rightarrow> rw_sys \<Rightarrow> bool" where
  "rw_inv N s \<longleftrightarrow> word_inv N s \<and> local_inv s \<and> forgotten_inv s"

lemmas function_word = lock_read_word try_lock_read_word unlock_read_word lock_write_word
  try_lock_write_word unlock_write_word

lemmas function_local = lock_read_local try_lock_read_local unlock_read_local lock_write_local
  try_lock_write_local unlock_write_local

lemmas function_forgotten = lock_read_forgotten try_lock_read_forgotten unlock_read_forgotten
  lock_write_forgotten try_lock_write_forgotten unlock_write_forgotten

lemma rw_step_inv: "rw_step N s t \<Longrightarrow> rw_inv N s \<Longrightarrow> rw_inv N t"
  unfolding rw_step_def rw_thread_def rw_inv_def
  by (elim exE conjE disjE) (intro conjI; (erule function_word function_local function_forgotten; assumption)+)+

lemma rw_init_inv: "rw_init N s \<Longrightarrow> rw_inv N s"
  by (auto simp: rw_init_def rw_inv_def word_inv_def local_inv_def forgotten_inv_def quiet_inv_def
      readers_def writers_def fields_eq)

interpretation rw: inductive_system "rw_init N" "rw_step N" "rw_inv N" for N
  by unfold_locales (fact rw_init_inv, fact rw_step_inv)

section \<open>Properties\<close>

text \<open>C18. Reader-writer exclusion with fewer than \<open>2^30\<close> threads: a thread holding
  the lock for writing is the only holder, and the low 30 bits of the word count
  the threads holding it for reading, so the count never reaches the flag
  bits.\<close>

theorem libsimple_rwlock_exclusion:
  assumes "rw_init N s0" and "(rw_step N)\<^sup>*\<^sup>* s0 s"
  shows "(rpcs s i = WHeld \<and> (rpcs s j = WHeld \<or> rpcs s j = RHeld) \<longrightarrow> i = j) \<and>
    cnt (st s) = card {k. rpcs s k = RHeld} \<and> cnt (st s) \<le> N"
proof -
  have "rw_inv N s" using assms by (rule rw.reachable_invar)
  then have inv: "word_inv N s" by (simp add: rw_inv_def)
  then have sub: "readers (rpcs s) \<subseteq> {..<N}" by (simp add: word_inv_def)
  have count: "cnt (st s) = card (readers (rpcs s))" using inv by (simp add: word_inv_def)
  have le: "cnt (st s) \<le> N" using card_mono [OF _ sub] count by simp
  have fin: "finite (readers (rpcs s))" using sub by (rule finite_subset) simp
  have "i = j" if "rpcs s i = WHeld" "rpcs s j = WHeld \<or> rpcs s j = RHeld"
  proof -
    have i: "i \<in> writers (rpcs s)" using that by (simp add: writers_def)
    with inv have w: "writers (rpcs s) = {i}" and "card (readers (rpcs s)) = 0"
      by (auto simp: word_inv_def split: if_splits)
    with fin have "rpcs s j \<noteq> RHeld" by (auto simp: readers_def)
    with that have "j \<in> writers (rpcs s)" by (simp add: writers_def)
    with w show ?thesis by simp
  qed
  then show ?thesis using count le by (simp add: readers_def)
qed

text \<open>C19. No sleeping reader or writer is forgotten: while one sleeps, the wake
  bit is set and the lock is held, so that the last unlock wakes the sleepers,
  or a writer is inside its locking loop, or a thread is on its way to issue
  the wake-ups.\<close>

theorem libsimple_rwlock_no_lost_wakeup:
  assumes "rw_init N s0" and "(rw_step N)\<^sup>*\<^sup>* s0 s" and "rpcs s i = RL_sleep \<or> rpcs s i = WL_sleep"
  shows "(nwb (st s) \<and> (\<exists>j. rpcs s j = RHeld \<or> rpcs s j = WHeld)) \<or>
    (\<exists>j. contending (rpcs s j) \<or> reader_leaving (rpcs s j) \<or> rpcs s j = WU_wake_r \<or> rpcs s j = WU_wake_w)"
proof -
  have inv: "rw_inv N s" using assms(1,2) by (rule rw.reachable_invar)
  have "\<exists>j. rpcs s j = RHeld \<or> rpcs s j = WHeld" if "nwb (st s)" "st s \<noteq> NW"
  proof (cases "lwb (st s)")
    case True
    then show ?thesis using inv by (auto simp: rw_inv_def word_inv_def writers_def)
  next
    case False
    with that have "0 < card (readers (rpcs s))"
      using inv by (auto simp: rw_inv_def word_inv_def fields_eq)
    then show ?thesis by (auto simp: card_gt_0_iff readers_def)
  qed
  then show ?thesis
    using inv assms(3) unfolding rw_inv_def forgotten_inv_def quiet_inv_def by metis
qed

section \<open>Concrete runs\<close>

definition pair :: "u32 \<Rightarrow> rw_pc \<Rightarrow> rw_pc \<Rightarrow> rw_sys" where
  "pair w p0 p1 = \<lparr>st = w, rpcs = (\<lambda>k. if k = 0 then p0 else if k = 1 then p1 else Idle)\<rparr>"

lemma pair_simps [simp]:
  "st (pair w p0 p1) = w" "rpcs (pair w p0 p1) 0 = p0" "rpcs (pair w p0 p1) (Suc 0) = p1"
  "rgoto 0 q (pair w p0 p1) = pair w q p1" "rgoto (Suc 0) q (pair w p0 p1) = pair w p0 q"
  "pair w p0 p1\<lparr>st := w'\<rparr> = pair w' p0 p1"
  by (simp_all add: pair_def fun_eq_iff)

lemma pair_init [simp]: "rw_init 2 (pair 0 Idle Idle)"
  by (simp add: rw_init_def pair_def)

lemma pair_step: "i = 0 \<or> i = 1 \<Longrightarrow> rw_thread i s t \<Longrightarrow> rw_step 2 s t"
  unfolding rw_step_def by (rule exI [of _ i]) auto

lemma trace_writer: "(rw_step 2)\<^sup>*\<^sup>* (pair 0 Idle Idle) (pair LW WHeld Idle)"
  using wl_fast [of "pair 0 Idle Idle" 0] pair_step [of 0] by (auto simp: rw_thread_def)

lemma trace_reader_sleeps: "(rw_step 2)\<^sup>*\<^sup>* (pair LW WHeld Idle) (pair (LW OR NW) WHeld RL_sleep)"
proof -
  have "rw_step 2 (pair LW WHeld Idle) (pair LW WHeld (RL LW))"
    using rl_load [of "pair LW WHeld Idle" 1] pair_step [of 1] by (simp add: rw_thread_def)
  moreover have "rw_step 2 (pair LW WHeld (RL LW)) (pair (LW OR NW) WHeld (RL_wait (LW OR NW)))"
    using rl_mark [of "pair LW WHeld (RL LW)" 1 LW] pair_step [of 1] by (simp add: rw_thread_def and_tests fields_eq [of LW])
  moreover have "rw_step 2 (pair (LW OR NW) WHeld (RL_wait (LW OR NW))) (pair (LW OR NW) WHeld RL_sleep)"
    using rl_futex_sleep [of "pair (LW OR NW) WHeld (RL_wait (LW OR NW))" 1 "LW OR NW"] pair_step [of 1]
    by (simp add: rw_thread_def)
  ultimately show ?thesis by (meson converse_rtranclp_into_rtranclp rtranclp.rtrancl_refl)
qed

theorem libsimple_rwlock_exclusion_witness:
  "rpcs (pair LW WHeld Idle) 0 = WHeld \<and> cnt (st (pair LW WHeld Idle)) = card {k. rpcs (pair LW WHeld Idle) k = RHeld}"
  using libsimple_rwlock_exclusion [OF pair_init trace_writer, of 0 0] by simp

theorem libsimple_rwlock_no_lost_wakeup_witness:
  "rpcs (pair (LW OR NW) WHeld RL_sleep) 1 = RL_sleep \<and>
   (nwb (LW OR NW) \<and> (\<exists>j. rpcs (pair (LW OR NW) WHeld RL_sleep) j = RHeld \<or>
       rpcs (pair (LW OR NW) WHeld RL_sleep) j = WHeld) \<or>
    (\<exists>j. contending (rpcs (pair (LW OR NW) WHeld RL_sleep) j) \<or>
       reader_leaving (rpcs (pair (LW OR NW) WHeld RL_sleep) j) \<or>
       rpcs (pair (LW OR NW) WHeld RL_sleep) j = WU_wake_r \<or>
       rpcs (pair (LW OR NW) WHeld RL_sleep) j = WU_wake_w))"
  using libsimple_rwlock_no_lost_wakeup [OF pair_init rtranclp_trans [OF trace_writer trace_reader_sleeps], of 1]
  by simp

end
