(* ===== verification/Launch_Data.thy ===== *)
theory Launch_Data
  imports Cider_Prelude "HOL-Library.Monad_Syntax"
begin

text \<open>
  The data objects of liblaunch
  (\<open>src/src/darwin/launchd/liblaunch/liblaunch.c\<close>): the tagged union
  \<open>struct _launch_data\<close> with its constructors, accessors, array, dictionary and
  copy functions.

  A function is \<open>None\<close> where the C code has no defined behaviour: a member of
  the union that the object's type does not have, a NULL or out-of-range
  element that is dereferenced, a string read past its memory.  NULL results
  and false are values.  Memory allocation succeeds, and freeing an object has
  no effect on the others.

  A string member is the memory its pointer reaches (NULL is \<open>None\<close>) beside its
  \<open>string_len\<close>, because the two disagree for objects unpacked from malformed
  messages.  Doubles are their bit patterns; 64-bit members are 64-bit words.

  Shown: dictionary and array laws, keys compared without case; dictionaries
  keep distinct keys; a copy of a well-formed object is the object.
\<close>

section \<open>Objects\<close>

datatype launch_data_type =
    LAUNCH_DATA_DICTIONARY
  | LAUNCH_DATA_ARRAY
  | LAUNCH_DATA_FD
  | LAUNCH_DATA_INTEGER
  | LAUNCH_DATA_REAL
  | LAUNCH_DATA_BOOL
  | LAUNCH_DATA_STRING
  | LAUNCH_DATA_OPAQUE
  | LAUNCH_DATA_ERRNO
  | LAUNCH_DATA_MACHPORT

datatype launch_data =
    Dictionary "launch_data option list"
  | Array "launch_data option list"
  | Fd u64
  | Integer u64
  | Real u64
  | Bool u64
  | String "byte list option" u64
  | Opaque "byte list option" u64
  | Errno u64
  | Machport u64

type_synonym elems = "launch_data option list"

type_synonym cstring = "byte list"

text \<open>C strings: the bytes before the terminator; no terminator in reach is
  undefined.\<close>

definition cstr :: "byte list \<Rightarrow> cstring option" where
  "cstr m = (if 0 \<in> set m then Some (takeWhile (\<lambda>b. b \<noteq> 0) m) else None)"

definition strdup :: "cstring \<Rightarrow> byte list" where
  "strdup s = s @ [0]"

definition tolower :: "byte \<Rightarrow> byte" where
  "tolower b = (if 65 \<le> b \<and> b \<le> 90 then b + 32 else b)"

definition strcasecmp_eq :: "cstring \<Rightarrow> cstring \<Rightarrow> bool" where
  "strcasecmp_eq a b \<longleftrightarrow> map tolower a = map tolower b"

lemma cstr_strdup [simp]: "0 \<notin> set s \<Longrightarrow> cstr (strdup s) = Some s"
  by (auto simp: cstr_def strdup_def takeWhile_append)

lemma strcasecmp_eq_refl [simp]: "strcasecmp_eq a a"
  by (simp add: strcasecmp_eq_def)

lemma strcasecmp_eq_sym: "strcasecmp_eq a b \<longleftrightarrow> strcasecmp_eq b a"
  by (auto simp: strcasecmp_eq_def)

fun launch_data_get_type :: "launch_data \<Rightarrow> launch_data_type" where
  "launch_data_get_type (Dictionary xs) = LAUNCH_DATA_DICTIONARY"
| "launch_data_get_type (Array xs) = LAUNCH_DATA_ARRAY"
| "launch_data_get_type (Fd v) = LAUNCH_DATA_FD"
| "launch_data_get_type (Integer v) = LAUNCH_DATA_INTEGER"
| "launch_data_get_type (Real v) = LAUNCH_DATA_REAL"
| "launch_data_get_type (Bool v) = LAUNCH_DATA_BOOL"
| "launch_data_get_type (String s n) = LAUNCH_DATA_STRING"
| "launch_data_get_type (Opaque b n) = LAUNCH_DATA_OPAQUE"
| "launch_data_get_type (Errno v) = LAUNCH_DATA_ERRNO"
| "launch_data_get_type (Machport v) = LAUNCH_DATA_MACHPORT"

text \<open>\<open>launch_data_alloc\<close>: zeroed members, \<open>malloc(0)\<close> for arrays and opaque data.\<close>

fun launch_data_alloc :: "launch_data_type \<Rightarrow> launch_data" where
  "launch_data_alloc LAUNCH_DATA_DICTIONARY = Dictionary []"
| "launch_data_alloc LAUNCH_DATA_ARRAY = Array []"
| "launch_data_alloc LAUNCH_DATA_FD = Fd 0"
| "launch_data_alloc LAUNCH_DATA_INTEGER = Integer 0"
| "launch_data_alloc LAUNCH_DATA_REAL = Real 0"
| "launch_data_alloc LAUNCH_DATA_BOOL = Bool 0"
| "launch_data_alloc LAUNCH_DATA_STRING = String None 0"
| "launch_data_alloc LAUNCH_DATA_OPAQUE = Opaque (Some []) 0"
| "launch_data_alloc LAUNCH_DATA_ERRNO = Errno 0"
| "launch_data_alloc LAUNCH_DATA_MACHPORT = Machport 0"

section \<open>Scalar members\<close>

text \<open>The setters take C \<open>int\<close>, \<open>mach_port_t\<close>, \<open>long long\<close>, \<open>bool\<close> and \<open>double\<close>;
  conversions to the 64-bit members sign- or zero-extend as in C.\<close>

definition launch_data_set_errno :: "launch_data \<Rightarrow> 32 word \<Rightarrow> launch_data option" where
  "launch_data_set_errno d e = (case d of Errno _ \<Rightarrow> Some (Errno (scast e)) | _ \<Rightarrow> None)"

definition launch_data_set_fd :: "launch_data \<Rightarrow> 32 word \<Rightarrow> launch_data option" where
  "launch_data_set_fd d fd = (case d of Fd _ \<Rightarrow> Some (Fd (scast fd)) | _ \<Rightarrow> None)"

definition launch_data_set_machport :: "launch_data \<Rightarrow> 32 word \<Rightarrow> launch_data option" where
  "launch_data_set_machport d p = (case d of Machport _ \<Rightarrow> Some (Machport (ucast p)) | _ \<Rightarrow> None)"

definition launch_data_set_integer :: "launch_data \<Rightarrow> u64 \<Rightarrow> launch_data option" where
  "launch_data_set_integer d n = (case d of Integer _ \<Rightarrow> Some (Integer n) | _ \<Rightarrow> None)"

definition launch_data_set_bool :: "launch_data \<Rightarrow> bool \<Rightarrow> launch_data option" where
  "launch_data_set_bool d b = (case d of Bool _ \<Rightarrow> Some (Bool (of_bool b)) | _ \<Rightarrow> None)"

definition launch_data_set_real :: "launch_data \<Rightarrow> u64 \<Rightarrow> launch_data option" where
  "launch_data_set_real d n = (case d of Real _ \<Rightarrow> Some (Real n) | _ \<Rightarrow> None)"

definition launch_data_set_string :: "launch_data \<Rightarrow> cstring \<Rightarrow> launch_data option" where
  "launch_data_set_string d s =
     (case d of String _ _ \<Rightarrow> Some (String (Some (strdup s)) (of_nat (length s))) | _ \<Rightarrow> None)"

text \<open>\<open>launch_data_set_opaque\<close> copies \<open>os\<close> bytes from \<open>o\<close>.\<close>

definition launch_data_set_opaque :: "launch_data \<Rightarrow> byte list \<Rightarrow> u64 \<Rightarrow> launch_data option" where
  "launch_data_set_opaque d b os =
     (case d of Opaque _ _ \<Rightarrow>
        if unat os \<le> length b then Some (Opaque (Some (take (unat os) b)) os) else None
      | _ \<Rightarrow> None)"

definition launch_data_get_errno :: "launch_data \<Rightarrow> 32 word option" where
  "launch_data_get_errno d = (case d of Errno e \<Rightarrow> Some (ucast e) | _ \<Rightarrow> None)"

definition launch_data_get_fd :: "launch_data \<Rightarrow> 32 word option" where
  "launch_data_get_fd d = (case d of Fd fd \<Rightarrow> Some (ucast fd) | _ \<Rightarrow> None)"

definition launch_data_get_machport :: "launch_data \<Rightarrow> 32 word option" where
  "launch_data_get_machport d = (case d of Machport p \<Rightarrow> Some (ucast p) | _ \<Rightarrow> None)"

definition launch_data_get_integer :: "launch_data \<Rightarrow> u64 option" where
  "launch_data_get_integer d = (case d of Integer n \<Rightarrow> Some n | _ \<Rightarrow> None)"

definition launch_data_get_bool :: "launch_data \<Rightarrow> bool option" where
  "launch_data_get_bool d = (case d of Bool b \<Rightarrow> Some (b \<noteq> 0) | _ \<Rightarrow> None)"

definition launch_data_get_real :: "launch_data \<Rightarrow> u64 option" where
  "launch_data_get_real d = (case d of Real r \<Rightarrow> Some r | _ \<Rightarrow> None)"

text \<open>The pointer getters check the type; the result \<open>None\<close> is NULL.\<close>

definition launch_data_get_string :: "launch_data \<Rightarrow> byte list option" where
  "launch_data_get_string d = (case d of String s _ \<Rightarrow> s | _ \<Rightarrow> None)"

definition launch_data_get_opaque :: "launch_data \<Rightarrow> byte list option" where
  "launch_data_get_opaque d = (case d of Opaque b _ \<Rightarrow> b | _ \<Rightarrow> None)"

definition launch_data_get_opaque_size :: "launch_data \<Rightarrow> u64 option" where
  "launch_data_get_opaque_size d = (case d of Opaque _ n \<Rightarrow> Some n | _ \<Rightarrow> None)"

text \<open>The constructors.\<close>

definition launch_data_new_errno :: "32 word \<Rightarrow> launch_data option" where
  "launch_data_new_errno e = launch_data_set_errno (launch_data_alloc LAUNCH_DATA_ERRNO) e"

definition launch_data_new_fd :: "32 word \<Rightarrow> launch_data option" where
  "launch_data_new_fd fd = launch_data_set_fd (launch_data_alloc LAUNCH_DATA_FD) fd"

definition launch_data_new_machport :: "32 word \<Rightarrow> launch_data option" where
  "launch_data_new_machport p = launch_data_set_machport (launch_data_alloc LAUNCH_DATA_MACHPORT) p"

definition launch_data_new_integer :: "u64 \<Rightarrow> launch_data option" where
  "launch_data_new_integer n = launch_data_set_integer (launch_data_alloc LAUNCH_DATA_INTEGER) n"

definition launch_data_new_bool :: "bool \<Rightarrow> launch_data option" where
  "launch_data_new_bool b = launch_data_set_bool (launch_data_alloc LAUNCH_DATA_BOOL) b"

definition launch_data_new_real :: "u64 \<Rightarrow> launch_data option" where
  "launch_data_new_real d = launch_data_set_real (launch_data_alloc LAUNCH_DATA_REAL) d"

definition launch_data_new_string :: "cstring \<Rightarrow> launch_data option" where
  "launch_data_new_string s = launch_data_set_string (launch_data_alloc LAUNCH_DATA_STRING) s"

definition launch_data_new_opaque :: "byte list \<Rightarrow> u64 \<Rightarrow> launch_data option" where
  "launch_data_new_opaque b os = launch_data_set_opaque (launch_data_alloc LAUNCH_DATA_OPAQUE) b os"

section \<open>Arrays\<close>

definition elems_of :: "launch_data \<Rightarrow> elems option" where
  "elems_of d = (case d of Dictionary xs \<Rightarrow> Some xs | Array xs \<Rightarrow> Some xs | _ \<Rightarrow> None)"

definition with_elems :: "launch_data \<Rightarrow> elems \<Rightarrow> launch_data" where
  "with_elems d xs = (case d of Dictionary _ \<Rightarrow> Dictionary xs | _ \<Rightarrow> Array xs)"

text \<open>The array part of \<open>launch_data_array_set_index\<close>: growth fills with NULL.\<close>

definition set_index :: "elems \<Rightarrow> launch_data option \<Rightarrow> nat \<Rightarrow> elems" where
  "set_index xs what ind =
     (let ys = (if ind + 1 \<ge> length xs then xs @ replicate (ind + 1 - length xs) None else xs)
      in ys[ind := what])"

definition launch_data_array_set_index :: "launch_data \<Rightarrow> launch_data option \<Rightarrow> nat \<Rightarrow> launch_data option" where
  "launch_data_array_set_index d what ind = do { xs \<leftarrow> elems_of d; Some (with_elems d (set_index xs what ind)) }"

definition launch_data_array_get_index :: "launch_data \<Rightarrow> nat \<Rightarrow> launch_data option" where
  "launch_data_array_get_index d ind =
     (case d of Array xs \<Rightarrow> if ind \<ge> length xs then None else xs ! ind | _ \<Rightarrow> None)"

definition launch_data_array_get_count :: "launch_data \<Rightarrow> nat" where
  "launch_data_array_get_count d = (case d of Array xs \<Rightarrow> length xs | _ \<Rightarrow> 0)"

text \<open>\<open>launch_data_array_pop_first\<close>: the element (NULL when empty) and the rest.\<close>

definition launch_data_array_pop_first :: "launch_data \<Rightarrow> (launch_data option \<times> launch_data) option" where
  "launch_data_array_pop_first d = do {
     xs \<leftarrow> elems_of d;
     Some (if 0 < length xs then (xs ! 0, with_elems d (drop 1 xs)) else (None, d)) }"

section \<open>Dictionaries\<close>

text \<open>A dictionary is an array of keys and values in turn.  \<open>dict_find\<close> is the
  loop that all dictionary functions share: the index of the first key equal
  without case, or the first index past the array.\<close>

definition key_at :: "elems \<Rightarrow> nat \<Rightarrow> cstring option" where
  "key_at xs i =
     (if i < length xs then (case xs ! i of Some (String (Some m) _) \<Rightarrow> cstr m | _ \<Rightarrow> None) else None)"

function dict_find :: "cstring \<Rightarrow> elems \<Rightarrow> nat \<Rightarrow> nat option" where
  "dict_find key xs i =
     (if i < length xs then
        (case key_at xs i of
           None \<Rightarrow> None
         | Some k \<Rightarrow> if strcasecmp_eq key k then Some i else dict_find key xs (i + 2))
      else Some i)"
  by pat_completeness auto
termination by (relation "measure (\<lambda>(key, xs, i). length xs - i)") auto

declare dict_find.simps [simp del]

definition launch_data_dict_get_count :: "launch_data \<Rightarrow> nat option" where
  "launch_data_dict_get_count d = do { xs \<leftarrow> elems_of d; Some (length xs div 2) }"

definition launch_data_dict_insert :: "launch_data \<Rightarrow> launch_data option \<Rightarrow> cstring \<Rightarrow> launch_data option" where
  "launch_data_dict_insert d what key = do {
     thekey \<leftarrow> launch_data_set_string (launch_data_alloc LAUNCH_DATA_STRING) key;
     xs \<leftarrow> elems_of d;
     i \<leftarrow> dict_find key xs 0;
     d1 \<leftarrow> launch_data_array_set_index d (Some thekey) i;
     launch_data_array_set_index d1 what (i + 1) }"

text \<open>\<open>launch_data_dict_lookup\<close>: the outer \<open>None\<close> is undefined, the inner one NULL.\<close>

definition launch_data_dict_lookup :: "launch_data \<Rightarrow> cstring \<Rightarrow> launch_data option option" where
  "launch_data_dict_lookup d key =
     (case d of
        Dictionary xs \<Rightarrow> do {
          i \<leftarrow> dict_find key xs 0;
          if i < length xs then (if i + 1 < length xs then Some (xs ! (i + 1)) else None) else Some None }
      | _ \<Rightarrow> Some None)"

definition launch_data_dict_remove :: "launch_data \<Rightarrow> cstring \<Rightarrow> (bool \<times> launch_data) option" where
  "launch_data_dict_remove d key = do {
     xs \<leftarrow> elems_of d;
     i \<leftarrow> dict_find key xs 0;
     if i = length xs then Some (False, d)
     else if i + 2 \<le> length xs \<and> xs ! i \<noteq> None \<and> xs ! (i + 1) \<noteq> None
     then Some (True, with_elems d (take i xs @ drop (i + 2) xs))
     else None }"

text \<open>\<open>launch_data_dict_iterate\<close>: the callback may change the value it is given,
  and threads its context.\<close>

function iterate_loop ::
  "(launch_data option \<Rightarrow> cstring \<Rightarrow> 's \<Rightarrow> launch_data option \<times> 's) \<Rightarrow> elems \<Rightarrow> nat \<Rightarrow> 's \<Rightarrow> (elems \<times> 's) option" where
  "iterate_loop cb xs i ctx =
     (if i < length xs then
        (case key_at xs i of
           None \<Rightarrow> None
         | Some k \<Rightarrow>
             if i + 1 < length xs then
               (case cb (xs ! (i + 1)) k ctx of (v, ctx') \<Rightarrow> iterate_loop cb (xs[i + 1 := v]) (i + 2) ctx')
             else None)
      else Some (xs, ctx))"
  by pat_completeness auto
termination by (relation "measure (\<lambda>(cb, xs, i, ctx). length xs - i)") auto

declare iterate_loop.simps [simp del]

definition launch_data_dict_iterate ::
  "launch_data \<Rightarrow> (launch_data option \<Rightarrow> cstring \<Rightarrow> 's \<Rightarrow> launch_data option \<times> 's) \<Rightarrow> 's \<Rightarrow> (launch_data \<times> 's) option" where
  "launch_data_dict_iterate d cb ctx =
     (case d of
        Dictionary xs \<Rightarrow> do { (ys, ctx') \<leftarrow> iterate_loop cb xs 0 ctx; Some (Dictionary ys, ctx') }
      | _ \<Rightarrow> Some (d, ctx))"

section \<open>Copies\<close>

text \<open>\<open>launch_data_copy\<close>: NULL elements stay NULL, strings are duplicated up to
  their terminator while \<open>string_len\<close> is copied as it is.\<close>

fun launch_data_copy :: "launch_data \<Rightarrow> launch_data option"
and copy_elems :: "elems \<Rightarrow> elems option" where
  "launch_data_copy (Dictionary xs) = map_option Dictionary (copy_elems xs)"
| "launch_data_copy (Array xs) = map_option Array (copy_elems xs)"
| "launch_data_copy (String (Some m) n) = do { s \<leftarrow> cstr m; Some (String (Some (strdup s)) n) }"
| "launch_data_copy (String None n) = None"
| "launch_data_copy (Opaque (Some b) n) = (if unat n \<le> length b then Some (Opaque (Some (take (unat n) b)) n) else None)"
| "launch_data_copy (Opaque None n) = (if n = 0 then Some (Opaque (Some []) 0) else None)"
| "launch_data_copy (Fd v) = Some (Fd v)"
| "launch_data_copy (Integer v) = Some (Integer v)"
| "launch_data_copy (Real v) = Some (Real v)"
| "launch_data_copy (Bool v) = Some (Bool v)"
| "launch_data_copy (Errno v) = Some (Errno v)"
| "launch_data_copy (Machport v) = Some (Machport v)"
| "copy_elems [] = Some []"
| "copy_elems (None # xs) = do { ys \<leftarrow> copy_elems xs; Some (None # ys) }"
| "copy_elems (Some d # xs) = do { e \<leftarrow> launch_data_copy d; ys \<leftarrow> copy_elems xs; Some (Some e # ys) }"

section \<open>Dictionary laws\<close>

text \<open>The entries of a dictionary object.\<close>

type_synonym entries = "(cstring \<times> launch_data) list"

definition key_obj :: "cstring \<Rightarrow> launch_data option" where
  "key_obj k = Some (String (Some (strdup k)) (of_nat (length k)))"

fun dict_of :: "entries \<Rightarrow> elems" where
  "dict_of [] = []"
| "dict_of ((k, v) # es) = key_obj k # Some v # dict_of es"

definition entries_ok :: "entries \<Rightarrow> bool" where
  "entries_ok es \<longleftrightarrow> (\<forall>(k, v) \<in> set es. 0 \<notin> set k) \<and> distinct (map (map tolower \<circ> fst) es)"

definition index_of :: "cstring \<Rightarrow> entries \<Rightarrow> nat" where
  "index_of key es = length (takeWhile (\<lambda>(k, v). \<not> strcasecmp_eq key k) es)"

lemma length_dict_of [simp]: "length (dict_of es) = 2 * length es"
  by (induction es rule: dict_of.induct) auto

lemma dict_of_append [simp]: "dict_of (xs @ ys) = dict_of xs @ dict_of ys"
  by (induction xs rule: dict_of.induct) auto

lemma nth_dict_of:
  "i < length es \<Longrightarrow> dict_of es ! (2 * i) = key_obj (fst (es ! i))"
  "i < length es \<Longrightarrow> dict_of es ! Suc (2 * i) = Some (snd (es ! i))"
proof (induction es arbitrary: i rule: dict_of.induct)
  case (2 k v es)
  { case 1 then show ?case using 2(1) by (cases i) auto }
  { case 2 then show ?case using "2.IH"(2) by (cases i) auto }
qed auto

lemma key_at_dict_of: "i < length es \<Longrightarrow> 0 \<notin> set (fst (es ! i)) \<Longrightarrow> key_at (dict_of es) (2 * i) = Some (fst (es ! i))"
  by (simp add: key_at_def nth_dict_of key_obj_def)

lemma dict_find_dict_of:
  assumes "\<forall>(k, v) \<in> set es. 0 \<notin> set k" and "n \<le> length es"
  shows "dict_find key (dict_of es) (2 * n) = Some (2 * (n + index_of key (drop n es)))"
  using assms(2)
proof (induction "length es - n" arbitrary: n)
  case 0
  then show ?case by (simp add: dict_find.simps index_of_def)
next
  case (Suc m)
  then have n: "n < length es" by simp
  then have drop: "drop n es = es ! n # drop (Suc n) es" by (simp add: Cons_nth_drop_Suc)
  have key: "key_at (dict_of es) (2 * n) = Some (fst (es ! n))"
    using n assms(1) by (intro key_at_dict_of) (auto simp: case_prod_beta)
  have IH: "dict_find key (dict_of es) (2 * Suc n) = Some (2 * (Suc n + index_of key (drop (Suc n) es)))"
    using Suc n by (intro Suc(1)) auto
  show ?case
    using n IH by (subst dict_find.simps) (simp add: key drop index_of_def case_prod_beta)
qed

lemma set_index_found: "i < length es \<Longrightarrow>
    set_index (set_index (dict_of es) (key_obj k) (2 * i)) (Some v) (2 * i + 1) = dict_of (es[i := (k, v)])"
proof -
  assume i: "i < length es"
  then have "dict_of es = dict_of (take i es) @ key_obj (fst (es ! i)) # Some (snd (es ! i)) # dict_of (drop (Suc i) es)"
    by (metis dict_of.simps(2) dict_of_append id_take_nth_drop prod.collapse)
  moreover have "es[i := (k, v)] = take i es @ (k, v) # drop (Suc i) es" using i by (simp add: upd_conv_take_nth_drop)
  ultimately show ?thesis
    using i by (simp add: set_index_def list_update_append)
qed

lemma set_index_append:
  "set_index (set_index (dict_of es) (key_obj k) (2 * length es)) (Some v) (2 * length es + 1) = dict_of (es @ [(k, v)])"
  by (simp add: set_index_def list_update_append)

definition contents :: "entries \<Rightarrow> cstring \<rightharpoonup> launch_data" where
  "contents es = map_of (map (\<lambda>(k, v). (map tolower k, v)) es)"

lemma contents_index:
  "contents es (map tolower key) =
     (if index_of key es < length es then Some (snd (es ! index_of key es)) else None)"
  by (induction es) (auto simp: contents_def index_of_def strcasecmp_eq_def)

lemma index_of_le: "index_of key es \<le> length es"
  by (simp add: index_of_def length_takeWhile_le)

lemma index_of_hit: "index_of key es < length es \<Longrightarrow> map tolower (fst (es ! index_of key es)) = map tolower key"
  unfolding index_of_def
  using nth_length_takeWhile [of "\<lambda>(k, v). \<not> strcasecmp_eq key k" es]
  by (simp add: strcasecmp_eq_def case_prod_beta)

definition put :: "cstring \<Rightarrow> launch_data \<Rightarrow> entries \<Rightarrow> entries" where
  "put k v es = (let i = index_of k es in if i < length es then es[i := (k, v)] else es @ [(k, v)])"

lemma contents_miss: "index_of key es = length es \<Longrightarrow> map tolower key \<notin> set (map (map tolower \<circ> fst) es)"
  using contents_index [of es key] by (force simp: contents_def map_of_eq_None_iff)

lemma entries_ok_put: "entries_ok es \<Longrightarrow> 0 \<notin> set k \<Longrightarrow> entries_ok (put k v es)"
proof (cases "index_of k es < length es")
  case True
  assume ok: "entries_ok es" and k: "0 \<notin> set k"
  have "map (map tolower \<circ> fst) (es[index_of k es := (k, v)]) = map (map tolower \<circ> fst) es"
    using True index_of_hit [OF True] by (simp add: map_update list_update_same_conv)
  then show ?thesis
    using ok k True set_update_subset_insert [of es "index_of k es" "(k, v)"]
    by (auto simp: entries_ok_def put_def Let_def)
next
  case False
  assume ok: "entries_ok es" and k: "0 \<notin> set k"
  with False contents_miss [of k es] index_of_le [of k es] show ?thesis
    by (auto simp: entries_ok_def put_def Let_def)
qed

lemma map_of_distinct_split:
  assumes "distinct (map fst (xs @ (a, b) # ys))"
  shows "map_of (xs @ (a, c) # ys) = (map_of (xs @ (a, b) # ys))(a \<mapsto> c)"
    and "map_of (xs @ ys) = (map_of (xs @ (a, b) # ys))(a := None)"
  using assms
  by (auto simp: fun_eq_iff map_add_def split: option.splits)
     (metis fst_conv image_eqI map_of_eq_None_iff option.distinct(1))+

lemma entry_split:
  assumes "index_of k es < length es"
  obtains k' v' where "es = take (index_of k es) es @ (k', v') # drop (Suc (index_of k es)) es"
    and "map tolower k' = map tolower k"
  using assms index_of_hit [OF assms] by (metis id_take_nth_drop prod.collapse)

lemma contents_put: "entries_ok es \<Longrightarrow> contents (put k v es) = (contents es)(map tolower k \<mapsto> v)"
proof (cases "index_of k es < length es")
  case True
  assume ok: "entries_ok es"
  let ?i = "index_of k es" and ?f = "\<lambda>(k, v). (map tolower k, v :: launch_data)"
  obtain k' v' where es: "es = take ?i es @ (k', v') # drop (Suc ?i) es" and k': "map tolower k' = map tolower k"
    using True by (rule entry_split)
  have d: "distinct (map fst (map ?f es))" using ok by (simp add: entries_ok_def comp_def case_prod_beta)
  have "map ?f es = map ?f (take ?i es) @ (map tolower k, v') # map ?f (drop (Suc ?i) es)"
    by (subst es) (simp add: k')
  with d True show ?thesis
    using map_of_distinct_split(1) [of "map ?f (take ?i es)" "map tolower k" v' "map ?f (drop (Suc ?i) es)" v]
    by (simp add: contents_def put_def Let_def upd_conv_take_nth_drop)
next
  case False
  with contents_miss [of k es] index_of_le [of k es]
  have "map tolower k \<notin> dom (contents es)"
    by (auto simp: contents_def dom_map_of_conv_image_fst image_iff case_prod_beta)
  with False show ?thesis
    by (simp add: contents_def put_def Let_def map_add_upd_left)
qed

definition drop_entry :: "cstring \<Rightarrow> entries \<Rightarrow> entries" where
  "drop_entry k es = (let i = index_of k es in take i es @ drop (Suc i) es)"

lemma entries_ok_drop: "entries_ok es \<Longrightarrow> entries_ok (drop_entry k es)"
proof -
  assume ok: "entries_ok es"
  let ?i = "index_of k es"
  have sub: "set (drop_entry k es) \<subseteq> set es"
    by (auto simp: drop_entry_def Let_def dest: in_set_takeD in_set_dropD)
  have "distinct (map (map tolower \<circ> fst) (take ?i es @ drop (Suc ?i) es))"
  proof (cases "?i < length es")
    case True
    then have "es = take ?i es @ es ! ?i # drop (Suc ?i) es" by (simp add: id_take_nth_drop)
    then have "map (map tolower \<circ> fst) es = map (map tolower \<circ> fst) (take ?i es) @
      (map tolower \<circ> fst) (es ! ?i) # map (map tolower \<circ> fst) (drop (Suc ?i) es)"
      by (metis list.simps(9) map_append)
    with ok show ?thesis by (auto simp: entries_ok_def)
  qed (use ok in \<open>simp add: entries_ok_def\<close>)
  with ok sub show ?thesis by (auto simp: entries_ok_def drop_entry_def Let_def)
qed

lemma contents_drop: "entries_ok es \<Longrightarrow> contents (drop_entry k es) = (contents es)(map tolower k := None)"
proof (cases "index_of k es < length es")
  case True
  assume ok: "entries_ok es"
  let ?i = "index_of k es" and ?f = "\<lambda>(k, v). (map tolower k, v :: launch_data)"
  obtain k' v' where es: "es = take ?i es @ (k', v') # drop (Suc ?i) es" and k': "map tolower k' = map tolower k"
    using True by (rule entry_split)
  have d: "distinct (map fst (map ?f es))" using ok by (simp add: entries_ok_def comp_def case_prod_beta)
  have "map ?f es = map ?f (take ?i es) @ (map tolower k, v') # map ?f (drop (Suc ?i) es)"
    by (subst es) (simp add: k')
  with d show ?thesis
    using map_of_distinct_split(2) [of "map ?f (take ?i es)" "map tolower k" v' "map ?f (drop (Suc ?i) es)"]
    by (simp add: contents_def drop_entry_def Let_def)
next
  case False
  then have "drop_entry k es = es" using index_of_le [of k es] by (simp add: drop_entry_def)
  with False contents_index [of es k] show ?thesis by auto
qed

text \<open>The entries of an object that has the shape of a dictionary.\<close>

fun entries_of :: "elems \<Rightarrow> entries" where
  "entries_of (Some (String (Some m) n) # Some v # xs) = (takeWhile (\<lambda>b. b \<noteq> 0) m, v) # entries_of xs"
| "entries_of _ = []"

lemma takeWhile_strdup: "0 \<notin> set k \<Longrightarrow> takeWhile (\<lambda>b. b \<noteq> 0) (strdup k) = k"
  by (auto simp: strdup_def takeWhile_append)

lemma entries_of_dict_of: "\<forall>(k, v) \<in> set es. 0 \<notin> set k \<Longrightarrow> entries_of (dict_of es) = es"
  by (induction es rule: dict_of.induct) (auto simp: key_obj_def takeWhile_strdup)

definition dict_ok :: "launch_data \<Rightarrow> bool" where
  "dict_ok d \<longleftrightarrow> (case d of Dictionary xs \<Rightarrow> xs = dict_of (entries_of xs) \<and> entries_ok (entries_of xs) | _ \<Rightarrow> False)"

definition dict_abs :: "launch_data \<Rightarrow> cstring \<rightharpoonup> launch_data" where
  "dict_abs d = (case d of Dictionary xs \<Rightarrow> contents (entries_of xs) | _ \<Rightarrow> Map.empty)"

lemma dict_okE:
  assumes "dict_ok d"
  obtains es where "d = Dictionary (dict_of es)" and "entries_ok es" and "dict_abs d = contents es"
  using assms by (auto simp: dict_ok_def dict_abs_def split: launch_data.splits)

lemma dict_okI: "entries_ok es \<Longrightarrow> dict_ok (Dictionary (dict_of es))"
  and dict_abs_of: "entries_ok es \<Longrightarrow> dict_abs (Dictionary (dict_of es)) = contents es"
  by (auto simp: dict_ok_def dict_abs_def entries_ok_def entries_of_dict_of)

lemma find_entry: "entries_ok es \<Longrightarrow> dict_find key (dict_of es) 0 = Some (2 * index_of key es)"
  using dict_find_dict_of [of es 0 key] by (simp add: entries_ok_def)

lemma dict_insert_dict_of:
  "entries_ok es \<Longrightarrow>
   launch_data_dict_insert (Dictionary (dict_of es)) (Some v) key = Some (Dictionary (dict_of (put key v es)))"
  using set_index_found [of "index_of key es" es key v] set_index_append [of es key v] index_of_le [of key es]
  by (auto simp: launch_data_dict_insert_def launch_data_array_set_index_def launch_data_set_string_def elems_of_def
      with_elems_def find_entry put_def Let_def key_obj_def)

lemma dict_lookup_dict_of:
  "entries_ok es \<Longrightarrow> launch_data_dict_lookup (Dictionary (dict_of es)) key = Some (contents es (map tolower key))"
  using index_of_le [of key es]
  by (simp add: launch_data_dict_lookup_def find_entry contents_index nth_dict_of)

lemma dict_remove_dict_of:
  assumes "entries_ok es"
  shows "launch_data_dict_remove (Dictionary (dict_of es)) key =
    Some (index_of key es < length es, Dictionary (dict_of (drop_entry key es)))"
proof (cases "index_of key es < length es")
  case True
  let ?i = "index_of key es"
  have "take (2 * ?i) (dict_of es) = dict_of (take ?i es)" "drop (2 * ?i + 2) (dict_of es) = dict_of (drop (Suc ?i) es)"
    using True append_take_drop_id [of ?i es] append_take_drop_id [of "Suc ?i" es]
    by (metis append_eq_conv_conj dict_of_append length_dict_of length_take less_or_eq_imp_le min.absorb2,
        metis Suc_leI append_eq_conv_conj dict_of_append length_dict_of length_take min.absorb2 mult_Suc_right add.commute)
  then show ?thesis
    using True assms
    by (simp add: launch_data_dict_remove_def elems_of_def with_elems_def find_entry nth_dict_of drop_entry_def key_obj_def Let_def)
next
  case False
  with index_of_le [of key es] have "index_of key es = length es" by simp
  with assms show ?thesis
    by (simp add: launch_data_dict_remove_def elems_of_def find_entry drop_entry_def)
qed

lemma contents_mem: "contents es (map tolower key) \<noteq> None \<longleftrightarrow> index_of key es < length es"
  by (simp add: contents_index)

interpretation launch_dict: keyed_dict dict_ok dict_abs "map tolower" "\<lambda>k. 0 \<notin> set k"
  "\<lambda>d v k. launch_data_dict_insert d (Some v) k" launch_data_dict_lookup launch_data_dict_remove
proof
  fix d v and q :: cstring
  assume "dict_ok d" "0 \<notin> set q"
  then show "\<exists>d'. launch_data_dict_insert d (Some v) q = Some d' \<and> dict_ok d' \<and>
      dict_abs d' = (dict_abs d)(map tolower q \<mapsto> v)"
    by (elim dict_okE) (simp add: dict_insert_dict_of dict_okI dict_abs_of entries_ok_put contents_put)
next
  fix d and q :: cstring
  assume ok: "dict_ok d"
  then show "launch_data_dict_lookup d q = Some (dict_abs d (map tolower q))"
    by (elim dict_okE) (simp add: dict_lookup_dict_of)
  from ok show "\<exists>d'. launch_data_dict_remove d q = Some (dict_abs d (map tolower q) \<noteq> None, d') \<and> dict_ok d' \<and>
      dict_abs d' = (dict_abs d)(map tolower q := None)"
    by (elim dict_okE)
      (simp add: dict_remove_dict_of dict_okI dict_abs_of entries_ok_drop contents_drop contents_mem del: not_None_eq)
qed
section \<open>Well-formed objects\<close>

text \<open>Objects as the constructors build them: no NULL element, strings with their
  terminator and length, opaque data of its size, descriptors in the range of
  \<open>int\<close>, no single object of \<open>2^62\<close> bytes or more.\<close>

fun obj_ok :: "launch_data \<Rightarrow> bool"
and elems_ok :: "elems \<Rightarrow> bool" where
  "obj_ok (Dictionary xs) \<longleftrightarrow> elems_ok xs"
| "obj_ok (Array xs) \<longleftrightarrow> elems_ok xs"
| "obj_ok (String (Some m) n) \<longleftrightarrow> unat n < 2 ^ 62 \<and> length m = unat n + 1 \<and> m ! unat n = 0 \<and> 0 \<notin> set (take (unat n) m)"
| "obj_ok (String None n) \<longleftrightarrow> False"
| "obj_ok (Opaque (Some b) n) \<longleftrightarrow> unat n < 2 ^ 62 \<and> length b = unat n"
| "obj_ok (Opaque None n) \<longleftrightarrow> False"
| "obj_ok (Fd v) \<longleftrightarrow> v = scast (ucast v :: 32 word)"
| "obj_ok (Integer v) \<longleftrightarrow> True"
| "obj_ok (Real v) \<longleftrightarrow> True"
| "obj_ok (Bool v) \<longleftrightarrow> True"
| "obj_ok (Errno v) \<longleftrightarrow> True"
| "obj_ok (Machport v) \<longleftrightarrow> True"
| "elems_ok [] \<longleftrightarrow> True"
| "elems_ok (None # xs) \<longleftrightarrow> False"
| "elems_ok (Some d # xs) \<longleftrightarrow> obj_ok d \<and> elems_ok xs"

lemma terminated_split:
  assumes "n < length m" and "m ! n = 0" and "0 \<notin> set (take n m)"
  shows "cstr m = Some (take n m)"
proof -
  have m: "m = take n m @ 0 # drop (Suc n) m" using assms(1,2) by (metis id_take_nth_drop)
  have "takeWhile (\<lambda>b. b \<noteq> 0) (take n m @ 0 # drop (Suc n) m) = take n m @ takeWhile (\<lambda>b. b \<noteq> 0) (0 # drop (Suc n) m)"
    using assms(3) by (intro takeWhile_append2) auto
  then have "takeWhile (\<lambda>b. b \<noteq> 0) m = take n m" by (simp flip: m)
  moreover have "0 \<in> set m" using assms(1,2) by (metis nth_mem)
  ultimately show ?thesis by (simp add: cstr_def)
qed

lemma obj_ok_string: "obj_ok (String (Some m) n) \<Longrightarrow> \<exists>s. m = strdup s \<and> 0 \<notin> set s \<and> unat n = length s"
proof -
  assume ok: "obj_ok (String (Some m) n)"
  then have "m = take (unat n) m @ [0]" by simp (metis lessI take_Suc_conv_app_nth take_all order_refl)
  with ok show ?thesis by (intro exI [of _ "take (unat n) m"]) (simp add: strdup_def)
qed

lemma obj_ok_copy:
  "obj_ok d \<Longrightarrow> launch_data_copy d = Some d"
  "elems_ok xs \<Longrightarrow> copy_elems xs = Some xs"
proof (induction d and xs rule: obj_ok_elems_ok.induct)
  case (3 m n)
  then obtain s where "m = strdup s" "0 \<notin> set s" using obj_ok_string by blast
  then show ?case by simp
qed auto

section \<open>Properties\<close>

text \<open>C28. A lookup after \<open>launch_data_dict_insert\<close> returns the inserted value for
  every spelling of the key, and what it returned before for every other key;
  the dictionary keeps one entry per key up to case.\<close>

theorem launch_dict_insert_lookup:
  assumes "dict_ok d" and "0 \<notin> set key"
  shows "\<exists>d'. launch_data_dict_insert d (Some v) key = Some d' \<and> dict_ok d' \<and>
    (\<forall>p. launch_data_dict_lookup d' p =
      (if strcasecmp_eq p key then Some (Some v) else launch_data_dict_lookup d p))"
  using launch_dict.ins_law [OF assms, of v] launch_dict.look_ins [OF assms, of v]
  unfolding strcasecmp_eq_def by blast

text \<open>\<open>launch_data_dict_remove\<close> reports whether the key was present and removes
  exactly the entry with that key up to case.\<close>

lemma launch_dict_remove_lookup:
  assumes "dict_ok d"
  shows "\<exists>b d'. launch_data_dict_remove d key = Some (b, d') \<and> dict_ok d' \<and>
    (b \<longleftrightarrow> launch_data_dict_lookup d key \<noteq> Some None) \<and>
    (\<forall>p. launch_data_dict_lookup d' p =
      (if strcasecmp_eq p key then Some None else launch_data_dict_lookup d p))"
  using launch_dict.del_law [OF assms, of key] launch_dict.look_del [OF assms, of key]
  unfolding strcasecmp_eq_def by blast

theorem launch_dict_insert_lookup_witness:
  "\<exists>d'. launch_data_dict_insert (Dictionary (dict_of [([65], Integer 1)])) (Some (Integer 2)) [97] = Some d' \<and>
     launch_data_dict_lookup d' [65] = Some (Some (Integer 2))"
proof -
  have "dict_ok (Dictionary (dict_of [([65], Integer 1)]))"
    by (rule dict_okI) (simp add: entries_ok_def)
  from launch_dict_insert_lookup [OF this, of "[97]" "Integer 2"] show ?thesis
    by (auto simp: strcasecmp_eq_def tolower_def)
qed

lemma launch_dict_remove_lookup_witness:
  "\<exists>d'. launch_data_dict_remove (Dictionary (dict_of [([65], Integer 1)])) [97] = Some (True, d') \<and>
     launch_data_dict_lookup d' [65] = Some None"
proof -
  have ok: "entries_ok [([65], Integer 1)]" by (simp add: entries_ok_def)
  then have "launch_data_dict_lookup (Dictionary (dict_of [([65], Integer 1)])) [97] \<noteq> Some None"
    by (simp only: dict_lookup_dict_of) (simp add: contents_def tolower_def)
  with launch_dict_remove_lookup [OF dict_okI [OF ok], of "[97]"] show ?thesis
    by (auto simp: strcasecmp_eq_def tolower_def)
qed

end
