(* ===== verification/Launch_Wire.thy ===== *)
theory Launch_Wire
  imports Launch_Data
begin

text \<open>
  The wire format of liblaunch: \<open>launch_data_pack\<close> and \<open>launch_data_unpack\<close> of
  \<open>src/src/darwin/launchd/liblaunch/liblaunch.c\<close> on a 64-bit little-endian
  host, where \<open>host2wire\<close> and \<open>big2wire\<close> are the identity and
  \<open>struct _launch_data\<close> has its type at offset 0, the scalar member or pointer at
  8, the count or size at 16, and 24 bytes.

  \<open>launch_data_pack\<close> writes into a memory block and leaves the other bytes of a
  node as they were.  \<open>launch_data_unpack\<close> reads a block of \<open>data_size\<close> bytes; its
  stores replace a node's own header members and pointer array, which no other
  node reads, so the model reads only.  Arithmetic on sizes taken from the wire
  is 64-bit; offsets stay below the block's size plus 8 and are naturals.

  Shown: packing stays inside the given length and succeeds exactly when the
  object fits; unpacking what was packed and copying it, as the callers do,
  gives the object back with its descriptors replaced in order; unpacking
  terminates and stays inside the block for every input; a string length of
  \<open>2^64 - 1\<close> is accepted.
\<close>

section \<open>Packing\<close>

fun type_code :: "launch_data_type \<Rightarrow> nat" where
  "type_code LAUNCH_DATA_DICTIONARY = 1"
| "type_code LAUNCH_DATA_ARRAY = 2"
| "type_code LAUNCH_DATA_FD = 3"
| "type_code LAUNCH_DATA_INTEGER = 4"
| "type_code LAUNCH_DATA_REAL = 5"
| "type_code LAUNCH_DATA_BOOL = 6"
| "type_code LAUNCH_DATA_STRING = 7"
| "type_code LAUNCH_DATA_OPAQUE = 8"
| "type_code LAUNCH_DATA_ERRNO = 9"
| "type_code LAUNCH_DATA_MACHPORT = 10"

definition type_of_code :: "u64 \<Rightarrow> launch_data_type option" where
  "type_of_code c =
     (if c = 1 then Some LAUNCH_DATA_DICTIONARY else if c = 2 then Some LAUNCH_DATA_ARRAY
      else if c = 3 then Some LAUNCH_DATA_FD else if c = 4 then Some LAUNCH_DATA_INTEGER
      else if c = 5 then Some LAUNCH_DATA_REAL else if c = 6 then Some LAUNCH_DATA_BOOL
      else if c = 7 then Some LAUNCH_DATA_STRING else if c = 8 then Some LAUNCH_DATA_OPAQUE
      else if c = 9 then Some LAUNCH_DATA_ERRNO else if c = 10 then Some LAUNCH_DATA_MACHPORT
      else None)"

definition ROUND_TO_64BIT_WORD_SIZE :: "u64 \<Rightarrow> u64" where
  "ROUND_TO_64BIT_WORD_SIZE x = (x + 7) AND NOT 7"

definition poke64 :: "byte list \<Rightarrow> nat \<Rightarrow> u64 \<Rightarrow> byte list option" where
  "poke64 buf off v = poke buf off (le_enc 8 (unat v))"

definition peek64 :: "byte list \<Rightarrow> nat \<Rightarrow> u64" where
  "peek64 data off = of_nat (le_val (slice data off 8))"

text \<open>Strings and opaque data: \<open>n\<close> bytes of \<open>m\<close>, then zeros up to the rounded size.\<close>

definition pack_bytes :: "byte list option \<Rightarrow> u64 \<Rightarrow> byte list \<Rightarrow> nat \<Rightarrow> nat \<Rightarrow> (byte list \<times> nat) option" where
  "pack_bytes m n buf w len =
     (let rounded = ROUND_TO_64BIT_WORD_SIZE n; node_data_len = unat (24 + rounded) in
      if node_data_len > len then Some (buf, 0)
      else do {
        bs \<leftarrow> m;
        if unat n \<le> length bs then do {
          buf1 \<leftarrow> poke buf (w + 24) (take (unat n) bs);
          buf2 \<leftarrow> poke buf1 (w + 24 + unat n) (replicate (unat (rounded - n)) 0);
          Some (buf2, node_data_len) }
        else None })"

text \<open>\<open>launch_data_pack\<close>: the block, the descriptors stored so far (\<open>None\<close> is a NULL
  \<open>fd_where\<close>) and the size, 0 when the object does not fit.\<close>

fun launch_data_pack ::
  "launch_data \<Rightarrow> byte list \<Rightarrow> nat \<Rightarrow> nat \<Rightarrow> 32 word list option \<Rightarrow> (byte list \<times> 32 word list option \<times> nat) option"
and pack_elems ::
  "elems \<Rightarrow> byte list \<Rightarrow> nat \<Rightarrow> nat \<Rightarrow> nat \<Rightarrow> 32 word list option \<Rightarrow> (byte list \<times> 32 word list option \<times> nat) option" where
  "launch_data_pack d buf w len fds =
     (if 24 > len then Some (buf, fds, 0)
      else do {
        b \<leftarrow> poke64 buf w (of_nat (type_code (launch_data_get_type d)));
        (case d of
           Integer v \<Rightarrow> do { b1 \<leftarrow> poke64 b (w + 8) v; Some (b1, fds, 24) }
         | Real v \<Rightarrow> do { b1 \<leftarrow> poke64 b (w + 8) v; Some (b1, fds, 24) }
         | Bool v \<Rightarrow> do { b1 \<leftarrow> poke64 b (w + 8) v; Some (b1, fds, 24) }
         | Errno v \<Rightarrow> do { b1 \<leftarrow> poke64 b (w + 8) v; Some (b1, fds, 24) }
         | Fd v \<Rightarrow> do {
             b1 \<leftarrow> poke64 b (w + 8) v;
             Some (b1, (if v \<noteq> - 1 then map_option (\<lambda>l. l @ [ucast v]) fds else fds), 24) }
         | String m n \<Rightarrow> do {
             b1 \<leftarrow> poke64 b (w + 16) n;
             (b2, rsz) \<leftarrow> pack_bytes m (n + 1) b1 w len;
             Some (b2, fds, rsz) }
         | Opaque m n \<Rightarrow> do {
             b1 \<leftarrow> poke64 b (w + 16) n;
             (b2, rsz) \<leftarrow> pack_bytes m n b1 w len;
             Some (b2, fds, rsz) }
         | Dictionary xs \<Rightarrow> do {
             b1 \<leftarrow> poke64 b (w + 16) (of_nat (length xs));
             if 24 + length xs * 8 > len then Some (b1, fds, 0)
             else pack_elems xs b1 (w + 24 + length xs * 8) len (24 + length xs * 8) fds }
         | Array xs \<Rightarrow> do {
             b1 \<leftarrow> poke64 b (w + 16) (of_nat (length xs));
             if 24 + length xs * 8 > len then Some (b1, fds, 0)
             else pack_elems xs b1 (w + 24 + length xs * 8) len (24 + length xs * 8) fds }
         | Machport v \<Rightarrow> Some (b, fds, 24)) })"
| "pack_elems [] buf w len node_data_len fds = Some (buf, fds, node_data_len)"
| "pack_elems (None # xs) buf w len node_data_len fds = None"
| "pack_elems (Some d # xs) buf w len node_data_len fds = do {
     (b1, fds1, rsz) \<leftarrow> launch_data_pack d buf w (len - node_data_len) fds;
     if rsz = 0 then Some (b1, fds1, 0)
     else pack_elems xs b1 (w + rsz) len (node_data_len + rsz) fds1 }"

declare launch_data_pack.simps [simp del]

section \<open>Unpacking\<close>

text \<open>\<open>launch_data_unpack\<close>: the object (\<open>None\<close> is NULL), \<open>data_offset\<close> and \<open>fdoffset\<close>.
  First the cases without elements, at the node's offset.\<close>

type_synonym 'a unpacked = "'a option \<times> nat \<times> nat"

definition unpack_leaf :: "launch_data_type \<Rightarrow> byte list \<Rightarrow> 32 word list \<Rightarrow> nat \<Rightarrow> nat \<Rightarrow> launch_data unpacked" where
  "unpack_leaf t data fds off fo =
     (let off1 = off + 24; member = peek64 data (off + 8); tmpcnt = peek64 data (off + 16) in
      (case t of
         LAUNCH_DATA_STRING \<Rightarrow>
           if length data - off1 < unat (tmpcnt + 1) then (None, off1, fo)
           else (Some (String (Some (drop off1 data)) tmpcnt),
                 off1 + unat (ROUND_TO_64BIT_WORD_SIZE (tmpcnt + 1)), fo)
       | LAUNCH_DATA_OPAQUE \<Rightarrow>
           if length data - off1 < unat tmpcnt then (None, off1, fo)
           else (Some (Opaque (Some (drop off1 data)) tmpcnt),
                 off1 + unat (ROUND_TO_64BIT_WORD_SIZE tmpcnt), fo)
       | LAUNCH_DATA_FD \<Rightarrow>
           if member \<noteq> - 1 \<and> length fds > fo then (Some (Fd (scast (fds ! fo))), off1, fo + 1)
           else (Some (Fd member), off1, fo)
       | LAUNCH_DATA_INTEGER \<Rightarrow> (Some (Integer member), off1, fo)
       | LAUNCH_DATA_REAL \<Rightarrow> (Some (Real member), off1, fo)
       | LAUNCH_DATA_BOOL \<Rightarrow> (Some (Bool member), off1, fo)
       | LAUNCH_DATA_ERRNO \<Rightarrow> (Some (Errno member), off1, fo)
       | LAUNCH_DATA_MACHPORT \<Rightarrow> (Some (Machport member), off1, fo)
       | _ \<Rightarrow> (None, off1, fo)))"

definition make_elems :: "launch_data_type \<Rightarrow> elems \<Rightarrow> launch_data" where
  "make_elems t xs = (if t = LAUNCH_DATA_DICTIONARY then Dictionary xs else Array xs)"

text \<open>The count of a dictionary or array: \<open>None\<close> where the two checks refuse it.\<close>

definition array_count :: "byte list \<Rightarrow> nat \<Rightarrow> nat option" where
  "array_count data off =
     (let tmpcnt = unat (peek64 data (off + 16)) in
      if tmpcnt > (2 ^ 64 - 1) div 8 then None
      else if length data - (off + 24) < tmpcnt * 8 then None
      else Some tmpcnt)"

function launch_data_unpack :: "byte list \<Rightarrow> 32 word list \<Rightarrow> nat \<Rightarrow> nat \<Rightarrow> launch_data unpacked"
and unpack_elems :: "byte list \<Rightarrow> 32 word list \<Rightarrow> nat \<Rightarrow> nat \<Rightarrow> nat \<Rightarrow> elems unpacked" where
  "launch_data_unpack data fds off fo =
     (if length data < off then (None, off, fo)
      else if length data - off < 24 then (None, off, fo)
      else (case type_of_code (peek64 data off) of
              None \<Rightarrow> (None, off + 24, fo)
            | Some t \<Rightarrow>
                if t = LAUNCH_DATA_DICTIONARY \<or> t = LAUNCH_DATA_ARRAY then
                  (case array_count data off of
                     None \<Rightarrow> (None, off + 24, fo)
                   | Some n \<Rightarrow>
                       (case unpack_elems data fds n (off + 24 + n * 8) fo of
                          (xs, off2, fo2) \<Rightarrow> (map_option (make_elems t) xs, off2, fo2)))
                else unpack_leaf t data fds off fo))"
| "unpack_elems data fds n off fo =
     (if n = 0 then (Some [], off, fo)
      else (case launch_data_unpack data fds off fo of
              (None, off1, fo1) \<Rightarrow> (None, off1, fo1)
            | (Some d, off1, fo1) \<Rightarrow>
                (case unpack_elems data fds (n - 1) off1 fo1 of
                   (xs, off2, fo2) \<Rightarrow> (map_option (\<lambda>l. Some d # l) xs, off2, fo2))))"
  by pat_completeness auto

text \<open>The offset never moves back, which gives termination: every node advances
  it by at least its header.\<close>

lemma unpack_leaf_mono: "off \<le> fst (snd (unpack_leaf t data fds off fo))"
  by (simp add: unpack_leaf_def Let_def split: launch_data_type.split)

lemma unpack_dom_mono:
  "launch_data_unpack_unpack_elems_dom (Inl (data, fds, off, fo)) \<Longrightarrow> off \<le> fst (snd (launch_data_unpack data fds off fo))"
  "launch_data_unpack_unpack_elems_dom (Inr (data, fds, n, off, fo)) \<Longrightarrow> off \<le> fst (snd (unpack_elems data fds n off fo))"
proof (induction data fds off fo and data fds n off fo rule: launch_data_unpack_unpack_elems.pinduct)
  case (1 data fds off fo)
  show ?case
    unfolding launch_data_unpack.psimps [OF 1(1)]
    using 1(2) unpack_leaf_mono [of off]
    by (fastforce split: option.split prod.splits)
next
  case (2 data fds n off fo)
  obtain r off1 fo1 where u: "launch_data_unpack data fds off fo = (r, off1, fo1)" by (metis prod_cases3)
  show ?case
  proof (cases "n = 0 \<or> r = None")
    case True
    then show ?thesis using 2(2) u by (auto simp: unpack_elems.psimps [OF 2(1)])
  next
    case False
    then obtain d where r: "r = Some d" by auto
    have "off \<le> off1" using 2(2) False u by simp
    also have "off1 \<le> fst (snd (unpack_elems data fds (n - 1) off1 fo1))"
      using 2(3) [of r "(off1, fo1)" d off1 fo1] False u r by simp
    finally show ?thesis using False u r by (auto simp: unpack_elems.psimps [OF 2(1)] split: prod.split)
  qed
qed

lemma unpack_dom_step:
  "(r, a, b) = launch_data_unpack data fds off fo \<Longrightarrow>
   launch_data_unpack_unpack_elems_dom (Inl (data, fds, off, fo)) \<Longrightarrow> off \<le> a"
  using unpack_dom_mono(1) [of data fds off fo] by (metis fst_conv snd_conv)

termination launch_data_unpack
  by (relation "measures [
      case_sum (\<lambda>(data, fds, off, fo). length data - off) (\<lambda>(data, fds, n, off, fo). length data - off),
      case_sum (\<lambda>_. 0) (\<lambda>(data, fds, n, off, fo). Suc n)]")
    (auto dest!: unpack_dom_step)

declare launch_data_unpack.simps [simp del] unpack_elems.simps [simp del]

lemma unpack_elems_0 [simp]: "unpack_elems data fds 0 off fo = (Some [], off, fo)"
  by (simp add: unpack_elems.simps)

lemma unpack_elems_Suc:
  "unpack_elems data fds (Suc n) off fo =
     (case launch_data_unpack data fds off fo of
        (None, off1, fo1) \<Rightarrow> (None, off1, fo1)
      | (Some d, off1, fo1) \<Rightarrow>
          (case unpack_elems data fds n off1 fo1 of
             (xs, off2, fo2) \<Rightarrow> (map_option (\<lambda>l. Some d # l) xs, off2, fo2)))"
  unfolding unpack_elems.simps [of data fds "Suc n"] diff_Suc_1 by simp

lemma unpack_mono:
  "launch_data_unpack data F off fo = (r, off', fo') \<Longrightarrow> off \<le> off'"
  "unpack_elems data F n off fo = (xs, off', fo') \<Longrightarrow> off \<le> off'"
proof -
  have dom: "launch_data_unpack_unpack_elems_dom x" for x
    by (rule "launch_data_unpack_unpack_elems.termination" [of "measures [
          case_sum (\<lambda>(data, fds, off, fo). length data - off) (\<lambda>(data, fds, n, off, fo). length data - off),
          case_sum (\<lambda>_. 0) (\<lambda>(data, fds, n, off, fo). Suc n)]", THEN spec])
      (auto dest!: unpack_dom_step)
  show "launch_data_unpack data F off fo = (r, off', fo') \<Longrightarrow> off \<le> off'"
    using unpack_dom_mono(1) [OF dom, of off data F fo] by simp
  show "unpack_elems data F n off fo = (xs, off', fo') \<Longrightarrow> off \<le> off'"
    using unpack_dom_mono(2) [OF dom, of off data F n fo] by simp
qed

section \<open>Packing is safe and succeeds when the object fits\<close>

text \<open>The size of a packed object.\<close>

definition round8 :: "nat \<Rightarrow> nat" where
  "round8 n = (n + 7) div 8 * 8"

fun packed_size :: "launch_data \<Rightarrow> nat"
and packed_sizes :: "elems \<Rightarrow> nat" where
  "packed_size (Dictionary xs) = 24 + length xs * 8 + packed_sizes xs"
| "packed_size (Array xs) = 24 + length xs * 8 + packed_sizes xs"
| "packed_size (String m n) = 24 + round8 (unat n + 1)"
| "packed_size (Opaque m n) = 24 + round8 (unat n)"
| "packed_size (Fd v) = 24"
| "packed_size (Integer v) = 24"
| "packed_size (Real v) = 24"
| "packed_size (Bool v) = 24"
| "packed_size (Errno v) = 24"
| "packed_size (Machport v) = 24"
| "packed_sizes [] = 0"
| "packed_sizes (None # xs) = packed_sizes xs"
| "packed_sizes (Some d # xs) = packed_size d + packed_sizes xs"

lemma packed_size_pos: "24 \<le> packed_size d"
  by (cases d) auto

lemma unat_round: "unat n + 7 < 2 ^ 64 \<Longrightarrow> unat (ROUND_TO_64BIT_WORD_SIZE n) = round8 (unat n)"
proof -
  assume n: "unat n + 7 < 2 ^ 64"
  have "unat (n + 7) = unat n + 7" using n by (simp add: unat_word_ariths(1))
  moreover have "(n + 7) AND NOT 7 = push_bit 3 (drop_bit 3 (n + 7))"
  proof (rule bit_word_eqI)
    have 7: "(7 :: u64) = mask 3" by (simp add: mask_eq_exp_minus_1)
    show "bit ((n + 7) AND NOT 7) k \<longleftrightarrow> bit (push_bit 3 (drop_bit 3 (n + 7))) k" if "k < LENGTH(64)" for k
      using that unfolding 7 by (auto simp: bit_simps)
  qed
  ultimately show ?thesis
    using n by (simp add: ROUND_TO_64BIT_WORD_SIZE_def round8_def unat_push_bit_mod unat_drop_bit)
qed

fun fds_of :: "launch_data \<Rightarrow> 32 word list"
and fds_of_elems :: "elems \<Rightarrow> 32 word list" where
  "fds_of (Fd v) = (if v \<noteq> - 1 then [ucast v] else [])"
| "fds_of (Dictionary xs) = fds_of_elems xs"
| "fds_of (Array xs) = fds_of_elems xs"
| "fds_of _ = []"
| "fds_of_elems [] = []"
| "fds_of_elems (None # xs) = fds_of_elems xs"
| "fds_of_elems (Some d # xs) = fds_of d @ fds_of_elems xs"

lemma poke64_ok:
  assumes "off + 8 \<le> length buf"
  obtains b where "poke64 buf off v = Some b" and "frame b buf off (off + 8)" and "peek64 b off = v"
proof -
  obtain b where b: "poke buf off (le_enc 8 (unat v)) = Some b" using assms poke_in [of off "le_enc 8 (unat v)" buf] by auto
  have "unat v < 256 ^ 8" using unsigned_less [of v] by simp
  then have "peek64 b off = v" using slice_poke [OF b] by (simp add: peek64_def)
  with that b frame_poke [OF b] show ?thesis by (simp add: poke64_def)
qed

lemma pack_bytes_ok:
  assumes "unat n < 2 ^ 63" and "w + len \<le> length buf" and "24 \<le> len" and "unat n \<le> length m"
  obtains b where
    "pack_bytes (Some m) n buf w len = Some (b, if 24 + round8 (unat n) \<le> len then 24 + round8 (unat n) else 0)"
    and "frame b buf (w + 24) (w + len)"
    and "24 + round8 (unat n) \<le> len \<Longrightarrow> slice b (w + 24) (unat n) = take (unat n) m"
proof -
  have r: "unat (ROUND_TO_64BIT_WORD_SIZE n) = round8 (unat n)" using assms(1) by (intro unat_round) simp
  have le: "unat n \<le> round8 (unat n)" "round8 (unat n) < 2 ^ 63 + 8" using assms(1) by (auto simp: round8_def)
  have s: "unat (24 + ROUND_TO_64BIT_WORD_SIZE n) = 24 + round8 (unat n)"
    using le r by (simp add: unat_word_ariths(1))
  have pad: "unat (ROUND_TO_64BIT_WORD_SIZE n - n) = round8 (unat n) - unat n"
    using le r by (simp add: unat_sub word_le_nat_alt)
  show ?thesis
  proof (cases "24 + round8 (unat n) \<le> len")
    case False
    then show ?thesis using that [of buf] by (simp add: pack_bytes_def s Let_def)
  next
    case True
    obtain b1 where b1: "poke buf (w + 24) (take (unat n) m) = Some b1"
      using poke_in [of "w + 24" "take (unat n) m" buf] True le assms by auto
    have l1: "length b1 = length buf" using b1 by (rule poke_SomeD)
    obtain b2 where b2: "poke b1 (w + 24 + unat n) (replicate (round8 (unat n) - unat n) 0) = Some b2"
      using poke_in [of "w + 24 + unat n" "replicate (round8 (unat n) - unat n) 0" b1] True le assms l1 by auto
    have f1: "frame b1 buf (w + 24) (w + len)"
      using True le assms by (intro frame_weaken [OF frame_poke [OF b1]]) auto
    have f2: "frame b2 b1 (w + 24) (w + len)"
      using True le assms by (intro frame_weaken [OF frame_poke [OF b2]]) auto
    have "agree b2 b1 (w + 24) (w + 24 + unat n)"
      using True le assms l1 by (intro frame_agree [OF frame_poke [OF b2]]) auto
    then have "slice b2 (w + 24) (unat n) = slice b1 (w + 24) (unat n)" by (rule agree_slice) auto
    also have "\<dots> = take (unat n) m" using slice_poke [OF b1] assms(4) by (simp add: min.absorb2)
    finally have "slice b2 (w + 24) (unat n) = take (unat n) m" .
    with that [of b2] True b1 b2 f1 f2 assms(4) show ?thesis
      by (simp add: pack_bytes_def s pad Let_def frame_trans [of b2 b1])
  qed
qed

text \<open>\<open>wire d b w\<close>: block \<open>b\<close> holds the packed form of \<open>d\<close> at offset \<open>w\<close>.\<close>

fun wire :: "launch_data \<Rightarrow> byte list \<Rightarrow> nat \<Rightarrow> bool"
and wires :: "elems \<Rightarrow> byte list \<Rightarrow> nat \<Rightarrow> bool" where
  "wire d b w \<longleftrightarrow> w + packed_size d \<le> length b \<and>
     peek64 b w = of_nat (type_code (launch_data_get_type d)) \<and>
     (case d of
        Integer v \<Rightarrow> peek64 b (w + 8) = v
      | Real v \<Rightarrow> peek64 b (w + 8) = v
      | Bool v \<Rightarrow> peek64 b (w + 8) = v
      | Errno v \<Rightarrow> peek64 b (w + 8) = v
      | Fd v \<Rightarrow> peek64 b (w + 8) = v
      | Machport v \<Rightarrow> True
      | String m n \<Rightarrow> peek64 b (w + 16) = n \<and> (\<forall>bs. m = Some bs \<longrightarrow> slice b (w + 24) (unat n + 1) = bs)
      | Opaque m n \<Rightarrow> peek64 b (w + 16) = n \<and> (\<forall>bs. m = Some bs \<longrightarrow> slice b (w + 24) (unat n) = bs)
      | Dictionary xs \<Rightarrow> peek64 b (w + 16) = of_nat (length xs) \<and> wires xs b (w + 24 + length xs * 8)
      | Array xs \<Rightarrow> peek64 b (w + 16) = of_nat (length xs) \<and> wires xs b (w + 24 + length xs * 8))"
| "wires [] b w \<longleftrightarrow> True"
| "wires (None # xs) b w \<longleftrightarrow> False"
| "wires (Some d # xs) b w \<longleftrightarrow> wire d b w \<and> wires xs b (w + packed_size d)"

declare wire.simps [simp del]

lemma round8_ge: "n \<le> round8 n"
  by (simp add: round8_def)

lemma peek64_agree: "agree x y a b \<Longrightarrow> a \<le> off \<Longrightarrow> off + 8 \<le> b \<Longrightarrow> peek64 x off = peek64 y off"
  by (simp add: peek64_def agree_slice [of x y a b])

lemma wire_agree:
  "wire d b w \<Longrightarrow> agree c b w (w + packed_size d) \<Longrightarrow> wire d c w"
  "wires xs b w \<Longrightarrow> agree c b w (w + packed_sizes xs) \<Longrightarrow> wires xs c w"
proof (induction d b w and xs b w rule: wire_wires.induct)
  case (1 d b w)
  have len: "w + packed_size d \<le> length c" using 1(4) by (simp add: agree_def)
  have p: "peek64 c off = peek64 b off" if "w \<le> off" "off + 8 \<le> w + packed_size d" for off
    using 1(4) that by (rule peek64_agree)
  have s: "slice c off n = slice b off n" if "w \<le> off" "off + n \<le> w + packed_size d" for off n
    using 1(4) that by (rule agree_slice)
  have h: "peek64 c w = peek64 b w" "peek64 c (w + 8) = peek64 b (w + 8)" "peek64 c (w + 16) = peek64 b (w + 16)"
    using p packed_size_pos [of d] by auto
  show ?case
    using 1 len h s round8_ge unfolding wire.simps [of d]
    by (cases d) (auto simp: agree_sub add.assoc intro: order_trans)
next
  case (4 d xs b w)
  then have "agree c b w (w + packed_size d)" "agree c b (w + packed_size d) (w + packed_size d + packed_sizes xs)"
    by (auto simp: add.assoc intro: agree_sub)
  with 4 show ?case by simp
qed auto

text \<open>What a call promises: it returns, 0 exactly when the object does not fit,
  changes no byte outside \<open>[w, e)\<close>, and on success adds the descriptors in order
  and leaves the object in the block.\<close>

definition packs :: "(byte list \<times> 32 word list option \<times> nat) option \<Rightarrow> byte list \<Rightarrow> nat \<Rightarrow> nat \<Rightarrow>
    32 word list option \<Rightarrow> bool \<Rightarrow> nat \<Rightarrow> 32 word list \<Rightarrow> (byte list \<Rightarrow> bool) \<Rightarrow> bool" where
  "packs res buf w e fds fits sz new P \<longleftrightarrow>
     (\<exists>b f. res = Some (b, f, if fits then sz else 0) \<and> frame b buf w e \<and>
        (fits \<longrightarrow> f = map_option (\<lambda>l. l @ new) fds \<and> P b))"

lemma map_option_append_Nil [simp]: "map_option (\<lambda>l. l) x = x"
  by (cases x) auto

text \<open>The two header stores of a node.\<close>

lemma pack_header:
  assumes "24 \<le> len" and "w + len \<le> length buf" and "k = 8 \<or> k = 16"
  obtains b b1 where "poke64 buf w tc = Some b" and "poke64 b (w + k) v = Some b1"
    and "frame b1 buf w (w + 24)" and "peek64 b1 w = tc" and "peek64 b1 (w + k) = v"
proof -
  obtain b where b: "poke64 buf w tc = Some b" "frame b buf w (w + 8)" "peek64 b w = tc"
    using assms by (auto intro: poke64_ok [of w buf tc])
  have l: "length b = length buf" using b(2) by (rule frame_length)
  obtain b1 where b1: "poke64 b (w + k) v = Some b1" "frame b1 b (w + k) (w + k + 8)" "peek64 b1 (w + k) = v"
    using assms l by (auto intro: poke64_ok [of "w + k" b v])
  have "agree b1 b w (w + 8)" using assms l by (intro frame_agree [OF b1(2)]) auto
  then have "peek64 b1 w = tc" using b(3) peek64_agree by fastforce
  moreover have "frame b1 buf w (w + 24)"
    using assms(3) by (auto intro: frame_join [OF b1(2) b(2)])
  ultimately show ?thesis using that b b1 by blast
qed

lemma pack_scalar:
  assumes "24 \<le> len" and "w + len \<le> length buf"
    and "\<And>b b1. poke64 buf w (of_nat (type_code (launch_data_get_type d))) = Some b \<Longrightarrow>
           poke64 b (w + 8) v = Some b1 \<Longrightarrow>
           launch_data_pack d buf w len fds = Some (b1, map_option (\<lambda>l. l @ new) fds, 24)"
    and "packed_size d = 24"
    and "\<And>b. w + 24 \<le> length b \<Longrightarrow> peek64 b w = of_nat (type_code (launch_data_get_type d)) \<Longrightarrow>
           peek64 b (w + 8) = v \<Longrightarrow> wire d b w"
  shows "packs (launch_data_pack d buf w len fds) buf w (w + len) fds (packed_size d \<le> len) (packed_size d) new (\<lambda>b. wire d b w)"
proof -
  obtain b b1 where b: "poke64 buf w (of_nat (type_code (launch_data_get_type d))) = Some b"
    "poke64 b (w + 8) v = Some b1" "frame b1 buf w (w + 24)"
    "peek64 b1 w = of_nat (type_code (launch_data_get_type d))" "peek64 b1 (w + 8) = v"
    using pack_header [OF assms(1,2), of 8] by blast
  moreover have "frame b1 buf w (w + len)" using assms(1) by (auto intro: frame_weaken [OF b(3)])
  moreover have "length b1 = length buf" using b(3) by (rule frame_length)
  ultimately show ?thesis using assms by (auto simp: packs_def)
qed

lemma pack_blob:
  assumes "24 \<le> len" and "w + len \<le> length buf" and "unat n < 2 ^ 63" and "unat n \<le> length m"
    and "\<And>b b1. poke64 buf w tc = Some b \<Longrightarrow> poke64 b (w + 16) v = Some b1 \<Longrightarrow>
           launch_data_pack d buf w len fds =
             do { (b2, rsz) \<leftarrow> pack_bytes (Some m) n b1 w len; Some (b2, fds, rsz) }"
    and "packed_size d = 24 + round8 (unat n)"
    and "\<And>b. w + packed_size d \<le> length b \<Longrightarrow> peek64 b w = tc \<Longrightarrow> peek64 b (w + 16) = v \<Longrightarrow>
           slice b (w + 24) (unat n) = take (unat n) m \<Longrightarrow> wire d b w"
  shows "packs (launch_data_pack d buf w len fds) buf w (w + len) fds (packed_size d \<le> len) (packed_size d) [] (\<lambda>b. wire d b w)"
proof -
  obtain b b1 where b: "poke64 buf w tc = Some b" "poke64 b (w + 16) v = Some b1" "frame b1 buf w (w + 24)"
    "peek64 b1 w = tc" "peek64 b1 (w + 16) = v"
    using pack_header [OF assms(1,2), of 16] by blast
  have l: "length b1 = length buf" using b(3) by (rule frame_length)
  obtain b2 where b2: "pack_bytes (Some m) n b1 w len = Some (b2, if packed_size d \<le> len then packed_size d else 0)"
    "frame b2 b1 (w + 24) (w + len)" "packed_size d \<le> len \<Longrightarrow> slice b2 (w + 24) (unat n) = take (unat n) m"
    using pack_bytes_ok [OF assms(3) _ assms(1,4), of w b1] assms(2,6) l by metis
  have a: "agree b2 b1 w (w + 24)" using assms l by (intro frame_agree [OF b2(2)]) auto
  have "frame b2 buf w (w + len)"
    using assms(1) by (auto intro: frame_join [OF b2(2) b(3)])
  moreover have "wire d b2 w" if "packed_size d \<le> len"
    using that assms(2) b(4,5) b2 l peek64_agree [OF a, of w] peek64_agree [OF a, of "w + 16"]
    by (intro assms(7)) (auto simp: frame_length)
  ultimately show ?thesis using assms(5) [OF b(1,2)] b2(1) by (auto simp: packs_def)
qed

lemma pack_array:
  assumes "24 \<le> len" and "w + len \<le> length buf" and "length buf < 2 ^ 63"
    and "\<And>b b1. poke64 buf w tc = Some b \<Longrightarrow> poke64 b (w + 16) (of_nat (length xs)) = Some b1 \<Longrightarrow>
           launch_data_pack d buf w len fds =
             (if 24 + length xs * 8 > len then Some (b1, fds, 0)
              else pack_elems xs b1 (w + 24 + length xs * 8) len (24 + length xs * 8) fds)"
    and "\<And>b1. 24 + length xs * 8 \<le> len \<Longrightarrow> length b1 = length buf \<Longrightarrow>
           packs (pack_elems xs b1 (w + 24 + length xs * 8) len (24 + length xs * 8) fds) b1
             (w + 24 + length xs * 8) (w + len) fds (packed_size d \<le> len) (packed_size d) (fds_of d)
             (\<lambda>b. wires xs b (w + 24 + length xs * 8))"
    and "packed_size d = 24 + length xs * 8 + packed_sizes xs"
    and "\<And>b. w + packed_size d \<le> length b \<Longrightarrow> peek64 b w = tc \<Longrightarrow> peek64 b (w + 16) = of_nat (length xs) \<Longrightarrow>
           wires xs b (w + 24 + length xs * 8) \<Longrightarrow> wire d b w"
  shows "packs (launch_data_pack d buf w len fds) buf w (w + len) fds (packed_size d \<le> len) (packed_size d) (fds_of d) (\<lambda>b. wire d b w)"
proof -
  obtain b b1 where b: "poke64 buf w tc = Some b" "poke64 b (w + 16) (of_nat (length xs)) = Some b1"
    "frame b1 buf w (w + 24)" "peek64 b1 w = tc" "peek64 b1 (w + 16) = of_nat (length xs)"
    using pack_header [OF assms(1,2), of 16] by blast
  have l: "length b1 = length buf" using b(3) by (rule frame_length)
  show ?thesis
  proof (cases "24 + length xs * 8 \<le> len")
    case False
    moreover from False have "\<not> packed_size d \<le> len" using assms(6) by simp
    moreover have "frame b1 buf w (w + len)" using assms(1) by (auto intro: frame_weaken [OF b(3)])
    ultimately show ?thesis using assms(4) [OF b(1,2)] by (simp add: packs_def)
  next
    case True
    then obtain b2 f where b2: "pack_elems xs b1 (w + 24 + length xs * 8) len (24 + length xs * 8) fds =
        Some (b2, f, if packed_size d \<le> len then packed_size d else 0)"
      "frame b2 b1 (w + 24 + length xs * 8) (w + len)"
      "packed_size d \<le> len \<Longrightarrow> f = map_option (\<lambda>l. l @ fds_of d) fds \<and> wires xs b2 (w + 24 + length xs * 8)"
      using assms(5) [OF True l] by (auto simp: packs_def)
    have a: "agree b2 b1 w (w + 24)" using assms(1,2) l by (intro frame_agree [OF b2(2)]) auto
    have "frame b2 buf w (w + len)" using assms(1) by (auto intro: frame_join [OF b2(2) b(3)])
    moreover have "wire d b2 w" if "packed_size d \<le> len"
      using that assms(2) b(4,5) b2 l peek64_agree [OF a, of w] peek64_agree [OF a, of "w + 16"]
      by (intro assms(7)) (auto simp: frame_length)
    ultimately show ?thesis using assms(4) [OF b(1,2)] b2 True by (auto simp: packs_def)
  qed
qed

lemma pack_short: "len < 24 \<Longrightarrow>
    packs (launch_data_pack d buf w len fds) buf w (w + len) fds (packed_size d \<le> len) (packed_size d) new P"
  using packed_size_pos [of d] by (simp add: packs_def launch_data_pack.simps)

lemma pack_cons:
  assumes "packs (launch_data_pack d buf w (len - ndl) fds) buf w (w + (len - ndl)) fds
      (packed_size d \<le> len - ndl) (packed_size d) (fds_of d) (\<lambda>b. wire d b w)"
    and "\<And>b f. packed_size d \<le> len - ndl \<Longrightarrow> length b = length buf \<Longrightarrow>
      packs (pack_elems xs b (w + packed_size d) len (ndl + packed_size d) f) b (w + packed_size d) (w + (len - ndl)) f
        (ndl + packed_size d + packed_sizes xs \<le> len) (ndl + packed_size d + packed_sizes xs) (fds_of_elems xs)
        (\<lambda>b. wires xs b (w + packed_size d))"
    and "ndl \<le> len" and "w + (len - ndl) \<le> length buf"
  shows "packs (pack_elems (Some d # xs) buf w len ndl fds) buf w (w + (len - ndl)) fds
    (ndl + packed_sizes (Some d # xs) \<le> len) (ndl + packed_sizes (Some d # xs)) (fds_of_elems (Some d # xs))
    (\<lambda>b. wires (Some d # xs) b w)"
proof -
  obtain b1 f1 where b1: "launch_data_pack d buf w (len - ndl) fds =
      Some (b1, f1, if packed_size d \<le> len - ndl then packed_size d else 0)"
    "frame b1 buf w (w + (len - ndl))"
    "packed_size d \<le> len - ndl \<Longrightarrow> f1 = map_option (\<lambda>l. l @ fds_of d) fds \<and> wire d b1 w"
    using assms(1) by (auto simp: packs_def)
  have l: "length b1 = length buf" using b1(2) by (rule frame_length)
  show ?thesis
  proof (cases "packed_size d \<le> len - ndl")
    case False
    then show ?thesis using b1 assms(3) by (auto simp: packs_def)
  next
    case True
    obtain b2 f2 where b2: "pack_elems xs b1 (w + packed_size d) len (ndl + packed_size d) f1 =
        Some (b2, f2, if ndl + packed_size d + packed_sizes xs \<le> len then ndl + packed_size d + packed_sizes xs else 0)"
      "frame b2 b1 (w + packed_size d) (w + (len - ndl))"
      "ndl + packed_size d + packed_sizes xs \<le> len \<Longrightarrow>
        f2 = map_option (\<lambda>l. l @ fds_of_elems xs) f1 \<and> wires xs b2 (w + packed_size d)"
      using assms(2) [OF True l, of f1] by (auto simp: packs_def)
    have "agree b2 b1 w (w + packed_size d)"
      using True assms(4) l by (intro frame_agree [OF b2(2)]) auto
    with b1(3) True have "wire d b2 w" using wire_agree(1) by blast
    moreover have "frame b2 buf w (w + (len - ndl))" by (rule frame_join [OF b2(2) b1(2)]) auto
    ultimately show ?thesis
      using True b1(1,3) b2 packed_size_pos [of d]
      by (auto simp: packs_def option.map_comp comp_def add.assoc)
  qed
qed

lemma pack_ok:
  "obj_ok d \<Longrightarrow> w + len \<le> length buf \<Longrightarrow> length buf < 2 ^ 63 \<Longrightarrow>
     packs (launch_data_pack d buf w len fds) buf w (w + len) fds (packed_size d \<le> len) (packed_size d) (fds_of d) (\<lambda>b. wire d b w)"
  "elems_ok xs \<Longrightarrow> ndl \<le> len \<Longrightarrow> w + (len - ndl) \<le> length buf \<Longrightarrow> length buf < 2 ^ 63 \<Longrightarrow>
     packs (pack_elems xs buf w len ndl fds) buf w (w + (len - ndl)) fds (ndl + packed_sizes xs \<le> len)
       (ndl + packed_sizes xs) (fds_of_elems xs) (\<lambda>b. wires xs b w)"
proof (induction d and xs arbitrary: buf w len fds and buf w len ndl fds rule: obj_ok_elems_ok.induct)
  case (1 xs)
  show ?case
  proof (cases "24 \<le> len")
    case True
    have e: "w + 24 + length xs * 8 + (len - (24 + length xs * 8)) = w + len" if "24 + length xs * 8 \<le> len"
      using that by simp
    show ?thesis
      using 1(1) [of "24 + length xs * 8" len "w + 24 + length xs * 8" _ fds, unfolded add.assoc [symmetric]] 1(2-) True e
      by (intro pack_array [where xs = xs and tc = 1])
        (simp_all add: launch_data_pack.simps wire.simps add.assoc [symmetric])
  qed (rule pack_short, simp)
next
  case (2 xs)
  show ?case
  proof (cases "24 \<le> len")
    case True
    have e: "w + 24 + length xs * 8 + (len - (24 + length xs * 8)) = w + len" if "24 + length xs * 8 \<le> len"
      using that by simp
    show ?thesis
      using 2(1) [of "24 + length xs * 8" len "w + 24 + length xs * 8" _ fds, unfolded add.assoc [symmetric]] 2(2-) True e
      by (intro pack_array [where xs = xs and tc = 2])
        (simp_all add: launch_data_pack.simps wire.simps add.assoc [symmetric])
  qed (rule pack_short, simp)
next
  case (3 m n)
  show ?case
  proof (cases "24 \<le> len")
    case True
    have "unat (n + 1) = unat n + 1" using 3(1) by (simp add: unat_word_ariths(1))
    then show ?thesis
      using 3 True
      by (simp only: fds_of.simps, intro pack_blob [where tc = 7 and m = m and n = "n + 1" and v = n])
        (auto simp: launch_data_pack.simps wire.simps)
  qed (rule pack_short, simp)
next
  case (5 m n)
  show ?case
  proof (cases "24 \<le> len")
    case True
    have "unat (n + 1) = unat n + 1" using 5(1) by (simp add: unat_word_ariths(1))
    then show ?thesis
      using 5 True
      by (simp only: fds_of.simps, intro pack_blob [where tc = 8 and m = m and n = "n" and v = n])
        (auto simp: launch_data_pack.simps wire.simps)
  qed (rule pack_short, simp)
next
  case (7 v)
  then show ?case
    by (cases "24 \<le> len", intro pack_scalar [where v = v]) (auto simp: launch_data_pack.simps wire.simps packs_def)
next
  case (8 v)
  then show ?case
    by (cases "24 \<le> len", intro pack_scalar [where v = v]) (auto simp: launch_data_pack.simps wire.simps packs_def)
next
  case (9 v)
  then show ?case
    by (cases "24 \<le> len", intro pack_scalar [where v = v]) (auto simp: launch_data_pack.simps wire.simps packs_def)
next
  case (10 v)
  then show ?case
    by (cases "24 \<le> len", intro pack_scalar [where v = v]) (auto simp: launch_data_pack.simps wire.simps packs_def)
next
  case (11 v)
  then show ?case
    by (cases "24 \<le> len", intro pack_scalar [where v = v]) (auto simp: launch_data_pack.simps wire.simps packs_def)
next
  case (12 v)
  show ?case
  proof (cases "24 \<le> len")
    case True
    obtain b where "poke64 buf w 10 = Some b" "frame b buf w (w + 8)" "peek64 b w = 10"
      using True 12 by (auto intro: poke64_ok [of w buf 10])
    with True 12 show ?thesis
      by (auto simp: packs_def launch_data_pack.simps wire.simps frame_length intro: frame_weaken)
  qed (rule pack_short, simp)
next
  case (15 d xs)
  have ok: "obj_ok d" "elems_ok xs" using 15(3) by auto
  show ?case
  proof (rule pack_cons)
    show "packs (launch_data_pack d buf w (len - ndl) fds) buf w (w + (len - ndl)) fds
        (packed_size d \<le> len - ndl) (packed_size d) (fds_of d) (\<lambda>b. wire d b w)"
      using 15 ok by blast
    show "packs (pack_elems xs b (w + packed_size d) len (ndl + packed_size d) f) b (w + packed_size d) (w + (len - ndl)) f
        (ndl + packed_size d + packed_sizes xs \<le> len) (ndl + packed_size d + packed_sizes xs) (fds_of_elems xs)
        (\<lambda>b. wires xs b (w + packed_size d))"
      if "packed_size d \<le> len - ndl" "length b = length buf" for b f
    proof -
      have "w + packed_size d + (len - (ndl + packed_size d)) = w + (len - ndl)" "ndl + packed_size d \<le> len"
        using that(1) 15(4) by auto
      then show ?thesis
        using 15(2) [of "ndl + packed_size d" len "w + packed_size d" b f] ok that(2) 15(5,6) by simp
    qed
  qed (use 15 in auto)
qed (auto simp: packs_def)

section \<open>Unpacking what was packed\<close>

text \<open>The object with its descriptors replaced by those received in their place.\<close>

fun rename_fds :: "(32 word \<Rightarrow> 32 word) \<Rightarrow> launch_data \<Rightarrow> launch_data"
and rename_elems :: "(32 word \<Rightarrow> 32 word) \<Rightarrow> elems \<Rightarrow> elems" where
  "rename_fds g (Fd v) = (if v = - 1 then Fd v else Fd (scast (g (ucast v))))"
| "rename_fds g (Dictionary xs) = Dictionary (rename_elems g xs)"
| "rename_fds g (Array xs) = Array (rename_elems g xs)"
| "rename_fds g d = d"
| "rename_elems g [] = []"
| "rename_elems g (None # xs) = None # rename_elems g xs"
| "rename_elems g (Some d # xs) = Some (rename_fds g d) # rename_elems g xs"

text \<open>Mach ports are not carried by the wire format: only their type is stored.\<close>

fun portless :: "launch_data \<Rightarrow> bool"
and portless_elems :: "elems \<Rightarrow> bool" where
  "portless (Machport v) = False"
| "portless (Dictionary xs) = portless_elems xs"
| "portless (Array xs) = portless_elems xs"
| "portless _ = True"
| "portless_elems [] = True"
| "portless_elems (None # xs) = portless_elems xs"
| "portless_elems (Some d # xs) \<longleftrightarrow> portless d \<and> portless_elems xs"

lemma type_of_code_code [simp]: "type_of_code (of_nat (type_code t)) = Some t"
  by (cases t) (simp_all add: type_of_code_def)

lemma unpack_leaf_eq:
  assumes "wire d b w" and "launch_data_get_type d \<noteq> LAUNCH_DATA_DICTIONARY" and "launch_data_get_type d \<noteq> LAUNCH_DATA_ARRAY"
  shows "launch_data_unpack b F w fo = unpack_leaf (launch_data_get_type d) b F w fo"
  using assms packed_size_pos [of d]
  by (subst launch_data_unpack.simps) (auto simp: wire.simps)

lemma unpack_array_eq:
  assumes "w + 24 + length xs * 8 \<le> length b" and "length b < 2 ^ 63"
    and "peek64 b w = of_nat (type_code t)" and "t = LAUNCH_DATA_DICTIONARY \<or> t = LAUNCH_DATA_ARRAY"
    and "peek64 b (w + 16) = of_nat (length xs)"
    and "unpack_elems b F (length xs) (w + 24 + length xs * 8) fo = (Some ys, off, fo')"
  shows "launch_data_unpack b F w fo = (Some (make_elems t ys), off, fo')"
proof -
  have "unat (of_nat (length xs) :: u64) = length xs"
    using assms(1,2) by (simp add: unat_of_nat)
  then have "array_count b w = Some (length xs)"
    using assms(1,2,5) by (auto simp: array_count_def Let_def)
  then show ?thesis
    using assms by (subst launch_data_unpack.simps) auto
qed

lemma unpack_string:
  assumes "wire (String (Some m) n) b w" and "obj_ok (String (Some m) n)"
  shows "\<exists>r. launch_data_unpack b F w fo = (Some r, w + packed_size (String (Some m) n), fo) \<and>
    launch_data_copy r = Some (String (Some m) n)"
proof -
  let ?N = "unat n"
  have n1: "unat (n + 1) = ?N + 1" using assms(2) by (simp add: unat_word_ariths(1))
  have r: "unat (ROUND_TO_64BIT_WORD_SIZE (n + 1)) = round8 (?N + 1)"
    using unat_round [of "n + 1"] n1 assms(2) by simp
  have len: "w + 24 + round8 (?N + 1) \<le> length b" and sl: "slice b (w + 24) (?N + 1) = m"
    and tmp: "peek64 b (w + 16) = n" using assms(1) by (auto simp: wire.simps)
  have len': "w + 24 + (?N + 1) \<le> length b" using len round8_ge [of "?N + 1"] by simp
  have "drop (w + 24) b ! ?N = 0"
    using assms(2) len' sl nth_slice [of ?N "?N + 1" "w + 24" b] by simp
  moreover have tk: "take ?N (drop (w + 24) b) = take ?N m"
    using sl by (simp add: slice_def min_def flip: sl)
  ultimately have "cstr (drop (w + 24) b) = Some (take ?N m)"
    using terminated_split [of ?N "drop (w + 24) b"] len' assms(2) by auto
  moreover have "strdup (take ?N m) = m"
    using assms(2) by (auto simp: strdup_def) (metis lessI order_refl take_Suc_conv_app_nth take_all)
  ultimately show ?thesis
    using assms(1) len' n1 r tmp by (simp add: unpack_leaf_eq unpack_leaf_def Let_def)
qed

lemma unpack_opaque:
  assumes "wire (Opaque (Some m) n) b w" and "obj_ok (Opaque (Some m) n)"
  shows "\<exists>r. launch_data_unpack b F w fo = (Some r, w + packed_size (Opaque (Some m) n), fo) \<and>
    launch_data_copy r = Some (Opaque (Some m) n)"
proof -
  let ?N = "unat n"
  have r: "unat (ROUND_TO_64BIT_WORD_SIZE n) = round8 ?N"
    using unat_round [of n] assms(2) by simp
  have len: "w + 24 + round8 ?N \<le> length b" and sl: "slice b (w + 24) ?N = m"
    and tmp: "peek64 b (w + 16) = n" using assms(1) by (auto simp: wire.simps)
  have len': "w + 24 + ?N \<le> length b" using len round8_ge [of ?N] by simp
  show ?thesis
    using assms(1) len' r tmp sl by (simp add: unpack_leaf_eq unpack_leaf_def Let_def slice_def)
qed

lemma unpack_wire:
  "wire d b w \<Longrightarrow> obj_ok d \<Longrightarrow> portless d \<Longrightarrow> length b < 2 ^ 63 \<Longrightarrow>
     slice F fo (length (fds_of d)) = map g (fds_of d) \<Longrightarrow>
     \<exists>r. launch_data_unpack b F w fo = (Some r, w + packed_size d, fo + length (fds_of d)) \<and>
       launch_data_copy r = Some (rename_fds g d)"
  "wires xs b w \<Longrightarrow> elems_ok xs \<Longrightarrow> portless_elems xs \<Longrightarrow> length b < 2 ^ 63 \<Longrightarrow>
     slice F fo (length (fds_of_elems xs)) = map g (fds_of_elems xs) \<Longrightarrow>
     \<exists>ys. unpack_elems b F (length xs) w fo = (Some ys, w + packed_sizes xs, fo + length (fds_of_elems xs)) \<and>
       copy_elems ys = Some (rename_elems g xs)"
proof (induction d and xs arbitrary: w fo and w fo rule: obj_ok_elems_ok.induct)
  case (1 xs)
  let ?w = "w + 24 + length xs * 8"
  obtain ys where "unpack_elems b F (length xs) ?w fo = (Some ys, ?w + packed_sizes xs, fo + length (fds_of_elems xs))"
    "copy_elems ys = Some (rename_elems g xs)"
    using 1(1) [of ?w fo] 1(2-) by (auto simp: wire.simps)
  then show ?case
    using unpack_array_eq [of w xs b LAUNCH_DATA_DICTIONARY F fo ys] 1(2-)
    by (auto simp: wire.simps make_elems_def)
next
  case (2 xs)
  let ?w = "w + 24 + length xs * 8"
  obtain ys where "unpack_elems b F (length xs) ?w fo = (Some ys, ?w + packed_sizes xs, fo + length (fds_of_elems xs))"
    "copy_elems ys = Some (rename_elems g xs)"
    using 2(1) [of ?w fo] 2(2-) by (auto simp: wire.simps)
  then show ?case
    using unpack_array_eq [of w xs b LAUNCH_DATA_ARRAY F fo ys] 2(2-)
    by (auto simp: wire.simps make_elems_def)
next
  case (3 m n)
  then show ?case using unpack_string [of m n b w F fo] by simp
next
  case (5 m n)
  then show ?case using unpack_opaque [of m n b w F fo] by simp
next
  case (7 v)
  then show ?case
    using unpack_leaf_eq [OF 7(1)]
    by (auto simp: unpack_leaf_def Let_def wire.simps dest!: slice_one)
next
  case (15 d xs)
  have F: "slice F fo (length (fds_of d)) = map g (fds_of d)"
    "slice F (fo + length (fds_of d)) (length (fds_of_elems xs)) = map g (fds_of_elems xs)"
    using slice_append [of F fo "map g (fds_of d)" "length (fds_of_elems xs)"] 15(7) by auto
  obtain r where r: "launch_data_unpack b F w fo = (Some r, w + packed_size d, fo + length (fds_of d))"
    "launch_data_copy r = Some (rename_fds g d)"
    using 15(1) [OF _ _ _ _ F(1)] 15(3-6) by auto
  obtain ys where "unpack_elems b F (length xs) (w + packed_size d) (fo + length (fds_of d)) =
      (Some ys, w + packed_size d + packed_sizes xs, fo + length (fds_of d) + length (fds_of_elems xs))"
    "copy_elems ys = Some (rename_elems g xs)"
    using 15(2) [OF _ _ _ _ F(2)] 15(3-6) by auto
  with r show ?case by (simp add: unpack_elems_Suc)
qed ((frule unpack_leaf_eq [where F = F]; auto simp: unpack_leaf_def Let_def wire.simps) | simp)+

lemma rename_id:
  "obj_ok d \<Longrightarrow> rename_fds id d = d"
  "elems_ok xs \<Longrightarrow> rename_elems id xs = xs"
  by (induction d and xs rule: obj_ok_elems_ok.induct) auto

lemma agree_take: "n \<le> length b \<Longrightarrow> agree (take n b) b 0 n"
  by (simp add: agree_def)

lemma slice_all [simp]: "slice xs 0 (length xs) = xs"
  by (simp add: slice_def)

lemma pack_unpack:
  assumes "obj_ok d" and "portless d" and "len \<le> length buf" and "length buf < 2 ^ 63" and "packed_size d \<le> len"
  shows "\<exists>b. launch_data_pack d buf 0 len (Some []) = Some (b, Some (fds_of d), packed_size d) \<and> length b = length buf \<and>
    (\<exists>r. launch_data_unpack (take (packed_size d) b) (map g (fds_of d)) 0 0 = (Some r, packed_size d, length (fds_of d)) \<and>
      launch_data_copy r = Some (rename_fds g d))"
proof -
  obtain b where b: "launch_data_pack d buf 0 len (Some []) = Some (b, Some (fds_of d), packed_size d)"
    "frame b buf 0 len" "wire d b 0"
    using pack_ok(1) [OF assms(1), of 0 len buf "Some []"] assms(3-5) by (auto simp: packs_def)
  have l: "length b = length buf" using b(2) by (rule frame_length)
  have "wire d (take (packed_size d) b) 0"
    using wire_agree(1) [OF b(3), of "take (packed_size d) b"] agree_take [of "packed_size d" b] assms(3,5) l by simp
  from unpack_wire(1) [OF this assms(1,2), of "map g (fds_of d)" 0 g] b(1) l assms(3-5)
  show ?thesis by (simp add: slice_def)
qed

text \<open>Packing as an encoder into a block of \<open>len\<close> bytes, and unpack and copy as its
  decoder.\<close>

definition wire_encode :: "nat \<Rightarrow> launch_data \<Rightarrow> (byte list \<times> 32 word list) option" where
  "wire_encode len d =
     (if obj_ok d \<and> portless d \<and> len < 2 ^ 63 then
        (case launch_data_pack d (replicate len 0) 0 len (Some []) of
           Some (b, Some fds, n) \<Rightarrow> if n = 0 then None else Some (take n b, fds)
         | _ \<Rightarrow> None)
      else None)"

definition wire_decode :: "byte list \<times> 32 word list \<Rightarrow> launch_data option" where
  "wire_decode m = (case launch_data_unpack (fst m) (snd m) 0 0 of (Some r, _, _) \<Rightarrow> launch_data_copy r | _ \<Rightarrow> None)"

interpretation wire_codec: codec "wire_encode len" wire_decode for len
proof
  fix d y
  assume enc: "wire_encode len d = Some y"
  then have ok: "obj_ok d" "portless d" "len < 2 ^ 63" by (auto simp: wire_encode_def split: if_splits)
  have "packed_size d \<le> len"
  proof (rule ccontr)
    assume "\<not> ?thesis"
    then have "\<exists>b f. launch_data_pack d (replicate len 0) 0 len (Some []) = Some (b, f, 0)"
      using pack_ok(1) [OF ok(1), of 0 len "replicate len 0" "Some []"] ok(3) by (auto simp: packs_def)
    with enc show False by (auto simp: wire_encode_def split: option.splits if_splits)
  qed
  with pack_unpack [OF ok(1,2), of len "replicate len 0" id] ok enc show "wire_decode y = Some d"
    by (auto simp: wire_encode_def wire_decode_def rename_id split: if_splits)
qed

section \<open>Arbitrary input\<close>

lemma unat_round_le: "unat n + 7 < 2 ^ 64 \<Longrightarrow> unat (ROUND_TO_64BIT_WORD_SIZE n) \<le> unat n + 7"
  using unat_round [of n] by (simp add: round8_def)

lemma unpack_leaf_bounds:
  assumes "off + 24 \<le> length data" and "length data < 2 ^ 63" and "unpack_leaf t data F off fo = (r, off', fo')"
  shows "off + 24 \<le> off' \<and> off' \<le> length data + 7 \<and> fo \<le> fo' \<and> fo' \<le> max fo (length F)"
proof -
  let ?n = "peek64 data (off + 16)"
  have s: "unat (ROUND_TO_64BIT_WORD_SIZE (?n + 1)) \<le> unat (?n + 1) + 7" if "unat (?n + 1) \<le> length data - (off + 24)"
    using that assms(2) by (intro unat_round_le) simp
  have o: "unat (ROUND_TO_64BIT_WORD_SIZE ?n) \<le> unat ?n + 7" if "unat ?n \<le> length data - (off + 24)"
    using that assms(2) by (intro unat_round_le) simp
  show ?thesis
    using assms s o by (auto simp: unpack_leaf_def Let_def split: launch_data_type.splits if_splits)
qed

lemma unpack_bounds:
  "length data < 2 ^ 63 \<Longrightarrow> off \<le> length data + 7 \<Longrightarrow> launch_data_unpack data F off fo = (r, off', fo') \<Longrightarrow>
     off \<le> off' \<and> off' \<le> length data + 7 \<and> fo \<le> fo' \<and> fo' \<le> max fo (length F)"
  "length data < 2 ^ 63 \<Longrightarrow> off \<le> length data + 7 \<Longrightarrow> unpack_elems data F n off fo = (xs, off', fo') \<Longrightarrow>
     off \<le> off' \<and> off' \<le> length data + 7 \<and> fo \<le> fo' \<and> fo' \<le> max fo (length F)"
proof (induction data F off fo and data F n off fo arbitrary: r off' fo' and xs off' fo' rule: launch_data_unpack_unpack_elems.induct)
  case (1 data F off fo)
  show ?case
  proof (cases "length data < off \<or> length data - off < 24 \<or> type_of_code (peek64 data off) = None")
    case True
    then show ?thesis using 1(2-) by (subst (asm) launch_data_unpack.simps) (auto split: if_splits)
  next
    case False
    then obtain t where t: "type_of_code (peek64 data off) = Some t" and ng: "\<not> length data < off" "\<not> length data - off < 24"
      by auto
    then have off: "off + 24 \<le> length data" by simp
    note unfold = launch_data_unpack.simps [of data F off fo]
    show ?thesis
    proof (cases "t = LAUNCH_DATA_DICTIONARY \<or> t = LAUNCH_DATA_ARRAY")
      case False
      then have "unpack_leaf t data F off fo = (r, off', fo')"
        using 1(4) by (simp add: unfold t ng)
      with unpack_leaf_bounds [OF off 1(2) this] show ?thesis by simp
    next
      case array: True
      show ?thesis
      proof (cases "array_count data off")
        case None
        with 1(4) array have "off' = off + 24" "fo' = fo" by (simp_all add: unfold t ng)
        with off show ?thesis by simp
      next
        case (Some n)
        obtain xs off2 fo2 where e: "unpack_elems data F n (off + 24 + n * 8) fo = (xs, off2, fo2)"
          by (metis prod_cases3)
        have n: "off + 24 + n * 8 \<le> length data"
          using Some off by (auto simp: array_count_def Let_def split: if_splits)
        have "off + 24 + n * 8 \<le> off2 \<and> off2 \<le> length data + 7 \<and> fo \<le> fo2 \<and> fo2 \<le> max fo (length F)"
          by (rule 1(1) [OF ng t array Some 1(2) _ e]) (use n in simp)
        moreover have "off' = off2" "fo' = fo2"
          using 1(4) array Some e by (simp_all add: unfold t ng)
        ultimately show ?thesis by simp
      qed
    qed
  qed
next
  case (2 data F n off fo)
  obtain r off1 fo1 where u: "launch_data_unpack data F off fo = (r, off1, fo1)" by (metis prod_cases3)
  show ?case
  proof (cases "n = 0 \<or> r = None")
    case True
    then show ?thesis
    proof (cases "n = 0")
      case True
      then show ?thesis using 2(4,5) by simp
    next
      case n: False
      with True 2(5) u have "off' = off1" "fo' = fo1" by (simp_all add: unpack_elems.simps [of data F n])
      then show ?thesis using 2(1) [OF n 2(3,4) u] by simp
    qed
  next
    case False
    then obtain d where r: "r = Some d" by auto
    obtain ys off2 fo2 where e: "unpack_elems data F (n - 1) off1 fo1 = (ys, off2, fo2)" by (metis prod_cases3)
    have b: "off \<le> off1 \<and> off1 \<le> length data + 7 \<and> fo \<le> fo1 \<and> fo1 \<le> max fo (length F)"
      using 2(1) [OF _ 2(3,4) u] False by simp
    moreover have "off1 \<le> off2 \<and> off2 \<le> length data + 7 \<and> fo1 \<le> fo2 \<and> fo2 \<le> max fo1 (length F)"
      using 2(2) [of r "(off1, fo1)" d off1 fo1 ys off2 fo2] False u r b e 2(3) by simp
    moreover have "off' = off2" "fo' = fo2"
      using 2(5) False u r e by (simp_all add: unpack_elems.simps [of data F n])
    ultimately show ?thesis by auto
  qed
qed

section \<open>Properties\<close>

text \<open>C14. Packing a well-formed object into a block and then, as every receiver
  does, unpacking the bytes and copying the result gives the object back, its
  file descriptors replaced in order by the descriptors received for them
  (\<open>g\<close> is the renumbering of the socket), and consumes exactly the packed bytes
  and the passed descriptors.\<close>

theorem launch_data_roundtrip:
  assumes "obj_ok d" and "portless d" and "len \<le> length buf" and "length buf < 2 ^ 63" and "packed_size d \<le> len"
  shows "\<exists>b fds. launch_data_pack d buf 0 len (Some []) = Some (b, Some fds, packed_size d) \<and>
    (\<exists>r. launch_data_unpack (take (packed_size d) b) (map g fds) 0 0 = (Some r, packed_size d, length fds) \<and>
      launch_data_copy r = Some (rename_fds g d))"
  using pack_unpack [OF assms, of g] by blast

text \<open>C27. \<open>launch_data_pack\<close> of a well-formed object stays inside the \<open>len\<close> bytes it
  was given, changes no other byte of the block, and returns the packed size, or
  0 exactly when the object does not fit.\<close>

theorem launch_data_pack_safe:
  assumes "obj_ok d" and "w + len \<le> length buf" and "length buf < 2 ^ 63"
  shows "\<exists>b f. launch_data_pack d buf w len fds = Some (b, f, if packed_size d \<le> len then packed_size d else 0) \<and>
    length b = length buf \<and> (\<forall>i < length buf. i < w \<or> w + len \<le> i \<longrightarrow> b ! i = buf ! i)"
  using pack_ok(1) [OF assms, of fds] unfolding packs_def frame_def by blast


text \<open>C39. A node of 24 bytes that announces a string of \<open>2^64 - 1\<close> bytes is
  accepted, although no byte of a string follows: the length plus one for the
  terminator wraps to 0 before it is compared.  The object's \<open>string_len\<close> is
  \<open>2^64 - 1\<close>, and reading its string is undefined.\<close>

definition overlong_string :: "byte list" where
  "overlong_string = le_enc 8 7 @ le_enc 8 0 @ le_enc 8 (2 ^ 64 - 1)"


definition sample :: launch_data where
  "sample = Dictionary [Some (String (Some [97, 0]) 1), Some (Array [Some (Fd 3), Some (Integer 5)])]"

lemma sample_ok: "obj_ok sample" "portless sample" "packed_size sample = 160" "fds_of sample = [3]"
  by (simp_all add: sample_def round8_def)

theorem launch_data_roundtrip_witness:
  "\<exists>b. launch_data_pack sample (replicate 200 0) 0 200 (Some []) = Some (b, Some [3], 160) \<and>
     (\<exists>r. launch_data_unpack (take 160 b) [9] 0 0 = (Some r, 160, 1) \<and>
       launch_data_copy r = Some (rename_fds (\<lambda>_. 9) sample))"
  using launch_data_roundtrip [OF sample_ok(1,2), of 200 "replicate 200 0" "\<lambda>_. 9"]
    pack_ok(1) [OF sample_ok(1), of 0 200 "replicate 200 0" "Some []"]
  by (auto simp: sample_ok packs_def)

theorem launch_data_pack_safe_witness:
  "\<exists>b f. launch_data_pack sample (replicate 100 0) 8 80 None = Some (b, f, 0) \<and> length b = 100"
  using launch_data_pack_safe [OF sample_ok(1), of 8 80 "replicate 100 0" None] by (auto simp: sample_ok)


end
