(* ===== verification/Launch_Msg.thy ===== *)
theory Launch_Msg
  imports Launch_Wire
begin

text \<open>
  The message layer of liblaunch
  (\<open>src/src/darwin/launchd/liblaunch/liblaunch.c\<close>): \<open>struct _launch\<close>,
  \<open>launchd_fdopen\<close>, \<open>launchd_msg_send\<close> with the resend loop of
  \<open>launch_msg_internal\<close>, and \<open>launchd_msg_recv\<close> with \<open>launch_msg_getmsgs\<close>.

  The socket is a parameter: what one \<open>sendmsg\<close> or \<open>recvmsg\<close> returned.  A send
  also returns the bytes the socket took.  The buffers are their valid parts,
  \<open>sendlen\<close>, \<open>recvlen\<close> and the descriptor counts being their lengths.  \<open>None\<close> is
  undefined behaviour or a failed assertion.

  Shown: whatever the partial writes (after the header) and however the stream
  is cut on reception, the receiver's callback sees exactly the messages sent,
  in order; a first \<open>sendmsg\<close> that fails with \<open>EAGAIN\<close> loses the header; a message
  cut inside its final padding makes the receive length wrap.
\<close>

section \<open>State\<close>

datatype errno = EPERM | ENOMEM | ECONNRESET | ECONNABORTED | EBADRPC | EAGAIN | ENOTCONN | EOther nat

datatype which_fd = LAUNCHD_USE_CHECKIN_FD | LAUNCHD_USE_OTHER_FD

record launch =
  sendbuf :: "byte list"
  sendfds :: "32 word list"
  recvbuf :: "byte list"
  recvfds :: "32 word list"
  which :: which_fd
  cifd :: int
  fd :: int

definition launchd_getfd :: "launch \<Rightarrow> int" where
  "launchd_getfd l = (if which l = LAUNCHD_USE_CHECKIN_FD then cifd l else fd l)"

text \<open>\<open>calloc\<close> leaves \<open>which\<close> 0, which is \<open>LAUNCHD_USE_CHECKIN_FD\<close>.\<close>

definition launchd_fdopen :: "int \<Rightarrow> int \<Rightarrow> launch" where
  "launchd_fdopen f cif =
     \<lparr>sendbuf = [], sendfds = [], recvbuf = [], recvfds = [],
      which = (if f = - 1 \<or> (f \<noteq> - 1 \<and> cif \<noteq> - 1) then LAUNCHD_USE_CHECKIN_FD
               else if cif = - 1 then LAUNCHD_USE_OTHER_FD else LAUNCHD_USE_CHECKIN_FD),
      cifd = cif, fd = f\<rparr>"

definition LAUNCH_MSG_HEADER_MAGIC :: u64 where
  "LAUNCH_MSG_HEADER_MAGIC = 0xD2FEA02366B39A41"

text \<open>\<open>struct launch_msg_header\<close>: magic and length, 16 bytes.\<close>

definition msg_header :: "u64 \<Rightarrow> byte list" where
  "msg_header len = le_enc 8 (unat LAUNCH_MSG_HEADER_MAGIC) @ le_enc 8 (unat len)"

section \<open>Sending\<close>

text \<open>What \<open>sendmsg\<close> returned: an error, or the number of bytes taken and whether
  \<open>msg_controllen\<close> is unchanged.\<close>

datatype sendmsg_result = Send_error errno | Sent nat bool

definition good_enough_size :: nat where
  "good_enough_size = 10 * 1024 * 1024"

text \<open>The part of \<open>launchd_msg_send\<close> from \<open>sendmsg\<close> on.  \<open>prefix\<close> is the header when
  one is sent.  A write that ends inside the header makes \<open>r\<close> negative, and
  \<open>memmove\<close> reads in front of the buffer.\<close>

definition send_rest :: "launch \<Rightarrow> byte list \<Rightarrow> sendmsg_result \<Rightarrow> (errno option \<times> launch \<times> byte list) option" where
  "send_rest lh prefix res =
     (case res of
        Send_error e \<Rightarrow> Some (Some e, lh, [])
      | Sent r ctl \<Rightarrow>
          if r > length prefix + length (sendbuf lh) then None
          else
            let out = take r (prefix @ sendbuf lh) in
            if r = 0 then Some (Some ECONNRESET, lh, out)
            else if \<not> ctl then Some (Some ECONNRESET, lh, out)
            else if r < length prefix then None
            else
              let lh' = lh\<lparr>sendbuf := drop (r - length prefix) (sendbuf lh), sendfds := []\<rparr> in
              Some (if sendbuf lh' \<noteq> [] then Some EAGAIN else None, lh', out))"

text \<open>\<open>launchd_msg_send\<close>: \<open>blk\<close> is the freshly allocated send buffer.  The result
  is \<open>errno\<close> (\<open>None\<close> is return value 0), the handle and the bytes taken.  The
  descriptor array has room for 1024 entries, and nothing checks it.\<close>

definition launchd_msg_send ::
  "launch \<Rightarrow> launch_data option \<Rightarrow> byte list \<Rightarrow> sendmsg_result \<Rightarrow> (errno option \<times> launch \<times> byte list) option" where
  "launchd_msg_send lh d blk res =
     (if launchd_getfd lh = - 1 then Some (Some EPERM, lh, [])
      else case d of
        None \<Rightarrow> if sendbuf lh = [] then None else send_rest lh [] res
      | Some obj \<Rightarrow>
          if sendbuf lh \<noteq> [] then None
          else do {
            (b, fds, n) \<leftarrow> launch_data_pack obj blk 0 good_enough_size (Some []);
            if n = 0 then Some (Some ENOMEM, lh\<lparr>sendbuf := [], sendfds := []\<rparr>, [])
            else do {
              l \<leftarrow> fds;
              if length l * 4 > 4 * 1024 then None
              else send_rest (lh\<lparr>sendbuf := take n b, sendfds := l\<rparr>) (msg_header (of_nat (n + 16))) res } })"

text \<open>The loop of \<open>launch_msg_internal\<close> around \<open>launchd_msg_send\<close>, driven by the
  results of the successive \<open>sendmsg\<close> calls; the outer \<open>None\<close> also stands for a
  run that needs more of them.\<close>

fun resend :: "launch \<Rightarrow> sendmsg_result list \<Rightarrow> (errno option \<times> launch \<times> byte list) option" where
  "resend lh [] = None"
| "resend lh (res # rs) = do {
     (e, lh1, out) \<leftarrow> launchd_msg_send lh None [] res;
     (case e of
        None \<Rightarrow> Some (None, lh1, out)
      | Some er \<Rightarrow>
          if er \<noteq> EAGAIN then Some (Some er, lh1, out)
          else do { (e', lh2, out') \<leftarrow> resend lh1 rs; Some (e', lh2, out @ out') }) }"

definition send_message ::
  "launch \<Rightarrow> launch_data \<Rightarrow> byte list \<Rightarrow> sendmsg_result list \<Rightarrow> (errno option \<times> launch \<times> byte list) option" where
  "send_message lh d blk rs =
     (case rs of
        [] \<Rightarrow> None
      | res # rs' \<Rightarrow> do {
          (e, lh1, out) \<leftarrow> launchd_msg_send lh (Some d) blk res;
          (case e of
             None \<Rightarrow> Some (None, lh1, out)
           | Some er \<Rightarrow>
               if er \<noteq> EAGAIN then Some (Some er, lh1, out)
               else do { (e', lh2, out') \<leftarrow> resend lh1 rs'; Some (e', lh2, out @ out') }) })"

section \<open>Receiving\<close>

datatype recvmsg_result = Recv_error errno | Received "byte list" "32 word list" bool

text \<open>The loop over complete messages.  The callback gets the unpacked object and a
  context and tells whether it closed the handle.  A \<open>data_offset\<close> beyond \<open>recvlen\<close>
  makes the length wrap and \<open>memmove\<close> leave the buffer: undefined.\<close>

function recv_loop ::
  "launch \<Rightarrow> (launch_data \<Rightarrow> 'c \<Rightarrow> ('c \<times> bool) option) \<Rightarrow> 'c \<Rightarrow> (errno option \<times> launch \<times> 'c) option" where
  "recv_loop lh cb ctx =
     (if length (recvbuf lh) = 0 then Some (None, lh, ctx)
      else if length (recvbuf lh) < 16 then Some (Some EAGAIN, lh, ctx)
      else
        let tmplen = peek64 (recvbuf lh) 8 in
        if peek64 (recvbuf lh) 0 \<noteq> LAUNCH_MSG_HEADER_MAGIC \<or> unat tmplen \<le> 16 then Some (Some EBADRPC, lh, ctx)
        else if length (recvbuf lh) < unat tmplen then Some (Some EAGAIN, lh, ctx)
        else
          (case launch_data_unpack (recvbuf lh) (recvfds lh) 16 0 of
             (None, _, _) \<Rightarrow> Some (Some EBADRPC, lh, ctx)
           | (Some rmsg, data_offset, fd_offset) \<Rightarrow>
               (case cb rmsg ctx of
                  None \<Rightarrow> None
                | Some (ctx', closed) \<Rightarrow>
                    if closed then Some (None, lh, ctx')
                    else if data_offset > length (recvbuf lh) then None
                    else recv_loop
                      (lh\<lparr>recvbuf := drop data_offset (recvbuf lh), recvfds := drop fd_offset (recvfds lh)\<rparr>) cb ctx')))"
  by pat_completeness auto
termination
  by (relation "measure (\<lambda>(lh, cb, ctx). length (recvbuf lh))") (auto dest!: sym [THEN unpack_mono(1)])

declare recv_loop.simps [simp del]

text \<open>\<open>launchd_msg_recv\<close>: one \<open>recvmsg\<close> of at most 8 KiB, then the loop.\<close>

definition launchd_msg_recv ::
  "launch \<Rightarrow> (launch_data \<Rightarrow> 'c \<Rightarrow> ('c \<times> bool) option) \<Rightarrow> 'c \<Rightarrow> recvmsg_result \<Rightarrow> (errno option \<times> launch \<times> 'c) option" where
  "launchd_msg_recv lh cb ctx res =
     (if launchd_getfd lh = - 1 then Some (Some EPERM, lh, ctx)
      else case res of
        Recv_error e \<Rightarrow> Some (Some e, lh, ctx)
      | Received bytes fds ctrunc \<Rightarrow>
          if length bytes > 8 * 1024 then None
          else if bytes = [] then Some (Some ECONNRESET, lh, ctx)
          else if ctrunc then Some (Some ECONNABORTED, lh, ctx)
          else recv_loop (lh\<lparr>recvbuf := recvbuf lh @ bytes, recvfds := recvfds lh @ fds\<rparr>) cb ctx)"

text \<open>\<open>launch_msg_getmsgs\<close>: asynchronous messages are queued, any other is the
  reply.  The context holds both.\<close>

record client =
  async_resp :: launch_data
  sync_resp :: "launch_data option"

definition LAUNCHD_ASYNC_MSG_KEY :: cstring where
  "LAUNCHD_ASYNC_MSG_KEY = map (of_char :: char \<Rightarrow> byte) ''_AsyncMessage''"

definition launch_msg_getmsgs :: "launch_data \<Rightarrow> client \<Rightarrow> client option" where
  "launch_msg_getmsgs m c = do {
     a \<leftarrow> (case m of Dictionary _ \<Rightarrow> launch_data_dict_lookup m LAUNCHD_ASYNC_MSG_KEY | _ \<Rightarrow> Some None);
     (case a of
        Some x \<Rightarrow> do {
          y \<leftarrow> launch_data_copy x;
          q \<leftarrow> launch_data_array_set_index (async_resp c) (Some y) (launch_data_array_get_count (async_resp c));
          Some (c\<lparr>async_resp := q\<rparr>) }
      | None \<Rightarrow> do { y \<leftarrow> launch_data_copy m; Some (c\<lparr>sync_resp := Some y\<rparr>) }) }"

section \<open>What goes over the socket\<close>

text \<open>\<open>framed d bs\<close>: the bytes of one message carrying \<open>d\<close>.\<close>

definition framed :: "launch_data \<Rightarrow> byte list \<Rightarrow> bool" where
  "framed d bs \<longleftrightarrow> (\<exists>body. bs = msg_header (of_nat (packed_size d + 16)) @ body \<and>
     length body = packed_size d \<and> wire d body 0)"

lemma length_msg_header [simp]: "length (msg_header n) = 16"
  by (simp add: msg_header_def)

definition sendable :: "launch_data \<Rightarrow> bool" where
  "sendable d \<longleftrightarrow> obj_ok d \<and> packed_size d \<le> good_enough_size \<and> length (fds_of d) \<le> 1024"

text \<open>The send buffer of a well-formed object.\<close>

lemma send_pack:
  assumes "sendable d" and "length blk = good_enough_size"
  obtains body where "length body = packed_size d" and "wire d body 0"
    and "launchd_getfd lh \<noteq> - 1 \<Longrightarrow> sendbuf lh = [] \<Longrightarrow> launchd_msg_send lh (Some d) blk res =
      send_rest (lh\<lparr>sendbuf := body, sendfds := fds_of d\<rparr>) (msg_header (of_nat (packed_size d + 16))) res"
proof -
  have ok: "obj_ok d" "packed_size d \<le> good_enough_size" "length (fds_of d) \<le> 1024"
    using assms(1) by (auto simp: sendable_def)
  have "length blk < 2 ^ 63" using assms(2) by (simp add: good_enough_size_def)
  with pack_ok(1) [OF ok(1), of 0 good_enough_size blk "Some []"] assms(2) ok(2)
  obtain b where b: "launch_data_pack d blk 0 good_enough_size (Some []) = Some (b, Some (fds_of d), packed_size d)"
    "frame b blk 0 good_enough_size" "wire d b 0"
    by (auto simp: packs_def)
  have l: "packed_size d \<le> length b" using frame_length [OF b(2)] assms(2) ok(2) by simp
  have "wire d (take (packed_size d) b) 0"
    using wire_agree(1) [OF b(3), of "take (packed_size d) b"] agree_take [OF l] by simp
  moreover have "packed_size d \<noteq> 0" using packed_size_pos [of d] by simp
  ultimately show ?thesis
    using that [of "take (packed_size d) b"] b(1) l ok(3) by (simp add: launchd_msg_send_def)
qed

lemma resend_all:
  assumes "launchd_getfd lh \<noteq> - 1" and "\<forall>k \<in> set ks. 0 < k" and "sum_list ks = length (sendbuf lh)" and "sendbuf lh \<noteq> []"
  shows "\<exists>lh'. resend lh (map (\<lambda>k. Sent k True) ks) = Some (None, lh', sendbuf lh) \<and>
    sendbuf lh' = [] \<and> launchd_getfd lh' = launchd_getfd lh"
  using assms
proof (induction ks arbitrary: lh)
  case Nil
  then show ?case by simp
next
  case (Cons k ks)
  let ?lh = "lh\<lparr>sendbuf := drop k (sendbuf lh), sendfds := []\<rparr>"
  have k: "0 < k" "k \<le> length (sendbuf lh)" using Cons(3,4) by auto
  have s: "launchd_msg_send lh None [] (Sent k True) =
      Some (if drop k (sendbuf lh) \<noteq> [] then Some EAGAIN else None, ?lh, take k (sendbuf lh))"
    using Cons(2,5) k by (simp add: launchd_msg_send_def send_rest_def Let_def)
  have fd: "launchd_getfd ?lh = launchd_getfd lh" by (simp add: launchd_getfd_def)
  show ?case
  proof (cases "drop k (sendbuf lh) = []")
    case True
    then have "take k (sendbuf lh) = sendbuf lh" by simp
    with True s fd show ?thesis by simp
  next
    case False
    have "sum_list ks = length (sendbuf ?lh)" using Cons(4) by simp
    from Cons(1) [OF _ _ this] False Cons(2,3) fd
    obtain lh' where "resend ?lh (map (\<lambda>k. Sent k True) ks) = Some (None, lh', drop k (sendbuf lh))"
      "sendbuf lh' = []" "launchd_getfd lh' = launchd_getfd lh"
      by auto
    with False s show ?thesis by simp
  qed
qed

lemma send_message_all:
  assumes "sendable d" and "length blk = good_enough_size" and "launchd_getfd lh \<noteq> - 1" and "sendbuf lh = []"
    and "\<forall>k \<in> set (k0 # ks). 0 < k" and "16 \<le> k0" and "sum_list (k0 # ks) = 16 + packed_size d"
  shows "\<exists>lh' bs. send_message lh d blk (map (\<lambda>k. Sent k True) (k0 # ks)) = Some (None, lh', bs) \<and> framed d bs \<and>
    sendbuf lh' = [] \<and> launchd_getfd lh' = launchd_getfd lh"
proof -
  let ?h = "msg_header (of_nat (packed_size d + 16))"
  obtain body where body: "length body = packed_size d" "wire d body 0"
    "launchd_msg_send lh (Some d) blk (Sent k0 True) = send_rest (lh\<lparr>sendbuf := body, sendfds := fds_of d\<rparr>) ?h (Sent k0 True)"
    using send_pack [OF assms(1,2), of lh "Sent k0 True"] assms(3,4) by blast
  have fr: "framed d (?h @ body)" using body(1,2) by (auto simp: framed_def)
  let ?lh = "lh\<lparr>sendbuf := drop (k0 - 16) body, sendfds := []\<rparr>"
  have s: "launchd_msg_send lh (Some d) blk (Sent k0 True) =
      Some (if drop (k0 - 16) body \<noteq> [] then Some EAGAIN else None, ?lh, ?h @ take (k0 - 16) body)"
    using body(1,3) assms(6,7) by (simp add: send_rest_def Let_def)
  have fd: "launchd_getfd ?lh = launchd_getfd lh" by (simp add: launchd_getfd_def)
  show ?thesis
  proof (cases "drop (k0 - 16) body = []")
    case True
    then have "take (k0 - 16) body = body" by simp
    with True s fr fd show ?thesis by (auto simp: send_message_def)
  next
    case False
    have "sum_list ks = length (sendbuf ?lh)" using assms(6,7) body(1) by simp
    from resend_all [OF _ _ this] False assms(3,5) fd
    obtain lh' where "resend ?lh (map (\<lambda>k. Sent k True) ks) = Some (None, lh', drop (k0 - 16) body)"
      "sendbuf lh' = []" "launchd_getfd lh' = launchd_getfd lh"
      by auto
    with False s fr show ?thesis by (auto simp: send_message_def)
  qed
qed

section \<open>What the receiver makes of it\<close>

lemma slice_shift: "off + n \<le> length b \<Longrightarrow> slice (pre @ b @ post) (length pre + off) n = slice b off n"
  by (simp add: slice_def)

lemma peek64_shift: "off + 8 \<le> length b \<Longrightarrow> peek64 (pre @ b @ post) (length pre + off) = peek64 b off"
  by (simp add: peek64_def slice_shift)

lemma wire_shift:
  "wire d b w \<Longrightarrow> wire d (pre @ b @ post) (length pre + w)"
  "wires xs b w \<Longrightarrow> wires xs (pre @ b @ post) (length pre + w)"
proof (induction d b w and xs b w rule: wire_wires.induct)
  case (1 d b w)
  have len: "w + packed_size d \<le> length b" using 1(3) by (simp add: wire.simps)
  have p: "peek64 (pre @ b @ post) (length pre + w + k) = peek64 b (w + k)" if "k + 8 \<le> 24" for k
    using peek64_shift [of "w + k" b pre post] that len packed_size_pos [of d] by (simp add: add.assoc)
  have s: "slice (pre @ b @ post) (length pre + w + 24) n = slice b (w + 24) n" if "24 + n \<le> packed_size d" for n
    using slice_shift [of "w + 24" n b pre post] that len by (simp add: add.assoc)
  show ?case
    using 1 len p [of 0] p [of 8] p [of 16] s round8_ge unfolding wire.simps [of d]
    by (cases d) (auto simp: add.assoc)
qed (auto simp: add.assoc)

text \<open>The collecting callback: it copies the message, as \<open>launch_msg_getmsgs\<close> does.\<close>

definition collect :: "launch_data \<Rightarrow> launch_data list \<Rightarrow> (launch_data list \<times> bool) option" where
  "collect m ctx = do { y \<leftarrow> launch_data_copy m; Some (ctx @ [y], False) }"

definition plain_message :: "launch_data \<Rightarrow> bool" where
  "plain_message d \<longleftrightarrow> sendable d \<and> portless d \<and> fds_of d = []"

lemma rename_nothing:
  "fds_of d = [] \<Longrightarrow> rename_fds g d = d"
  "fds_of_elems xs = [] \<Longrightarrow> rename_elems g xs = xs"
  by (induction d and xs rule: fds_of_fds_of_elems.induct) (auto split: if_splits)

lemma peek_header:
  "peek64 (msg_header n @ rest) 0 = LAUNCH_MSG_HEADER_MAGIC" "peek64 (msg_header n @ rest) 8 = n"
proof -
  have "unat v < 256 ^ 8" for v :: u64 using unsigned_less [of v] by simp
  then show "peek64 (msg_header n @ rest) 0 = LAUNCH_MSG_HEADER_MAGIC" "peek64 (msg_header n @ rest) 8 = n"
    by (simp_all add: peek64_def msg_header_def slice_def)
qed

lemma unat_frame_len: "sendable d \<Longrightarrow> unat (of_nat (packed_size d + 16) :: u64) = packed_size d + 16"
  by (simp add: unat_of_nat sendable_def good_enough_size_def del: of_nat_add)

lemma framed_length: "framed d bs \<Longrightarrow> length bs = packed_size d + 16"
  by (auto simp: framed_def)

text \<open>A complete message is handed to the callback and removed.\<close>

lemma recv_framed:
  assumes "framed d bs" and "plain_message d" and "recvbuf lh = bs @ rest" and "length (recvbuf lh) < 2 ^ 63"
  shows "recv_loop lh collect ctx = recv_loop (lh\<lparr>recvbuf := rest\<rparr>) collect (ctx @ [d])"
proof -
  obtain body where body: "bs = msg_header (of_nat (packed_size d + 16)) @ body" "length body = packed_size d" "wire d body 0"
    using assms(1) by (auto simp: framed_def)
  have d: "sendable d" "obj_ok d" "portless d" "fds_of d = []"
    using assms(2) by (auto simp: plain_message_def sendable_def)
  have buf: "recvbuf lh = msg_header (of_nat (packed_size d + 16)) @ body @ rest" using assms(3) body(1) by simp
  have w: "wire d (recvbuf lh) 16"
    using wire_shift(1) [OF body(3), of "msg_header (of_nat (packed_size d + 16))" rest] by (simp add: buf)
  obtain r where r: "launch_data_unpack (recvbuf lh) (recvfds lh) 16 0 = (Some r, 16 + packed_size d, 0)"
    "launch_data_copy r = Some d"
    using unpack_wire(1) [OF w d(2,3) assms(4), of "recvfds lh" 0 id] d(4)
    by (auto simp: slice_def rename_nothing)
  have drop: "drop (16 + packed_size d) (recvbuf lh) = rest" using body(2) by (simp add: buf)
  show ?thesis
    using r body(2) packed_size_pos [of d] unat_frame_len [OF d(1)] peek_header [of _ "body @ rest"] drop
    by (subst recv_loop.simps) (simp add: Let_def collect_def buf [symmetric] assms(3) body(1))
qed

text \<open>An incomplete message stays in the buffer.\<close>

lemma recv_incomplete:
  assumes "framed d (recvbuf lh @ t)" and "plain_message d" and "t \<noteq> []" and "recvbuf lh \<noteq> []"
  shows "recv_loop lh cb ctx = Some (Some EAGAIN, lh, ctx)"
proof (cases "length (recvbuf lh) < 16")
  case True
  then show ?thesis using assms(4) by (subst recv_loop.simps) simp
next
  case False
  obtain body where body: "recvbuf lh @ t = msg_header (of_nat (packed_size d + 16)) @ body" "length body = packed_size d"
    using assms(1) by (auto simp: framed_def)
  have "recvbuf lh = msg_header (of_nat (packed_size d + 16)) @ drop 16 (recvbuf lh)"
    using False body(1) by (metis append_eq_append_conv_if length_msg_header not_less append_take_drop_id)
  then have h: "peek64 (recvbuf lh) 0 = LAUNCH_MSG_HEADER_MAGIC" "peek64 (recvbuf lh) 8 = of_nat (packed_size d + 16)"
    using peek_header by metis+
  have "length (recvbuf lh) < packed_size d + 16"
    using arg_cong [OF body(1), of length] body(2) assms(3) by (cases t) auto
  then show ?thesis
    using False h assms(2,4) unat_frame_len [of d] packed_size_pos [of d]
    by (subst recv_loop.simps) (auto simp: Let_def plain_message_def)
qed

definition incomplete :: "byte list \<Rightarrow> byte list list \<Rightarrow> bool" where
  "incomplete p bss \<longleftrightarrow> p = [] \<or> (\<exists>b bs t. bss = b # bs \<and> t \<noteq> [] \<and> b = p @ t)"

lemma split_stream:
  "p @ q = concat bss \<Longrightarrow> \<exists>k rest. k \<le> length bss \<and> p = concat (take k bss) @ rest \<and>
     rest @ q = concat (drop k bss) \<and> incomplete rest (drop k bss)"
proof (induction bss arbitrary: p)
  case Nil
  then show ?case by (simp add: incomplete_def)
next
  case (Cons b bss)
  show ?case
  proof (cases "length p < length b")
    case True
    then have "take (length p) b = p" "drop (length p) b \<noteq> []"
      using Cons(2) by (auto simp: append_eq_append_conv_if)
    then have "incomplete p (b # bss)"
      unfolding incomplete_def using append_take_drop_id [of "length p" b] by metis
    then show ?thesis using Cons(2) by (intro exI [of _ 0] exI [of _ p]) simp
  next
    case False
    have "take (length b) (p @ q) = b" "drop (length b) (p @ q) = concat bss" using Cons(2) by auto
    then have t: "take (length b) p = b" and q: "drop (length b) p @ q = concat bss" using False by auto
    have p: "p = b @ drop (length b) p" using append_take_drop_id [of "length b" p] t by simp
    from Cons(1) [OF q] obtain k rest where "k \<le> length bss" "drop (length b) p = concat (take k bss) @ rest"
      "rest @ q = concat (drop k bss)" "incomplete rest (drop k bss)" by blast
    with p show ?thesis by (intro exI [of _ "Suc k"] exI [of _ rest]) simp
  qed
qed

lemma recv_many:
  assumes "list_all2 framed ds bss" and "\<forall>d \<in> set ds. plain_message d" and "recvbuf lh = concat bss @ rest"
    and "length (recvbuf lh) < 2 ^ 63"
  shows "recv_loop lh collect ctx = recv_loop (lh\<lparr>recvbuf := rest\<rparr>) collect (ctx @ ds)"
  using assms
proof (induction ds bss arbitrary: lh ctx rule: list_all2_induct)
  case Nil
  then have "lh\<lparr>recvbuf := rest\<rparr> = lh" by simp
  then show ?case by simp
next
  case (Cons d ds b bss)
  have "recv_loop lh collect ctx = recv_loop (lh\<lparr>recvbuf := concat bss @ rest\<rparr>) collect (ctx @ [d])"
    using Cons by (intro recv_framed [of d b]) auto
  also have "\<dots> = recv_loop (lh\<lparr>recvbuf := rest\<rparr>) collect ((ctx @ [d]) @ ds)"
    using Cons(3) [of "lh\<lparr>recvbuf := concat bss @ rest\<rparr>" "ctx @ [d]"] Cons(4-6) by simp
  finally show ?case by simp
qed

text \<open>The receiver's loop: receive again as long as the result is success or
  \<open>EAGAIN\<close>.\<close>

fun recv_all :: "launch \<Rightarrow> launch_data list \<Rightarrow> byte list list \<Rightarrow> (launch \<times> launch_data list) option" where
  "recv_all lh ctx [] = Some (lh, ctx)"
| "recv_all lh ctx (c # cs) = do {
     (e, lh1, ctx1) \<leftarrow> launchd_msg_recv lh collect ctx (Received c [] False);
     if e = None \<or> e = Some EAGAIN then recv_all lh1 ctx1 cs else None }"

lemma recv_chunk:
  assumes "list_all2 framed ds bss" and "\<forall>d \<in> set ds. plain_message d"
    and "(recvbuf lh @ c) @ q = concat bss" and "length (concat bss) < 2 ^ 63"
    and "c \<noteq> []" and "length c \<le> 8192" and "launchd_getfd lh \<noteq> - 1"
  shows "\<exists>k e lh1. k \<le> length ds \<and> (e = None \<or> e = Some EAGAIN) \<and> launchd_getfd lh1 = launchd_getfd lh \<and>
    launchd_msg_recv lh collect ctx (Received c [] False) = Some (e, lh1, ctx @ take k ds) \<and>
    recvbuf lh1 @ q = concat (drop k bss) \<and> incomplete (recvbuf lh1) (drop k bss)"
proof -
  obtain k rest where k: "k \<le> length bss" "recvbuf lh @ c = concat (take k bss) @ rest"
    "rest @ q = concat (drop k bss)" "incomplete rest (drop k bss)"
    using split_stream [OF assms(3)] by blast
  let ?lh = "lh\<lparr>recvbuf := recvbuf lh @ c, recvfds := recvfds lh\<rparr>" and ?lh1 = "lh\<lparr>recvbuf := rest\<rparr>"
  have len: "length (recvbuf lh @ c) < 2 ^ 63" using arg_cong [OF assms(3), of length] assms(4) by simp
  have "launchd_msg_recv lh collect ctx (Received c [] False) = recv_loop (lh\<lparr>recvbuf := recvbuf lh @ c\<rparr>) collect ctx"
    using assms(5-7) by (simp add: launchd_msg_recv_def)
  also have "\<dots> = recv_loop ?lh1 collect (ctx @ take k ds)"
    using recv_many [of "take k ds" "take k bss" "lh\<lparr>recvbuf := recvbuf lh @ c\<rparr>" rest ctx] assms(1,2) k len
    by (auto simp: list_all2_takeI dest: in_set_takeD)
  also have "\<exists>e. (e = None \<or> e = Some EAGAIN) \<and> \<dots> = Some (e, ?lh1, ctx @ take k ds)"
  proof (cases "rest = []")
    case True
    then show ?thesis by (subst recv_loop.simps) simp
  next
    case False
    then obtain b bs t where b: "drop k bss = b # bs" "t \<noteq> []" "b = rest @ t" using k(4) by (auto simp: incomplete_def)
    then have k': "k < length bss" "bss ! k = b" by (auto simp: nth_via_drop) (metis drop_all list.distinct(1) not_less)
    then have "framed (ds ! k) b" "ds ! k \<in> set ds" using assms(1) by (auto simp: list_all2_conv_all_nth)
    then show ?thesis
      using recv_incomplete [of "ds ! k" ?lh1 t collect "ctx @ take k ds"] b(2,3) assms(2) False by simp
  qed
  finally obtain e where "e = None \<or> e = Some EAGAIN"
    "launchd_msg_recv lh collect ctx (Received c [] False) = Some (e, ?lh1, ctx @ take k ds)" by blast
  moreover have "launchd_getfd ?lh1 = launchd_getfd lh" by (simp add: launchd_getfd_def)
  moreover have "k \<le> length ds" using k(1) assms(1) by (simp add: list_all2_lengthD)
  ultimately show ?thesis using k(3,4) by (intro exI [of _ k] exI [of _ e] exI [of _ ?lh1]) simp
qed

lemma recv_all_ok:
  assumes "list_all2 framed ds bss" and "\<forall>d \<in> set ds. plain_message d"
    and "recvbuf lh @ concat cs = concat bss" and "length (concat bss) < 2 ^ 63" and "incomplete (recvbuf lh) bss"
    and "\<forall>c \<in> set cs. c \<noteq> [] \<and> length c \<le> 8192" and "launchd_getfd lh \<noteq> - 1"
  shows "\<exists>lh'. recv_all lh ctx cs = Some (lh', ctx @ ds) \<and> recvbuf lh' = []"
  using assms
proof (induction cs arbitrary: lh ctx ds bss)
  case Nil
  have "bs \<noteq> []" if "bs \<in> set bss" for bs
    using that Nil(1) framed_length by (fastforce simp: list_all2_conv_all_nth in_set_conv_nth)
  moreover have "recvbuf lh = []" using Nil(3,5) by (auto simp: incomplete_def)
  ultimately have "recvbuf lh = []" "bss = []" using Nil(3) by (cases bss; force)+
  with Nil(1) show ?case by simp
next
  case (Cons c cs)
  obtain k e lh1 where k: "k \<le> length ds" "e = None \<or> e = Some EAGAIN" "launchd_getfd lh1 = launchd_getfd lh"
    "launchd_msg_recv lh collect ctx (Received c [] False) = Some (e, lh1, ctx @ take k ds)"
    "recvbuf lh1 @ concat cs = concat (drop k bss)" "incomplete (recvbuf lh1) (drop k bss)"
    using recv_chunk [OF Cons(2,3), of lh c "concat cs" ctx] Cons(4-8) by auto
  have "length (concat (drop k bss)) \<le> length (concat bss)"
    by (metis append_take_drop_id concat_append le_add2 length_append)
  then obtain lh' where "recv_all lh1 (ctx @ take k ds) cs = Some (lh', (ctx @ take k ds) @ drop k ds)" "recvbuf lh' = []"
    using Cons(1) [of "drop k ds" "drop k bss" lh1 "ctx @ take k ds"] Cons(2-8) k(3,5,6)
    by (auto simp: list_all2_dropI dest: in_set_dropD)
  then show ?case using k(2,4) by auto
qed

section \<open>Properties\<close>

text \<open>A message sent by any sequence of partial writes, the first of which takes at
  least the header.\<close>

definition sent :: "launch_data \<Rightarrow> byte list \<Rightarrow> bool" where
  "sent d bs \<longleftrightarrow> (\<exists>lh blk k0 ks lh'. launchd_getfd lh \<noteq> - 1 \<and> sendbuf lh = [] \<and> length blk = good_enough_size \<and>
     16 \<le> k0 \<and> (\<forall>k \<in> set ks. 0 < k) \<and> sum_list (k0 # ks) = 16 + packed_size d \<and>
     send_message lh d blk (map (\<lambda>k. Sent k True) (k0 # ks)) = Some (None, lh', bs))"

lemma sent_framed: "sent d bs \<Longrightarrow> sendable d \<Longrightarrow> framed d bs"
proof -
  assume "sent d bs" and d: "sendable d"
  then obtain lh blk k0 ks lh' where s: "launchd_getfd lh \<noteq> - 1" "sendbuf lh = []" "length blk = good_enough_size"
    "16 \<le> k0" "\<forall>k \<in> set ks. 0 < k" "sum_list (k0 # ks) = 16 + packed_size d"
    "send_message lh d blk (map (\<lambda>k. Sent k True) (k0 # ks)) = Some (None, lh', bs)"
    unfolding sent_def by blast
  then have "\<forall>k \<in> set (k0 # ks). 0 < k" by auto
  from send_message_all [OF d s(3,1,2) this s(4,6)] s(7) show ?thesis by auto
qed


text \<open>C29. \<open>launchd_msg_send\<close> completes: for every object that fits and every
  sequence of positive write sizes that adds up to the message, the first at least
  the header, the send loop returns success and the socket has taken one
  well-formed message.\<close>

theorem launch_send_completes:
  assumes "sendable d" and "length blk = good_enough_size" and "launchd_getfd lh \<noteq> - 1" and "sendbuf lh = []"
    and "\<forall>k \<in> set (k0 # ks). 0 < k" and "16 \<le> k0" and "sum_list (k0 # ks) = 16 + packed_size d"
  shows "\<exists>lh' bs. send_message lh d blk (map (\<lambda>k. Sent k True) (k0 # ks)) = Some (None, lh', bs) \<and>
    framed d bs \<and> sendbuf lh' = []"
  using send_message_all [OF assms] by blast

text \<open>C40. When the first \<open>sendmsg\<close> of a message fails with \<open>EAGAIN\<close>, the resend loop
  sends the body without its header and reports success, and the peer rejects
  what it received with \<open>EBADRPC\<close>.\<close>

theorem launch_send_header_lost:
  assumes "sendable d" and "length blk = good_enough_size" and "launchd_getfd lh \<noteq> - 1" and "sendbuf lh = []"
    and "packed_size d \<le> 8192" and "launchd_getfd peer \<noteq> - 1" and "recvbuf peer = []"
  shows "\<exists>lh' body. send_message lh d blk [Send_error EAGAIN, Sent (packed_size d) True] = Some (None, lh', body) \<and>
    length body = packed_size d \<and>
    launchd_msg_recv peer cb ctx (Received body [] False) =
      Some (Some EBADRPC, peer\<lparr>recvbuf := body\<rparr>, ctx)"
proof -
  let ?h = "msg_header (of_nat (packed_size d + 16))"
  obtain body where body: "length body = packed_size d" "wire d body 0"
    "launchd_msg_send lh (Some d) blk (Send_error EAGAIN) = send_rest (lh\<lparr>sendbuf := body, sendfds := fds_of d\<rparr>) ?h (Send_error EAGAIN)"
    using send_pack [OF assms(1,2), of lh "Send_error EAGAIN"] assms(3,4) by blast
  have pos: "body \<noteq> []" "24 \<le> length body" using body(1) packed_size_pos [of d] by auto
  have "launchd_getfd (lh\<lparr>sendbuf := body, sendfds := fds_of d\<rparr>) \<noteq> - 1"
    using assms(3) by (auto simp: launchd_getfd_def split: if_splits)
  then have "\<exists>lh'. send_message lh d blk [Send_error EAGAIN, Sent (packed_size d) True] = Some (None, lh', body)"
    using body pos by (simp add: send_message_def send_rest_def launchd_msg_send_def Let_def)
  moreover have "peek64 body 0 \<noteq> LAUNCH_MSG_HEADER_MAGIC"
    using body(2) by (cases "launch_data_get_type d") (simp_all add: wire.simps LAUNCH_MSG_HEADER_MAGIC_def)
  then have "recv_loop (peer\<lparr>recvbuf := body\<rparr>) cb ctx = Some (Some EBADRPC, peer\<lparr>recvbuf := body\<rparr>, ctx)"
    using pos by (subst recv_loop.simps) (simp add: Let_def)
  then have "launchd_msg_recv peer cb ctx (Received body [] False) = Some (Some EBADRPC, peer\<lparr>recvbuf := body\<rparr>, ctx)"
    using assms(5-7) body(1) pos(1) by (simp add: launchd_msg_recv_def)
  ultimately show ?thesis using body(1) by blast
qed

text \<open>A message whose announced length ends inside the padding of its last
  object passes every check, but consumes more bytes than were received:
  \<open>recvlen -= data_offset\<close> wraps and the following \<open>memmove\<close> is undefined.\<close>

definition short_padding :: "byte list" where
  "short_padding = msg_header 41 @ le_enc 8 8 @ le_enc 8 0 @ le_enc 8 1 @ [65]"

lemma launch_recv_length_wraps:
  assumes "launchd_getfd lh \<noteq> - 1" and "recvbuf lh = []" and "recvfds lh = []"
  shows "length short_padding = 41 \<and>
    launch_data_unpack short_padding [] 16 0 = (Some (Opaque (Some [65]) 1), 48, 0) \<and>
    launchd_msg_recv lh collect [] (Received short_padding [] False) = None"
proof -
  have l: "length short_padding = 41" by (simp add: short_padding_def)
  have p: "peek64 short_padding 16 = 8" "peek64 short_padding 32 = 1"
    by (simp_all add: peek64_def short_padding_def slice_def msg_header_def)
  have h: "peek64 short_padding 0 = LAUNCH_MSG_HEADER_MAGIC" "peek64 short_padding 8 = 41"
    by (simp_all add: short_padding_def peek_header)
  have "launch_data_unpack short_padding [] 16 0 = unpack_leaf LAUNCH_DATA_OPAQUE short_padding [] 16 0"
    by (subst launch_data_unpack.simps) (simp add: l p type_of_code_def)
  also have "\<dots> = (Some (Opaque (Some [65]) 1), 48, 0)"
    using l p by (simp add: unpack_leaf_def Let_def ROUND_TO_64BIT_WORD_SIZE_def) (simp add: short_padding_def)
  finally have u: "launch_data_unpack short_padding [] 16 0 = (Some (Opaque (Some [65]) 1), 48, 0)" .
  moreover have "recv_loop (lh\<lparr>recvbuf := short_padding, recvfds := []\<rparr>) collect [] = None"
    using l h u by (subst recv_loop.simps) (simp add: Let_def collect_def)
  ultimately show ?thesis
    using assms l by (auto simp: launchd_msg_recv_def)
qed

text \<open>Concrete runs.\<close>

definition handle :: launch where
  "handle = launchd_fdopen 4 (- 1)"

lemma handle_simps: "launchd_getfd handle \<noteq> - 1" "sendbuf handle = []" "recvbuf handle = []" "recvfds handle = []"
  by (simp_all add: handle_def launchd_fdopen_def launchd_getfd_def)

lemma integer_message: "plain_message (Integer 5)" "sendable (Integer 5)" "packed_size (Integer 5) = 24"
  by (simp_all add: plain_message_def sendable_def good_enough_size_def)

theorem launch_send_completes_witness:
  "\<exists>lh' bs. send_message handle (Integer 5) (replicate good_enough_size 0) [Sent 30 True, Sent 10 True] = Some (None, lh', bs) \<and>
    framed (Integer 5) bs"
  using launch_send_completes [OF integer_message(2), of "replicate good_enough_size 0" handle 30 "[10]"]
  by (auto simp: handle_simps)


theorem launch_send_header_lost_witness:
  "\<exists>lh' body. send_message handle (Integer 5) (replicate good_enough_size 0) [Send_error EAGAIN, Sent 24 True] = Some (None, lh', body) \<and>
    launchd_msg_recv handle collect [] (Received body [] False) = Some (Some EBADRPC, handle\<lparr>recvbuf := body\<rparr>, [])"
  using launch_send_header_lost [OF integer_message(2), of "replicate good_enough_size 0" handle handle collect "[]"]
  by (auto simp: handle_simps)

lemma launch_recv_length_wraps_witness:
  "launchd_msg_recv handle collect [] (Received short_padding [] False) = None"
  using launch_recv_length_wraps [OF handle_simps(1,3,4)] by simp

end
