(* ===== verification/NS_Directories.thy ===== *)
theory NS_Directories
  imports Cider_Prelude
begin

text \<open>
  The search path enumeration of libsystem_coreservices
  (\<open>src/src/darwin/libsystem_coreservices/NSSystemDirectories.c\<close>): the \<open>dirInfo\<close>
  table, \<open>NSStartSearchPathEnumeration\<close> and \<open>NSGetNextSearchPathEnumeration\<close>.  The
  32-bit enumeration state packs the directory, the index of the next path inside
  a domain and the domains left; it is a natural below \<open>2^32\<close>.  A prefix that is
  NULL is \<open>None\<close>.  Equal string literals have equal addresses, as the code
  assumes.  \<open>NEXT_ROOT\<close> is a parameter.

  Shown: for every directory, mask and root, the client's loop ends and has seen
  exactly the paths of the table, domain by domain, in order.
\<close>

section \<open>The table\<close>

datatype dir_entry =
    One_path "string option list" string
  | Many_paths "string list list" "string list"

abbreviation Network :: string where "Network \<equiv> ''/Network''"
abbreviation System :: string where "System \<equiv> ''/System''"
abbreviation Tilde :: string where "Tilde \<equiv> ''~''"

definition prefixAll :: "string option list" where
  "prefixAll = [Some Tilde, Some '''', Some Network, Some '''']"

definition prefixAllSystem :: "string option list" where
  "prefixAllSystem = [Some Tilde, Some '''', Some Network, Some System]"

definition prefixNoUserSystem :: "string option list" where
  "prefixNoUserSystem = [None, Some '''', Some Network, None]"

definition prefixNoNetwork :: "string option list" where
  "prefixNoNetwork = [Some Tilde, Some '''', None, Some System]"

definition prefixSystemOnly :: "string option list" where
  "prefixSystemOnly = [None, None, None, Some System]"

definition prefixUserOnly :: "string option list" where
  "prefixUserOnly = [Some Tilde, None, None, None]"

definition prefixAllApplicationsDirectory :: "string list list" where
  "prefixAllApplicationsDirectory =
     [replicate 4 Tilde, replicate 4 '''', replicate 4 Network, replicate 4 '''']"

definition baseAllApplicationsDirectory :: "string list" where
  "baseAllApplicationsDirectory =
     [''/Applications'', ''/Applications/Utilities'', ''/Developer/Applications'', ''/Applications/Demos'']"

definition prefixAllLibrariesDirectory :: "string list list" where
  "prefixAllLibrariesDirectory = [[Tilde, Tilde], ['''', ''''], [Network, Network], [System, '''']]"

definition baseAllLibrariesDirectory :: "string list" where
  "baseAllLibrariesDirectory = [''/Library'', ''/Developer'']"

lemmas prefix_defs = prefixAll_def prefixAllSystem_def prefixNoUserSystem_def prefixNoNetwork_def
  prefixSystemOnly_def prefixUserOnly_def prefixAllApplicationsDirectory_def baseAllApplicationsDirectory_def
  prefixAllLibrariesDirectory_def baseAllLibrariesDirectory_def

definition dirInfo :: "dir_entry list" where
  "dirInfo =
    [One_path prefixAll ''/Applications'',
     One_path prefixAll ''/Applications/Demos'',
     One_path prefixAll ''/Developer/Applications'',
     One_path prefixAll ''/Applications/Utilities'',
     One_path prefixAllSystem ''/Library'',
     One_path prefixAll ''/Developer'',
     One_path prefixNoUserSystem ''/Users'',
     One_path prefixAllSystem ''/Library/Documentation'',
     One_path prefixUserOnly ''/Documents'',
     One_path prefixSystemOnly ''/Library/CoreServices'',
     One_path prefixUserOnly ''/Library/Autosave Information'',
     One_path prefixUserOnly ''/Desktop'',
     One_path prefixNoNetwork ''/Library/Caches'',
     One_path prefixAll ''/Library/Application Support'',
     One_path prefixUserOnly ''/Downloads'',
     One_path prefixAllSystem ''/Library/Input Methods'',
     One_path prefixUserOnly ''/Movies'',
     One_path prefixUserOnly ''/Music'',
     One_path prefixUserOnly ''/Pictures'',
     One_path prefixSystemOnly ''/Library/Printers/PPDs'',
     One_path prefixUserOnly ''/Public'',
     One_path prefixNoNetwork ''/Library/PreferencePanes'',
     Many_paths prefixAllApplicationsDirectory baseAllApplicationsDirectory,
     Many_paths prefixAllLibrariesDirectory baseAllLibrariesDirectory]"

text \<open>The macro \<open>Index\<close>; \<open>None\<close> is -1.\<close>

definition dir_index :: "nat \<Rightarrow> nat option" where
  "dir_index dir =
     (if 1 \<le> dir \<and> dir \<le> 22 then Some (dir - 1)
      else if 100 \<le> dir \<and> dir \<le> 101 then Some (dir - 100 + 22) else None)"

text \<open>\<open>ffs\<close>: one plus the position of the lowest bit set, 0 for 0.\<close>

fun ffs :: "nat \<Rightarrow> nat" where
  "ffs m = (if m = 0 then 0 else if odd m then 1 else Suc (ffs (m div 2)))"

declare ffs.simps [simp del]

section \<open>Starting\<close>

definition same_prefix :: "dir_entry \<Rightarrow> nat \<Rightarrow> nat \<Rightarrow> bool" where
  "same_prefix e i j =
     (case e of One_path p b \<Rightarrow> p ! i = p ! j | Many_paths p b \<Rightarrow> p ! i = p ! j)"

text \<open>The domain mask without duplicates: the system domain goes when it repeats the
  local one.\<close>

definition trim_domains :: "nat \<Rightarrow> nat \<Rightarrow> nat" where
  "trim_domains i domainMask =
     (let m = domainMask mod 16 in
      if bit m 1 \<and> bit m 3 \<and> same_prefix (dirInfo ! i) 1 3 then unset_bit 3 m else m)"

definition NSStartSearchPathEnumeration :: "nat \<Rightarrow> nat \<Rightarrow> nat" where
  "NSStartSearchPathEnumeration dir domainMask =
     (case dir_index dir of
        None \<Rightarrow> 0
      | Some i \<Rightarrow> (dir * 2 ^ 24 + trim_domains i domainMask) mod 2 ^ 32)"

section \<open>The next path\<close>

lemma ffs_bit: "0 < m \<Longrightarrow> 0 < ffs m \<and> bit m (ffs m - 1)"
proof (induction m rule: ffs.induct)
  case (1 m)
  show ?case
  proof (cases "odd m")
    case True
    with 1 show ?thesis by (subst (1 2) ffs.simps) (simp add: bit_0)
  next
    case False
    with 1(2) have "0 < m div 2" by (auto elim!: evenE)
    with 1 False have f: "0 < ffs (m div 2)" "bit (m div 2) (ffs (m div 2) - 1)" by auto
    then have "bit m (ffs (m div 2))" using bit_Suc [of m "ffs (m div 2) - 1"] by simp
    moreover have "ffs m = Suc (ffs (m div 2))" using False 1(2) by (subst ffs.simps) simp
    ultimately show ?thesis by simp
  qed
qed

lemma unset_bit_le: "unset_bit k m \<le> (m :: nat)"
proof (induction k arbitrary: m)
  case (Suc k)
  have "unset_bit (Suc k) m = m mod 2 + 2 * unset_bit k (m div 2)" by (rule unset_bit_Suc)
  also have "\<dots> \<le> m mod 2 + 2 * (m div 2)" by (intro add_left_mono mult_left_mono Suc) simp
  finally show ?case by simp
qed (simp add: unset_bit_0)

lemma unset_less: "0 < ffs m \<Longrightarrow> unset_bit (ffs m - 1) m < (m :: nat)"
proof -
  assume "0 < ffs m"
  then have "0 < m" by (cases m) (auto simp: ffs.simps [of 0])
  then have "unset_bit (ffs m - 1) m \<noteq> m"
    using ffs_bit [of m] by (metis bit_unset_bit_iff)
  with unset_bit_le [of "ffs m - 1" m] show ?thesis by simp
qed

text \<open>The loop that skips domains without the directory: prefix and domains left.\<close>

function skip_domains :: "string option list \<Rightarrow> nat \<Rightarrow> (string \<times> nat) option" where
  "skip_domains p domainMask =
     (if ffs domainMask = 0 then None
      else
        let domain = ffs domainMask - 1; rest = unset_bit domain domainMask in
        (case p ! domain of
           Some prefix \<Rightarrow> Some (prefix, rest)
         | None \<Rightarrow> skip_domains p rest))"
  by pat_completeness auto
termination
  by (relation "measure snd") (auto dest: unset_less)

declare skip_domains.simps [simp del]

definition PATH_MAX :: nat where
  "PATH_MAX = 1024"

definition strlcpy :: "string \<Rightarrow> string" where
  "strlcpy src = take (PATH_MAX - 1) src"

definition strlcat :: "string \<Rightarrow> string \<Rightarrow> string" where
  "strlcat dst src = dst @ take (PATH_MAX - 1 - length dst) src"

text \<open>\<open>addNextRoot\<close> and the end of the function.\<close>

definition make_path :: "string \<Rightarrow> string \<Rightarrow> string \<Rightarrow> string" where
  "make_path nextRoot prefix base =
     (let path = (if prefix = '''' \<or> hd prefix = CHR ''/'' then strlcpy nextRoot else '''')
      in strlcat (strlcat path prefix) base)"

definition NSGetNextSearchPathEnumeration :: "string \<Rightarrow> nat \<Rightarrow> nat \<times> string option" where
  "NSGetNextSearchPathEnumeration nextRoot state =
     (let dir = state div 2 ^ 24 mod 256; domainMask = state mod 16 in
      case dir_index dir of
        None \<Rightarrow> (0, None)
      | Some i \<Rightarrow>
          if ffs domainMask = 0 then (0, None)
          else
            (case dirInfo ! i of
               One_path p base \<Rightarrow>
                 (case skip_domains p domainMask of
                    None \<Rightarrow> (0, None)
                  | Some (prefix, rest) \<Rightarrow> (dir * 2 ^ 24 + rest, Some (make_path nextRoot prefix base)))
             | Many_paths p b \<Rightarrow>
                 let n = length b; dirIndex = state div 2 ^ 16 mod 256; domain = ffs domainMask - 1 in
                 if dirIndex \<ge> n then
                   let rest = unset_bit domain domainMask in
                   if ffs rest = 0 then (0, None)
                   else
                     (dir * 2 ^ 24 + 1 * 2 ^ 16 + rest, Some (make_path nextRoot (p ! (ffs rest - 1) ! 0) (b ! 0)))
                 else
                   (dir * 2 ^ 24 + (dirIndex + 1) * 2 ^ 16 + domainMask,
                    Some (make_path nextRoot (p ! domain ! dirIndex) (b ! dirIndex)))))"

text \<open>The client's loop, as the header documents it: until the state is 0.\<close>

fun enumerate_paths :: "nat \<Rightarrow> string \<Rightarrow> nat \<Rightarrow> string list option" where
  "enumerate_paths 0 nextRoot state = None"
| "enumerate_paths (Suc fuel) nextRoot state =
     (case NSGetNextSearchPathEnumeration nextRoot state of
        (state', Some path) \<Rightarrow>
          if state' = 0 then Some [] else map_option (Cons path) (enumerate_paths fuel nextRoot state')
      | (_, None) \<Rightarrow> Some [])"

section \<open>What is enumerated\<close>

text \<open>The domains of a mask, in order, and the paths of an entry in given domains.\<close>

definition domains :: "nat \<Rightarrow> nat list" where
  "domains m = filter (bit m) [0..<4]"

fun entry_paths :: "string \<Rightarrow> dir_entry \<Rightarrow> nat list \<Rightarrow> string list" where
  "entry_paths root (One_path p b) ds =
     concat (map (\<lambda>k. case p ! k of None \<Rightarrow> [] | Some q \<Rightarrow> [make_path root q b]) ds)"
| "entry_paths root (Many_paths p b) ds =
     concat (map (\<lambda>k. map (\<lambda>j. make_path root (p ! k ! j) (b ! j)) [0..<length b]) ds)"

definition search_paths :: "string \<Rightarrow> nat \<Rightarrow> nat \<Rightarrow> string list" where
  "search_paths root dir domainMask =
     (case dir_index dir of
        None \<Rightarrow> []
      | Some i \<Rightarrow> entry_paths root (dirInfo ! i) (domains (trim_domains i domainMask)))"

lemma domains_0 [simp]: "domains 0 = []"
  by (simp add: domains_def)

lemma mask_cases:
  fixes m :: nat
  assumes "m < 16"
  shows "m = 0 \<or> m = 1 \<or> m = 2 \<or> m = 3 \<or> m = 4 \<or> m = 5 \<or> m = 6 \<or> m = 7 \<or> m = 8 \<or>
    m = 9 \<or> m = 10 \<or> m = 11 \<or> m = 12 \<or> m = 13 \<or> m = 14 \<or> m = 15"
  using assms by presburger

lemma four_domains: "[0..<4] = [0, 1, 2, 3::nat]"
  by (simp add: upt_rec)

lemma domains_step: "m < 16 \<Longrightarrow> 0 < m \<Longrightarrow> domains m = (ffs m - 1) # domains (unset_bit (ffs m - 1) m)"
  by (drule mask_cases, elim disjE)
    (simp_all add: domains_def four_domains ffs.simps unset_bit_0 unset_bit_Suc bit_iff_odd)

lemma ffs_0_iff: "ffs m = 0 \<longleftrightarrow> m = 0"
  using ffs_bit [of m] by (cases "m = 0") (auto simp: ffs.simps [of 0])

lemma unset_lt_16: "m < 16 \<Longrightarrow> unset_bit k m < (16 :: nat)"
  using unset_bit_le [of k m] by simp

lemma state_fields:
  fixes dir idx m :: nat
  assumes "dir < 256" and "idx < 256" and "m < 16"
  shows "(dir * 2 ^ 24 + idx * 2 ^ 16 + m) div 2 ^ 24 mod 256 = dir"
    and "(dir * 2 ^ 24 + idx * 2 ^ 16 + m) div 2 ^ 16 mod 256 = idx"
    and "(dir * 2 ^ 24 + idx * 2 ^ 16 + m) mod 16 = m"
proof -
  let ?s = "dir * 2 ^ 24 + idx * 2 ^ 16 + m :: nat"
  have s1: "?s = (dir * 256 + idx) * 2 ^ 16 + m" by simp
  have a: "?s div 2 ^ 16 = dir * 256 + idx" unfolding s1 using assms(3) by (subst div_mult_self3) auto
  have "?s div 2 ^ 24 = ?s div 2 ^ 16 div 256" by (simp add: div_mult2_eq [symmetric])
  also have "\<dots> = dir" using a assms(2) by simp
  finally show "?s div 2 ^ 24 mod 256 = dir" using assms(1) by simp
  show "?s div 2 ^ 16 mod 256 = idx" using a assms(2) by simp
  have "?s = (dir * 2 ^ 20 + idx * 2 ^ 12) * 16 + m" by simp
  then show "?s mod 16 = m" using assms(3) by (metis mod_less mod_mult_self3)
qed

lemma skip_none: "m < 16 \<Longrightarrow> skip_domains p m = None \<Longrightarrow> entry_paths root (One_path p b) (domains m) = []"
  and skip_some: "m < 16 \<Longrightarrow> skip_domains p m = Some (q, rest) \<Longrightarrow>
    entry_paths root (One_path p b) (domains m) = make_path root q b # entry_paths root (One_path p b) (domains rest) \<and> rest < m"
proof (induction p m rule: skip_domains.induct)
  case (1 p m)
  let ?k = "ffs m - 1"
  { case 1
    show ?case
    proof (cases "m = 0")
      case False
      then have "p ! ?k = None" "skip_domains p (unset_bit ?k m) = None"
        using 1 by (subst (asm) skip_domains.simps, simp add: ffs_0_iff Let_def split: option.splits)+
      then show ?thesis
        using "1.IH"(1) [OF _ refl refl] False 1(1) domains_step [of m] unset_lt_16 [of m] by (simp add: ffs_0_iff)
    qed simp }
  { case 2
    then have m: "0 < m" by (cases m) (auto simp: skip_domains.simps [of p 0] ffs.simps [of 0])
    show ?case
    proof (cases "p ! ?k")
      case None
      then have "skip_domains p (unset_bit ?k m) = Some (q, rest)"
        using 2 m by (subst (asm) skip_domains.simps) (simp add: ffs_0_iff Let_def)
      then show ?thesis
        using "1.IH"(2) [OF _ refl refl None] m 2(1) None domains_step [of m] unset_lt_16 [of m] unset_bit_le [of ?k m]
        by (auto simp: ffs_0_iff)
    next
      case (Some q')
      then have "q' = q" "rest = unset_bit ?k m"
        using 2 m by (subst (asm) skip_domains.simps, simp add: ffs_0_iff Let_def)+
      then show ?thesis using m 2(1) Some domains_step [of m] unset_less [of m] ffs_bit [of m] by simp
    qed }
qed

lemma dir_index_less: "dir_index dir = Some i \<Longrightarrow> 0 < dir \<and> dir < 256"
  by (auto simp: dir_index_def split: if_splits)

lemma next_one:
  assumes "dir_index dir = Some i" and "dirInfo ! i = One_path p b" and "m < 16"
  shows "NSGetNextSearchPathEnumeration root (dir * 2 ^ 24 + m) =
    (case skip_domains p m of None \<Rightarrow> (0, None) | Some (q, rest) \<Rightarrow> (dir * 2 ^ 24 + rest, Some (make_path root q b)))"
  using state_fields [of dir 0 m] dir_index_less [OF assms(1)] assms
  by (cases "m = 0") (simp_all add: NSGetNextSearchPathEnumeration_def Let_def skip_domains.simps [of p 0] ffs.simps [of 0] ffs_0_iff split: option.split)

lemma enumerate_one:
  assumes "dir_index dir = Some i" and "dirInfo ! i = One_path p b" and "m < 16"
    and "length (entry_paths root (One_path p b) (domains m)) < fuel"
  shows "enumerate_paths fuel root (dir * 2 ^ 24 + m) = Some (entry_paths root (One_path p b) (domains m))"
  using assms(3,4)
proof (induction m arbitrary: fuel rule: less_induct)
  case (less m)
  obtain f where f: "fuel = Suc f" using less(3) by (cases fuel) auto
  show ?case
  proof (cases "skip_domains p m")
    case None
    with less(2) show ?thesis
      using skip_none [of m p root b] next_one [OF assms(1,2) less(2), of root] by (simp add: f del: entry_paths.simps)
  next
    case (Some qr)
    obtain q rest where qr: "qr = (q, rest)" by fastforce
    note s = skip_some [OF less(2) Some [unfolded qr], of root b]
    have "enumerate_paths f root (dir * 2 ^ 24 + rest) = Some (entry_paths root (One_path p b) (domains rest))"
      using less(1) [of rest f] less(2,3) s by (simp add: f del: entry_paths.simps)
    then show ?thesis
      using s Some qr next_one [OF assms(1,2) less(2), of root] dir_index_less [OF assms(1)]
      by (simp add: f del: entry_paths.simps)
  qed
qed

text \<open>In the middle of a domain with several paths.\<close>

definition many_from :: "string \<Rightarrow> string list list \<Rightarrow> string list \<Rightarrow> nat \<Rightarrow> nat \<Rightarrow> string list" where
  "many_from root p b idx m =
     map (\<lambda>j. make_path root (p ! (ffs m - 1) ! j) (b ! j)) [idx..<length b] @
     entry_paths root (Many_paths p b) (domains (unset_bit (ffs m - 1) m))"

lemma many_from_0: "m < 16 \<Longrightarrow> 0 < m \<Longrightarrow> many_from root p b 0 m = entry_paths root (Many_paths p b) (domains m)"
  by (simp add: many_from_def domains_step)

lemma many_from_Suc: "idx < length b \<Longrightarrow>
    many_from root p b idx m = make_path root (p ! (ffs m - 1) ! idx) (b ! idx) # many_from root p b (Suc idx) m"
  by (simp add: many_from_def upt_conv_Cons)

lemma many_from_end: "many_from root p b (length b) m = entry_paths root (Many_paths p b) (domains (unset_bit (ffs m - 1) m))"
  by (simp add: many_from_def)

lemma next_many:
  assumes "dir_index dir = Some i" and "dirInfo ! i = Many_paths p b" and "m < 16" and "0 < m" and "idx < 256"
  shows "NSGetNextSearchPathEnumeration root (dir * 2 ^ 24 + idx * 2 ^ 16 + m) =
    (if idx \<ge> length b then
       let rest = unset_bit (ffs m - 1) m in
       if rest = 0 then (0, None)
       else (dir * 2 ^ 24 + 1 * 2 ^ 16 + rest, Some (make_path root (p ! (ffs rest - 1) ! 0) (b ! 0)))
     else (dir * 2 ^ 24 + (idx + 1) * 2 ^ 16 + m, Some (make_path root (p ! (ffs m - 1) ! idx) (b ! idx))))"
  using state_fields [of dir idx m] dir_index_less [OF assms(1)] assms
  by (simp add: NSGetNextSearchPathEnumeration_def Let_def ffs_0_iff)

lemma enumerate_many:
  assumes "dir_index dir = Some i" and "dirInfo ! i = Many_paths p b" and "0 < length b" and "length b < 255"
    and "m < 16" and "0 < m" and "idx \<le> length b" and "length (many_from root p b idx m) < fuel"
  shows "enumerate_paths fuel root (dir * 2 ^ 24 + idx * 2 ^ 16 + m) = Some (many_from root p b idx m)"
  using assms(5-8)
proof (induction fuel arbitrary: m idx)
  case (Suc f)
  note nxt = next_many [OF assms(1,2) Suc(2,3), of idx root]
  have dir: "0 < dir" using dir_index_less [OF assms(1)] by simp
  show ?case
  proof (cases "idx < length b")
    case True
    have "enumerate_paths f root (dir * 2 ^ 24 + Suc idx * 2 ^ 16 + m) = Some (many_from root p b (Suc idx) m)"
      using Suc True by (intro Suc(1)) (auto simp: many_from_Suc)
    then show ?thesis using nxt True dir assms(4) by (simp add: many_from_Suc)
  next
    case False
    let ?rest = "unset_bit (ffs m - 1) m"
    have idx: "idx = length b" using False Suc(4) by simp
    show ?thesis
    proof (cases "?rest = 0")
      case True
      then show ?thesis using nxt idx assms(4) by (simp add: many_from_end)
    next
      case rest: False
      have r: "?rest < 16" "0 < ?rest" using unset_lt_16 [OF Suc(2)] rest by auto
      have m: "many_from root p b idx m = make_path root (p ! (ffs ?rest - 1) ! 0) (b ! 0) # many_from root p b 1 ?rest"
        using many_from_0 [OF r, of root p b] many_from_Suc [of 0 b root p ?rest] assms(3) idx
        by (simp add: many_from_end del: entry_paths.simps)
      have "enumerate_paths f root (dir * 2 ^ 24 + 1 * 2 ^ 16 + ?rest) = Some (many_from root p b 1 ?rest)"
        using Suc(5) assms(3) r m by (intro Suc(1)) (auto simp: Suc_le_eq)
      then show ?thesis using nxt idx rest dir m assms(4) by (simp add: Let_def)
    qed
  qed
qed simp

section \<open>Properties\<close>

lemma enumerate_stop: "NSGetNextSearchPathEnumeration root s = (s', None) \<Longrightarrow> 0 < fuel \<Longrightarrow> enumerate_paths fuel root s = Some []"
  by (cases fuel) auto

lemma dirInfo_many: "i < 24 \<Longrightarrow> dirInfo ! i = Many_paths p b \<Longrightarrow> 0 < length b \<and> length b \<le> 4"
  by (auto simp: dirInfo_def prefix_defs nth_Cons' split: if_splits)

lemma length_entry_paths:
  "(\<And>p b. e = Many_paths p b \<Longrightarrow> length b \<le> 4) \<Longrightarrow> length (entry_paths root e ds) \<le> 4 * length ds"
proof (induction ds)
  case (Cons d ds)
  then have IH: "length (entry_paths root e ds) \<le> 4 * length ds" by blast
  show ?case
  proof (cases e)
    case (One_path p b)
    then show ?thesis using IH by (auto split: option.split)
  next
    case (Many_paths p b)
    then show ?thesis using IH Cons(2) by simp
  qed
qed (cases e; simp)

lemma length_domains: "length (domains m) \<le> 4"
  using length_filter_le [of "bit m" "[0..<4]"] by (simp add: domains_def)

lemma trim_less: "trim_domains i domainMask < 16"
  using unset_lt_16 [of "domainMask mod 16" 3] by (auto simp: trim_domains_def Let_def)

lemma dir_index_24: "dir_index dir = Some i \<Longrightarrow> i < 24 \<and> dir \<le> 101"
  by (auto simp: dir_index_def split: if_splits)

lemma enumeration_ok:
  "enumerate_paths 17 root (NSStartSearchPathEnumeration dir domainMask) = Some (search_paths root dir domainMask)"
proof (cases "dir_index dir")
  case None
  then show ?thesis
    by (simp add: NSStartSearchPathEnumeration_def search_paths_def)
      (rule enumerate_stop, auto simp: NSGetNextSearchPathEnumeration_def dir_index_def)
next
  case (Some i)
  let ?m = "trim_domains i domainMask"
  have i: "i < 24" "dir \<le> 101" using dir_index_24 [OF Some] by auto
  have m: "?m < 16" by (rule trim_less)
  then have start: "NSStartSearchPathEnumeration dir domainMask = dir * 2 ^ 24 + ?m"
    using i Some by (simp add: NSStartSearchPathEnumeration_def)
  have "length (entry_paths root (dirInfo ! i) (domains ?m)) \<le> 4 * length (domains ?m)"
    using dirInfo_many [OF i(1)] by (intro length_entry_paths) blast
  then have len: "length (entry_paths root (dirInfo ! i) (domains ?m)) < 17"
    using length_domains [of ?m] by simp
  show ?thesis
  proof (cases "dirInfo ! i")
    case (One_path p b)
    then show ?thesis
      using enumerate_one [OF Some One_path m, of root 17] len start Some by (simp add: search_paths_def)
  next
    case (Many_paths p b)
    note b = dirInfo_many [OF i(1) Many_paths]
    show ?thesis
    proof (cases "?m = 0")
      case True
      then have "enumerate_paths 17 root (dir * 2 ^ 24 + ?m) = Some []"
        using state_fields [of dir 0 0] dir_index_less [OF Some] Some
        by (intro enumerate_stop [where s' = 0]) (auto simp: NSGetNextSearchPathEnumeration_def ffs.simps [of 0])
      with True show ?thesis using start Some Many_paths by (simp add: search_paths_def)
    next
      case False
      then show ?thesis
        using enumerate_many [OF Some Many_paths _ _ m _ _ , of 0 root 17] many_from_0 [OF m, of root p b]
          b len Many_paths start Some
        by (simp add: search_paths_def del: entry_paths.simps)
    qed
  qed
qed

text \<open>C36. For every directory constant, domain mask and \<open>NEXT_ROOT\<close>, the client's
  loop from \<open>NSStartSearchPathEnumeration\<close> ends within 17 calls and has seen exactly
  the paths the table gives: domain by domain from user to system, in each domain
  every path whose prefix exists, the system domain left out where its prefix is
  the local one.\<close>

theorem search_path_enumeration:
  "enumerate_paths 17 root (NSStartSearchPathEnumeration dir domainMask) = Some (search_paths root dir domainMask)"
  by (rule enumeration_ok)

text \<open>A path is the root, where the prefix is empty or absolute, followed by the
  prefix and the base, cut at \<open>PATH_MAX - 1\<close> characters.\<close>

lemma make_path_truncates:
  "make_path root prefix base =
     take (PATH_MAX - 1) ((if prefix = '''' \<or> hd prefix = CHR ''/'' then root else '''') @ prefix @ base)"
  by (auto simp: make_path_def strlcat_def strlcpy_def Let_def PATH_MAX_def min_def)

text \<open>\<open>NSStartSearchPathEnumeration\<close> trims duplicate domains by comparing the
  prefixes of the local and the system domain, which differ for
  \<open>NSAllLibrariesDirectory\<close>; the enumeration over all domains lists
  \<open>/Developer\<close> twice.\<close>

lemma all_libraries_duplicate:
  "enumerate_paths 17 '''' (NSStartSearchPathEnumeration 101 65535) =
     Some [''~/Library'', ''~/Developer'', ''/Library'', ''/Developer'', ''/Network/Library'', ''/Network/Developer'',
      ''/System/Library'', ''/Developer'']"
proof -
  have "trim_domains 23 65535 = 15"
    by (simp add: trim_domains_def same_prefix_def dirInfo_def prefix_defs)
  moreover have "domains 15 = [0, 1, 2, 3]" by (simp add: domains_def four_domains bit_iff_odd)
  moreover have "dirInfo ! 23 = Many_paths prefixAllLibrariesDirectory baseAllLibrariesDirectory"
    by (simp add: dirInfo_def)
  ultimately have "search_paths '''' 101 65535 =
     [''~/Library'', ''~/Developer'', ''/Library'', ''/Developer'', ''/Network/Library'', ''/Network/Developer'',
      ''/System/Library'', ''/Developer'']"
    by (simp add: search_paths_def dir_index_def prefix_defs upt_rec [of 0] make_path_def strlcat_def strlcpy_def PATH_MAX_def)
  then show ?thesis by (simp only: enumeration_ok)
qed

end
