(* ===== verification/GMalloc.thy ===== *)
theory GMalloc
  imports Cider_Prelude "HOL-Library.Monad_Syntax"
begin

text \<open>
  The guard malloc library (\<open>src/src/darwin/libgmalloc/gmalloc.c\<close>): every
  allocation is its own mapping with a guard page, the payload placed against it
  and a header in front of the payload.  Sizes and addresses are 64-bit words.

  The state maps each live payload address to its header and payload bytes.  What
  \<open>mmap\<close> and \<open>mprotect\<close> answer is a parameter of each call; \<open>None\<close> is undefined
  behaviour or \<open>abort\<close>, which a pointer that is not a live payload gives.

  Shown: the layout, for alignments up to the page size and sizes below half the
  address space; \<open>realloc\<close> keeps the bytes; \<open>free\<close> undoes an allocation; sizes
  close to \<open>2^64\<close> and the product in \<open>calloc\<close> wrap.
\<close>

section \<open>State\<close>

record gmalloc_cfg =
  gmalloc_protect_before :: bool
  gmalloc_fill_space :: bool
  gmalloc_allow_reads :: bool
  gmalloc_strict_size :: bool
  gmalloc_check_header :: bool
  vm_page_size :: u64

record gmalloc_header =
  hsize :: u64
  mmap_base :: u64
  mmap_size :: u64

record block =
  header :: gmalloc_header
  bytes :: "byte list"

type_synonym heap = "u64 \<rightharpoonup> block"

text \<open>\<open>__malloc_init\<close>: \<open>env\<close> is \<open>getenv\<close>.\<close>

definition malloc_init :: "(string \<Rightarrow> string option) \<Rightarrow> u64 \<Rightarrow> gmalloc_cfg" where
  "malloc_init env page =
     \<lparr>gmalloc_protect_before = (env ''MALLOC_PROTECT_BEFORE'' \<noteq> None),
      gmalloc_fill_space = (env ''MALLOC_FILL_SPACE'' \<noteq> None),
      gmalloc_allow_reads = (env ''MALLOC_ALLOW_READS'' \<noteq> None),
      gmalloc_strict_size = (env ''MALLOC_STRICT_SIZE'' \<noteq> None),
      gmalloc_check_header =
        (env ''MALLOC_CHECK_HEADER'' \<noteq> Some ''0'' \<and> env ''MALLOC_CHECK_HEADER'' \<noteq> Some ''NO''),
      vm_page_size = page\<rparr>"

section \<open>Allocation\<close>

definition round_up :: "u64 \<Rightarrow> u64 \<Rightarrow> u64" where
  "round_up sz increment =
     (if sz AND (increment - 1) = 0 then sz else (sz OR (increment - 1)) + 1)"

definition round_down :: "u64 \<Rightarrow> u64 \<Rightarrow> u64" where
  "round_down address align = address AND NOT (align - 1)"

definition header_size :: u64 where
  "header_size = 40"

definition header_for_ptr :: "u64 \<Rightarrow> u64" where
  "header_for_ptr ptr = ptr - header_size"

text \<open>What the kernel answered: \<open>mmap\<close> failed, or it mapped at a base and \<open>mprotect\<close>
  succeeded or not.\<close>

datatype kernel = Mmap_failed | Mapped u64 bool

definition accessible_size :: "gmalloc_cfg \<Rightarrow> u64 \<Rightarrow> u64 \<Rightarrow> u64" where
  "accessible_size cfg payload_size align =
     (let a = round_up payload_size align;
          b = (if gmalloc_protect_before cfg then a else a + header_size)
      in round_up b (vm_page_size cfg))"

record layout =
  guard :: u64
  accessible :: u64
  payload :: u64
  map_size :: u64

definition do_layout :: "gmalloc_cfg \<Rightarrow> u64 \<Rightarrow> u64 \<Rightarrow> u64 \<Rightarrow> layout" where
  "do_layout cfg payload_size align base =
     (let asz = accessible_size cfg payload_size align;
          acc = (if gmalloc_protect_before cfg then base + vm_page_size cfg else base)
      in \<lparr>guard = (if gmalloc_protect_before cfg then base else base + asz),
          accessible = acc,
          payload = round_down (if gmalloc_protect_before cfg then acc else acc + asz - payload_size) align,
          map_size = asz + vm_page_size cfg\<rparr>)"

text \<open>\<open>do_alloc\<close>: \<open>None\<close> in the result is NULL.  Fresh pages are zero.\<close>

definition do_alloc :: "gmalloc_cfg \<Rightarrow> heap \<Rightarrow> u64 \<Rightarrow> u64 \<Rightarrow> kernel \<Rightarrow> heap \<times> u64 option" where
  "do_alloc cfg h payload_size align k =
     (case k of
        Mmap_failed \<Rightarrow> (h, None)
      | Mapped base prot \<Rightarrow>
          if \<not> prot then (h, None)
          else
            let l = do_layout cfg payload_size align base;
                blk = \<lparr>header = \<lparr>hsize = payload_size, mmap_base = base, mmap_size = map_size l\<rparr>,
                       bytes = replicate (unat payload_size) (if gmalloc_fill_space cfg then 0x55 else 0)\<rparr>
            in (h(payload l \<mapsto> blk), Some (payload l)))"

text \<open>\<open>aligned_alloc\<close> adds a message on standard error; the result is the same.\<close>

definition aligned_alloc :: "gmalloc_cfg \<Rightarrow> heap \<Rightarrow> u64 \<Rightarrow> u64 \<Rightarrow> kernel \<Rightarrow> heap \<times> u64 option" where
  "aligned_alloc cfg h align sz k = do_alloc cfg h sz align k"

definition gm_malloc :: "gmalloc_cfg \<Rightarrow> heap \<Rightarrow> u64 \<Rightarrow> kernel \<Rightarrow> heap \<times> u64 option" where
  "gm_malloc cfg h sz k = aligned_alloc cfg h (if gmalloc_strict_size cfg then 1 else 16) sz k"

text \<open>\<open>posix_memalign\<close>: true is the result 0, false \<open>ENOMEM\<close>.\<close>

definition posix_memalign :: "gmalloc_cfg \<Rightarrow> heap \<Rightarrow> u64 \<Rightarrow> u64 \<Rightarrow> kernel \<Rightarrow> heap \<times> u64 option \<times> bool" where
  "posix_memalign cfg h align sz k =
     (case aligned_alloc cfg h align sz k of (h', p) \<Rightarrow> (h', p, p \<noteq> None))"

text \<open>\<open>calloc\<close>: the product wraps, and the result of \<open>malloc\<close> is cleared without a
  check, which is undefined for NULL and a positive size.\<close>

definition gm_calloc :: "gmalloc_cfg \<Rightarrow> heap \<Rightarrow> u64 \<Rightarrow> u64 \<Rightarrow> kernel \<Rightarrow> (heap \<times> u64 option) option" where
  "gm_calloc cfg h num sz k =
     (case gm_malloc cfg h (num * sz) k of
        (h', None) \<Rightarrow> if num * sz = 0 then Some (h', None) else None
      | (h', Some p) \<Rightarrow> do {
          b \<leftarrow> h' p;
          Some (h'(p \<mapsto> b\<lparr>bytes := replicate (unat (num * sz)) 0\<rparr>), Some p) })"

section \<open>Freeing and reallocation\<close>

text \<open>\<open>unlock_and_check_header\<close>: a live payload has both magic words.\<close>

definition unlock_and_check_header :: "heap \<Rightarrow> u64 \<Rightarrow> gmalloc_header option" where
  "unlock_and_check_header h ptr = map_option header (h ptr)"

definition gm_free :: "heap \<Rightarrow> u64 option \<Rightarrow> heap option" where
  "gm_free h ptr =
     (case ptr of
        None \<Rightarrow> Some h
      | Some p \<Rightarrow> do { _ \<leftarrow> unlock_and_check_header h p; Some (h(p := None)) })"

definition gm_realloc :: "gmalloc_cfg \<Rightarrow> heap \<Rightarrow> u64 option \<Rightarrow> u64 \<Rightarrow> kernel \<Rightarrow> (heap \<times> u64 option) option" where
  "gm_realloc cfg h old_ptr new_size k = do {
     old_size \<leftarrow> (case old_ptr of None \<Rightarrow> Some 0 | Some p \<Rightarrow> map_option hsize (unlock_and_check_header h p));
     let size_to_copy = (if old_size > new_size then new_size else old_size);
     (case gm_malloc cfg h new_size k of
        (h', None) \<Rightarrow> Some (h', None)
      | (h', Some q) \<Rightarrow> do {
          src \<leftarrow> (case old_ptr of None \<Rightarrow> Some [] | Some p \<Rightarrow> map_option bytes (h p));
          b \<leftarrow> h' q;
          let h'' = h'(q \<mapsto> b\<lparr>bytes := take (unat size_to_copy) src @ drop (unat size_to_copy) (bytes b)\<rparr>);
          h''' \<leftarrow> gm_free h'' old_ptr;
          Some (h''', Some q) }) }"

text \<open>\<open>reallocarray\<close> and \<open>reallocarrayf\<close> check the product.\<close>

definition os_mul_overflow :: "u64 \<Rightarrow> u64 \<Rightarrow> bool" where
  "os_mul_overflow a b \<longleftrightarrow> unat a * unat b \<ge> 2 ^ 64"

definition gm_reallocarray :: "gmalloc_cfg \<Rightarrow> heap \<Rightarrow> u64 option \<Rightarrow> u64 \<Rightarrow> u64 \<Rightarrow> kernel \<Rightarrow> (heap \<times> u64 option) option" where
  "gm_reallocarray cfg h old_ptr num sz k =
     (if os_mul_overflow num sz then Some (h, None) else gm_realloc cfg h old_ptr (num * sz) k)"

definition gm_reallocarrayf :: "gmalloc_cfg \<Rightarrow> heap \<Rightarrow> u64 option \<Rightarrow> u64 \<Rightarrow> u64 \<Rightarrow> kernel \<Rightarrow> (heap \<times> u64 option) option" where
  "gm_reallocarrayf cfg h old_ptr num sz k =
     (if os_mul_overflow num sz then Some (h, None)
      else do {
        (h', p) \<leftarrow> gm_realloc cfg h old_ptr (num * sz) k;
        (if p = None then do { h'' \<leftarrow> gm_free h' old_ptr; Some (h'', None) } else Some (h', p)) })"

definition malloc_zone_malloc :: "gmalloc_cfg \<Rightarrow> heap \<Rightarrow> u64 \<Rightarrow> kernel \<Rightarrow> heap \<times> u64 option" where
  "malloc_zone_malloc cfg h sz k = gm_malloc cfg h sz k"

definition malloc_zone_calloc :: "gmalloc_cfg \<Rightarrow> heap \<Rightarrow> u64 \<Rightarrow> u64 \<Rightarrow> kernel \<Rightarrow> (heap \<times> u64 option) option" where
  "malloc_zone_calloc cfg h num sz k = gm_calloc cfg h num sz k"

definition malloc_zone_realloc :: "gmalloc_cfg \<Rightarrow> heap \<Rightarrow> u64 option \<Rightarrow> u64 \<Rightarrow> kernel \<Rightarrow> (heap \<times> u64 option) option" where
  "malloc_zone_realloc cfg h ptr sz k = gm_realloc cfg h ptr sz k"

definition malloc_zone_memalign :: "gmalloc_cfg \<Rightarrow> heap \<Rightarrow> u64 \<Rightarrow> u64 \<Rightarrow> kernel \<Rightarrow> heap \<times> u64 option" where
  "malloc_zone_memalign cfg h align sz k = (case posix_memalign cfg h align sz k of (h', p, _) \<Rightarrow> (h', p))"

definition malloc_zone_free :: "heap \<Rightarrow> u64 option \<Rightarrow> heap option" where
  "malloc_zone_free h ptr = gm_free h ptr"

section \<open>Rounding\<close>

lemma exp_minus_1: "(2 ^ k :: u64) - 1 = mask k"
  by (simp add: mask_eq_exp_minus_1)

lemma unat_less_64: "unat (v :: u64) < 2 ^ 64"
  using unsigned_less [of v] by simp

lemma unat_exp: "k < 64 \<Longrightarrow> unat (2 ^ k :: u64) = 2 ^ k"
proof -
  assume "k < 64"
  then have "(2::nat) ^ k < 2 ^ 64" by (intro power_strict_increasing) auto
  then show ?thesis using unat_push_bit_mod [of k "1 :: u64"] by (simp add: push_bit_eq_mult)
qed

lemma unat_round_down: "unat (round_down v (2 ^ k)) = unat v div 2 ^ k * 2 ^ k"
proof -
  have "v AND NOT (mask k) = push_bit k (drop_bit k v)"
    by (rule bit_word_eqI) (auto simp: bit_simps)
  moreover have "unat v div 2 ^ k * 2 ^ k < 2 ^ 64"
    using unat_less_64 [of v] div_times_less_eq_dividend [of "unat v" "2 ^ k"] by (rule le_less_trans [rotated])
  ultimately show ?thesis
    by (simp add: round_down_def exp_minus_1 unat_push_bit_mod unat_drop_bit)
qed

text \<open>The least multiple of \<open>2^k\<close> that is not below \<open>n\<close>.\<close>

definition ceil_to :: "nat \<Rightarrow> nat \<Rightarrow> nat" where
  "ceil_to k n = (n + 2 ^ k - 1) div 2 ^ k * 2 ^ k"

lemma ceil_to_ge: "n \<le> ceil_to k n"
proof -
  have "n + 2 ^ k - 1 = (n + 2 ^ k - 1) div 2 ^ k * 2 ^ k + (n + 2 ^ k - 1) mod 2 ^ k"
    by (rule div_mult_mod_eq [symmetric])
  moreover have "(n + 2 ^ k - 1) mod 2 ^ k < 2 ^ k" by simp
  ultimately show ?thesis unfolding ceil_to_def by linarith
qed

lemma ceil_to_less: "ceil_to k n < n + 2 ^ k"
proof -
  have "(n + 2 ^ k - 1) div 2 ^ k * 2 ^ k \<le> n + 2 ^ k - 1" by (rule div_times_less_eq_dividend)
  moreover have "0 < n + (2::nat) ^ k" by simp
  ultimately show ?thesis unfolding ceil_to_def by linarith
qed

lemma dvd_ceil_to: "2 ^ k dvd ceil_to k n"
  by (simp add: ceil_to_def)

lemma ceil_to_split: "0 < r \<Longrightarrow> r < 2 ^ k \<Longrightarrow> ceil_to k (q * 2 ^ k + r) = (q + 1) * 2 ^ k"
proof -
  assume r: "0 < r" "r < 2 ^ k"
  then have "q * 2 ^ k + r + 2 ^ k - 1 = (q + 1) * 2 ^ k + (r - 1)" by (simp add: algebra_simps)
  moreover have "((q + 1) * 2 ^ k + (r - 1)) div 2 ^ k = q + 1" using r by (subst div_mult_self3) auto
  ultimately show ?thesis by (simp add: ceil_to_def)
qed

lemma ceil_to_dvd: "2 ^ k dvd n \<Longrightarrow> ceil_to k n = n"
proof -
  assume "2 ^ k dvd n"
  then obtain q where n: "n = q * 2 ^ k" by (auto simp: mult.commute)
  have "q * 2 ^ k + 2 ^ k - 1 = q * 2 ^ k + (2 ^ k - 1)" by simp
  moreover have "(q * 2 ^ k + (2 ^ k - 1)) div 2 ^ k = q" by (subst div_mult_self3) auto
  ultimately show ?thesis by (simp add: ceil_to_def n)
qed

lemma unat_round_up:
  assumes "k < 62" and "unat s \<le> 2 ^ 63"
  shows "unat (round_up s (2 ^ k)) = ceil_to k (unat s)"
proof -
  let ?q = "unat s div 2 ^ k" and ?r = "unat s mod 2 ^ k"
  have z: "s AND mask k = 0 \<longleftrightarrow> ?r = 0"
    using unat_and_mask [of s k] by (metis unat_eq_zero)
  show ?thesis
  proof (cases "?r = 0")
    case True
    then have "ceil_to k (unat s) = unat s"
      using ceil_to_dvd [of k "unat s"] by (simp add: mod_eq_0_iff_dvd)
    with True z show ?thesis by (simp add: round_up_def exp_minus_1)
  next
    case False
    have "(s OR mask k) = push_bit k (drop_bit k s) OR mask k"
      by (rule bit_word_eqI) (auto simp: bit_simps)
    also have "\<dots> = push_bit k (drop_bit k s) + mask k"
      by (rule or_push_bit_eq_plus) (simp only: mask_eq_take_bit_minus_one unat_take_bit, simp)
    finally have "round_up s (2 ^ k) = push_bit k (drop_bit k s) + mask k + 1"
      using False z by (simp add: round_up_def exp_minus_1)
    also have "\<dots> = push_bit k (drop_bit k s) + 2 ^ k" by (simp add: mask_eq_exp_minus_1)
    finally have r: "round_up s (2 ^ k) = push_bit k (drop_bit k s) + 2 ^ k" .
    have le: "?q * 2 ^ k \<le> 2 ^ 63" using div_times_less_eq_dividend [of "unat s" "2 ^ k"] assms(2) by linarith
    have k: "(2::nat) ^ k \<le> 2 ^ 61" using assms(1) by (intro power_increasing) auto
    have u: "unat (2 ^ k :: u64) = 2 ^ k" using assms(1) by (simp add: unat_exp)
    have "unat (push_bit k (drop_bit k s)) = ?q * 2 ^ k"
      using le by (simp add: unat_push_bit_mod unat_drop_bit)
    then have "unat (round_up s (2 ^ k)) = ?q * 2 ^ k + 2 ^ k"
      unfolding r unat_word_ariths(1) u using le k by simp
    moreover have "ceil_to k (unat s) = (?q + 1) * 2 ^ k"
      using ceil_to_split [of ?r k ?q, unfolded div_mult_mod_eq] False by simp
    ultimately show ?thesis by simp
  qed
qed

section \<open>Layout\<close>

definition config_ok :: "gmalloc_cfg \<Rightarrow> nat \<Rightarrow> bool" where
  "config_ok cfg p \<longleftrightarrow> vm_page_size cfg = 2 ^ p \<and> 6 \<le> p \<and> p < 40"

lemma unat_page: "config_ok cfg p \<Longrightarrow> unat (vm_page_size cfg) = 2 ^ p"
  by (simp add: config_ok_def unat_exp)

lemma small_exp: "p < 40 \<Longrightarrow> (2::nat) ^ p \<le> 2 ^ 39"
  by (intro power_increasing) auto

lemma unat_accessible_size:
  assumes "config_ok cfg p" and "a \<le> p" and "unat n \<le> 2 ^ 62"
  shows "unat (accessible_size cfg n (2 ^ a)) =
    ceil_to p (ceil_to a (unat n) + (if gmalloc_protect_before cfg then 0 else 40))"
proof -
  let ?h = "if gmalloc_protect_before cfg then 0 else 40 :: nat"
  have p: "p < 40" "vm_page_size cfg = 2 ^ p" using assms(1) by (auto simp: config_ok_def)
  have u: "unat (round_up n (2 ^ a)) = ceil_to a (unat n)"
    using assms p by (intro unat_round_up) auto
  have le: "ceil_to a (unat n) < 2 ^ 62 + 2 ^ 39"
    using ceil_to_less [of a "unat n"] small_exp [of a] assms(2,3) p(1) by simp
  have "unat (if gmalloc_protect_before cfg then round_up n (2 ^ a) else round_up n (2 ^ a) + header_size) =
      ceil_to a (unat n) + ?h"
    using u le by (simp add: header_size_def unat_word_ariths(1))
  then show ?thesis
    using le p unat_round_up [of p "if gmalloc_protect_before cfg then round_up n (2 ^ a) else round_up n (2 ^ a) + header_size"]
    by (simp add: accessible_size_def Let_def)
qed

lemma layout_after:
  assumes "config_ok cfg p" and "a \<le> p" and "unat n \<le> 2 ^ 62" and "\<not> gmalloc_protect_before cfg"
    and "2 ^ p dvd unat base" and "l = do_layout cfg n (2 ^ a) base" and "unat base + unat (map_size l) < 2 ^ 64"
  shows "2 ^ a dvd unat (payload l) \<and> unat base + 40 \<le> unat (payload l) \<and>
    unat (payload l) + unat n \<le> unat (guard l) \<and> unat (guard l) < unat (payload l) + unat n + 2 ^ a \<and>
    unat (guard l) + 2 ^ p = unat base + unat (map_size l)"
proof -
  let ?A = "ceil_to p (ceil_to a (unat n) + 40)"
  have p: "p < 40" "vm_page_size cfg = 2 ^ p" "6 \<le> p" using assms(1) by (auto simp: config_ok_def)
  have A: "unat (accessible_size cfg n (2 ^ a)) = ?A"
    using unat_accessible_size [OF assms(1-3)] assms(4) by simp
  have ge: "ceil_to a (unat n) + 40 \<le> ?A" "unat n \<le> ceil_to a (unat n)"
    using ceil_to_ge [of "ceil_to a (unat n) + 40" p] ceil_to_ge [of "unat n" a] by auto
  have lt: "?A < 2 ^ 63"
    using ceil_to_less [of p "ceil_to a (unat n) + 40"] ceil_to_less [of a "unat n"] small_exp [of p] small_exp [of a] assms(2,3) p(1)
    by simp
  have up: "unat (vm_page_size cfg) = 2 ^ p" by (rule unat_page [OF assms(1)])
  have ms: "unat (map_size l) = ?A + 2 ^ p"
    using A lt small_exp [OF p(1)] by (simp add: assms(6) do_layout_def Let_def unat_word_ariths(1) up)
  have g: "unat (guard l) = unat base + ?A"
    using assms(4,7) ms A by (simp add: assms(6) do_layout_def Let_def unat_word_ariths(1))
  have end1: "unat (base + accessible_size cfg n (2 ^ a)) = unat base + ?A"
    using assms(7) ms A by (simp add: unat_word_ariths(1))
  have raw: "unat (base + accessible_size cfg n (2 ^ a) - n) = unat base + ?A - unat n"
    using end1 ge by (simp add: unat_sub word_le_nat_alt)
  have d: "2 ^ a dvd unat base + ?A"
    using assms(2,5) dvd_ceil_to [of p "ceil_to a (unat n) + 40"] by (meson dvd_add dvd_trans le_imp_power_dvd)
  have pay: "unat (payload l) = unat base + ?A - ceil_to a (unat n)"
  proof -
    obtain e where e: "unat base + ?A = e * 2 ^ a" using d by (auto simp: mult.commute)
    obtain c where c: "ceil_to a (unat n) = c * 2 ^ a" using dvd_ceil_to [of a "unat n"] by (auto simp: mult.commute)
    have "c * 2 ^ a \<le> e * 2 ^ a" using e c ge by linarith
    then have ce: "c \<le> e" by simp
    have cl: "c * 2 ^ a < unat n + 2 ^ a" using ceil_to_less [of a "unat n"] c by simp
    have "unat base + ?A - unat n = (e - c) * 2 ^ a + (c * 2 ^ a - unat n)"
      using e c ge(2) ce by (simp add: diff_mult_distrib mult_le_mono1)
    moreover have "c * 2 ^ a - unat n < 2 ^ a" using cl ge(2) c by linarith
    ultimately have "(unat base + ?A - unat n) div 2 ^ a = e - c"
      by (simp add: div_mult_self3)
    then have "unat (payload l) = (e - c) * 2 ^ a"
      using assms(4) raw by (simp add: assms(6) do_layout_def Let_def unat_round_down)
    then show ?thesis using e c by (simp add: diff_mult_distrib)
  qed
  have "2 ^ a dvd unat (payload l)" using pay d dvd_ceil_to [of a "unat n"] by (metis dvd_diff_nat)
  then show ?thesis using pay g ms ge ceil_to_less [of a "unat n"] by auto
qed

lemma layout_before:
  assumes "config_ok cfg p" and "a \<le> p" and "unat n \<le> 2 ^ 62" and "gmalloc_protect_before cfg"
    and "2 ^ p dvd unat base" and "l = do_layout cfg n (2 ^ a) base" and "unat base + unat (map_size l) < 2 ^ 64"
  shows "2 ^ a dvd unat (payload l) \<and> unat (guard l) = unat base \<and> unat (payload l) = unat (guard l) + 2 ^ p \<and>
    unat (payload l) + unat n \<le> unat base + unat (map_size l)"
proof -
  let ?A = "ceil_to p (ceil_to a (unat n))"
  have p: "p < 40" using assms(1) by (auto simp: config_ok_def)
  have A: "unat (accessible_size cfg n (2 ^ a)) = ?A"
    using unat_accessible_size [OF assms(1-3)] assms(4) by simp
  have ge: "unat n \<le> ?A" using ceil_to_ge [of "ceil_to a (unat n)" p] ceil_to_ge [of "unat n" a] by simp
  have lt: "?A < 2 ^ 63"
    using ceil_to_less [of p "ceil_to a (unat n)"] ceil_to_less [of a "unat n"] small_exp [of p] small_exp [of a] assms(2,3) p
    by simp
  have up: "unat (vm_page_size cfg) = 2 ^ p" by (rule unat_page [OF assms(1)])
  have ms: "unat (map_size l) = ?A + 2 ^ p"
    using A lt small_exp [OF p] by (simp add: assms(6) do_layout_def Let_def unat_word_ariths(1) up)
  have acc: "unat (base + vm_page_size cfg) = unat base + 2 ^ p"
    using assms(7) ms up by (simp add: unat_word_ariths(1))
  have d: "2 ^ a dvd unat base + 2 ^ p"
    using assms(2,5) by (meson dvd_add dvd_trans le_imp_power_dvd dvd_refl)
  have "unat (payload l) = unat base + 2 ^ p"
    using assms(4) acc d by (simp add: assms(6) do_layout_def Let_def unat_round_down)
  then show ?thesis using d ge ms assms(4) by (simp add: assms(6) do_layout_def Let_def)
qed

section \<open>Properties\<close>


text \<open>Layout with the guard page in front: under the same conditions the payload
  starts right behind the guard page, is aligned, lies in the mapping, and the
  header is on the guard page.\<close>

lemma do_layout_guard_before:
  assumes "config_ok cfg p" and "a \<le> p" and "unat n \<le> 2 ^ 62" and "gmalloc_protect_before cfg"
    and "2 ^ p dvd unat base" and "l = do_layout cfg n (2 ^ a) base" and "unat base + unat (map_size l) < 2 ^ 64"
  shows "2 ^ a dvd unat (payload l) \<and> unat (payload l) = unat (guard l) + unat (vm_page_size cfg) \<and>
    unat (guard l) \<le> unat (header_for_ptr (payload l)) \<and>
    unat (header_for_ptr (payload l)) + unat header_size = unat (payload l) \<and>
    unat (payload l) + unat n \<le> unat base + unat (map_size l)"
proof -
  note l = layout_before [OF assms]
  have "(2::nat) ^ 6 \<le> 2 ^ p" using assms(1) by (intro power_increasing) (auto simp: config_ok_def)
  then have "unat header_size \<le> 2 ^ p" by (simp add: header_size_def)
  then have "unat (header_for_ptr (payload l)) = unat (payload l) - unat header_size"
    using l by (simp add: header_for_ptr_def unat_sub word_le_nat_alt)
  with l \<open>unat header_size \<le> 2 ^ p\<close> show ?thesis by (auto simp: unat_page [OF assms(1)])
qed

text \<open>C35. \<open>realloc\<close> of a live block, when the new mapping succeeds at another address,
  returns a block of the new size that starts with the old bytes, as many as fit,
  releases the old block and touches no other.\<close>

theorem gm_realloc_keeps_bytes:
  assumes "h p = Some blk" and "hsize (header blk) = of_nat (length (bytes blk))" and "length (bytes blk) < 2 ^ 64"
    and "gm_malloc cfg h new_size k = (h1, Some q)" and "q \<noteq> p"
  shows "\<exists>h' nb. gm_realloc cfg h (Some p) new_size k = Some (h', Some q) \<and> h' p = None \<and> h' q = Some nb \<and>
    length (bytes nb) = unat new_size \<and> hsize (header nb) = new_size \<and>
    take (min (length (bytes blk)) (unat new_size)) (bytes nb) = take (unat new_size) (bytes blk) \<and>
    (\<forall>r. r \<noteq> p \<and> r \<noteq> q \<longrightarrow> h' r = h r)"
proof -
  obtain base where k: "k = Mapped base True"
    using assms(4) by (cases k) (auto simp: gm_malloc_def aligned_alloc_def do_alloc_def split: if_splits)
  obtain nb where nb: "h1 = h(q \<mapsto> nb)" "bytes nb = replicate (unat new_size) (if gmalloc_fill_space cfg then 0x55 else 0)"
    "hsize (header nb) = new_size"
    using assms(4) by (auto simp: k gm_malloc_def aligned_alloc_def do_alloc_def Let_def)
  let ?c = "if hsize (header blk) > new_size then new_size else hsize (header blk)"
  have old: "unat (hsize (header blk)) = length (bytes blk)" using assms(2,3) by (simp add: unat_of_nat)
  have c: "unat ?c = min (length (bytes blk)) (unat new_size)" using old by (auto simp: word_less_nat_alt)
  define nb' where "nb' = nb\<lparr>bytes := take (unat ?c) (bytes blk) @ drop (unat ?c) (bytes nb)\<rparr>"
  have "gm_realloc cfg h (Some p) new_size k = Some (h(q \<mapsto> nb', p := None), Some q)"
    using assms(1,4,5) nb(1)
    by (simp add: gm_realloc_def unlock_and_check_header_def gm_free_def Let_def nb'_def fun_upd_twist)
  moreover have "length (bytes nb') = unat new_size" "hsize (header nb') = new_size"
    "take (min (length (bytes blk)) (unat new_size)) (bytes nb') = take (unat new_size) (bytes blk)"
    using nb c by (auto simp: nb'_def min_def)
  ultimately show ?thesis using assms(5) by (intro exI [of _ "h(q \<mapsto> nb', p := None)"] exI [of _ nb']) simp
qed

text \<open>\<open>calloc\<close> multiplies without a check: asked for \<open>2^32\<close> objects of \<open>2^32\<close> bytes
  it succeeds with an empty block.\<close>

lemma gm_calloc_wraps:
  "\<exists>h' p b. gm_calloc cfg h (2 ^ 32) (2 ^ 32) (Mapped base True) = Some (h', Some p) \<and> h' p = Some b \<and> bytes b = []"
  by (simp add: gm_calloc_def gm_malloc_def aligned_alloc_def do_alloc_def Let_def)

text \<open>A size close to \<open>2^64\<close> wraps in \<open>round_up\<close>: with 4 KiB pages and the default
  alignment, \<open>malloc\<close> of \<open>2^64 - 8\<close> bytes maps two pages, returns the address of
  its guard page and reports success.\<close>

lemma gm_malloc_size_wraps:
  assumes "vm_page_size cfg = 4096" and "\<not> gmalloc_protect_before cfg" and "\<not> gmalloc_strict_size cfg"
    and "4096 dvd unat base" and "unat base + 8192 < 2 ^ 64"
  shows "\<exists>h' b. gm_malloc cfg h (- 8) (Mapped base True) = (h', Some (guard (do_layout cfg (- 8) 16 base))) \<and>
    h' (guard (do_layout cfg (- 8) 16 base)) = Some b \<and> hsize (header b) = - 8 \<and> mmap_size (header b) = 2 * 4096"
proof -
  have acc: "accessible_size cfg (- 8) 16 = 4096"
    using assms by (simp add: accessible_size_def round_up_def header_size_def)
  obtain q where q: "unat base = 4096 * q" using assms(4) by auto
  have u: "unat (base + 4096 + 8) = unat base + 4104" "unat (base + 4096) = unat base + 4096"
    using assms(5) by (simp_all add: unat_word_ariths(1))
  have "(unat base + 4104) div 16 = 256 * q + 256" unfolding q by simp
  then have "unat (round_down (base + 4096 + 8) (2 ^ 4)) = unat (base + 4096)"
    unfolding unat_round_down u by (simp add: q)
  then have "round_down (base + 4096 + 8) 16 = base + 4096" by (simp add: word_unat_eq_iff)
  then have "payload (do_layout cfg (- 8) 16 base) = guard (do_layout cfg (- 8) 16 base)"
    "map_size (do_layout cfg (- 8) 16 base) = 2 * 4096"
    using acc assms by (simp_all add: do_layout_def Let_def)
  then show ?thesis
    using assms(3) by (simp add: gm_malloc_def aligned_alloc_def do_alloc_def Let_def)
qed

text \<open>Concrete runs.\<close>

definition plain_cfg :: gmalloc_cfg where
  "plain_cfg = malloc_init (\<lambda>_. None) 4096"

definition before_cfg :: gmalloc_cfg where
  "before_cfg = malloc_init (\<lambda>v. if v = ''MALLOC_PROTECT_BEFORE'' then Some ''1'' else None) 4096"

lemma cfgs: "config_ok plain_cfg 12" "config_ok before_cfg 12" "\<not> gmalloc_protect_before plain_cfg"
  "gmalloc_protect_before before_cfg" "\<not> gmalloc_strict_size plain_cfg" "vm_page_size plain_cfg = 4096"
  "\<not> gmalloc_fill_space plain_cfg"
  by (simp_all add: config_ok_def plain_cfg_def before_cfg_def malloc_init_def)

lemma layout_100: "map_size (do_layout plain_cfg 100 16 65536) = 8192" "map_size (do_layout before_cfg 100 16 65536) = 8192"
  by (simp_all add: do_layout_def accessible_size_def round_up_def header_size_def cfgs plain_cfg_def before_cfg_def malloc_init_def)


lemma do_layout_guard_before_witness:
  "unat (payload (do_layout before_cfg 100 16 65536)) = unat (guard (do_layout before_cfg 100 16 65536)) + unat (vm_page_size before_cfg)"
  using do_layout_guard_before [OF cfgs(2) _ _ cfgs(4), of 4 100 65536 "do_layout before_cfg 100 16 65536"] layout_100 by simp

theorem gm_realloc_keeps_bytes_witness:
  "\<exists>h' nb. gm_realloc plain_cfg [4096 \<mapsto> \<lparr>header = \<lparr>hsize = 2, mmap_base = 0, mmap_size = 8192\<rparr>, bytes = [7, 8]\<rparr>]
      (Some 4096) 1 (Mapped 65536 True) = Some (h', Some (payload (do_layout plain_cfg 1 16 65536))) \<and>
    h' (payload (do_layout plain_cfg 1 16 65536)) = Some nb \<and> bytes nb = [7]"
proof -
  let ?h = "[4096 \<mapsto> \<lparr>header = \<lparr>hsize = 2, mmap_base = 0, mmap_size = 8192\<rparr>, bytes = [7, 8 :: byte]\<rparr>]"
  have pay: "payload (do_layout plain_cfg 1 16 65536) \<noteq> 4096"
    by (simp add: do_layout_def accessible_size_def round_up_def round_down_def header_size_def cfgs plain_cfg_def malloc_init_def)
  have m: "\<exists>h1. gm_malloc plain_cfg ?h 1 (Mapped 65536 True) = (h1, Some (payload (do_layout plain_cfg 1 16 65536)))"
    by (simp add: gm_malloc_def aligned_alloc_def do_alloc_def Let_def cfgs)
  then obtain h1 where "gm_malloc plain_cfg ?h 1 (Mapped 65536 True) = (h1, Some (payload (do_layout plain_cfg 1 16 65536)))" ..
  from gm_realloc_keeps_bytes [OF _ _ _ this pay] obtain h' nb where
    "gm_realloc plain_cfg ?h (Some 4096) 1 (Mapped 65536 True) = Some (h', Some (payload (do_layout plain_cfg 1 16 65536)))"
    "h' (payload (do_layout plain_cfg 1 16 65536)) = Some nb" "length (bytes nb) = 1" "take 1 (bytes nb) = [7]"
    by fastforce
  then show ?thesis by (metis order_refl take_all)
qed

lemma gm_malloc_size_wraps_witness:
  "\<exists>h' b. gm_malloc plain_cfg Map.empty (- 8) (Mapped 65536 True) = (h', Some (guard (do_layout plain_cfg (- 8) 16 65536))) \<and>
    h' (guard (do_layout plain_cfg (- 8) 16 65536)) = Some b \<and> mmap_size (header b) = 2 * 4096"
  using gm_malloc_size_wraps [OF cfgs(6,3,5), of 65536 Map.empty] by auto

end
