(* ===== verification/LZ_Memory.thy ===== *)
theory LZ_Memory
  imports Cider_Prelude "HOL-Library.Monad_Syntax"
begin

text \<open>
  What the LZVN coder uses of \<open>src/src/darwin/libcompression/lzfse/lzfse_internal.h\<close>:
  unaligned loads and stores, the bit field \<open>extract\<close>, and the copy loops written
  with them.  A buffer is a byte list with a window \<open>[lo, hi)\<close>; an access that leaves
  the window is \<open>None\<close>, so a proof that a routine is never \<open>None\<close> is a proof of
  memory safety.

  \<open>expand\<close> is the meaning of a match: the byte \<open>D\<close> places back, appended \<open>M\<close> times.
  The loops that copy 8 bytes at once are shown to compute it.
\<close>

section \<open>Accesses\<close>

definition load :: "byte list \<Rightarrow> nat \<Rightarrow> nat \<Rightarrow> nat \<Rightarrow> nat \<Rightarrow> byte list option" where
  "load buf lo hi i k = (if lo \<le> i \<and> i + k \<le> hi then Some (slice buf i k) else None)"

definition store :: "byte list \<Rightarrow> nat \<Rightarrow> nat \<Rightarrow> nat \<Rightarrow> byte list \<Rightarrow> byte list option" where
  "store buf lo hi i bs = (if lo \<le> i \<and> i + length bs \<le> hi then poke buf i bs else None)"

definition load1 :: "byte list \<Rightarrow> nat \<Rightarrow> nat \<Rightarrow> nat \<Rightarrow> byte option" where
  "load1 buf lo hi i = (if lo \<le> i \<and> i < hi then Some (buf ! i) else None)"

definition load2 :: "byte list \<Rightarrow> nat \<Rightarrow> nat \<Rightarrow> nat \<Rightarrow> u16 option" where
  "load2 buf lo hi i = map_option (\<lambda>bs. of_nat (le_val bs)) (load buf lo hi i 2)"

definition load4 :: "byte list \<Rightarrow> nat \<Rightarrow> nat \<Rightarrow> nat \<Rightarrow> u32 option" where
  "load4 buf lo hi i = map_option (\<lambda>bs. of_nat (le_val bs)) (load buf lo hi i 4)"

definition store2 :: "byte list \<Rightarrow> nat \<Rightarrow> nat \<Rightarrow> nat \<Rightarrow> u16 \<Rightarrow> byte list option" where
  "store2 buf lo hi i v = store buf lo hi i (le_enc 2 (unat v))"

definition store4 :: "byte list \<Rightarrow> nat \<Rightarrow> nat \<Rightarrow> nat \<Rightarrow> u32 \<Rightarrow> byte list option" where
  "store4 buf lo hi i v = store buf lo hi i (le_enc 4 (unat v))"

definition store8 :: "byte list \<Rightarrow> nat \<Rightarrow> nat \<Rightarrow> nat \<Rightarrow> u64 \<Rightarrow> byte list option" where
  "store8 buf lo hi i v = store buf lo hi i (le_enc 8 (unat v))"

definition extract_bits :: "u64 \<Rightarrow> nat \<Rightarrow> nat \<Rightarrow> u64" where
  "extract_bits container lsb width =
     (if width = 64 then container else drop_bit lsb container AND (push_bit width 1 - 1))"

section \<open>Copy loops\<close>

text \<open>\<open>for (i = 0; i < n; i += w)\<close> with \<open>w\<close> bytes moved per iteration, which is \<open>k\<close>
  iterations for \<open>k = (n + w - 1) div w\<close>: from another buffer, and from \<open>D\<close> places
  back in the same buffer (an index below the start of memory is no access).\<close>

primrec copy_loop :: "nat \<Rightarrow> (nat \<Rightarrow> byte list option) \<Rightarrow> nat \<Rightarrow> nat \<Rightarrow> nat \<Rightarrow> nat \<Rightarrow> byte list \<Rightarrow> byte list option" where
  "copy_loop w ld lo hi d 0 buf = Some buf"
| "copy_loop w ld lo hi d (Suc k) buf =
     do { b \<leftarrow> copy_loop w ld lo hi d k buf; bs \<leftarrow> ld (w * k); store b lo hi (d + w * k) bs }"

primrec match_loop :: "nat \<Rightarrow> nat \<Rightarrow> nat \<Rightarrow> nat \<Rightarrow> nat \<Rightarrow> nat \<Rightarrow> byte list \<Rightarrow> byte list option" where
  "match_loop w lo hi d D 0 buf = Some buf"
| "match_loop w lo hi d D (Suc k) buf =
     do { b \<leftarrow> match_loop w lo hi d D k buf;
          bs \<leftarrow> (if D \<le> d + w * k then load b lo hi (d + w * k - D) w else None);
          store b lo hi (d + w * k) bs }"

section \<open>The meaning of a match\<close>

primrec expand :: "byte list \<Rightarrow> nat \<Rightarrow> nat \<Rightarrow> byte list" where
  "expand out D 0 = out"
| "expand out D (Suc n) = (let o1 = expand out D n in o1 @ [o1 ! (length o1 - D)])"

section \<open>Lemmas\<close>

lemma unat_extract_bits [simp]: "width < 64 \<Longrightarrow> unat (extract_bits c lsb width) = unat c div 2 ^ lsb mod 2 ^ width"
  by (simp add: extract_bits_def push_bit_of_1 unat_drop_bit unat_and_mask flip: mask_eq_exp_minus_1)

lemma unat_ucast_byte [simp]: "unat (ucast (c :: byte) :: u64) = unat c"
  using unat_less_256 [of c] by (simp add: unsigned_ucast_eq take_bit_eq_mod del: unat_less_256)

lemma unat_ucast_u16 [simp]: "unat (ucast (w :: u16) :: u64) = unat w"
proof -
  have "unat w < 65536" using unsigned_less [of w] by simp
  then show ?thesis by (simp add: unsigned_ucast_eq take_bit_eq_mod)
qed

lemma length_expand [simp]: "length (expand out D n) = length out + n"
  by (induction n) (simp_all add: Let_def)

lemma expand_add: "expand out D (m + n) = expand (expand out D m) D n"
  by (induction n) (simp_all add: Let_def)

lemma take_expand: "take (length out + m) (expand out D (m + n)) = expand out D m"
  by (induction n) (simp_all add: Let_def)

lemma expand_prefix: "take (length out) (expand out D n) = out"
  using take_expand [of out 0 D n] by simp

lemma expand_block:
  assumes "n \<le> D" "D \<le> length out"
  shows "expand out D n = out @ slice out (length out - D) n"
  using assms
proof (induction n)
  case (Suc n)
  have "slice out (length out - D) (Suc n) = slice out (length out - D) n @ [out ! (length out - D + n)]"
    using Suc.prems by (simp add: slice_def take_Suc_conv_app_nth)
  then show ?case
    using Suc by (auto simp: Let_def nth_append)
qed (simp add: slice_def)

lemma slice_0 [simp]: "slice xs i 0 = []"
  by (simp add: slice_def)

lemma slice_add: "slice xs i (m + n) = slice xs i m @ slice xs (i + m) n"
  by (simp add: slice_def take_add add.commute)

lemma slice_Suc: "i + n < length xs \<Longrightarrow> slice xs i (Suc n) = slice xs i n @ [xs ! (i + n)]"
  by (simp add: slice_def take_Suc_conv_app_nth)

lemma slice_slice: "j + k \<le> n \<Longrightarrow> slice (slice xs i n) j k = slice xs (i + j) k"
  by (simp add: slice_def drop_take min_def add.commute)

lemma slice_cong: "agree xs ys i (i + n) \<Longrightarrow> slice xs i n = slice ys i n"
  by (rule agree_slice) auto

lemma storeD:
  assumes "store buf lo hi i bs = Some b"
  shows "frame b buf i (i + length bs)" "slice b i (length bs) = bs" "length b = length buf"
  using assms frame_poke slice_poke poke_SomeD(2) by (auto simp: store_def split: if_splits)

lemma store_some:
  assumes "lo \<le> i" "i + length bs \<le> hi" "hi \<le> length buf"
  obtains b where "store buf lo hi i bs = Some b"
  using assms poke_in [of i bs buf] by (auto simp: store_def)

lemma frame_slice: "frame b a w e \<Longrightarrow> i + n \<le> w \<or> e \<le> i \<Longrightarrow> i + n \<le> length a \<Longrightarrow> slice b i n = slice a i n"
  by (rule slice_cong, rule frame_agree) auto

text \<open>A copy from another buffer leaves the bytes copied, and nothing else changes.\<close>

lemma copy_loop_ok:
  assumes "\<And>i. i < k \<Longrightarrow> ld (w * i) = Some (slice src (p + w * i) w)"
    and "p + w * k \<le> length src" and "lo \<le> d" and "d + w * k \<le> hi" and "hi \<le> length buf"
  shows "\<exists>b. copy_loop w ld lo hi d k buf = Some b \<and> frame b buf d (d + w * k) \<and> slice b d (w * k) = slice src p (w * k)"
  using assms
proof (induction k)
  case (Suc k)
  then obtain b where b: "copy_loop w ld lo hi d k buf = Some b" "frame b buf d (d + w * k)" "slice b d (w * k) = slice src p (w * k)"
    by auto
  let ?bs = "slice src (p + w * k) w"
  have len: "length ?bs = w" and lb: "length b = length buf"
    using Suc.prems b by (auto simp: frame_length)
  obtain b' where b': "store b lo hi (d + w * k) ?bs = Some b'"
    by (rule store_some [of lo "d + w * k" ?bs hi b]) (use Suc.prems len lb in auto)
  have f: "frame b' b (d + w * k) (d + w * Suc k)" and s: "slice b' (d + w * k) w = ?bs"
    using storeD [OF b'] len by (simp_all add: add.commute add.left_commute)
  have "slice b' d (w * k) = slice b d (w * k)"
    by (rule frame_slice [OF f]) (use Suc.prems lb in auto)
  then have "slice b' d (w * Suc k) = slice src p (w * Suc k)"
    using b(3) s slice_add [of b' d "w * k" w] slice_add [of src p "w * k" w] by (simp add: add.commute)
  moreover have "frame b' buf d (d + w * Suc k)"
    by (rule frame_join [OF f b(2)]) auto
  ultimately show ?case
    using b(1) b' Suc.prems(1) [of k] by simp
qed auto

text \<open>A match loop whose step is at most the distance computes \<open>expand\<close>.\<close>

lemma match_loop_ok:
  assumes "w \<le> D" and "lo + D \<le> d" and "d + w * k \<le> hi" and "hi \<le> length buf"
  shows "\<exists>b. match_loop w lo hi d D k buf = Some b \<and> frame b buf d (d + w * k) \<and>
           slice b lo (d - lo + w * k) = expand (slice buf lo (d - lo)) D (w * k)"
  using assms
proof (induction k)
  case (Suc k)
  then obtain b where b: "match_loop w lo hi d D k buf = Some b" "frame b buf d (d + w * k)"
      "slice b lo (d - lo + w * k) = expand (slice buf lo (d - lo)) D (w * k)"
    by auto
  let ?p = "d + w * k - D" and ?o = "slice b lo (d - lo + w * k)"
  have lb: "length b = length buf" and lo: "length ?o = d - lo + w * k"
    using Suc.prems b by (auto simp: frame_length)
  have ld: "load b lo hi ?p w = Some (slice b ?p w)"
    using Suc.prems by (auto simp: load_def)
  have bs: "slice b ?p w = slice ?o (length ?o - D) w"
    using Suc.prems lo by (subst slice_slice) (auto intro: arg_cong2 [where f = "slice b"])
  have len: "length (slice b ?p w) = w"
    using Suc.prems lb by auto
  obtain b' where b': "store b lo hi (d + w * k) (slice b ?p w) = Some b'"
    by (rule store_some [of lo "d + w * k" "slice b ?p w" hi b]) (use Suc.prems len lb in auto)
  have f: "frame b' b (d + w * k) (d + w * Suc k)" and s: "slice b' (d + w * k) w = slice b ?p w"
    using storeD [OF b'] len by (simp_all add: add.commute add.left_commute)
  have old: "slice b' lo (d - lo + w * k) = ?o"
    by (rule frame_slice [OF f]) (use Suc.prems lb in auto)
  have "slice b' lo (d - lo + w * Suc k) = ?o @ slice ?o (length ?o - D) w"
    using slice_add [of b' lo "d - lo + w * k" w] old s bs Suc.prems by (simp add: add.commute add.left_commute)
  also have "\<dots> = expand ?o D w"
    by (rule expand_block [symmetric]) (use Suc.prems lo in auto)
  also have "\<dots> = expand (slice buf lo (d - lo)) D (w * Suc k)"
    using b(3) expand_add [of "slice buf lo (d - lo)" D "w * k" w] by (simp add: add.commute)
  finally have "slice b' lo (d - lo + w * Suc k) = expand (slice buf lo (d - lo)) D (w * Suc k)" .
  moreover have "frame b' buf d (d + w * Suc k)"
    by (rule frame_join [OF f b(2)]) auto
  ultimately show ?case
    using b(1) b' ld Suc.prems by simp
qed auto

text \<open>A match loop stays inside the window for every distance up to the bytes behind it.\<close>

lemma match_loop_safe:
  assumes "lo + D \<le> d" and "d + w * k \<le> hi" and "hi \<le> length buf"
  shows "\<exists>b. match_loop w lo hi d D k buf = Some b \<and> frame b buf d (d + w * k)"
  using assms
proof (induction k)
  case (Suc k)
  then obtain b where b: "match_loop w lo hi d D k buf = Some b" "frame b buf d (d + w * k)"
    by auto
  let ?p = "d + w * k - D"
  have lb: "length b = length buf" and ld: "load b lo hi ?p w = Some (slice b ?p w)"
    using Suc.prems b by (auto simp: frame_length load_def)
  have len: "length (slice b ?p w) = w"
    using Suc.prems lb by auto
  obtain b' where b': "store b lo hi (d + w * k) (slice b ?p w) = Some b'"
    by (rule store_some [of lo "d + w * k" "slice b ?p w" hi b]) (use Suc.prems len lb in auto)
  have "frame b' buf d (d + w * Suc k)"
    by (rule frame_join [OF storeD(1) [OF b'] b(2)]) (use len in auto)
  then show ?case
    using b(1) b' ld Suc.prems by auto
qed auto

end
