(* ===== verification/FSE_Stream.thy ===== *)
theory FSE_Stream
  imports LZ_Memory
begin

text \<open>
  The bit streams of the FSE coder, from
  \<open>src/src/darwin/libcompression/lzfse/lzfse_fse.h\<close>.  The 64-bit streams are
  modelled, which are the ones compiled on the supported targets
  (\<open>FSE_IOSTREAM_64\<close>).  The accumulator is a 64-bit word, bit counts are integers,
  pointers are indices into the buffers.  \<open>None\<close> is an access outside a buffer, a
  shift by a count outside the word or an index outside a table; a checked operation
  that reports -1 returns \<open>Some None\<close>.

  Both streams are views of one stack of bits: writing pushes at the top, reading
  takes from the top, and the bytes in memory together with the accumulator are the
  stack.  The lemmas show that every operation is the stack operation, so that what
  was written is read back in reverse order whatever flushes happen in between.
\<close>

section \<open>Operations\<close>

record fse_stream =
  accum :: u64
  accum_nbits :: int

definition mtable :: "u64 list" where
  "mtable =
    [
     0, 0x1, 0x3, 0x7, 0xf, 0x1f,
     0x3f, 0x7f, 0xff, 0x1ff, 0x3ff, 0x7ff,
     0xfff, 0x1fff, 0x3fff, 0x7fff, 0xffff, 0x1ffff,
     0x3ffff, 0x7ffff, 0xfffff, 0x1fffff, 0x3fffff, 0x7fffff,
     0xffffff, 0x1ffffff, 0x3ffffff, 0x7ffffff, 0xfffffff, 0x1fffffff,
     0x3fffffff, 0x7fffffff, 0xffffffff, 0x1ffffffff, 0x3ffffffff, 0x7ffffffff,
     0xfffffffff, 0x1fffffffff, 0x3fffffffff, 0x7fffffffff, 0xffffffffff, 0x1ffffffffff,
     0x3ffffffffff, 0x7ffffffffff, 0xfffffffffff, 0x1fffffffffff, 0x3fffffffffff, 0x7fffffffffff,
     0xffffffffffff, 0x1ffffffffffff, 0x3ffffffffffff, 0x7ffffffffffff, 0xfffffffffffff, 0x1fffffffffffff,
     0x3fffffffffffff, 0x7fffffffffffff, 0xffffffffffffff, 0x1ffffffffffffff, 0x3ffffffffffffff, 0x7ffffffffffffff,
     0xfffffffffffffff, 0x1fffffffffffffff, 0x3fffffffffffffff, 0x7fffffffffffffff, 0xffffffffffffffff]"

definition fse_mask_lsb64 :: "u64 \<Rightarrow> int \<Rightarrow> u64 option" where
  "fse_mask_lsb64 x nbits = (if 0 \<le> nbits \<and> nbits < 65 then Some (x AND mtable ! nat nbits) else None)"

definition fse_out_init64 :: fse_stream where
  "fse_out_init64 = \<lparr>accum = 0, accum_nbits = 0\<rparr>"

definition fse_out_push64 :: "fse_stream \<Rightarrow> int \<Rightarrow> u64 \<Rightarrow> fse_stream option" where
  "fse_out_push64 s n b =
     (if 0 \<le> accum_nbits s \<and> accum_nbits s < 64
      then Some \<lparr>accum = accum s OR push_bit (nat (accum_nbits s)) b, accum_nbits = accum_nbits s + n\<rparr>
      else None)"

definition fse_out_flush64 :: "nat \<Rightarrow> fse_stream \<Rightarrow> byte list \<Rightarrow> nat \<Rightarrow> (fse_stream \<times> byte list \<times> nat) option" where
  "fse_out_flush64 hi s buf p =
     (let nbits = accum_nbits s AND - 8 in
      do { b \<leftarrow> store8 buf 0 hi p (accum s);
           if 0 \<le> nbits \<and> nbits < 64
           then Some (\<lparr>accum = drop_bit (nat nbits) (accum s), accum_nbits = accum_nbits s - nbits\<rparr>, b, p + nat (nbits div 8))
           else None })"

definition fse_out_finish64 :: "nat \<Rightarrow> fse_stream \<Rightarrow> byte list \<Rightarrow> nat \<Rightarrow> (fse_stream \<times> byte list \<times> nat) option" where
  "fse_out_finish64 hi s buf p =
     (let nbits = (accum_nbits s + 7) AND - 8 in
      do { b \<leftarrow> store8 buf 0 hi p (accum s);
           Some (\<lparr>accum = 0, accum_nbits = accum_nbits s - nbits\<rparr>, b, p + nat (nbits div 8)) })"

definition load8 :: "byte list \<Rightarrow> nat \<Rightarrow> nat \<Rightarrow> nat \<Rightarrow> u64 option" where
  "load8 buf lo hi i = map_option (\<lambda>bs. of_nat (le_val bs)) (load buf lo hi i 8)"

definition fse_in_checked_init64 :: "byte list \<Rightarrow> nat \<Rightarrow> int \<Rightarrow> nat \<Rightarrow> (fse_stream \<times> nat) option option" where
  "fse_in_checked_init64 src buf_start n p =
     (let finish = (\<lambda>s p. if accum_nbits s < 56 \<or> accum_nbits s \<ge> 64 \<or> drop_bit (nat (accum_nbits s)) (accum s) \<noteq> 0
                          then Some None else Some (Some (s, p))) in
      if n \<noteq> 0 then
        if p < buf_start + 8 then Some None
        else do { a \<leftarrow> load8 src 0 (length src) (p - 8); finish \<lparr>accum = a, accum_nbits = n + 64\<rparr> (p - 8) }
      else
        if p < buf_start + 7 then Some None
        else do { bs \<leftarrow> load src 0 (length src) (p - 7) 7;
                  finish \<lparr>accum = of_nat (le_val bs) AND 0xffffffffffffff, accum_nbits = n + 56\<rparr> (p - 7) })"

definition fse_in_checked_flush64 :: "byte list \<Rightarrow> nat \<Rightarrow> fse_stream \<Rightarrow> nat \<Rightarrow> (fse_stream \<times> nat) option option" where
  "fse_in_checked_flush64 src buf_start s p =
     (let nbits = (63 - accum_nbits s) AND - 8; m = nbits div 8 in
      if int p - m < int buf_start then Some None
      else do { incoming \<leftarrow> load8 src 0 (length src) (nat (int p - m));
                low \<leftarrow> fse_mask_lsb64 incoming nbits;
                Some (Some (\<lparr>accum = push_bit (nat nbits) (accum s) OR low, accum_nbits = accum_nbits s + nbits\<rparr>,
                            nat (int p - m))) })"

definition fse_in_pull64 :: "fse_stream \<Rightarrow> int \<Rightarrow> (u64 \<times> fse_stream) option" where
  "fse_in_pull64 s n =
     (let r = accum_nbits s - n in
      if 0 \<le> r \<and> r < 64
      then do { a \<leftarrow> fse_mask_lsb64 (accum s) r; Some (drop_bit (nat r) (accum s), \<lparr>accum = a, accum_nbits = r\<rparr>) }
      else None)"

section \<open>Arithmetic of the operations\<close>

lemma length_mtable [simp]: "length mtable = 65"
  by (simp add: mtable_def)

lemma mtable_mask: "n < 65 \<Longrightarrow> mtable ! n = mask n"
proof -
  have "mtable = map mask [0..<65]"
    unfolding mtable_def by code_simp
  moreover have "map mask [0..<k] ! n = mask n" if "n < k" for k
    using that by simp
  ultimately show "n < 65 \<Longrightarrow> ?thesis"
    by metis
qed

lemma and_minus_8: "(a :: int) AND - 8 = a div 8 * 8"
proof -
  have "a AND - 8 = a AND NOT (mask 3)"
    by (simp add: mask_eq_exp_minus_1 not_int_def)
  also have "\<dots> = push_bit 3 (drop_bit 3 a)"
    by (simp add: bit_eq_iff bit_simps) auto
  finally show ?thesis
    by (simp add: push_bit_eq_mult drop_bit_eq_div)
qed


lemma fse_mask_lsb64_some: "0 \<le> n \<Longrightarrow> n < 65 \<Longrightarrow> fse_mask_lsb64 x n = Some (take_bit (nat n) x)"
  by (simp add: fse_mask_lsb64_def mtable_mask take_bit_eq_mask nat_less_iff)

lemma le_val_append: "le_val (xs @ ys) = le_val xs + 256 ^ length xs * le_val ys"
  by (induction xs) (simp_all add: algebra_simps)

lemma le_val_take: "n \<le> length bs \<Longrightarrow> le_val (take n bs) = le_val bs mod 256 ^ n"
proof -
  assume "n \<le> length bs"
  then have "le_val bs = le_val (take n bs) + 256 ^ n * le_val (drop n bs)" "le_val (take n bs) < 256 ^ n"
    using le_val_append [of "take n bs" "drop n bs"] le_val_less [of "take n bs"] by simp_all
  then show ?thesis by simp
qed

lemma unat_le_val8: "length bs \<le> 8 \<Longrightarrow> unat (of_nat (le_val bs) :: u64) = le_val bs"
proof -
  assume "length bs \<le> 8"
  then have "le_val bs < 256 ^ 8"
    using le_val_less [of bs] power_increasing [of "length bs" 8 "256 :: nat"] by simp
  then show ?thesis
    by (simp add: unat_of_nat del: of_nat_le_0_iff)
qed

lemma unat_or_push_bit:
  fixes x b :: u64
  assumes "unat x < 2 ^ n" and "unat x + unat b * 2 ^ n < 2 ^ 64"
  shows "unat (x OR push_bit n b) = unat x + unat b * 2 ^ n"
proof -
  have p: "unat (push_bit n b) = unat b * 2 ^ n"
    using assms(2) unat_push_bit_mod [of n b] by (simp del: of_nat_mult)
  have "x OR push_bit n b = push_bit n b + x"
    using or_push_bit_eq_plus [OF assms(1), of b] by (simp only: or.commute)
  then show ?thesis
    using p assms(2) unat_add_lem [of "push_bit n b" x] by simp
qed

lemma le_val_enc8 [simp]: "le_val (le_enc 8 (unat (w :: u64))) = unat w"
proof -
  have "unat w < 2 ^ 64" using unsigned_less [of w] by simp
  then show ?thesis by (simp add: le_val_enc)
qed

text \<open>A number split at a byte boundary and shifted up.\<close>

lemma split_scale: "256 ^ a * (x mod 256 ^ m) + 256 ^ (a + m) * (x div 256 ^ m) = (256 :: nat) ^ a * x"
proof -
  have "256 ^ a * (x mod 256 ^ m) + 256 ^ (a + m) * (x div 256 ^ m) =
      (256 :: nat) ^ a * (x mod 256 ^ m + 256 ^ m * (x div 256 ^ m))"
    by (simp only: power_add distrib_left mult.assoc)
  then show ?thesis by simp
qed

section \<open>The stack\<close>

text \<open>A stack of bits: its bits read as a number, the bottom one least significant,
  and its height.\<close>

type_synonym stack = "nat \<times> nat"

definition push :: "nat \<Rightarrow> nat \<Rightarrow> stack \<Rightarrow> stack" where
  "push n b st = (fst st + b * 2 ^ snd st, snd st + n)"

definition pull :: "nat \<Rightarrow> stack \<Rightarrow> nat \<times> stack" where
  "pull n st = (let r = snd st - n in (fst st div 2 ^ r, (fst st mod 2 ^ r, r)))"

definition stack_ok :: "stack \<Rightarrow> bool" where
  "stack_ok st \<longleftrightarrow> fst st < 2 ^ snd st"

lemma push_ok:
  assumes "stack_ok st" and "b < 2 ^ n"
  shows "stack_ok (push n b st)"
proof -
  have "fst st + b * 2 ^ snd st < (b + 1) * 2 ^ snd st"
    using assms by (simp add: stack_ok_def)
  also have "\<dots> \<le> 2 ^ n * 2 ^ snd st"
    using assms(2) by (intro mult_right_mono) auto
  finally show ?thesis
    by (simp add: stack_ok_def push_def power_add mult.commute)
qed

lemma pull_push: "stack_ok st \<Longrightarrow> pull n (push n b st) = (b, st)"
  by (simp add: pull_def push_def stack_ok_def)

lemma pull_ok: "stack_ok (snd (pull n st))"
  by (simp add: pull_def stack_ok_def Let_def)

lemma pull_less:
  assumes "stack_ok st" and "n \<le> snd st"
  shows "fst (pull n st) < 2 ^ n"
proof -
  have "fst st < 2 ^ n * 2 ^ (snd st - n)"
    using assms by (simp add: stack_ok_def flip: power_add)
  then show ?thesis
    by (simp add: pull_def Let_def less_mult_imp_div_less)
qed

text \<open>Pulling twice is pulling once and splitting the bits.\<close>

lemma push_push: "push n c (push m b st) = push (m + n) (b + c * 2 ^ m) st"
  by (simp add: push_def algebra_simps power_add)

text \<open>The stack that a stream and the bytes from \<open>lo\<close> to \<open>p\<close> make up.\<close>

definition stack_of :: "byte list \<Rightarrow> nat \<Rightarrow> nat \<Rightarrow> fse_stream \<Rightarrow> stack" where
  "stack_of buf lo p s =
     (le_val (slice buf lo (p - lo)) + 256 ^ (p - lo) * unat (accum s), 8 * (p - lo) + nat (accum_nbits s))"

text \<open>The bits of the accumulator above \<open>accum_nbits\<close> are zero.\<close>

definition stream_ok :: "fse_stream \<Rightarrow> bool" where
  "stream_ok s \<longleftrightarrow> 0 \<le> accum_nbits s \<and> accum_nbits s < 64 \<and> unat (accum s) < 2 ^ nat (accum_nbits s)"

lemma pow_256: "(256 :: nat) ^ n = 2 ^ (8 * n)"
  by (simp add: power_mult)

lemma stack_of_ok:
  assumes "stream_ok s" and "lo \<le> p" and "p \<le> length buf"
  shows "stack_ok (stack_of buf lo p s)"
proof -
  let ?v = "le_val (slice buf lo (p - lo))"
  have "?v < 256 ^ (p - lo)"
    using le_val_less [of "slice buf lo (p - lo)"] assms by simp
  then have "stack_ok (?v, 8 * (p - lo))"
    by (simp add: stack_ok_def pow_256)
  then show ?thesis
    using push_ok [of "(?v, 8 * (p - lo))" "unat (accum s)" "nat (accum_nbits s)"] assms(1)
    by (simp add: push_def stack_of_def stream_ok_def pow_256 mult.commute)
qed

subsection \<open>Writing\<close>

lemma out_push:
  assumes "stream_ok s" and "0 \<le> n" and "accum_nbits s + n < 64" and "unat b < 2 ^ nat n"
  shows "\<exists>s'. fse_out_push64 s n b = Some s' \<and> stream_ok s' \<and> accum_nbits s' = accum_nbits s + n \<and>
           stack_of buf lo p s' = push (nat n) (unat b) (stack_of buf lo p s)"
proof -
  let ?a = "nat (accum_nbits s)"
  let ?s = "\<lparr>accum = accum s OR push_bit ?a b, accum_nbits = accum_nbits s + n\<rparr>"
  have ok: "0 \<le> accum_nbits s" "accum_nbits s < 64" "unat (accum s) < 2 ^ ?a"
    using assms(1) by (simp_all add: stream_ok_def)
  have nn: "nat (accum_nbits s + n) = ?a + nat n"
    using ok assms(2) by (simp add: nat_add_distrib)
  have "stack_ok (push (nat n) (unat b) (unat (accum s), ?a))"
    by (rule push_ok) (simp_all add: stack_ok_def ok assms(4))
  then have lt: "unat (accum s) + unat b * 2 ^ ?a < 2 ^ (?a + nat n)"
    by (simp add: stack_ok_def push_def)
  moreover have "2 ^ (?a + nat n) \<le> (2 ^ 63 :: nat)"
    using assms(3) ok nn by (intro power_increasing) auto
  ultimately have small: "unat (accum s) + unat b * 2 ^ ?a < 2 ^ 64"
    by simp
  have u: "unat (accum ?s) = unat (accum s) + unat b * 2 ^ ?a"
    using unat_or_push_bit [OF ok(3)] small by simp
  have "stream_ok ?s"
    using lt u assms(2,3) ok nn by (simp add: stream_ok_def)
  moreover have "stack_of buf lo p ?s = push (nat n) (unat b) (stack_of buf lo p s)"
    using u nn by (simp add: stack_of_def push_def pow_256 power_add algebra_simps)
  ultimately show ?thesis
    using ok by (simp add: fse_out_push64_def)
qed

text \<open>Flushing moves whole bytes from the accumulator to memory.\<close>

lemma out_flush:
  assumes s: "stream_ok s" and "lo \<le> p" and "p + 8 \<le> hi" and "hi \<le> length buf"
  shows "\<exists>s' b p'. fse_out_flush64 hi s buf p = Some (s', b, p') \<and> stream_ok s' \<and> accum_nbits s' < 8 \<and>
           p \<le> p' \<and> p' \<le> p + 7 \<and> frame b buf p (p + 8) \<and> stack_of b lo p' s' = stack_of buf lo p s"
proof -
  define m where "m = nat (accum_nbits s) div 8"
  have ok: "0 \<le> accum_nbits s" "accum_nbits s < 64" "unat (accum s) < 2 ^ nat (accum_nbits s)"
    using s by (simp_all add: stream_ok_def)
  then have nb: "accum_nbits s AND - 8 = int (8 * m)" "m \<le> 7"
    by (auto simp: and_minus_8 m_def zdiv_int)
  let ?bs = "le_enc 8 (unat (accum s))"
  obtain b where b: "store buf 0 hi p ?bs = Some b"
    by (rule store_some [of 0 p ?bs hi buf]) (use assms in auto)
  let ?s = "\<lparr>accum = drop_bit (8 * m) (accum s), accum_nbits = accum_nbits s - int (8 * m)\<rparr>"
  have r: "nat (accum_nbits s) = 8 * m + nat (accum_nbits s) mod 8"
    by (simp add: m_def)
  then have nb': "nat (accum_nbits s - int (8 * m)) = nat (accum_nbits s) mod 8"
    using ok by (simp add: nat_diff_distrib)
  have u: "unat (accum ?s) = unat (accum s) div 256 ^ m"
    by (simp add: unat_drop_bit pow_256)
  have "unat (accum s) < 2 ^ (nat (accum_nbits s) mod 8) * 256 ^ m"
    using ok(3) by (subst (asm) r) (simp add: power_add pow_256 mult.commute)
  then have "unat (accum ?s) < 2 ^ (nat (accum_nbits s) mod 8)"
    unfolding u by (rule less_mult_imp_div_less)
  moreover have "0 \<le> accum_nbits s - int (8 * m)" "accum_nbits s - int (8 * m) < 8"
    using ok(1) by (auto simp: m_def zdiv_int)
  ultimately have "stream_ok ?s" "accum_nbits ?s < 8"
    unfolding stream_ok_def using nb' by simp_all
  have sl: "slice b p m = take m ?bs"
    using storeD(2) [OF b] nb(2) slice_slice [of 0 m 8 b p] by (simp add: slice_def)
  have lb: "length b = length buf"
    using storeD(3) [OF b] .
  have old: "slice b lo (p - lo) = slice buf lo (p - lo)"
    by (rule frame_slice [OF storeD(1) [OF b]]) (use assms in auto)
  have "le_val (slice b lo (p + m - lo)) = le_val (slice buf lo (p - lo)) + 256 ^ (p - lo) * (unat (accum s) mod 256 ^ m)"
  proof -
    have "slice b lo (p + m - lo) = slice buf lo (p - lo) @ take m ?bs"
      using slice_add [of b lo "p - lo" m] old sl assms(2) by simp
    moreover have "le_val (take m ?bs) = unat (accum s) mod 256 ^ m"
      using nb(2) by (subst le_val_take) simp_all
    moreover have "length (slice buf lo (p - lo)) = p - lo"
      using assms by simp
    ultimately show ?thesis
      by (simp add: le_val_append)
  qed
  note bytes = this
  have "stack_of b lo (p + m) ?s = stack_of buf lo p s"
  proof -
    have "8 * (p + m - lo) + nat (accum_nbits s) mod 8 = 8 * (p - lo) + nat (accum_nbits s)"
      using r assms(2) by linarith
    then show ?thesis
      using bytes split_scale [of "p - lo" "unat (accum s)" m] u nb' assms(2) by (simp add: stack_of_def)
  qed
  moreover have "fse_out_flush64 hi s buf p = Some (?s, b, p + m)"
    using b nb by (simp add: fse_out_flush64_def store8_def Let_def nat_mult_distrib)
  moreover have "frame b buf p (p + 8)"
    using storeD(1) [OF b] by simp
  ultimately show ?thesis
    using \<open>stream_ok ?s\<close> \<open>accum_nbits ?s < 8\<close> nb(2) by auto
qed


text \<open>Finishing writes the rest, padded with zero bits; \<open>accum_nbits\<close> counts the padding.\<close>

lemma out_finish:
  assumes s: "stream_ok s" and "lo \<le> p" and "p + 8 \<le> hi" and "hi \<le> length buf"
    and st: "stack_of buf lo p s = (V, N)"
  shows "\<exists>s' b p'. fse_out_finish64 hi s buf p = Some (s', b, p') \<and> p \<le> p' \<and> p' \<le> p + 8 \<and>
           frame b buf p (p + 8) \<and> - 7 \<le> accum_nbits s' \<and> accum_nbits s' \<le> 0 \<and>
           le_val (slice b lo (p' - lo)) = V \<and> int N = 8 * int (p' - lo) + accum_nbits s'"
proof -
  define m where "m = (nat (accum_nbits s) + 7) div 8"
  have ok: "0 \<le> accum_nbits s" "accum_nbits s < 64" "unat (accum s) < 2 ^ nat (accum_nbits s)"
    using s by (simp_all add: stream_ok_def)
  then have nb: "(accum_nbits s + 7) AND - 8 = int (8 * m)" "m \<le> 8"
    by (auto simp: and_minus_8 m_def zdiv_int)
  have m: "int (8 * m) \<ge> accum_nbits s" "int (8 * m) \<le> accum_nbits s + 7"
    using ok(1) by (auto simp: m_def zdiv_int)
  let ?bs = "le_enc 8 (unat (accum s))"
  obtain b where b: "store buf 0 hi p ?bs = Some b"
    by (rule store_some [of 0 p ?bs hi buf]) (use assms in auto)
  have sl: "slice b p m = take m ?bs"
    using storeD(2) [OF b] nb(2) slice_slice [of 0 m 8 b p] by (simp add: slice_def)
  have old: "slice b lo (p - lo) = slice buf lo (p - lo)"
    by (rule frame_slice [OF storeD(1) [OF b]]) (use assms in auto)
  have "2 ^ nat (accum_nbits s) \<le> (2 ^ (8 * m) :: nat)"
    using m(1) ok(1) by (intro power_increasing) auto
  then have "unat (accum s) < 256 ^ m"
    using less_le_trans [OF ok(3)] by (simp only: pow_256)
  then have "le_val (take m ?bs) = unat (accum s)"
    using nb(2) by (subst le_val_take) simp_all
  moreover have "slice b lo (p + m - lo) = slice buf lo (p - lo) @ take m ?bs"
    using slice_add [of b lo "p - lo" m] old sl assms(2) by simp
  moreover have "length (slice buf lo (p - lo)) = p - lo"
    using assms by simp
  ultimately have "le_val (slice b lo (p + m - lo)) = V"
    using st by (simp add: le_val_append stack_of_def)
  moreover have "int N = 8 * int (p + m - lo) + (accum_nbits s - int (8 * m))"
    using st ok(1) assms(2) by (auto simp: stack_of_def)
  moreover have "fse_out_finish64 hi s buf p = Some (\<lparr>accum = 0, accum_nbits = accum_nbits s - int (8 * m)\<rparr>, b, p + m)"
    using b nb(1) by (simp add: fse_out_finish64_def store8_def)
  moreover have "frame b buf p (p + 8)"
    using storeD(1) [OF b] by simp
  ultimately show ?thesis
    using m nb(2) by auto
qed

subsection \<open>Reading\<close>

lemma in_pull:
  assumes s: "stream_ok s" and "0 \<le> n" and "n \<le> accum_nbits s"
  shows "\<exists>v s'. fse_in_pull64 s n = Some (v, s') \<and> stream_ok s' \<and> accum_nbits s' = accum_nbits s - n \<and>
           pull (nat n) (stack_of buf lo p s) = (unat v, stack_of buf lo p s')"
proof -
  define r where "r = nat (accum_nbits s - n)"
  have ok: "0 \<le> accum_nbits s" "accum_nbits s < 64" "unat (accum s) < 2 ^ nat (accum_nbits s)"
    using s by (simp_all add: stream_ok_def)
  have r: "accum_nbits s - n = int r" "r < 64"
    using assms ok by (auto simp: r_def)
  let ?s = "\<lparr>accum = take_bit r (accum s), accum_nbits = int r\<rparr>"
  have "fse_in_pull64 s n = Some (drop_bit r (accum s), ?s)"
    using r by (simp add: fse_in_pull64_def fse_mask_lsb64_some)
  moreover have "stream_ok ?s"
    using r by (simp add: stream_ok_def unat_take_bit)
  moreover have "pull (nat n) (stack_of buf lo p s) = (unat (drop_bit r (accum s)), stack_of buf lo p ?s)"
  proof -
    let ?v = "le_val (slice buf lo (p - lo))" and ?e = "8 * (p - lo)"
    have v: "?v < 2 ^ ?e"
      using le_val_less [of "slice buf lo (p - lo)"] order_less_le_trans [OF _ power_increasing]
      by (fastforce simp: slice_def pow_256)
    have h: "8 * (p - lo) + nat (accum_nbits s) - nat n = ?e + r"
      using assms r by linarith
    have "(?v + 2 ^ ?e * unat (accum s)) div 2 ^ (?e + r) = unat (accum s) div 2 ^ r"
      using v by (simp add: power_add div_mult2_eq)
    moreover have "(?v + 2 ^ ?e * unat (accum s)) mod 2 ^ (?e + r) = ?v + 2 ^ ?e * (unat (accum s) mod 2 ^ r)"
      using v by (simp add: power_add mod_mult2_eq)
    ultimately show ?thesis
      unfolding pull_def stack_of_def Let_def fst_conv snd_conv h
      by (simp add: pow_256 unat_drop_bit unat_take_bit)
  qed
  ultimately show ?thesis
    using r(1) by auto
qed


lemma in_flush:
  assumes s: "stream_ok s" and p: "lo \<le> p" "p + 8 \<le> length src"
    and r: "r = fse_in_checked_flush64 src lo s p"
  shows "r = Some None \<or> (\<exists>s' p'. r = Some (Some (s', p')) \<and> stream_ok s' \<and> 56 \<le> accum_nbits s' \<and> lo \<le> p' \<and> p' \<le> p \<and>
           stack_of src lo p' s' = stack_of src lo p s)"
    and "8 * (p - lo) + nat (accum_nbits s) \<ge> 56 \<Longrightarrow> r \<noteq> Some None"
proof -
  define m where "m = nat (63 - accum_nbits s) div 8"
  have ok: "0 \<le> accum_nbits s" "accum_nbits s < 64" "unat (accum s) < 2 ^ nat (accum_nbits s)"
    using s by (simp_all add: stream_ok_def)
  then have nb: "(63 - accum_nbits s) AND - 8 = int (8 * m)" "m \<le> 7"
    by (auto simp: and_minus_8 m_def zdiv_int)
  have m: "accum_nbits s + int (8 * m) \<le> 63" "56 \<le> accum_nbits s + int (8 * m)"
    using ok by (auto simp: m_def zdiv_int)
  show "8 * (p - lo) + nat (accum_nbits s) \<ge> 56 \<Longrightarrow> r \<noteq> Some None"
  proof -
    assume "8 * (p - lo) + nat (accum_nbits s) \<ge> 56"
    then have "lo + m \<le> p"
      using ok p(1) by (auto simp: m_def)
    then show ?thesis
      using nb by (simp add: r fse_in_checked_flush64_def Let_def bind_eq_Some_conv)
  qed
  show "r = Some None \<or> (\<exists>s' p'. r = Some (Some (s', p')) \<and> stream_ok s' \<and> 56 \<le> accum_nbits s' \<and> lo \<le> p' \<and> p' \<le> p \<and>
           stack_of src lo p' s' = stack_of src lo p s)"
  proof (cases "p < lo + m")
    case True
    then show ?thesis
      using nb by (simp add: r fse_in_checked_flush64_def)
  next
    case False
    let ?x = "le_val (slice src (p - m) m)"
    let ?s = "\<lparr>accum = push_bit (8 * m) (accum s) OR take_bit (8 * m) (of_nat (le_val (slice src (p - m) 8))),
               accum_nbits = accum_nbits s + int (8 * m)\<rparr>"
    have "nat (int p - int m) = p - m" "p - m + 8 \<le> length src"
      using False p by simp_all
    then have "r = Some (Some (?s, p - m))"
      using False nb
      by (simp add: r fse_in_checked_flush64_def load8_def load_def fse_mask_lsb64_some Let_def nat_mult_distrib)
    have len: "length (slice src (p - m) 8) = 8"
      using p by simp
    have x: "unat (take_bit (8 * m) (of_nat (le_val (slice src (p - m) 8))) :: u64) = ?x" "?x < 2 ^ (8 * m)"
    proof -
      have "slice src (p - m) m = take m (slice src (p - m) 8)"
        using nb(2) slice_slice [of 0 m 8 src "p - m"] by (simp add: slice_def)
      then have "?x = le_val (slice src (p - m) 8) mod 256 ^ m"
        using nb(2) len by (simp add: le_val_take)
      then show "unat (take_bit (8 * m) (of_nat (le_val (slice src (p - m) 8))) :: u64) = ?x" "?x < 2 ^ (8 * m)"
        using len by (simp_all add: unat_take_bit unat_le_val8 pow_256)
    qed
    have "stack_ok (push (nat (accum_nbits s)) (unat (accum s)) (?x, 8 * m))"
      by (rule push_ok) (simp_all add: stack_ok_def x ok(3))
    then have lt: "?x + unat (accum s) * 2 ^ (8 * m) < 2 ^ (8 * m + nat (accum_nbits s))"
      by (simp add: stack_ok_def push_def)
    moreover have "2 ^ (8 * m + nat (accum_nbits s)) \<le> (2 ^ 63 :: nat)"
      using m ok by (intro power_increasing) auto
    ultimately have "?x + unat (accum s) * 2 ^ (8 * m) < 2 ^ 64"
      by simp
    then have u: "unat (accum ?s) = ?x + unat (accum s) * 2 ^ (8 * m)"
      using unat_or_push_bit [of "take_bit (8 * m) (of_nat (le_val (slice src (p - m) 8)))" "8 * m" "accum s"] x
      by (simp add: or.commute)
    have nn: "nat (accum_nbits s + int (8 * m)) = 8 * m + nat (accum_nbits s)"
      using ok(1) by (simp add: nat_add_distrib)
    have "stream_ok ?s"
      using lt u nn m ok(1) by (simp add: stream_ok_def)
    moreover have "stack_of src lo (p - m) ?s = stack_of src lo p s"
    proof -
      have "slice src lo (p - lo) = slice src lo (p - m - lo) @ slice src (p - m) m"
        using slice_add [of src lo "p - m - lo" m] False p by simp
      then have "le_val (slice src lo (p - lo)) = le_val (slice src lo (p - m - lo)) + 256 ^ (p - m - lo) * ?x"
        using False p by (simp add: le_val_append)
      moreover have "256 ^ (p - lo) = (256 :: nat) ^ (p - m - lo) * 2 ^ (8 * m)"
        using False by (simp add: pow_256 flip: power_add)
      moreover have "8 * (p - m - lo) + (8 * m + nat (accum_nbits s)) = 8 * (p - lo) + nat (accum_nbits s)"
        using False by linarith
      ultimately show ?thesis
        using u nn by (simp add: stack_of_def algebra_simps)
    qed
    ultimately show ?thesis
      using \<open>r = Some (Some (?s, p - m))\<close> m False by auto
  qed
qed


lemma in_init:
  assumes p: "lo \<le> p" "p \<le> length src" and n: "- 7 \<le> n" "n \<le> 0"
    and r: "r = fse_in_checked_init64 src lo n p"
    and st: "st = (le_val (slice src lo (p - lo)), nat (8 * int (p - lo) + n))"
  shows "r = Some None \<or> (\<exists>s p'. r = Some (Some (s, p')) \<and> stream_ok s \<and> 56 \<le> accum_nbits s \<and> lo \<le> p' \<and> p' + 7 \<le> p \<and>
           (n \<noteq> 0 \<longrightarrow> p' + 8 \<le> p) \<and> stack_of src lo p' s = st)"
    and "lo + 8 \<le> p \<Longrightarrow> stack_ok st \<Longrightarrow> r \<noteq> Some None"
proof -
  define k :: nat where "k = (if n = 0 then 7 else 8)"
  have k: "k \<le> 8" "7 \<le> k" "int (8 * k) + n \<ge> 56" "int (8 * k) + n < 64"
    using n by (auto simp: k_def)
  define a :: u64 where "a = of_nat (le_val (slice src (p - k) k))"
  define s where "s = \<lparr>accum = a, accum_nbits = int (8 * k) + n\<rparr>"
  have r': "r = (if p < lo + k then Some None
      else if drop_bit (nat (int (8 * k) + n)) a \<noteq> 0 then Some None else Some (Some (s, p - k)))"
  proof (cases "n = 0")
    case True
    have "of_nat (le_val (slice src (p - 7) 7)) AND (0xffffffffffffff :: u64) = of_nat (le_val (slice src (p - 7) 7))"
      if "lo + 7 \<le> p"
    proof -
      have "le_val (slice src (p - 7) 7) < 256 ^ 7"
        using le_val_less [of "slice src (p - 7) 7"] that p by simp
      then have "unat (of_nat (le_val (slice src (p - 7) 7)) :: u64) < 2 ^ 56"
        using that p by (simp add: unat_le_val8)
      then show ?thesis
        using take_bit_small [of "of_nat (le_val (slice src (p - 7) 7)) :: u64" 56]
        by (simp add: take_bit_eq_mask mask_eq_exp_minus_1)
    qed
    then show ?thesis
      using True p
      by (cases "p < lo + 7") (simp_all add: r fse_in_checked_init64_def k_def s_def a_def load_def Let_def)
  next
    case False
    then show ?thesis
      using p k by (auto simp: r fse_in_checked_init64_def k_def s_def a_def load8_def load_def Let_def add.commute)
  qed
  have st': "stack_of src lo (p - k) s = st" if "lo + k \<le> p"
  proof -
    have "slice src lo (p - lo) = slice src lo (p - k - lo) @ slice src (p - k) k"
      using slice_add [of src lo "p - k - lo" k] that p by simp
    then have "le_val (slice src lo (p - lo)) = le_val (slice src lo (p - k - lo)) + 256 ^ (p - k - lo) * unat a"
      using that p k(1) by (simp add: le_val_append a_def unat_le_val8)
    moreover have "8 * (p - k - lo) + nat (int (8 * k) + n) = nat (8 * int (p - lo) + n)"
      using that k by linarith
    ultimately show ?thesis
      by (simp add: st s_def stack_of_def)
  qed
  have top: "drop_bit (nat (int (8 * k) + n)) a = 0 \<longleftrightarrow> unat a < 2 ^ nat (int (8 * k) + n)"
    by (simp add: word_unat_eq_iff unat_drop_bit div_eq_0_iff)
  show "r = Some None \<or> (\<exists>s p'. r = Some (Some (s, p')) \<and> stream_ok s \<and> 56 \<le> accum_nbits s \<and> lo \<le> p' \<and> p' + 7 \<le> p \<and>
           (n \<noteq> 0 \<longrightarrow> p' + 8 \<le> p) \<and> stack_of src lo p' s = st)"
    using r' st' top k by (auto simp: s_def stream_ok_def k_def split: if_splits)
  show "r \<noteq> Some None" if "lo + 8 \<le> p" "stack_ok st"
  proof -
    have "stack_ok (stack_of src lo (p - k) s)"
      using st' that k(1) by simp
    then have "256 ^ (p - k - lo) * unat a < 2 ^ (8 * (p - k - lo)) * 2 ^ nat (int (8 * k) + n)"
      by (simp add: stack_ok_def stack_of_def s_def power_add)
    then have "unat a < 2 ^ nat (int (8 * k) + n)"
      by (simp add: pow_256)
    then show ?thesis
      using r' top that k(1) by auto
  qed
qed

end
