(* ===== verification/FSE_Tables.thy ===== *)
theory FSE_Tables
  imports FSE_Stream
begin

text \<open>
  The FSE coder of \<open>src/src/darwin/libcompression/lzfse/lzfse_fse.c\<close> and
  \<open>lzfse_fse.h\<close>: encoder and decoder tables, encoding and decoding of one symbol or
  value, and the normalisation of frequency tables.

  Frequencies are naturals below \<open>2^16\<close>, states naturals, and the conversions to
  \<open>int16_t\<close> and \<open>uint16_t\<close> are written out.  A table entry that the
  code leaves unwritten is \<open>None\<close>.  Shifting by a negative count has no defined result
  in C; \<open>ub\<close> stands for whatever the machine delivers (\<open>fse_init_encoder_table\<close> does it
  for a symbol that owns all states) and the theorems hold for every \<open>ub\<close>.

  Shown: for every state and symbol, decoding undoes encoding; all states stay inside
  the tables, for any frequencies the header check accepts; normalisation assigns
  exactly the available states and at least one to every symbol that occurs.
\<close>

section \<open>Machine arithmetic\<close>

fun lg :: "nat \<Rightarrow> nat" where
  "lg n = (if n < 2 then 0 else Suc (lg (n div 2)))"

declare lg.simps [simp del]

definition clz :: "nat \<Rightarrow> int" where
  "clz x = 31 - int (lg x)"

definition i16 :: "int \<Rightarrow> int" where
  "i16 x = (x + 32768) mod 65536 - 32768"

definition shl :: "int \<Rightarrow> int \<Rightarrow> int \<Rightarrow> int" where
  "shl ub x k = (if k < 0 then ub else x * 2 ^ nat k)"

definition shr :: "int \<Rightarrow> int \<Rightarrow> int \<Rightarrow> int" where
  "shr ub x k = (if k < 0 then ub else x div 2 ^ nat k)"

section \<open>Tables\<close>

record fse_encoder_entry =
  s0 :: int
  enc_k :: int
  delta0 :: int
  delta1 :: int

record fse_decoder_entry =
  dec_k :: int
  dec_symbol :: nat
  dec_delta :: int

record fse_value_decoder_entry =
  total_bits :: nat
  value_bits :: nat
  vdelta :: int
  vbase :: int

definition encoder_entry :: "int \<Rightarrow> nat \<Rightarrow> int \<Rightarrow> nat \<Rightarrow> fse_encoder_entry" where
  "encoder_entry ub nstates offset f =
     (let k = clz f - clz nstates in
      \<lparr>s0 = i16 (shl ub (int f) k - int nstates), enc_k = i16 k,
       delta0 = i16 (offset - int f + shr ub (int nstates) k),
       delta1 = i16 (offset - int f + shr ub (int nstates) (k - 1))\<rparr>)"

fun encoder_entries :: "int \<Rightarrow> nat \<Rightarrow> int \<Rightarrow> nat list \<Rightarrow> fse_encoder_entry option list" where
  "encoder_entries ub nstates offset [] = []"
| "encoder_entries ub nstates offset (f # fs) =
     (if f = 0 then None # encoder_entries ub nstates offset fs
      else Some (encoder_entry ub nstates offset f) # encoder_entries ub nstates (offset + int f) fs)"

definition fse_init_encoder_table :: "int \<Rightarrow> nat \<Rightarrow> nat list \<Rightarrow> fse_encoder_entry option list" where
  "fse_init_encoder_table ub nstates freq = encoder_entries ub nstates 0 freq"

definition decoder_entry :: "int \<Rightarrow> nat \<Rightarrow> nat \<Rightarrow> nat \<Rightarrow> nat \<Rightarrow> fse_decoder_entry" where
  "decoder_entry ub nstates i f j =
     (let k = clz f - clz nstates; j0 = shr ub (2 * int nstates) k - int f in
      if int j < j0
      then \<lparr>dec_k = k, dec_symbol = i mod 256, dec_delta = i16 (shl ub (int f + int j) k - int nstates)\<rparr>
      else \<lparr>dec_k = k - 1, dec_symbol = i mod 256, dec_delta = i16 (shl ub (int j - j0) (k - 1))\<rparr>)"

text \<open>\<open>memcpy(t, &e, sizeof(e))\<close>: the entry as the \<open>int32_t\<close> that \<open>fse_decode\<close> reads.\<close>

definition pack_entry :: "fse_decoder_entry \<Rightarrow> nat" where
  "pack_entry e = nat (dec_k e mod 256) + 256 * dec_symbol e + 65536 * nat (dec_delta e mod 65536)"

fun decoder_entries :: "int \<Rightarrow> nat \<Rightarrow> nat \<Rightarrow> nat \<Rightarrow> nat list \<Rightarrow> int \<times> nat list" where
  "decoder_entries ub nstates i sum_of_freq [] = (0, [])"
| "decoder_entries ub nstates i sum_of_freq (f # fs) =
     (if f = 0 then decoder_entries ub nstates (Suc i) sum_of_freq fs
      else if sum_of_freq + f > nstates then (-1, [])
      else (case decoder_entries ub nstates (Suc i) (sum_of_freq + f) fs of
              (rc, es) \<Rightarrow> (rc, map (\<lambda>j. pack_entry (decoder_entry ub nstates i f j)) [0..<f] @ es)))"

text \<open>The entries overwrite the front of the table.\<close>

definition fse_init_decoder_table :: "int \<Rightarrow> nat \<Rightarrow> nat list \<Rightarrow> nat list \<Rightarrow> int \<times> nat list" where
  "fse_init_decoder_table ub nstates freq t =
     (case decoder_entries ub nstates 0 0 freq of (rc, es) \<Rightarrow> (rc, es @ drop (length es) t))"

definition value_entry :: "int \<Rightarrow> nat \<Rightarrow> nat \<Rightarrow> int \<Rightarrow> nat \<Rightarrow> nat \<Rightarrow> fse_value_decoder_entry" where
  "value_entry ub nstates vbits base f j =
     (let k = clz f - clz nstates; j0 = shr ub (2 * int nstates) k - int f in
      if int j < j0
      then \<lparr>total_bits = (nat (k mod 256) + vbits) mod 256, value_bits = vbits,
            vdelta = i16 (shl ub (int f + int j) k - int nstates), vbase = base\<rparr>
      else \<lparr>total_bits = (nat ((k - 1) mod 256) + vbits) mod 256, value_bits = vbits,
            vdelta = i16 (shl ub (int j - j0) (k - 1)), vbase = base\<rparr>)"

fun value_entries :: "int \<Rightarrow> nat \<Rightarrow> nat list \<Rightarrow> (nat \<times> int) list \<Rightarrow> fse_value_decoder_entry list" where
  "value_entries ub nstates (f # fs) ((vbits, base) # vs) =
     map (value_entry ub nstates vbits base f) [0..<f] @ value_entries ub nstates fs vs"
| "value_entries ub nstates _ _ = []"

definition fse_init_value_decoder_table ::
  "int \<Rightarrow> nat \<Rightarrow> nat list \<Rightarrow> nat list \<Rightarrow> int list \<Rightarrow> fse_value_decoder_entry list \<Rightarrow> fse_value_decoder_entry list option" where
  "fse_init_value_decoder_table ub nstates freq symbol_vbits symbol_vbase t =
     (let es = value_entries ub nstates freq (zip symbol_vbits symbol_vbase) in
      if length es \<le> length t then Some (es @ drop (length es) t) else None)"

definition fse_check_freq :: "nat list \<Rightarrow> nat \<Rightarrow> int" where
  "fse_check_freq freq_table number_of_states = (if sum_list freq_table > number_of_states then -1 else 0)"

section \<open>Symbols and values\<close>

definition fse_encode :: "nat \<Rightarrow> fse_encoder_entry option list \<Rightarrow> fse_stream \<Rightarrow> nat \<Rightarrow> (nat \<times> fse_stream) option" where
  "fse_encode s table out symbol =
     (if symbol < length table then
        do { e \<leftarrow> table ! symbol;
             let hi = (int s \<ge> s0 e); nbits = (if hi then enc_k e else enc_k e - 1);
                 delta = (if hi then delta0 e else delta1 e) mod 65536 in
             do { b \<leftarrow> fse_mask_lsb64 (of_nat s) nbits;
                  out' \<leftarrow> fse_out_push64 out nbits b;
                  Some (nat ((delta + int s div 2 ^ nat nbits) mod 65536), out') } }
      else None)"

definition fse_decode :: "nat \<Rightarrow> nat list \<Rightarrow> fse_stream \<Rightarrow> (byte \<times> nat \<times> fse_stream) option" where
  "fse_decode s table inp =
     (if s < length table then
        let e = table ! s in
        do { (v, inp') \<leftarrow> fse_in_pull64 inp (int (e mod 256));
             Some (of_nat (e div 256 mod 256), (e div 65536 + unat v) mod 65536, inp') }
      else None)"

definition fse_value_decode :: "nat \<Rightarrow> fse_value_decoder_entry list \<Rightarrow> fse_stream \<Rightarrow> (int \<times> nat \<times> fse_stream) option" where
  "fse_value_decode s table inp =
     (if s < length table then
        let e = table ! s in
        do { (v, inp') \<leftarrow> fse_in_pull64 inp (int (total_bits e));
             let bits = unat v mod 2 ^ 32 in
             do { low \<leftarrow> fse_mask_lsb64 (of_nat bits) (int (value_bits e));
                  Some (vbase e + int (unat low), nat ((vdelta e + int (bits div 2 ^ value_bits e)) mod 65536), inp') } }
      else None)"

section \<open>Logarithms\<close>

lemma lg_bounds: "0 < n \<Longrightarrow> 2 ^ lg n \<le> n \<and> n < 2 ^ Suc (lg n)"
proof (induction n rule: lg.induct)
  case (1 n)
  show ?case
  proof (cases "n < 2")
    case True
    then show ?thesis using 1 by (simp add: lg.simps [of n])
  next
    case False
    then have "2 ^ lg (n div 2) \<le> n div 2" "n div 2 < 2 ^ Suc (lg (n div 2))" "lg n = Suc (lg (n div 2))"
      using 1 by (auto simp: lg.simps [of n])
    then show ?thesis by auto
  qed
qed

lemma lg_unique: "2 ^ m \<le> n \<Longrightarrow> n < 2 ^ Suc m \<Longrightarrow> lg n = m"
proof -
  assume n: "2 ^ m \<le> n" "n < 2 ^ Suc m"
  then have b: "2 ^ lg n \<le> n" "n < 2 ^ Suc (lg n)"
    using lg_bounds [of n] by (auto intro: less_le_trans [of 0 "2 ^ m"])
  have "m < Suc (lg n)" "lg n < Suc m"
    using power_less_imp_less_exp [of "2 :: nat" m "Suc (lg n)"] power_less_imp_less_exp [of "2 :: nat" "lg n" "Suc m"]
      n b by (simp_all add: le_less_trans)
  then show ?thesis by simp
qed

lemma lg_pow [simp]: "lg (2 ^ m) = m"
  by (rule lg_unique) simp_all

lemma lg_le: "0 < f \<Longrightarrow> f \<le> 2 ^ p \<Longrightarrow> lg f \<le> p"
proof -
  assume "0 < f" "f \<le> 2 ^ p"
  then have "(2 :: nat) ^ lg f \<le> 2 ^ p"
    using lg_bounds [of f] by linarith
  then show ?thesis
    by (rule power_le_imp_le_exp [rotated]) simp
qed

section \<open>One coding step on numbers\<close>

text \<open>With \<open>N = 2^p\<close> states, coding state \<open>s\<close> with a symbol of frequency \<open>f\<close> splits \<open>N + s\<close>
  into \<open>x\<close> from \<open>f\<close> to \<open>2 f - 1\<close>, which says where in the symbol's range the next
  state lies, and the low bits that are written.  How many bits depends on \<open>x\<close> alone.\<close>

definition step_bits :: "nat \<Rightarrow> nat \<Rightarrow> nat \<Rightarrow> nat" where
  "step_bits p f s = (let k = p - lg f in if f * 2 ^ k \<le> 2 ^ p + s then k else k - 1)"

definition step_x :: "nat \<Rightarrow> nat \<Rightarrow> nat \<Rightarrow> nat" where
  "step_x p f s = (2 ^ p + s) div 2 ^ step_bits p f s"

lemma step_bounds:
  assumes "0 < f" and "f \<le> 2 ^ p" and "s < 2 ^ p"
  shows "f \<le> step_x p f s" and "step_x p f s < 2 * f" and "step_bits p f s = p - lg (step_x p f s)"
    and "step_bits p f s \<le> p" and "lg (step_x p f s) \<le> p"
    and "\<not> f * 2 ^ (p - lg f) \<le> 2 ^ p + s \<Longrightarrow> 0 < p - lg f"
proof -
  define k where "k = p - lg f"
  have lf: "lg f \<le> p" "2 ^ lg f \<le> f" "f < 2 ^ Suc (lg f)"
    using lg_le [OF assms(1,2)] lg_bounds [OF assms(1)] by simp_all
  have N: "2 ^ p = 2 ^ lg f * (2 :: nat) ^ k"
    using lf(1) by (simp add: k_def flip: power_add)
  have "f \<le> step_x p f s \<and> step_x p f s < 2 * f \<and> step_bits p f s = p - lg (step_x p f s) \<and> step_bits p f s \<le> p \<and>
      lg (step_x p f s) \<le> p \<and> (\<not> f * 2 ^ k \<le> 2 ^ p + s \<longrightarrow> 0 < k)"
  proof (cases "f * 2 ^ k \<le> 2 ^ p + s")
    case True
    then have nb: "step_bits p f s = k" by (simp add: step_bits_def k_def)
    have x1: "f \<le> step_x p f s"
      using True by (simp add: step_x_def nb less_eq_div_iff_mult_less_eq)
    have "2 ^ p + s < 2 ^ Suc (lg f) * 2 ^ k"
      using assms(3) N by (simp add: mult.commute)
    then have x2: "step_x p f s < 2 ^ Suc (lg f)"
      by (simp add: step_x_def nb less_mult_imp_div_less)
    have "lg (step_x p f s) = lg f"
      using x1 x2 lf by (intro lg_unique) simp_all
    then show ?thesis
      using nb x1 x2 lf True by (simp add: k_def)
  next
    case False
    have k0: "0 < k"
    proof (rule ccontr)
      assume "\<not> 0 < k"
      then show False using False assms(2) by simp
    qed
    then obtain j where j: "k = Suc j" using gr0_implies_Suc by blast
    have nb: "step_bits p f s = j" using False j by (simp add: step_bits_def k_def)
    have "2 ^ p + s < 2 * f * 2 ^ j" using False j by simp
    then have x2: "step_x p f s < 2 * f"
      by (simp only: step_x_def nb less_mult_imp_div_less)
    have "2 ^ Suc (lg f) * 2 ^ j \<le> 2 ^ p + s" using N j by simp
    then have x1: "2 ^ Suc (lg f) \<le> step_x p f s"
      by (simp only: step_x_def nb less_eq_div_iff_mult_less_eq zero_less_power zero_less_numeral)
    have "lg (step_x p f s) = Suc (lg f)"
      using x1 x2 lf by (intro lg_unique) simp_all
    then show ?thesis
      using nb x1 x2 lf j k0 by (auto simp: k_def)
  qed
  then show "f \<le> step_x p f s" and "step_x p f s < 2 * f" and "step_bits p f s = p - lg (step_x p f s)"
    and "step_bits p f s \<le> p" and "lg (step_x p f s) \<le> p"
    and "\<not> f * 2 ^ (p - lg f) \<le> 2 ^ p + s \<Longrightarrow> 0 < p - lg f"
    by (simp_all add: k_def)
qed

lemma step_split: "step_x p f s * 2 ^ step_bits p f s + (2 ^ p + s) mod 2 ^ step_bits p f s = 2 ^ p + s"
  unfolding step_x_def by (rule div_mult_mod_eq)

text \<open>Decoding: any \<open>x\<close> below \<open>2 N\<close> gives back a state, whatever bits follow.\<close>

lemma renorm_bounds:
  assumes "0 < x" and "lg x \<le> p" and "b < 2 ^ (p - lg x)"
  shows "2 ^ p \<le> x * 2 ^ (p - lg x)" and "x * 2 ^ (p - lg x) + b < 2 * 2 ^ p"
proof -
  let ?k = "p - lg x"
  have N: "2 ^ p = 2 ^ lg x * (2 :: nat) ^ ?k"
    using assms(2) by (simp flip: power_add)
  show "2 ^ p \<le> x * 2 ^ ?k"
    unfolding N using lg_bounds [OF assms(1)] by simp
  have "x * 2 ^ ?k + b < (x + 1) * 2 ^ ?k"
    using assms(3) by simp
  also have "\<dots> \<le> 2 ^ Suc (lg x) * 2 ^ ?k"
    using lg_bounds [OF assms(1)] by (intro mult_right_mono) simp_all
  finally show "x * 2 ^ ?k + b < 2 * 2 ^ p"
    using N by simp
qed


section \<open>Table entries\<close>

definition offset_of :: "nat list \<Rightarrow> nat \<Rightarrow> nat" where
  "offset_of freq i = sum_list (take i freq)"

lemma i16_id: "- 32768 \<le> x \<Longrightarrow> x < 32768 \<Longrightarrow> i16 x = x"
  by (simp add: i16_def)

lemma clz_diff: "clz f - clz (2 ^ p) = int p - int (lg f)"
  by (simp add: clz_def)

text \<open>A frequency table fits when its symbols have at most the available states.\<close>

definition fits :: "nat \<Rightarrow> nat list \<Rightarrow> bool" where
  "fits p freq \<longleftrightarrow> p \<le> 14 \<and> sum_list freq \<le> 2 ^ p"

lemma sum_take_le: "sum_list (take i xs) \<le> sum_list (xs :: nat list)"
proof -
  have "sum_list xs = sum_list (take i xs) + sum_list (drop i xs)"
    by (metis append_take_drop_id sum_list_append)
  then show ?thesis by simp
qed

lemma offset_range:
  assumes "i < length freq"
  shows "offset_of freq i + freq ! i \<le> sum_list freq"
  using sum_take_le [of "Suc i" freq] assms by (simp add: offset_of_def take_Suc_conv_app_nth)

lemma pow_le_14: "p \<le> 14 \<Longrightarrow> (2 :: nat) ^ p \<le> 16384"
  using power_increasing [of p 14 "2 :: nat"] by simp

lemma pow_div_pow: "k \<le> p \<Longrightarrow> (2 ^ p :: int) div 2 ^ k = 2 ^ (p - k)"
  by (simp add: power_diff)

lemma encoder_entry_eq:
  assumes f: "0 < f" "off + f \<le> 2 ^ p" and p: "p \<le> 14"
  shows "s0 (encoder_entry ub (2 ^ p) (int off) f) = int (f * 2 ^ (p - lg f)) - 2 ^ p"
    and "enc_k (encoder_entry ub (2 ^ p) (int off) f) = int (p - lg f)"
    and "delta0 (encoder_entry ub (2 ^ p) (int off) f) = int off - int f + 2 ^ lg f"
    and "0 < p - lg f \<Longrightarrow> delta1 (encoder_entry ub (2 ^ p) (int off) f) = int off - int f + 2 ^ Suc (lg f)"
proof -
  have lf: "lg f \<le> p" "2 ^ lg f \<le> f" "f < 2 ^ Suc (lg f)"
    using lg_le [of f p] lg_bounds [OF f(1)] f by simp_all
  have k: "int p - int (lg f) = int (p - lg f)"
    using lf(1) by simp
  have N: "(2 :: int) ^ p \<le> 16384" "f \<le> 16384" "off \<le> 16384" "int f \<le> 2 ^ p" "int off \<le> 2 ^ p"
    using pow_le_14 [OF p] f of_nat_mono [of "f" "2 ^ p", where ?'a = int] of_nat_mono [of off "2 ^ p", where ?'a = int]
      of_nat_mono [of "2 ^ p" 16384, where ?'a = int] by auto
  have "f * 2 ^ (p - lg f) < 2 ^ Suc (lg f) * 2 ^ (p - lg f)"
    using lf(3) by simp
  also have "\<dots> = 2 * 2 ^ p"
    using lf(1) by (simp flip: power_add)
  finally have hi: "int (f * 2 ^ (p - lg f)) < 2 * 2 ^ p"
    by (metis of_nat_less_iff of_nat_mult of_nat_numeral of_nat_power)
  have "0 \<le> int (f * 2 ^ (p - lg f))" by simp
  then have "i16 (int (f * 2 ^ (p - lg f)) - 2 ^ p) = int (f * 2 ^ (p - lg f)) - 2 ^ p"
    using hi N(1) by (intro i16_id) linarith+
  then show "s0 (encoder_entry ub (2 ^ p) (int off) f) = int (f * 2 ^ (p - lg f)) - 2 ^ p"
    unfolding encoder_entry_def clz_diff Let_def k by (simp add: shl_def)
  show "enc_k (encoder_entry ub (2 ^ p) (int off) f) = int (p - lg f)"
    using p unfolding encoder_entry_def clz_diff Let_def k by (simp add: i16_id)
  have l: "(2 :: int) ^ lg f \<le> 2 ^ p" "(2 :: int) ^ Suc (lg f) \<le> 2 * 2 ^ p"
    using lf(1) by simp_all
  show "delta0 (encoder_entry ub (2 ^ p) (int off) f) = int off - int f + 2 ^ lg f"
  proof -
    have "p - (p - lg f) = lg f" using lf(1) by simp
    then have "delta0 (encoder_entry ub (2 ^ p) (int off) f) = i16 (int off - int f + 2 ^ lg f)"
      unfolding encoder_entry_def clz_diff Let_def k by (simp add: shr_def pow_div_pow del: of_nat_diff)
    moreover have "i16 (int off - int f + 2 ^ lg f) = int off - int f + 2 ^ lg f"
    proof (rule i16_id)
      have "0 < int f" "0 \<le> int off" "0 < (2 :: int) ^ lg f" using f(1) by simp_all
      then show "- 32768 \<le> int off - int f + 2 ^ lg f" "int off - int f + 2 ^ lg f < 32768"
        using N l(1) by linarith+
    qed
    ultimately show ?thesis by simp
  qed
  show "delta1 (encoder_entry ub (2 ^ p) (int off) f) = int off - int f + 2 ^ Suc (lg f)" if "0 < p - lg f"
  proof -
    have "p - (p - lg f - 1) = Suc (lg f)" using that by simp
    moreover have "nat (int (p - lg f) - 1) = p - lg f - 1" "\<not> int (p - lg f) - 1 < 0" using that by simp_all
    ultimately have "delta1 (encoder_entry ub (2 ^ p) (int off) f) = i16 (int off - int f + 2 ^ Suc (lg f))"
      unfolding encoder_entry_def clz_diff Let_def k
      by (simp add: shr_def pow_div_pow del: power_Suc of_nat_diff)
    moreover have "i16 (int off - int f + 2 ^ Suc (lg f)) = int off - int f + 2 ^ Suc (lg f)"
    proof (rule i16_id)
      have "(2 :: int) ^ Suc (lg f) \<le> 2 ^ p" using that by (intro power_increasing) simp_all
      moreover have "0 < int f" "0 \<le> int off" "0 < (2 :: int) ^ Suc (lg f)" using f(1) by simp_all
      ultimately show "- 32768 \<le> int off - int f + 2 ^ Suc (lg f)" "int off - int f + 2 ^ Suc (lg f) < 32768"
        using N by linarith+
    qed
    ultimately show ?thesis by (simp only:)
  qed
qed

lemma nth_encoder_entries:
  assumes "i < length freq"
  shows "encoder_entries ub N (int off) freq ! i =
    (if freq ! i = 0 then None else Some (encoder_entry ub N (int (off + offset_of freq i)) (freq ! i)))"
  using assms
proof (induction freq arbitrary: i off)
  case (Cons f fs)
  show ?case
  proof (cases i)
    case (Suc j)
    then have "encoder_entries ub N (int (off + f)) fs ! j =
        (if fs ! j = 0 then None else Some (encoder_entry ub N (int (off + f + offset_of fs j)) (fs ! j)))"
      using Cons.prems by (intro Cons.IH) simp
    then show ?thesis
      using Suc by (cases "f = 0") (simp_all add: offset_of_def add.assoc)
  qed (simp add: offset_of_def)
qed simp

lemma length_encoder_entries [simp]: "length (encoder_entries ub N off freq) = length freq"
  by (induction freq arbitrary: off) simp_all


text \<open>The decoder entries of a symbol, with \<open>x = f + j\<close>.\<close>

definition entry_of :: "nat \<Rightarrow> nat \<Rightarrow> nat \<times> int" where
  "entry_of p x = (p - lg x, int (x * 2 ^ (p - lg x)) - 2 ^ p)"

lemma decoder_shape:
  fixes ub :: int
  assumes f: "0 < f" "f \<le> 2 ^ p" and p: "p \<le> 14" and j: "j < f"
    and k_def: "k = clz f - clz (2 ^ p)" and j0_def: "j0 = shr ub (2 * 2 ^ p) k - int f"
  shows "int j < j0 \<Longrightarrow> entry_of p (f + j) = (nat k, i16 (shl ub (int f + int j) k - 2 ^ p)) \<and> k = int (nat k)"
    and "\<not> int j < j0 \<Longrightarrow> entry_of p (f + j) = (nat (k - 1), i16 (shl ub (int j - j0) (k - 1))) \<and> k - 1 = int (nat (k - 1))"
    and "fst (entry_of p (f + j)) \<le> p" and "lg (f + j) \<le> p" and "0 \<le> snd (entry_of p (f + j))"
    and "snd (entry_of p (f + j)) < 16384"
proof -
  have lf: "lg f \<le> p" "2 ^ lg f \<le> f" "f < 2 ^ Suc (lg f)"
    using lg_le [OF f] lg_bounds [OF f(1)] by simp_all
  have k: "k = int (p - lg f)"
    using lf(1) by (simp add: k_def clz_diff)
  have j0: "j0 = 2 ^ Suc (lg f) - int f"
  proof -
    have "2 * (2 :: int) ^ p div 2 ^ (p - lg f) = 2 ^ Suc (lg f)"
      using lf(1) pow_div_pow [of "p - lg f" "Suc p"] by (simp add: Suc_diff_le)
    then show ?thesis by (simp add: j0_def shr_def k)
  qed
  have lx: "lg (f + j) = (if int j < j0 then lg f else Suc (lg f))"
  proof (cases "int j < j0")
    case True
    then have "int (f + j) < int (2 ^ Suc (lg f))" using j0 by simp
    then have "f + j < 2 ^ Suc (lg f)" by (simp only: of_nat_less_iff)
    then have "lg (f + j) = lg f" using lf(2) by (intro lg_unique) linarith+
    then show ?thesis using True by simp
  next
    case False
    then have "int (2 ^ Suc (lg f)) \<le> int (f + j)" using j0 by simp
    then have "2 ^ Suc (lg f) \<le> f + j" by (simp only: of_nat_le_iff)
    moreover have "f + j < 2 ^ Suc (Suc (lg f))" using lf(3) j by simp
    ultimately have "lg (f + j) = Suc (lg f)" by (rule lg_unique)
    then show ?thesis using False by simp
  qed
  have kp: "0 < p - lg f" if "\<not> int j < j0"
  proof (rule ccontr)
    assume "\<not> 0 < p - lg f"
    then have "p = lg f" using lf(1) by simp
    then have "f = 2 ^ p" using f(2) lf(2) by simp
    then have "j0 = int f" using j0 \<open>p = lg f\<close> by simp
    then show False using that j by simp
  qed
  then show l: "lg (f + j) \<le> p"
    using lx lf(1) by auto
  have b: "2 ^ p \<le> (f + j) * 2 ^ (p - lg (f + j))" "(f + j) * 2 ^ (p - lg (f + j)) < 2 * 2 ^ p"
    using renorm_bounds [of "f + j" p 0] l f(1) by simp_all
  then have b': "2 ^ p \<le> int ((f + j) * 2 ^ (p - lg (f + j)))" "int ((f + j) * 2 ^ (p - lg (f + j))) < 2 * 2 ^ p"
    by (metis of_nat_le_iff of_nat_numeral of_nat_power, metis of_nat_less_iff of_nat_mult of_nat_numeral of_nat_power)
  have N: "(2 :: int) ^ p \<le> 16384"
    using pow_le_14 [OF p] by (metis of_nat_le_iff of_nat_numeral of_nat_power)
  show "fst (entry_of p (f + j)) \<le> p" "0 \<le> snd (entry_of p (f + j))" "snd (entry_of p (f + j)) < 16384"
    using b' N by (simp_all add: entry_of_def)
  have id: "i16 (int ((f + j) * 2 ^ (p - lg (f + j))) - 2 ^ p) = int ((f + j) * 2 ^ (p - lg (f + j))) - 2 ^ p"
    using b' N by (intro i16_id) linarith+
  show "entry_of p (f + j) = (nat k, i16 (shl ub (int f + int j) k - 2 ^ p)) \<and> k = int (nat k)" if "int j < j0"
    using that id lx by (simp add: entry_of_def k shl_def)
  show "entry_of p (f + j) = (nat (k - 1), i16 (shl ub (int j - j0) (k - 1))) \<and> k - 1 = int (nat (k - 1))"
    if nj: "\<not> int j < j0"
  proof -
    obtain q where q: "p - lg f = Suc q" using kp [OF nj] gr0_implies_Suc by blast
    then have e: "p - lg (f + j) = q" "k - 1 = int q" using lx nj k by simp_all
    have "(int j - j0) * 2 ^ q = int ((f + j) * 2 ^ q) - 2 ^ Suc (lg f) * 2 ^ q"
      by (simp add: j0 algebra_simps)
    also have "(2 :: int) ^ Suc (lg f) * 2 ^ q = 2 ^ p"
      using q lf(1) by (simp flip: power_Suc power_add)
    finally show ?thesis
      using id e by (simp add: entry_of_def shl_def)
  qed
qed


section \<open>Looking entries up\<close>

text \<open>The symbol that owns a state, and the place of the state in the symbol's range.\<close>

fun locate :: "nat list \<Rightarrow> nat \<Rightarrow> nat \<times> nat" where
  "locate [] t = (0, t)"
| "locate (f # fs) t = (if t < f then (0, t) else (case locate fs (t - f) of (i, j) \<Rightarrow> (Suc i, j)))"

lemma locate_range:
  "t < sum_list freq \<Longrightarrow> locate freq t = (i, j) \<Longrightarrow> i < length freq \<and> j < freq ! i \<and> t = offset_of freq i + j"
proof (induction freq arbitrary: t i j)
  case (Cons f fs)
  show ?case
  proof (cases "t < f")
    case False
    then obtain i' where "locate fs (t - f) = (i', j)" "i = Suc i'"
      using Cons.prems by (auto split: prod.splits)
    then show ?thesis
      using Cons.IH [of "t - f" i' j] Cons.prems(1) False by (simp add: offset_of_def) linarith
  qed (use Cons.prems in \<open>auto simp: offset_of_def\<close>)
qed simp

lemma locate_offset:
  "i < length freq \<Longrightarrow> j < freq ! i \<Longrightarrow> locate freq (offset_of freq i + j) = (i, j)"
proof (induction freq arbitrary: i)
  case (Cons f fs)
  then show ?case
    by (cases i) (auto simp: offset_of_def add.assoc)
qed simp

lemma decoder_entries_ok:
  assumes "acc + sum_list freq \<le> N"
  shows "fst (decoder_entries ub N i0 acc freq) = 0"
    and "length (snd (decoder_entries ub N i0 acc freq)) = sum_list freq"
    and "t < sum_list freq \<Longrightarrow> snd (decoder_entries ub N i0 acc freq) ! t =
      (case locate freq t of (i, j) \<Rightarrow> pack_entry (decoder_entry ub N (i0 + i) (freq ! i) j))"
  using assms
proof (induction freq arbitrary: i0 acc t)
  case (Cons f fs)
  {
    case 1
    then show ?case using Cons.IH(1) [of "acc + f" "Suc i0"] Cons.IH(1) [of acc "Suc i0"]
      by (auto split: prod.splits)
  next
    case 2
    then show ?case using Cons.IH(2) [of "acc + f" "Suc i0"] Cons.IH(2) [of acc "Suc i0"]
      by (auto split: prod.splits)
  next
    case 3
    then show ?case
      using Cons.IH(3) [of "t - f" "acc + f" "Suc i0"] Cons.IH(3) [of t acc "Suc i0"]
      by (auto simp: nth_append split: prod.splits)
  }
qed simp_all

lemma value_entries_ok:
  assumes "length vs = length freq"
  shows "length (value_entries ub N freq vs) = sum_list freq"
    and "t < sum_list freq \<Longrightarrow> value_entries ub N freq vs ! t =
      (case locate freq t of (i, j) \<Rightarrow> value_entry ub N (fst (vs ! i)) (snd (vs ! i)) (freq ! i) j)"
  using assms
proof (induction freq arbitrary: vs t)
  case (Cons f fs)
  {
    case 1
    then show ?case using Cons.IH(1) [of "tl vs"] by (cases vs) auto
  next
    case 2
    then show ?case
      using Cons.IH(2) [of "t - f" "tl vs"] by (cases vs) (auto simp: nth_append split: prod.splits)
  }
qed simp_all


section \<open>Coding on the stack\<close>

text \<open>What \<open>fse_encode\<close> and \<open>fse_decode\<close> do to a state and a stack of bits.\<close>

definition fse_push :: "nat \<Rightarrow> nat list \<Rightarrow> nat \<Rightarrow> nat \<times> stack \<Rightarrow> nat \<times> stack" where
  "fse_push p freq i c =
     (let f = freq ! i; s = fst c; n = step_bits p f s in
      (offset_of freq i + step_x p f s - f, push n ((2 ^ p + s) mod 2 ^ n) (snd c)))"

definition fse_pull :: "nat \<Rightarrow> nat list \<Rightarrow> nat \<times> stack \<Rightarrow> nat \<times> nat \<times> stack" where
  "fse_pull p freq c =
     (case locate freq (fst c) of (i, j) \<Rightarrow>
        let x = freq ! i + j in
        case pull (p - lg x) (snd c) of (b, st) \<Rightarrow> (i, x * 2 ^ (p - lg x) + b - 2 ^ p, st))"

lemma fse_push_state:
  assumes "fits p freq" and "i < length freq" and "0 < freq ! i" and "s < 2 ^ p"
  shows "offset_of freq i \<le> fst (fse_push p freq i (s, st))"
    and "fst (fse_push p freq i (s, st)) < offset_of freq i + freq ! i"
    and "fst (fse_push p freq i (s, st)) < sum_list freq"
    and "fst (fse_push p freq i (s, st)) < 2 ^ p"
proof -
  have r: "offset_of freq i + freq ! i \<le> sum_list freq" "sum_list freq \<le> 2 ^ p"
    using offset_range [OF assms(2)] assms(1) by (simp_all add: fits_def)
  then have "freq ! i \<le> 2 ^ p" by simp
  note b = step_bounds [OF assms(3) this assms(4)]
  show "offset_of freq i \<le> fst (fse_push p freq i (s, st))"
    and *: "fst (fse_push p freq i (s, st)) < offset_of freq i + freq ! i"
    using b(1,2) by (simp_all add: fse_push_def Let_def)
  then show "fst (fse_push p freq i (s, st)) < sum_list freq" "fst (fse_push p freq i (s, st)) < 2 ^ p"
    using r by simp_all
qed

lemma fse_push_ok: "stack_ok st \<Longrightarrow> stack_ok (snd (fse_push p freq i (s, st)))"
  by (simp add: fse_push_def Let_def push_ok)

text \<open>Decoding undoes encoding.\<close>

lemma fse_pull_push:
  assumes "fits p freq" and "i < length freq" and "0 < freq ! i" and "s < 2 ^ p" and "stack_ok st"
  shows "fse_pull p freq (fse_push p freq i (s, st)) = (i, s, st)"
proof -
  let ?f = "freq ! i" let ?x = "step_x p ?f s" and ?n = "step_bits p ?f s"
  have "?f \<le> 2 ^ p"
    using offset_range [OF assms(2)] assms(1) by (simp add: fits_def)
  note b = step_bounds [OF assms(3) this assms(4)]
  have "offset_of freq i + ?x - ?f = offset_of freq i + (?x - ?f)" "?x - ?f < ?f" "?f + (?x - ?f) = ?x"
    using b(1,2) by simp_all
  then have "locate freq (offset_of freq i + ?x - ?f) = (i, ?x - ?f)"
    using locate_offset [OF assms(2)] by metis
  then show ?thesis
    using pull_push [OF assms(5), of ?n] step_split [of p ?f s] b(1,3)
    by (simp add: fse_pull_def fse_push_def Let_def)
qed

lemma fse_pull_state:
  assumes "fits p freq" and "t < sum_list freq" and "stack_ok st" and "p \<le> snd st"
  shows "fst (snd (fse_pull p freq (t, st))) < 2 ^ p" and "stack_ok (snd (snd (fse_pull p freq (t, st))))"
    and "snd st \<le> snd (snd (snd (fse_pull p freq (t, st)))) + p" and "fst (fse_pull p freq (t, st)) < length freq"
proof -
  obtain i j where ij: "locate freq t = (i, j)" by force
  then have i: "i < length freq" "j < freq ! i"
    using locate_range [OF assms(2) ij] by simp_all
  let ?x = "freq ! i + j"
  have f: "freq ! i \<le> 2 ^ p" "0 < freq ! i"
    using offset_range [OF i(1)] assms(1) i(2) by (simp_all add: fits_def)
  have l: "lg ?x \<le> p"
    using decoder_shape(4) [OF f(2,1) _ i(2) refl refl] assms(1) by (simp add: fits_def)
  obtain b st' where b: "pull (p - lg ?x) st = (b, st')"
    by (cases "pull (p - lg ?x) st")
  have "b < 2 ^ (p - lg ?x)"
    using pull_less [OF assms(3), of "p - lg ?x"] b assms(4) by simp
  then show "fst (snd (fse_pull p freq (t, st))) < 2 ^ p"
    using renorm_bounds [of ?x p b] l f(2) ij b by (simp add: fse_pull_def Let_def)
  show "stack_ok (snd (snd (fse_pull p freq (t, st))))"
    using pull_ok [of "p - lg ?x" st] ij b by (simp add: fse_pull_def Let_def)
  show "snd st \<le> snd (snd (snd (fse_pull p freq (t, st)))) + p"
    using ij b by (auto simp: fse_pull_def pull_def Let_def)
  show "fst (fse_pull p freq (t, st)) < length freq"
    using ij b i by (simp add: fse_pull_def Let_def)
qed

section \<open>The code on the streams\<close>

lemma fse_encode_step:
  assumes fit: "fits p freq" and i: "i < length freq" "0 < freq ! i" and s: "s < 2 ^ p"
    and out: "stream_ok out" "accum_nbits out + int p < 64"
  shows "\<exists>out'. fse_encode s (fse_init_encoder_table ub (2 ^ p) freq) out i =
            Some (fst (fse_push p freq i (s, stack_of buf lo q out)), out') \<and> stream_ok out' \<and>
           accum_nbits out' = accum_nbits out + int (step_bits p (freq ! i) s) \<and>
           stack_of buf lo q out' = snd (fse_push p freq i (s, stack_of buf lo q out))"
proof -
  let ?f = "freq ! i" and ?o = "offset_of freq i"
  let ?n = "step_bits p ?f s" and ?x = "step_x p ?f s"
  define e where "e = encoder_entry ub (2 ^ p) (int ?o) ?f"
  have p: "p \<le> 14" and of: "?o + ?f \<le> 2 ^ p"
    using fit offset_range [OF i(1)] by (auto simp: fits_def)
  have fN: "?f \<le> 2 ^ p" using of by simp
  note b = step_bounds [OF i(2) fN s]
  note E = encoder_entry_eq [OF i(2) of p, of ub, folded e_def]
  have tab: "fse_init_encoder_table ub (2 ^ p) freq ! i = Some e"
    using nth_encoder_entries [OF i(1), of ub "2 ^ p" 0] i(2) by (simp add: fse_init_encoder_table_def e_def)
  have hi: "int s \<ge> s0 e \<longleftrightarrow> ?f * 2 ^ (p - lg ?f) \<le> 2 ^ p + s"
  proof -
    have "int s \<ge> s0 e \<longleftrightarrow> int (?f * 2 ^ (p - lg ?f)) \<le> int (2 ^ p + s)"
      unfolding E(1) by auto
    then show ?thesis by (simp only: of_nat_le_iff)
  qed
  have n: "(if int s \<ge> s0 e then enc_k e else enc_k e - 1) = int ?n"
    unfolding hi E(2) using b(6) by (auto simp: step_bits_def Let_def)
  have x: "int ?x = 2 ^ (p - ?n) + int s div 2 ^ ?n"
  proof -
    have "(2 ^ p + s) div 2 ^ ?n = 2 ^ (p - ?n) + s div 2 ^ ?n"
      using b(4) by (simp add: div_add power_diff le_imp_power_dvd div_plus_div_distrib_dvd_left)
    then show ?thesis
      by (simp add: step_x_def zdiv_int)
  qed
  have d: "(if int s \<ge> s0 e then delta0 e else delta1 e) = int ?o - int ?f + 2 ^ (p - ?n)"
  proof (cases "?f * 2 ^ (p - lg ?f) \<le> 2 ^ p + s")
    case True
    then show ?thesis
      using hi E(3) lg_le [OF i(2) fN] by (simp add: step_bits_def Let_def)
  next
    case False
    have "0 < p - lg ?f" using b(6) False by simp
    moreover from this have "p - (p - lg ?f - 1) = Suc (lg ?f)" by simp
    ultimately show ?thesis
      using False hi E(4) by (simp add: step_bits_def Let_def)
  qed
  have st: "nat (((int ?o - int ?f + 2 ^ (p - ?n)) mod 65536 + int s div 2 ^ ?n) mod 65536) = ?o + ?x - ?f"
  proof -
    have "((int ?o - int ?f + 2 ^ (p - ?n)) mod 65536 + int s div 2 ^ ?n) mod 65536 = (int ?o + int ?x - int ?f) mod 65536"
      unfolding x mod_add_left_eq by (rule arg_cong [where f = "\<lambda>v. v mod 65536"]) simp
    also have "\<dots> = int (?o + ?x - ?f) mod 65536"
      using b(1) by (simp add: of_nat_diff)
    also have "\<dots> = int (?o + ?x - ?f)"
      using b(1,2) of pow_le_14 [OF p] by simp
    finally show ?thesis by simp
  qed
  let ?b = "take_bit ?n (of_nat s :: u64)"
  have ub: "unat ?b = s mod 2 ^ ?n"
  proof -
    have "s < 2 ^ 64" using s pow_le_14 [OF p] by simp
    then show ?thesis by (simp add: unat_take_bit unat_of_nat)
  qed
  have low: "(2 ^ p + s) mod 2 ^ ?n = s mod 2 ^ ?n"
    using b(4) by (simp add: le_imp_power_dvd mod_add_eq [symmetric] dvd_imp_mod_0)
  have "\<exists>out'. fse_out_push64 out (int ?n) ?b = Some out' \<and> stream_ok out' \<and> accum_nbits out' = accum_nbits out + int ?n \<and>
      stack_of buf lo q out' = push ?n (s mod 2 ^ ?n) (stack_of buf lo q out)"
    using out_push [OF out(1), of "int ?n" ?b buf lo q] out(2) b(4) ub by simp
  then obtain out' where o: "fse_out_push64 out (int ?n) ?b = Some out'" "stream_ok out'"
      "accum_nbits out' = accum_nbits out + int ?n" "stack_of buf lo q out' = push ?n (s mod 2 ^ ?n) (stack_of buf lo q out)"
    by blast
  have "fse_mask_lsb64 (of_nat s) (int ?n) = Some ?b"
    using b(4) p by (simp add: fse_mask_lsb64_some)
  then have "fse_encode s (fse_init_encoder_table ub (2 ^ p) freq) out i = Some (?o + ?x - ?f, out')"
    using tab i(1) o(1) n d st unfolding fse_encode_def
    by (simp add: fse_init_encoder_table_def Let_def)
  then show ?thesis
    using o b(4) low by (simp add: fse_push_def Let_def)
qed


lemma decoder_entry_eq:
  assumes "0 < f" and "f \<le> 2 ^ p" and "p \<le> 14" and "j < f"
  shows "pack_entry (decoder_entry ub (2 ^ p) i f j) =
    fst (entry_of p (f + j)) + 256 * (i mod 256) + 65536 * nat (snd (entry_of p (f + j)))"
proof -
  note s = decoder_shape(1,2) [OF assms refl refl, of ub] decoder_shape(3-6) [OF assms refl refl]
  have "decoder_entry ub (2 ^ p) i f j =
      \<lparr>dec_k = int (fst (entry_of p (f + j))), dec_symbol = i mod 256, dec_delta = snd (entry_of p (f + j))\<rparr>"
    using s(1,2) by (auto simp: decoder_entry_def Let_def)
  moreover have "int (fst (entry_of p (f + j))) mod 256 = int (fst (entry_of p (f + j)))"
    using s(3) assms(3) by simp
  moreover have "snd (entry_of p (f + j)) mod 65536 = snd (entry_of p (f + j))"
    using s(5,6) by simp
  ultimately show ?thesis
    by (simp add: pack_entry_def)
qed

lemma value_entry_eq:
  assumes "0 < f" and "f \<le> 2 ^ p" and "p \<le> 14" and "j < f" and "p + vb < 256"
  shows "value_entry ub (2 ^ p) vb base f j =
    \<lparr>total_bits = fst (entry_of p (f + j)) + vb, value_bits = vb, vdelta = snd (entry_of p (f + j)), vbase = base\<rparr>"
proof -
  note s = decoder_shape(1,2) [OF assms(1-4) refl refl, of ub] decoder_shape(3-6) [OF assms(1-4) refl refl]
  have k: "fst (entry_of p (f + j)) + vb < 256" using s(3) assms(5) by simp
  have *: "(nat (z mod 256) + vb) mod 256 = nat z + vb" if z: "nat z + vb < 256" "z = int (nat z)" for z
  proof -
    obtain n where "z = int n" using z(2) by blast
    then show ?thesis using z(1) by (simp add: nat_mod_distrib)
  qed
  show ?thesis
    using s(1,2) k by (auto simp: value_entry_def Let_def intro!: *)
qed

lemma packed_fields:
  fixes k :: nat
  assumes "k < 256" and "e = k + 256 * (i mod 256) + 65536 * d"
  shows "e mod 256 = k" and "e div 256 mod 256 = i mod 256" and "e div 65536 = d"
proof -
  have e: "e = k + 256 * (i mod 256 + 256 * d)" and i: "i mod 256 < 256"
    using assms(2) by simp_all
  show "e mod 256 = k" "e div 256 mod 256 = i mod 256"
    using assms(1) i unfolding e by (simp_all del: distrib_left_numeral)
  have "e div 65536 = e div 256 div 256" by (simp flip: div_mult2_eq)
  then show "e div 65536 = d"
    using assms(1) i unfolding e by (simp del: distrib_left_numeral)
qed

text \<open>The number of bits that decoding from state \<open>t\<close> takes.\<close>

definition pull_bits :: "nat \<Rightarrow> nat list \<Rightarrow> nat \<Rightarrow> nat" where
  "pull_bits p freq t = (case locate freq t of (i, j) \<Rightarrow> p - lg (freq ! i + j))"

lemma pull_bits_le: "pull_bits p freq t \<le> p"
  by (simp add: pull_bits_def split: prod.splits)

lemma pull_bits_push:
  assumes "fits p freq" and "i < length freq" and "0 < freq ! i" and "s < 2 ^ p"
  shows "pull_bits p freq (fst (fse_push p freq i (s, st))) = step_bits p (freq ! i) s"
proof -
  have "freq ! i \<le> 2 ^ p"
    using offset_range [OF assms(2)] assms(1) by (simp add: fits_def)
  note b = step_bounds [OF assms(3) this assms(4)]
  have "locate freq (offset_of freq i + (step_x p (freq ! i) s - freq ! i)) = (i, step_x p (freq ! i) s - freq ! i)"
    using b(1,2) by (intro locate_offset assms(2)) simp
  then show ?thesis
    using b(1,3) by (simp add: pull_bits_def fse_push_def Let_def)
qed

lemma in_pull_less:
  assumes "stream_ok inp" and "int k \<le> accum_nbits inp"
  shows "\<exists>v inp'. fse_in_pull64 inp (int k) = Some (v, inp') \<and> stream_ok inp' \<and> accum_nbits inp' = accum_nbits inp - int k \<and>
      pull k (stack_of buf lo q inp) = (unat v, stack_of buf lo q inp') \<and> unat v < 2 ^ k"
proof -
  obtain v inp' where v: "fse_in_pull64 inp (int k) = Some (v, inp')" "stream_ok inp'"
      "accum_nbits inp' = accum_nbits inp - int k" "pull k (stack_of buf lo q inp) = (unat v, stack_of buf lo q inp')"
    using in_pull [OF assms(1), of "int k" buf lo q] assms(2) by auto
  have "unat v = unat (accum inp) div 2 ^ nat (accum_nbits inp - int k)"
    using v(1) by (auto simp: fse_in_pull64_def Let_def unat_drop_bit bind_eq_Some_conv split: if_splits)
  moreover have "nat (accum_nbits inp) = k + nat (accum_nbits inp - int k)"
    using assms(2) by simp
  then have "unat (accum inp) < 2 ^ k * 2 ^ nat (accum_nbits inp - int k)"
    using assms(1) by (simp add: stream_ok_def flip: power_add)
  ultimately have "unat v < 2 ^ k" by (simp add: less_mult_imp_div_less)
  then show ?thesis using v by blast
qed

lemma fse_decode_step:
  assumes fit: "fits p freq" and t: "t < sum_list freq" and len: "length freq \<le> 256"
    and inp: "stream_ok inp" "int (pull_bits p freq t) \<le> accum_nbits inp"
    and tab: "tab = snd (fse_init_decoder_table ub (2 ^ p) freq old)"
  shows "\<exists>i s' inp'. fse_decode t tab inp = Some (of_nat i, s', inp') \<and> stream_ok inp' \<and>
           accum_nbits inp' = accum_nbits inp - int (pull_bits p freq t) \<and>
           fse_pull p freq (t, stack_of buf lo q inp) = (i, s', stack_of buf lo q inp')"
proof -
  obtain i j where ij: "locate freq t = (i, j)" by force
  then have i: "i < length freq" "j < freq ! i"
    using locate_range [OF t ij] by simp_all
  let ?x = "freq ! i + j"
  have f: "0 < freq ! i" "freq ! i \<le> 2 ^ p" and p: "p \<le> 14" and S: "sum_list freq \<le> 2 ^ p"
    using offset_range [OF i(1)] fit i(2) by (simp_all add: fits_def)
  note sh = decoder_shape(3-6) [OF f p i(2) refl refl]
  define k where "k = p - lg ?x"
  define d where "d = ?x * 2 ^ k - 2 ^ p"
  have kb: "pull_bits p freq t = k" using ij by (simp add: pull_bits_def k_def)
  have k: "k \<le> p" "fst (entry_of p ?x) = k" "lg ?x \<le> p" using sh(2) by (simp_all add: k_def entry_of_def)
  have N: "2 ^ p \<le> ?x * 2 ^ k" using renorm_bounds(1) [of ?x p 0] f k by (simp add: k_def)
  have "int d = snd (entry_of p ?x)"
    using N by (simp add: d_def entry_of_def of_nat_diff flip: k_def)
  then have d: "nat (snd (entry_of p ?x)) = d" by simp
  have T: "tab ! t = k + 256 * (i mod 256) + 65536 * d" "t < length tab"
    using decoder_entries_ok [where acc = 0 and N = "2 ^ p" and ub = ub and freq = freq and ?i0.0 = 0] S t decoder_entry_eq [OF f p i(2), of ub i] k(2) d ij
    by (auto simp: tab fse_init_decoder_table_def nth_append split: prod.splits)
  note pf = packed_fields [OF _ T(1)]
  obtain v inp' where v: "fse_in_pull64 inp (int k) = Some (v, inp')" "stream_ok inp'"
      "accum_nbits inp' = accum_nbits inp - int k" "pull k (stack_of buf lo q inp) = (unat v, stack_of buf lo q inp')"
      and vs: "unat v < 2 ^ k"
    using in_pull_less [OF inp(1), of k buf lo q] inp(2) kb by auto
  have "?x * 2 ^ k + unat v < 2 * 2 ^ p"
    using vs renorm_bounds(2) [of ?x p "unat v"] f(1) k(3) by (simp add: k_def)
  then have small: "(d + unat v) mod 65536 = ?x * 2 ^ k + unat v - 2 ^ p"
    using N pow_le_14 [OF p] by (simp add: d_def)
  have i256: "i mod 256 = i" using i(1) len by simp
  have "fse_decode t tab inp = Some (of_nat i, ?x * 2 ^ k + unat v - 2 ^ p, inp')"
    using T(2) pf k(1) p v(1) small i256 by (simp add: fse_decode_def Let_def)
  moreover have "fse_pull p freq (t, stack_of buf lo q inp) = (i, ?x * 2 ^ k + unat v - 2 ^ p, stack_of buf lo q inp')"
    using ij v(4) by (simp add: fse_pull_def Let_def flip: k_def)
  ultimately show ?thesis
    using v(2,3) kb by auto
qed


text \<open>Values: the symbol names a class of values; its extra bits lie under the symbol's bits.\<close>

definition value_push :: "nat \<Rightarrow> nat list \<Rightarrow> nat list \<Rightarrow> nat \<times> nat \<Rightarrow> nat \<times> stack \<Rightarrow> nat \<times> stack" where
  "value_push p freq vbits v c =
     (case v of (i, e) \<Rightarrow> fse_push p freq i (fst c, push (vbits ! i) e (snd c)))"

definition value_pull :: "nat \<Rightarrow> nat list \<Rightarrow> nat list \<Rightarrow> nat \<times> stack \<Rightarrow> (nat \<times> nat) \<times> nat \<times> stack" where
  "value_pull p freq vbits c =
     (case fse_pull p freq c of (i, s, st) \<Rightarrow> case pull (vbits ! i) st of (e, st') \<Rightarrow> ((i, e), s, st'))"

lemma value_pull_push:
  assumes "fits p freq" and "i < length freq" and "0 < freq ! i" and "s < 2 ^ p" and "stack_ok st" and "e < 2 ^ (vbits ! i)"
  shows "value_pull p freq vbits (value_push p freq vbits (i, e) (s, st)) = ((i, e), s, st)"
  using fse_pull_push [OF assms(1-4) push_ok [OF assms(5,6)]] pull_push [OF assms(5)]
  by (simp add: value_pull_def value_push_def)

lemma pull_add:
  assumes "n + m \<le> snd st"
  shows "pull (n + m) st = (case pull n st of (b, st') \<Rightarrow> case pull m st' of (e, st'') \<Rightarrow> (b * 2 ^ m + e, st''))"
proof -
  define r where "r = snd st - n - m"
  have h: "snd st - n = r + m" "snd st - (n + m) = r" "r + m - m = r"
    using assms by (simp_all add: r_def)
  let ?v = "fst st"
  have "?v div 2 ^ r = ?v div 2 ^ (r + m) * 2 ^ m + (?v mod 2 ^ (r + m)) div 2 ^ r"
  proof -
    have "(?v mod 2 ^ (r + m)) div 2 ^ r = ?v div 2 ^ r mod 2 ^ m"
      by (simp add: power_add mod_mult2_eq)
    moreover have "?v div 2 ^ (r + m) = ?v div 2 ^ r div 2 ^ m"
      by (simp add: power_add div_mult2_eq)
    ultimately show ?thesis by (simp only: div_mult_mod_eq)
  qed
  moreover have "?v mod 2 ^ (r + m) mod 2 ^ r = ?v mod 2 ^ r"
    by (simp add: power_add mod_mult2_eq)
  ultimately show ?thesis
    unfolding pull_def Let_def by (simp add: h)
qed

lemma fse_value_decode_step:
  assumes fit: "fits p freq" and t: "t < sum_list freq" and len: "length vbits = length freq" "length base = length freq"
    and vb: "\<And>i. i < length freq \<Longrightarrow> vbits ! i \<le> m" "p + m \<le> 32"
    and inp: "stream_ok inp" "int (p + m) \<le> accum_nbits inp"
    and tab: "fse_init_value_decoder_table ub (2 ^ p) freq vbits base old = Some tab"
  shows "\<exists>i e s' inp'. fse_value_decode t tab inp = Some (base ! i + int e, s', inp') \<and> stream_ok inp' \<and>
           accum_nbits inp \<le> accum_nbits inp' + int (p + m) \<and>
           value_pull p freq vbits (t, stack_of buf lo q inp) = ((i, e), s', stack_of buf lo q inp')"
proof -
  obtain i j where ij: "locate freq t = (i, j)" by force
  then have i: "i < length freq" "j < freq ! i"
    using locate_range [OF t ij] by simp_all
  let ?x = "freq ! i + j" and ?v = "vbits ! i"
  have f: "0 < freq ! i" "freq ! i \<le> 2 ^ p" and p: "p \<le> 14" and S: "sum_list freq \<le> 2 ^ p"
    using offset_range [OF i(1)] fit i(2) by (simp_all add: fits_def)
  note sh = decoder_shape(3-6) [OF f p i(2) refl refl]
  define k where "k = p - lg ?x"
  have k: "k \<le> p" "fst (entry_of p ?x) = k" "lg ?x \<le> p" using sh(2) by (simp_all add: k_def entry_of_def)
  have N: "2 ^ p \<le> ?x * 2 ^ k" using renorm_bounds(1) [of ?x p 0] f k by (simp add: k_def)
  have m: "?v \<le> m" using vb(1) i(1) by simp
  have T: "tab ! t = \<lparr>total_bits = k + ?v, value_bits = ?v, vdelta = int (?x * 2 ^ k) - 2 ^ p, vbase = base ! i\<rparr>" "t < length tab"
  proof -
    have "length (value_entries ub (2 ^ p) freq (zip vbits base)) = sum_list freq"
      and "value_entries ub (2 ^ p) freq (zip vbits base) ! t = value_entry ub (2 ^ p) ?v (base ! i) (freq ! i) j"
      using value_entries_ok [of "zip vbits base" freq] len t ij i(1) by simp_all
    moreover have "value_entry ub (2 ^ p) ?v (base ! i) (freq ! i) j =
        \<lparr>total_bits = k + ?v, value_bits = ?v, vdelta = int (?x * 2 ^ k) - 2 ^ p, vbase = base ! i\<rparr>"
      using value_entry_eq [OF f p i(2), of ?v ub "base ! i"] m vb(2) k(2) by (simp add: entry_of_def k_def)
    ultimately show "tab ! t = \<lparr>total_bits = k + ?v, value_bits = ?v, vdelta = int (?x * 2 ^ k) - 2 ^ p, vbase = base ! i\<rparr>" "t < length tab"
      using tab t by (auto simp: fse_init_value_decoder_table_def nth_append Let_def split: if_splits)
  qed
  let ?st = "stack_of buf lo q inp"
  have "\<exists>v inp'. fse_in_pull64 inp (int (k + ?v)) = Some (v, inp') \<and> stream_ok inp' \<and>
      accum_nbits inp' = accum_nbits inp - int (k + ?v) \<and> pull (k + ?v) ?st = (unat v, stack_of buf lo q inp') \<and> unat v < 2 ^ (k + ?v)"
    using in_pull_less [OF inp(1), of "k + ?v" buf lo q] inp(2) k(1) m by simp
  then obtain v inp' where v: "fse_in_pull64 inp (int (k + ?v)) = Some (v, inp')" "stream_ok inp'"
      "accum_nbits inp' = accum_nbits inp - int (k + ?v)" "pull (k + ?v) ?st = (unat v, stack_of buf lo q inp')" "unat v < 2 ^ (k + ?v)"
    by blast
  have h: "k + ?v \<le> snd ?st"
    using inp k(1) m by (simp add: stack_of_def stream_ok_def) 
  obtain b st' e where be: "pull k ?st = (b, st')" "pull ?v st' = (e, stack_of buf lo q inp')" "unat v = b * 2 ^ ?v + e"
    using pull_add [OF h] v(4) by (auto split: prod.splits)
  have e: "e < 2 ^ ?v"
  proof -
    have "stack_ok st'" "?v \<le> snd st'"
      using pull_ok [of k ?st] be(1) h by (auto simp: pull_def Let_def)
    then show ?thesis using pull_less [of st' ?v] be(2) by simp
  qed
  have b: "b < 2 ^ k"
  proof (rule ccontr)
    assume "\<not> b < 2 ^ k"
    then have "2 ^ k * 2 ^ ?v \<le> b * 2 ^ ?v" by (simp only: mult_le_mono1 not_less)
    then show False using v(5) be(3) unfolding power_add by linarith
  qed
  have "unat v < 2 ^ 32"
    using v(5) power_increasing [of "k + ?v" 32 "2 :: nat"] k(1) m vb(2) by simp
  then have m32: "unat v mod 2 ^ 32 = unat v" "unat (of_nat (unat v) :: u64) = unat v" by simp_all
  then have low: "fse_mask_lsb64 (of_nat (unat v mod 2 ^ 32)) (int ?v) = Some (take_bit ?v (of_nat (unat v)))"
      "unat (take_bit ?v (of_nat (unat v) :: u64)) = e" "unat v div 2 ^ ?v = b"
    using m vb(2) e be(3) by (simp_all add: fse_mask_lsb64_some unat_take_bit)
  have low': "int (unat (take_bit ?v (of_nat (unat v) :: u64))) = int e"
    by (simp only: low(2))
  have x: "?x * 2 ^ k + b < 2 * 2 ^ p"
    using renorm_bounds(2) [of ?x p b] f(1) k(3) b by (simp add: k_def)
  have "(int (?x * 2 ^ k) - 2 ^ p + int b) mod 65536 = int (?x * 2 ^ k + b - 2 ^ p)"
  proof -
    have "int (?x * 2 ^ k) - 2 ^ p + int b = int (?x * 2 ^ k + b - 2 ^ p)"
      using N by (simp add: of_nat_diff)
    moreover have "?x * 2 ^ k + b - 2 ^ p < 65536"
      using x pow_le_14 [OF p] by simp
    ultimately show ?thesis by simp
  qed
  then have "fse_value_decode t tab inp = Some (base ! i + int e, ?x * 2 ^ k + b - 2 ^ p, inp')"
    using T v(1) low(1,3) low' m32 by (simp add: fse_value_decode_def Let_def)
  moreover have "value_pull p freq vbits (t, ?st) = ((i, e), ?x * 2 ^ k + b - 2 ^ p, stack_of buf lo q inp')"
    using ij be by (simp add: value_pull_def fse_pull_def Let_def flip: k_def)
  ultimately show ?thesis
    using v(2,3) k(1) m by auto
qed

section \<open>Any table\<close>

text \<open>
  A decoder table is filled only up to the sum of the frequencies; behind it are the
  entries of an earlier block or zeros.  What the decoder needs of an entry, whatever
  table it comes from: it takes at most \<open>p\<close> bits and leads to a state of the table.\<close>

definition decoder_entry_ok :: "nat \<Rightarrow> nat \<Rightarrow> bool" where
  "decoder_entry_ok p e \<longleftrightarrow> e mod 256 \<le> p \<and> e div 65536 + 2 ^ (e mod 256) \<le> 2 ^ p"

definition value_entry_ok :: "nat \<Rightarrow> nat \<Rightarrow> int \<Rightarrow> fse_value_decoder_entry \<Rightarrow> bool" where
  "value_entry_ok p m V e \<longleftrightarrow>
     value_bits e \<le> m \<and> value_bits e \<le> total_bits e \<and> total_bits e - value_bits e \<le> p \<and>
     0 \<le> vdelta e \<and> vdelta e + 2 ^ (total_bits e - value_bits e) \<le> 2 ^ p \<and> 0 \<le> vbase e \<and> vbase e + 2 ^ value_bits e \<le> V"

definition decoder_table_ok :: "nat \<Rightarrow> nat list \<Rightarrow> bool" where
  "decoder_table_ok p t \<longleftrightarrow> length t = 2 ^ p \<and> list_all (decoder_entry_ok p) t"

definition value_table_ok :: "nat \<Rightarrow> nat \<Rightarrow> int \<Rightarrow> fse_value_decoder_entry list \<Rightarrow> bool" where
  "value_table_ok p m V t \<longleftrightarrow> length t = 2 ^ p \<and> list_all (value_entry_ok p m V) t"

lemma fse_decode_safe:
  assumes "decoder_table_ok p t" and "p \<le> 14" and "s < 2 ^ p" and "stream_ok inp" and "int p \<le> accum_nbits inp"
  shows "\<exists>sym s' inp'. fse_decode s t inp = Some (sym, s', inp') \<and> s' < 2 ^ p \<and> stream_ok inp' \<and>
           accum_nbits inp \<le> accum_nbits inp' + int p \<and> accum_nbits inp' \<le> accum_nbits inp \<and>
           snd (stack_of buf lo q inp') + nat (accum_nbits inp - accum_nbits inp') = snd (stack_of buf lo q inp)"
proof -
  define k d where "k = t ! s mod 256" and "d = t ! s div 65536"
  have e: "k \<le> p" "d + 2 ^ k \<le> 2 ^ p" and l: "s < length t"
    using assms(1,3) by (auto simp: decoder_table_ok_def decoder_entry_ok_def list_all_length k_def d_def)
  obtain v inp' where v: "fse_in_pull64 inp (int k) = Some (v, inp')" "stream_ok inp'"
      "accum_nbits inp' = accum_nbits inp - int k" "unat v < 2 ^ k"
    using in_pull_less [OF assms(4), of k] assms(5) e(1) by fastforce
  have "d + unat v < 2 ^ p" using v(4) e(2) by simp
  moreover from this have "(d + unat v) mod 65536 = d + unat v" using pow_le_14 [OF assms(2)] by simp
  moreover have "fse_decode s t inp = Some (of_nat (t ! s div 256 mod 256), (d + unat v) mod 65536, inp')"
    using l v(1) by (simp add: fse_decode_def Let_def k_def d_def)
  ultimately show ?thesis
    using v(2,3) e(1) assms(5) by (auto simp: stack_of_def stream_ok_def nat_diff_distrib)
qed

lemma fse_value_decode_safe:
  assumes "value_table_ok p m V t" and "p \<le> 14" and "p + m \<le> 32" and "s < 2 ^ p"
    and "stream_ok inp" and "int (p + m) \<le> accum_nbits inp"
  shows "\<exists>v s' inp'. fse_value_decode s t inp = Some (v, s', inp') \<and> 0 \<le> v \<and> v < V \<and> s' < 2 ^ p \<and> stream_ok inp' \<and>
           accum_nbits inp \<le> accum_nbits inp' + int (p + m) \<and> accum_nbits inp' \<le> accum_nbits inp"
proof -
  define k vb where "k = total_bits (t ! s) - value_bits (t ! s)" and "vb = value_bits (t ! s)"
  have e: "vb \<le> m" "total_bits (t ! s) = k + vb" "k \<le> p" "0 \<le> vdelta (t ! s)" "vdelta (t ! s) + 2 ^ k \<le> 2 ^ p"
      "0 \<le> vbase (t ! s)" "vbase (t ! s) + 2 ^ vb \<le> V" and l: "s < length t"
    using assms(1,4) by (auto simp: value_table_ok_def value_entry_ok_def list_all_length k_def vb_def)
  obtain v inp' where v: "fse_in_pull64 inp (int (k + vb)) = Some (v, inp')" "stream_ok inp'"
      "accum_nbits inp' = accum_nbits inp - int (k + vb)" "unat v < 2 ^ (k + vb)"
    using in_pull_less [OF assms(5), of "k + vb"] assms(6) e(1,3) by fastforce
  have "unat v < 2 ^ 32"
    using v(4) power_increasing [of "k + vb" 32 "2 :: nat"] e(1,3) assms(3) by simp
  then have m32: "unat v mod 2 ^ 32 = unat v" "unat (of_nat (unat v) :: u64) = unat v" by simp_all
  have low: "fse_mask_lsb64 (of_nat (unat v mod 2 ^ 32)) (int vb) = Some (take_bit vb (of_nat (unat v)))"
      "unat (take_bit vb (of_nat (unat v) :: u64)) = unat v mod 2 ^ vb"
    using e(1) assms(3) m32 by (simp_all add: fse_mask_lsb64_some unat_take_bit)
  have b: "unat v div 2 ^ vb < 2 ^ k"
    using v(4) by (simp add: power_add less_mult_imp_div_less)
  have "(vdelta (t ! s) + int (unat v div 2 ^ vb)) mod 65536 = vdelta (t ! s) + int (unat v div 2 ^ vb)"
    "vdelta (t ! s) + int (unat v div 2 ^ vb) < 2 ^ p"
  proof -
    have "int (unat v div 2 ^ vb) < 2 ^ k" using b by (metis of_nat_less_iff of_nat_numeral of_nat_power)
    moreover have "(2 :: int) ^ p \<le> 16384"
      using pow_le_14 [OF assms(2)] by (metis of_nat_le_iff of_nat_numeral of_nat_power)
    moreover have "0 \<le> int (unat v div 2 ^ vb)" by (rule of_nat_0_le_iff)
    ultimately show "vdelta (t ! s) + int (unat v div 2 ^ vb) < 2 ^ p"
        "(vdelta (t ! s) + int (unat v div 2 ^ vb)) mod 65536 = vdelta (t ! s) + int (unat v div 2 ^ vb)"
      using e(4,5) by (linarith, intro mod_pos_pos_trivial) linarith+
  qed
  note st = this
  have "fse_value_decode s t inp = Some (vbase (t ! s) + int (unat v mod 2 ^ vb),
      nat (vdelta (t ! s) + int (unat v div 2 ^ vb)), inp')"
    using l v(1) e(2) low(1) st(1) m32 arg_cong [OF low(2), of int]
    by (simp add: fse_value_decode_def Let_def flip: vb_def del: of_nat_mod of_nat_div)
  moreover have "nat (vdelta (t ! s) + int (unat v div 2 ^ vb)) < 2 ^ p"
    using st(2) by (simp add: nat_less_iff del: of_nat_div)
  moreover have "int (unat v mod 2 ^ vb) < 2 ^ vb"
  proof -
    have "unat v mod 2 ^ vb < 2 ^ vb" by simp
    then show ?thesis by (metis of_nat_less_iff of_nat_numeral of_nat_power)
  qed
  moreover have "0 \<le> int (unat v mod 2 ^ vb)" by (simp del: of_nat_mod)
  ultimately have "fse_value_decode s t inp = Some (vbase (t ! s) + int (unat v mod 2 ^ vb),
      nat (vdelta (t ! s) + int (unat v div 2 ^ vb)), inp') \<and> 0 \<le> vbase (t ! s) + int (unat v mod 2 ^ vb) \<and>
      vbase (t ! s) + int (unat v mod 2 ^ vb) < V \<and> nat (vdelta (t ! s) + int (unat v div 2 ^ vb)) < 2 ^ p"
    using e(6,7) by linarith
  then show ?thesis
    using v(2,3) e(1,3) by auto
qed

text \<open>Both initialisations keep such tables such tables, for the frequencies the header check accepts.\<close>

lemma entry_of_bound:
  assumes "0 < f" and "f \<le> 2 ^ p" and "p \<le> 14" and "j < f"
  shows "snd (entry_of p (f + j)) + 2 ^ fst (entry_of p (f + j)) \<le> 2 ^ p"
proof -
  let ?k = "p - lg (f + j)"
  have "(f + j) * 2 ^ ?k + (2 ^ ?k - 1) < 2 * 2 ^ p"
    using renorm_bounds(2) [of "f + j" p "2 ^ ?k - 1"] decoder_shape(4) [OF assms refl refl] assms(1) by simp
  moreover have "0 < (2 :: nat) ^ ?k" by simp
  ultimately have "(f + j) * 2 ^ ?k + 2 ^ ?k \<le> 2 * 2 ^ p" by linarith
  then have "int ((f + j) * 2 ^ ?k + 2 ^ ?k) \<le> int (2 * 2 ^ p)" by (simp only: of_nat_le_iff)
  then show ?thesis by (simp add: entry_of_def)
qed

lemma decoder_entries_entry_ok:
  assumes "p \<le> 14" and "acc + sum_list freq \<le> 2 ^ p"
  shows "list_all (decoder_entry_ok p) (snd (decoder_entries ub (2 ^ p) i acc freq))"
  using assms(2)
proof (induction freq arbitrary: i acc)
  case (Cons f fs)
  have "decoder_entry_ok p (pack_entry (decoder_entry ub (2 ^ p) i f j))" if j: "j < f" for j
  proof -
    have f: "0 < f" "f \<le> 2 ^ p" using j Cons.prems by auto
    note sh = decoder_shape(3-6) [OF f assms(1) j refl refl]
    note pf = packed_fields [OF _ decoder_entry_eq [OF f assms(1) j, of ub i]]
    have "int (nat (snd (entry_of p (f + j))) + 2 ^ fst (entry_of p (f + j))) \<le> int (2 ^ p)"
      using entry_of_bound [OF f assms(1) j] sh(3) by simp
    then have "nat (snd (entry_of p (f + j))) + 2 ^ fst (entry_of p (f + j)) \<le> 2 ^ p"
      by (simp only: of_nat_le_iff)
    then show ?thesis
      using pf sh(1) assms(1) by (simp add: decoder_entry_ok_def)
  qed
  then show ?case
    using Cons.IH [of "acc + f" "Suc i"] Cons.IH [of acc "Suc i"] Cons.prems
    by (auto simp: list_all_iff split: prod.splits)
qed simp

lemma fse_init_decoder_table_ok:
  assumes "fits p freq" and "decoder_table_ok p t"
  shows "fst (fse_init_decoder_table ub (2 ^ p) freq t) = 0" and "decoder_table_ok p (snd (fse_init_decoder_table ub (2 ^ p) freq t))"
proof -
  have f: "p \<le> 14" "0 + sum_list freq \<le> 2 ^ p" and t: "length t = 2 ^ p" "list_all (decoder_entry_ok p) t"
    using assms by (simp_all add: fits_def decoder_table_ok_def)
  show "fst (fse_init_decoder_table ub (2 ^ p) freq t) = 0"
    using decoder_entries_ok(1) [OF f(2), of ub 0] by (auto simp: fse_init_decoder_table_def split: prod.splits)
  show "decoder_table_ok p (snd (fse_init_decoder_table ub (2 ^ p) freq t))"
    using decoder_entries_entry_ok [OF f, of ub 0] decoder_entries_ok(2) [OF f(2), of ub 0] t f(2)
    by (auto simp: fse_init_decoder_table_def decoder_table_ok_def list_all_iff split: prod.splits dest: in_set_dropD)
qed

lemma value_entries_entry_ok:
  assumes "p \<le> 14" and "sum_list freq \<le> 2 ^ p" and "length vs = length freq" and "p + m < 256"
    and "\<And>vb b. (vb, b) \<in> set vs \<Longrightarrow> vb \<le> m \<and> 0 \<le> b \<and> b + 2 ^ vb \<le> V"
  shows "list_all (value_entry_ok p m V) (value_entries ub (2 ^ p) freq vs)"
  using assms(2,3,5)
proof (induction freq arbitrary: vs)
  case (Cons f fs)
  then obtain vb b vs' where vs: "vs = (vb, b) # vs'" by (cases vs) auto
  have "value_entry_ok p m V (value_entry ub (2 ^ p) vb b f j)" if j: "j < f" for j
  proof -
    have f: "0 < f" "f \<le> 2 ^ p" and v: "vb \<le> m" "0 \<le> b" "b + 2 ^ vb \<le> V"
      using j Cons.prems vs by (auto simp del: One_nat_def)
    note sh = decoder_shape(3-6) [OF f assms(1) j refl refl]
    have "value_entry ub (2 ^ p) vb b f j =
        \<lparr>total_bits = fst (entry_of p (f + j)) + vb, value_bits = vb, vdelta = snd (entry_of p (f + j)), vbase = b\<rparr>"
      using value_entry_eq [OF f assms(1) j, of vb] v(1) assms(4) by simp
    then show ?thesis
      using entry_of_bound [OF f assms(1) j] sh v by (simp add: value_entry_ok_def)
  qed
  then show ?case
    using Cons.IH [of vs'] Cons.prems vs by (auto simp: list_all_iff)
qed simp

lemma fse_init_value_decoder_table_ok:
  assumes "fits p freq" and "value_table_ok p m V t" and "length vbits = length freq" and "length base = length freq" and "p + m < 256"
    and "\<And>vb b. (vb, b) \<in> set (zip vbits base) \<Longrightarrow> vb \<le> m \<and> 0 \<le> b \<and> b + 2 ^ vb \<le> V"
  shows "\<exists>t'. fse_init_value_decoder_table ub (2 ^ p) freq vbits base t = Some t' \<and> value_table_ok p m V t'"
proof -
  have f: "p \<le> 14" "sum_list freq \<le> 2 ^ p" and t: "length t = 2 ^ p" "list_all (value_entry_ok p m V) t"
    using assms by (simp_all add: fits_def value_table_ok_def)
  have z: "length (zip vbits base) = length freq" using assms(3,4) by simp
  show ?thesis
    using value_entries_entry_ok [OF f z assms(5,6), of ub] value_entries_ok(1) [OF z, of ub "2 ^ p"] t f(2)
    by (auto simp: fse_init_value_decoder_table_def value_table_ok_def list_all_iff Let_def dest: in_set_dropD)
qed

section \<open>The coder\<close>

lemma stack_of_accum: "stream_ok s \<Longrightarrow> stream_ok s' \<Longrightarrow> stack_of [] 0 0 s = stack_of [] 0 0 s' \<Longrightarrow> s = s'"
  by (cases s; cases s') (auto simp: stack_of_def stream_ok_def slice_def word_unat_eq_iff)

text \<open>C7. For every normalised frequency table, every symbol that occurs and every state, encoding succeeds
  with a new state inside the symbol's range, and decoding from that state with the
  decoder table yields the symbol, the old state and the old bit stream.\<close>

theorem fse_symbol_roundtrip:
  assumes "p \<le> 14" and "sum_list freq \<le> 2 ^ p" and "length freq \<le> 256"
    and "i < length freq" and "0 < freq ! i" and "s < 2 ^ p"
    and "stream_ok out" and "accum_nbits out + int p < 64"
  shows "\<exists>s' out'. fse_encode s (fse_init_encoder_table ub (2 ^ p) freq) out i = Some (s', out') \<and>
           s' < 2 ^ p \<and> stream_ok out' \<and>
           fse_decode s' (snd (fse_init_decoder_table ub (2 ^ p) freq old)) out' = Some (of_nat i, s, out)"
proof -
  have fit: "fits p freq" using assms(1,2) by (simp add: fits_def)
  let ?c = "fse_push p freq i (s, stack_of [] 0 0 out)"
  obtain out' where e: "fse_encode s (fse_init_encoder_table ub (2 ^ p) freq) out i = Some (fst ?c, out')" "stream_ok out'"
      "stack_of [] 0 0 out' = snd ?c" "accum_nbits out' = accum_nbits out + int (step_bits p (freq ! i) s)"
    using fse_encode_step [OF fit assms(4-8), of ub "[]" 0 0] by blast
  have c: "fst ?c < sum_list freq" "fst ?c < 2 ^ p" "pull_bits p freq (fst ?c) = step_bits p (freq ! i) s"
    using fse_push_state(3,4) [OF fit assms(4-6)] pull_bits_push [OF fit assms(4-6)] by simp_all
  have ok: "stack_ok (stack_of [] 0 0 out)" using stack_of_ok [OF assms(7)] by simp
  have "0 \<le> accum_nbits out" using assms(7) by (simp add: stream_ok_def)
  then have le: "int (pull_bits p freq (fst ?c)) \<le> accum_nbits out'" using c(3) e(4) by simp
  obtain j s' inp' where d: "fse_decode (fst ?c) (snd (fse_init_decoder_table ub (2 ^ p) freq old)) out' = Some (of_nat j, s', inp')"
      "stream_ok inp'" "fse_pull p freq (fst ?c, stack_of [] 0 0 out') = (j, s', stack_of [] 0 0 inp')"
    using fse_decode_step [OF fit c(1) assms(3) e(2) le refl, of ub old "[]" 0 0] by (elim exE conjE) (rule that)
  have "fse_pull p freq (fst ?c, snd ?c) = (i, s, stack_of [] 0 0 out)"
    using fse_pull_push [OF fit assms(4-6) ok] by (simp only: prod.collapse)
  then have "(j, s', stack_of [] 0 0 inp') = (i, s, stack_of [] 0 0 out)"
    using d(3) unfolding e(3) by (rule trans [OF sym, rotated])
  then have "j = i" "s' = s" "inp' = out"
    using stack_of_accum [OF d(2) assms(7)] by simp_all
  then show ?thesis using e(1,2) c(2) d(1) by blast
qed

theorem fse_symbol_roundtrip_witness:
  "\<exists>s' out'. fse_encode 5 (fse_init_encoder_table 0 (2 ^ 3) [3, 0, 5]) \<lparr>accum = 2, accum_nbits = 4\<rparr> 2 = Some (s', out') \<and>
     s' < 2 ^ 3 \<and> stream_ok out' \<and>
     fse_decode s' (snd (fse_init_decoder_table 0 (2 ^ 3) [3, 0, 5] (replicate 8 0))) out' =
       Some (of_nat 2, 5, \<lparr>accum = 2, accum_nbits = 4\<rparr>)"
  by (rule fse_symbol_roundtrip) (simp_all add: stream_ok_def)

end
