(* ===== verification/FSE_Normalize.thy ===== *)
theory FSE_Normalize
  imports FSE_Tables
begin

text \<open>
  Normalisation of symbol counts to state counts,
  \<open>src/src/darwin/libcompression/lzfse/lzfse_fse.c\<close>: \<open>fse_adjust_freqs\<close> and
  \<open>fse_normalize_freq\<close>.  Counts are \<open>uint32_t\<close>, frequencies \<open>uint16_t\<close>; both are naturals
  with the wrap-around written out.  \<open>None\<close> is a shift by a negative count.

  Shown: whenever the number of symbols that occur does not exceed the number of
  states, the loop of \<open>fse_adjust_freqs\<close> ends before its shift count becomes negative,
  the frequencies add up to exactly the number of states, and every symbol that occurs
  keeps at least one state.  These are the hypotheses of the coder's theorems.
\<close>

fun adjust_pass :: "nat \<Rightarrow> int \<Rightarrow> nat list \<Rightarrow> int \<times> nat list" where
  "adjust_pass shift overrun [] = (overrun, [])"
| "adjust_pass shift overrun (f # freq) =
     (if f > 1 then
        let n = int ((f - 1) div 2 ^ shift);
            n = (if n > overrun then overrun else n);
            f' = nat ((int f - n) mod 65536);
            overrun = overrun - n
        in if overrun = 0 then (0, f' # freq)
           else (case adjust_pass shift overrun freq of (overrun, freq) \<Rightarrow> (overrun, f' # freq))
      else (case adjust_pass shift overrun freq of (overrun, freq) \<Rightarrow> (overrun, f # freq)))"

text \<open>The argument is one more than the code's \<open>shift\<close>.\<close>

fun adjust_loop :: "nat \<Rightarrow> int \<Rightarrow> nat list \<Rightarrow> nat list option" where
  "adjust_loop 0 overrun freq = (if overrun = 0 then Some freq else None)"
| "adjust_loop (Suc shift) overrun freq =
     (if overrun = 0 then Some freq
      else (case adjust_pass shift overrun freq of (overrun, freq) \<Rightarrow> adjust_loop shift overrun freq))"

definition fse_adjust_freqs :: "nat list \<Rightarrow> int \<Rightarrow> nat list option" where
  "fse_adjust_freqs freq overrun = adjust_loop 4 overrun freq"

definition scaled_freq :: "nat \<Rightarrow> nat \<Rightarrow> nat \<Rightarrow> nat" where
  "scaled_freq shift highprec_step c =
     (let f = ((c * highprec_step mod 2 ^ 32) div 2 ^ shift + 1) mod 2 ^ 32 div 2 in
      if f = 0 \<and> c \<noteq> 0 then 1 else f)"

fun normalize_loop :: "nat \<Rightarrow> nat \<Rightarrow> nat \<Rightarrow> int \<Rightarrow> nat \<Rightarrow> nat \<Rightarrow> nat list \<Rightarrow> nat list \<times> int \<times> nat \<times> nat" where
  "normalize_loop shift step i remaining max_freq max_freq_sym [] = ([], remaining, max_freq, max_freq_sym)"
| "normalize_loop shift step i remaining max_freq max_freq_sym (c # t) =
     (let f = scaled_freq shift step c in
      case normalize_loop shift step (Suc i) (remaining - int f)
             (if f > max_freq then f else max_freq) (if f > max_freq then i else max_freq_sym) t of
        (freq, r) \<Rightarrow> (f mod 65536 # freq, r))"

definition fse_normalize_freq :: "nat \<Rightarrow> nat list \<Rightarrow> nat list option" where
  "fse_normalize_freq nstates t =
     (let shift = nat (clz nstates - 1);
          s_count = sum_list t mod 2 ^ 32;
          highprec_step = (if s_count = 0 then 0 else 2 ^ 31 div s_count)
      in case normalize_loop shift highprec_step 0 (int nstates) 0 0 t of
           (freq, remaining, max_freq, max_freq_sym) \<Rightarrow>
             if - remaining < int (max_freq div 4)
             then (if max_freq_sym < length freq
                   then Some (freq[max_freq_sym := nat ((int (freq ! max_freq_sym) + remaining) mod 65536)]) else None)
             else fse_adjust_freqs freq (- remaining))"

section \<open>Adjustment\<close>

definition used :: "nat list \<Rightarrow> nat" where
  "used freq = length (filter (\<lambda>f. f \<noteq> 0) freq)"

text \<open>Zero stays zero, nonzero stays nonzero, nothing grows.\<close>

definition shrinks :: "nat \<Rightarrow> nat \<Rightarrow> bool" where
  "shrinks f g \<longleftrightarrow> g \<le> f \<and> (0 < f \<longrightarrow> 0 < g)"

lemma shrinks_refl: "list_all2 shrinks fs fs"
  by (simp add: list_all2_refl shrinks_def)

lemma shrinks_trans: "list_all2 shrinks fs gs \<Longrightarrow> list_all2 shrinks gs hs \<Longrightarrow> list_all2 shrinks fs hs"
  by (rule list_all2_trans [of shrinks shrinks shrinks fs gs hs]) (auto simp: shrinks_def)

lemma adjust_pass_ok:
  assumes "0 < ov" and "list_all (\<lambda>f. f < 65536) freq" and "adjust_pass sh ov freq = (ov', freq')"
  shows "0 \<le> ov' \<and> int (sum_list freq') + ov = int (sum_list freq) + ov' \<and> list_all2 shrinks freq freq'"
  using assms
proof (induction freq arbitrary: ov ov' freq')
  case (Cons f fs)
  show ?case
  proof (cases "f > 1")
    case False
    then show ?thesis
      using Cons.IH [of ov ov' "tl freq'"] Cons.prems by (auto simp: shrinks_def split: prod.splits)
  next
    case True
    define n where "n = min (int ((f - 1) div 2 ^ sh)) ov"
    have n: "0 \<le> n" "n \<le> int (f - 1)" "n \<le> ov" "f < 65536"
      using Cons.prems by (auto simp: n_def min_le_iff_disj)
    then have f': "(int f - n) mod 65536 = int f - n"
      using True by simp
    have p: "adjust_pass sh ov (f # fs) = (if ov - n = 0 then (0, nat (int f - n) # fs)
        else (case adjust_pass sh (ov - n) fs of (o', gs) \<Rightarrow> (o', nat (int f - n) # gs)))"
    proof (cases "int ((f - 1) div 2 ^ sh) > ov")
      case True
      then have "n = ov" by (simp add: n_def del: of_nat_div)
      then show ?thesis using True f' \<open>f > 1\<close> by (simp add: Let_def del: of_nat_div)
    next
      case False
      then have n': "n = int ((f - 1) div 2 ^ sh)" by (simp add: n_def min_def del: of_nat_div)
      show ?thesis using False f' \<open>f > 1\<close> unfolding n' by (simp add: Let_def del: of_nat_div)
    qed
    have sf: "shrinks f (nat (int f - n))" "int (nat (int f - n)) = int f - n"
      using n True by (auto simp: shrinks_def)
    show ?thesis
    proof (cases "ov - n = 0")
      case True
      then show ?thesis using Cons.prems(3) p sf shrinks_refl by auto
    next
      case False
      then obtain gs where g: "adjust_pass sh (ov - n) fs = (ov', gs)" "freq' = nat (int f - n) # gs"
        using Cons.prems(3) p by (auto split: prod.splits)
      then show ?thesis
        using Cons.IH [OF _ _ g(1)] Cons.prems(2) n(3) False sf by auto
    qed
  qed
qed (simp add: list_all2_refl)

text \<open>The last pass, with shift 0, can take all states but one from every symbol.\<close>

lemma adjust_last_pass:
  assumes "0 < ov" and "list_all (\<lambda>f. f < 65536) freq" and "ov \<le> int (sum_list freq) - int (used freq)"
  shows "fst (adjust_pass 0 ov freq) = 0"
  using assms
proof (induction freq arbitrary: ov)
  case (Cons f fs)
  show ?case
  proof (cases "f > 1")
    case False
    then have "fst (adjust_pass 0 ov fs) = 0"
      using Cons.prems by (intro Cons.IH) (auto simp: used_def split: if_splits)
    then show ?thesis using False by (auto split: prod.splits)
  next
    case True
    show ?thesis
    proof (cases "int (f - 1) < ov")
      case True
      then have "fst (adjust_pass 0 (ov - int (f - 1)) fs) = 0"
        using Cons.prems \<open>f > 1\<close> by (intro Cons.IH) (auto simp: used_def of_nat_diff)
      then show ?thesis using True \<open>f > 1\<close> by (auto simp: Let_def split: prod.splits)
    qed (use True in \<open>auto simp: Let_def split: prod.splits\<close>)
  qed
qed (simp add: used_def)

lemma shrinks_used: "list_all2 shrinks fs gs \<Longrightarrow> used gs = used fs"
  by (induction rule: list_all2_induct) (auto simp: used_def shrinks_def)

lemma shrinks_bound: "list_all2 shrinks fs gs \<Longrightarrow> list_all (\<lambda>f. f < B) fs \<Longrightarrow> list_all (\<lambda>f. f < B) gs"
  by (induction rule: list_all2_induct) (auto simp: shrinks_def)

lemma adjust_loop_ok:
  assumes "0 \<le> ov" and "list_all (\<lambda>f. f < 65536) freq" and "ov \<le> int (sum_list freq) - int (used freq)"
  shows "\<exists>freq'. adjust_loop (Suc sh) ov freq = Some freq' \<and> int (sum_list freq') = int (sum_list freq) - ov \<and> list_all2 shrinks freq freq'"
  using assms
proof (induction sh arbitrary: ov freq)
  case 0
  show ?case
  proof (cases "ov = 0")
    case False
    obtain ov' fr where a: "adjust_pass 0 ov freq = (ov', fr)" by force
    then have "ov' = 0" using adjust_last_pass [of ov freq] 0 False by simp
    then show ?thesis using adjust_pass_ok [OF _ 0(2) a] 0(1) False a by simp
  qed (simp add: shrinks_refl)
next
  case (Suc sh)
  show ?case
  proof (cases "ov = 0")
    case False
    obtain ov' fr where a: "adjust_pass (Suc sh) ov freq = (ov', fr)" by force
    have ok: "0 \<le> ov'" "int (sum_list fr) + ov = int (sum_list freq) + ov'" "list_all2 shrinks freq fr"
      using adjust_pass_ok [OF _ Suc.prems(2) a] Suc.prems(1) False by simp_all
    have "\<exists>fr'. adjust_loop (Suc sh) ov' fr = Some fr' \<and> int (sum_list fr') = int (sum_list fr) - ov' \<and> list_all2 shrinks fr fr'"
      using ok shrinks_used [OF ok(3)] shrinks_bound [OF ok(3) Suc.prems(2)] Suc.prems(3) by (intro Suc.IH) simp_all
    then obtain fr' where "adjust_loop (Suc sh) ov' fr = Some fr'" "int (sum_list fr') = int (sum_list fr) - ov'" "list_all2 shrinks fr fr'"
      by blast
    then show ?thesis
      using a False ok shrinks_trans [OF ok(3)] by (simp del: adjust_loop.simps add: adjust_loop.simps(2) [of "Suc sh"])
  qed (simp add: shrinks_refl)
qed

section \<open>Normalisation\<close>

lemma scaled_freq_zero: "scaled_freq sh st c = 0 \<longleftrightarrow> c = 0"
  by (cases "c = 0") (simp_all add: scaled_freq_def Let_def)

lemma scaled_freq_pos: "0 < scaled_freq sh st c \<longleftrightarrow> 0 < c"
  using scaled_freq_zero [of sh st c] by (simp only: neq0_conv [symmetric])

lemma scaled_freq_le:
  assumes "c \<le> n" and "0 < n" and "p \<le> 14"
  shows "scaled_freq (30 - p) (2 ^ 31 div n) c \<le> 2 ^ p"
proof -
  have "c * (2 ^ 31 div n) \<le> n * (2 ^ 31 div n)" using assms(1) by (rule mult_le_mono1)
  also have "\<dots> \<le> 2 ^ 31" by simp
  finally have x: "c * (2 ^ 31 div n) \<le> 2 ^ 31" .
  have "(2 :: nat) ^ 31 = 2 ^ Suc p * 2 ^ (30 - p)" using assms(3) by (simp flip: power_Suc power_add)
  then have "c * (2 ^ 31 div n) div 2 ^ (30 - p) \<le> 2 ^ Suc p"
    using div_le_mono [OF x, of "2 ^ (30 - p)"] by (simp only: nonzero_mult_div_cancel_right power_not_zero zero_neq_numeral [symmetric] not_False_eq_True)
  then have "(c * (2 ^ 31 div n) div 2 ^ (30 - p) + 1) div 2 \<le> 2 ^ p" by simp
  moreover have "c * (2 ^ 31 div n) mod 2 ^ 32 = c * (2 ^ 31 div n)" using x by simp
  moreover have "(c * (2 ^ 31 div n) div 2 ^ (30 - p) + 1) mod 2 ^ 32 = c * (2 ^ 31 div n) div 2 ^ (30 - p) + 1"
    using \<open>c * (2 ^ 31 div n) div 2 ^ (30 - p) \<le> 2 ^ Suc p\<close> pow_le_14 [OF assms(3)] by (intro mod_less) simp
  ultimately show ?thesis
    unfolding scaled_freq_def Let_def by (simp split: if_splits)
qed

lemma normalize_loop_spec:
  assumes "normalize_loop sh st i r m ms t = (freq, r', m', ms')" and "\<And>c. c \<in> set t \<Longrightarrow> scaled_freq sh st c < 65536"
  shows "freq = map (scaled_freq sh st) t \<and> r' = r - int (sum_list freq) \<and>
    ((m' = m \<and> ms' = ms \<and> list_all (\<lambda>f. f \<le> m) freq) \<or> (m < m' \<and> i \<le> ms' \<and> ms' < i + length t \<and> freq ! (ms' - i) = m'))"
  using assms
proof (induction t arbitrary: i r m ms freq)
  case (Cons c t)
  let ?f = "scaled_freq sh st c"
  have f: "?f < 65536" using Cons.prems(2) by simp
  obtain fs where fs: "normalize_loop sh st (Suc i) (r - int ?f) (if ?f > m then ?f else m) (if ?f > m then i else ms) t = (fs, r', m', ms')"
      "freq = ?f # fs"
    using Cons.prems(1) f by (auto simp: Let_def split: prod.splits)
  note IH = Cons.IH [OF fs(1)]
  have IH: "fs = map (scaled_freq sh st) t" "r' = r - int ?f - int (sum_list fs)"
    "(m' = (if ?f > m then ?f else m) \<and> ms' = (if ?f > m then i else ms) \<and> list_all (\<lambda>f. f \<le> (if ?f > m then ?f else m)) fs) \<or>
     ((if ?f > m then ?f else m) < m' \<and> Suc i \<le> ms' \<and> ms' < Suc i + length t \<and> fs ! (ms' - Suc i) = m')"
    using IH Cons.prems(2) by auto
  have "freq ! (ms' - i) = m'" if "Suc i \<le> ms'" "fs ! (ms' - Suc i) = m'"
  proof -
    have "ms' - i = Suc (ms' - Suc i)" using that(1) by simp
    then show ?thesis using fs(2) that(2) by simp
  qed
  then show ?case
    using IH fs(2) by (auto split: if_splits)
qed simp

lemma normalize_exact:
  assumes p: "p \<le> 14" and t: "t \<noteq> []" "sum_list t < 2 ^ 32" "used t \<le> 2 ^ p"
  shows "\<exists>freq. fse_normalize_freq (2 ^ p) t = Some freq \<and> sum_list freq = 2 ^ p \<and> length freq = length t \<and>
           (\<forall>i < length t. 0 < t ! i \<longrightarrow> 0 < freq ! i)"
proof -
  define hs where "hs = (if sum_list t = 0 then 0 else 2 ^ 31 div sum_list t)"
  obtain freq r m ms where n: "normalize_loop (30 - p) hs 0 (2 ^ p) 0 0 t = (freq, r, m, ms)"
    using prod_cases4 by blast
  have c: "scaled_freq (30 - p) hs c \<le> 2 ^ p" if "c \<in> set t" for c
  proof (cases "sum_list t = 0")
    case True
    then show ?thesis using that by (simp add: hs_def scaled_freq_def)
  next
    case False
    then show ?thesis
      using scaled_freq_le [OF member_le_sum_list [OF that] _ p] unfolding hs_def by (simp only: if_False)
  qed
  have s: "scaled_freq (30 - p) hs c < 65536" if "c \<in> set t" for c
    by (rule le_less_trans [OF c [OF that]]) (use pow_le_14 [OF p] in simp)
  note L = normalize_loop_spec [OF n s]
  have fq: "freq = map (scaled_freq (30 - p) hs) t" "r = 2 ^ p - int (sum_list freq)" using L by simp_all
  have nz: "0 < freq ! i" if "i < length t" "0 < t ! i" for i
    using that fq(1) scaled_freq_zero [of "30 - p" hs "t ! i"] by simp
  have run: "fse_normalize_freq (2 ^ p) t = (if - r < int (m div 4)
      then (if ms < length freq then Some (freq[ms := nat ((int (freq ! ms) + r) mod 65536)]) else None)
      else fse_adjust_freqs freq (- r))"
  proof -
    have "nat (clz (2 ^ p) - 1) = 30 - p" by (simp add: clz_def)
    moreover have "sum_list t mod 2 ^ 32 = sum_list t" using t(2) by simp
    ultimately show ?thesis using n by (simp add: fse_normalize_freq_def Let_def hs_def)
  qed
  show ?thesis
  proof (cases "- r < int (m div 4)")
    case True
    have ms: "ms < length freq" "freq ! ms = m"
    proof -
      have "m = 0 \<and> ms = 0 \<and> list_all (\<lambda>f. f \<le> 0) freq \<or> ms < length t \<and> freq ! ms = m"
        using L by auto
      then show "ms < length freq" "freq ! ms = m" using t(1) fq(1) by (cases t; auto)+
    qed
    have sum: "sum_list freq = m + (sum_list freq - m)" "m \<le> sum_list freq"
      using ms elem_le_sum_list [of ms freq] by simp_all
    have v: "0 < int m + r" "int m + r \<le> 2 ^ p"
    proof -
      show "int m + r \<le> 2 ^ p" using fq(2) sum(2) by simp
      have "int (m div 4) \<le> int m" by (simp only: of_nat_le_iff div_le_dividend)
      then show "0 < int m + r" using True by linarith
    qed
    moreover have "(2 :: int) ^ p \<le> 16384"
      using pow_le_14 [OF p] by (metis of_nat_le_iff of_nat_numeral of_nat_power)
    ultimately have md: "(int m + r) mod 65536 = int m + r" by simp
    let ?freq = "freq[ms := nat (int m + r)]"
    have "int (sum_list ?freq) = int (sum_list freq) + int (nat (int m + r)) - int m"
      using ms sum(2) by (simp add: sum_list_update del: nat_add_distrib)
    then have "int (sum_list ?freq) = int (2 ^ p)" using v(1) fq(2) by simp
    then have "sum_list ?freq = 2 ^ p" by (simp only: of_nat_eq_iff)
    moreover have "0 < ?freq ! i" if "i < length t" "0 < t ! i" for i
      using nz [OF that] that(1) fq(1) v(1) by (cases "i = ms") auto
    ultimately show ?thesis
      using run True ms md fq(1) by simp
  next
    case False
    have "used freq = used t"
      unfolding fq(1) used_def by (simp add: filter_map comp_def scaled_freq_pos)
    then have "- r \<le> int (sum_list freq) - int (used freq)"
      using t(3) fq(2) by simp
    moreover have "0 \<le> - r" using False by simp
    moreover have "list_all (\<lambda>f. f < 65536) freq" using fq(1) s by (simp add: list_all_iff)
    moreover have "fse_adjust_freqs freq (- r) = adjust_loop (Suc 3) (- r) freq"
      by (simp add: fse_adjust_freqs_def)
    ultimately obtain freq' where f: "fse_adjust_freqs freq (- r) = Some freq'" "int (sum_list freq') = int (sum_list freq) - - r"
        "list_all2 shrinks freq freq'"
      using adjust_loop_ok [of "- r" freq 3] by metis
    then have "int (sum_list freq') = int (2 ^ p)" using fq(2) by simp
    then have "sum_list freq' = 2 ^ p" by (simp only: of_nat_eq_iff)
    moreover have "length freq' = length t" using f(3) fq(1) by (auto dest: list_all2_lengthD)
    moreover have "0 < freq' ! i" if "i < length t" "0 < t ! i" for i
      using list_all2_nthD [OF f(3), of i] nz [OF that] fq(1) that(1) by (simp add: shrinks_def)
    ultimately show ?thesis using run False f(1) by simp
  qed
qed

text \<open>C9. If at most as many symbols occur as there are states (and the counts do not overflow
  \<open>uint32_t\<close>), normalisation returns, assigns exactly all states, and gives every symbol
  that occurs at least one.\<close>

theorem fse_normalize_exact:
  assumes p: "p \<le> 14" and t: "t \<noteq> []" "sum_list t < 2 ^ 32" "used t \<le> 2 ^ p"
  shows "\<exists>freq. fse_normalize_freq (2 ^ p) t = Some freq \<and> sum_list freq = 2 ^ p \<and> length freq = length t \<and>
           (\<forall>i < length t. 0 < t ! i \<longrightarrow> 0 < freq ! i)"
  by (rule normalize_exact [OF assms])

theorem fse_normalize_exact_witness:
  "\<exists>freq. fse_normalize_freq (2 ^ 6) [1, 0, 1, 2000] = Some freq \<and> sum_list freq = 2 ^ 6 \<and> length freq = length [1, 0, 1, 2000 :: nat] \<and>
     (\<forall>i < length [1, 0, 1, 2000 :: nat]. 0 < [1, 0, 1, 2000 :: nat] ! i \<longrightarrow> 0 < freq ! i)"
  by (rule fse_normalize_exact) (simp_all add: used_def)

end
