(* ===== verification/LZFSE_Format.thy ===== *)
theory LZFSE_Format
  imports FSE_Normalize
begin

text \<open>
  The LZFSE block format: constants, the classes of L, M and D values, the frequency
  tables and the two block headers, from \<open>lzfse_internal.h\<close>, \<open>lzfse_encode_tables.h\<close>,
  \<open>lzfse_encode_base.c\<close> and \<open>lzfse_decode_base.c\<close> under
  \<open>src/src/darwin/libcompression/lzfse/\<close>.

  Shown: every encodable value lies in the class its table assigns to it, so that the
  class and the extra bits determine it; a header that is packed and its
  frequency tables that are compressed are read back unchanged.
\<close>

section \<open>Constants\<close>

abbreviation (input) LZFSE_ENCODE_L_SYMBOLS :: nat where "LZFSE_ENCODE_L_SYMBOLS \<equiv> 20"
abbreviation (input) LZFSE_ENCODE_M_SYMBOLS :: nat where "LZFSE_ENCODE_M_SYMBOLS \<equiv> 20"
abbreviation (input) LZFSE_ENCODE_D_SYMBOLS :: nat where "LZFSE_ENCODE_D_SYMBOLS \<equiv> 64"
abbreviation (input) LZFSE_ENCODE_LITERAL_SYMBOLS :: nat where "LZFSE_ENCODE_LITERAL_SYMBOLS \<equiv> 256"

text \<open>The numbers of states are \<open>2^6\<close>, \<open>2^6\<close>, \<open>2^8\<close> and \<open>2^10\<close>.\<close>

abbreviation (input) LZFSE_ENCODE_L_STATES :: nat where "LZFSE_ENCODE_L_STATES \<equiv> 64"
abbreviation (input) LZFSE_ENCODE_M_STATES :: nat where "LZFSE_ENCODE_M_STATES \<equiv> 64"
abbreviation (input) LZFSE_ENCODE_D_STATES :: nat where "LZFSE_ENCODE_D_STATES \<equiv> 256"
abbreviation (input) LZFSE_ENCODE_LITERAL_STATES :: nat where "LZFSE_ENCODE_LITERAL_STATES \<equiv> 1024"
abbreviation (input) LZFSE_MATCHES_PER_BLOCK :: nat where "LZFSE_MATCHES_PER_BLOCK \<equiv> 10000"
abbreviation (input) LZFSE_LITERALS_PER_BLOCK :: nat where "LZFSE_LITERALS_PER_BLOCK \<equiv> 40000"
abbreviation (input) LZFSE_ENCODE_MAX_L_VALUE :: nat where "LZFSE_ENCODE_MAX_L_VALUE \<equiv> 315"
abbreviation (input) LZFSE_ENCODE_MAX_M_VALUE :: nat where "LZFSE_ENCODE_MAX_M_VALUE \<equiv> 2359"
abbreviation (input) LZFSE_ENCODE_MAX_D_VALUE :: nat where "LZFSE_ENCODE_MAX_D_VALUE \<equiv> 262139"

text \<open>\<open>LZFSE_STATUS_OK\<close> and the other codes.\<close>

datatype lzfse_status = Status_ok | Src_empty | Dst_full | Status_error

definition LZFSE_NO_BLOCK_MAGIC :: u32 where "LZFSE_NO_BLOCK_MAGIC = 0"
definition LZFSE_ENDOFSTREAM_BLOCK_MAGIC :: u32 where "LZFSE_ENDOFSTREAM_BLOCK_MAGIC = 0x24787662"
definition LZFSE_UNCOMPRESSED_BLOCK_MAGIC :: u32 where "LZFSE_UNCOMPRESSED_BLOCK_MAGIC = 0x2d787662"
definition LZFSE_COMPRESSEDV1_BLOCK_MAGIC :: u32 where "LZFSE_COMPRESSEDV1_BLOCK_MAGIC = 0x31787662"
definition LZFSE_COMPRESSEDV2_BLOCK_MAGIC :: u32 where "LZFSE_COMPRESSEDV2_BLOCK_MAGIC = 0x32787662"
definition LZFSE_COMPRESSEDLZVN_BLOCK_MAGIC :: u32 where "LZFSE_COMPRESSEDLZVN_BLOCK_MAGIC = 0x6e787662"

lemmas magic_defs = LZFSE_NO_BLOCK_MAGIC_def LZFSE_ENDOFSTREAM_BLOCK_MAGIC_def LZFSE_UNCOMPRESSED_BLOCK_MAGIC_def
  LZFSE_COMPRESSEDV1_BLOCK_MAGIC_def LZFSE_COMPRESSEDV2_BLOCK_MAGIC_def LZFSE_COMPRESSEDLZVN_BLOCK_MAGIC_def

section \<open>Classes of values\<close>

definition l_extra_bits :: "nat list" where
  "l_extra_bits = [0, 0, 0, 0, 0, 0, 0, 0, 0, 0, 0, 0, 0, 0, 0, 0, 2, 3, 5, 8]"

definition l_base_value :: "int list" where
  "l_base_value = [0, 1, 2, 3, 4, 5, 6, 7, 8, 9, 10, 11, 12, 13, 14, 15, 16, 20, 28, 60]"

definition m_extra_bits :: "nat list" where
  "m_extra_bits = [0, 0, 0, 0, 0, 0, 0, 0, 0, 0, 0, 0, 0, 0, 0, 0, 3, 5, 8, 11]"

definition m_base_value :: "int list" where
  "m_base_value = [0, 1, 2, 3, 4, 5, 6, 7, 8, 9, 10, 11, 12, 13, 14, 15, 16, 24, 56, 312]"

definition d_extra_bits :: "nat list" where
  "d_extra_bits =
    [0,  0,  0,  0,  1,  1,  1,  1,  2,  2,  2,  2,  3,  3,  3,  3,
     4,  4,  4,  4,  5,  5,  5,  5,  6,  6,  6,  6,  7,  7,  7,  7,
     8,  8,  8,  8,  9,  9,  9,  9,  10, 10, 10, 10, 11, 11, 11, 11,
     12, 12, 12, 12, 13, 13, 13, 13, 14, 14, 14, 14, 15, 15, 15, 15]"

definition d_base_value :: "int list" where
  "d_base_value =
    [0,      1,      2,      3,     4,     6,     8,     10,    12,    16,
     20,     24,     28,     36,    44,    52,    60,    76,    92,    108,
     124,    156,    188,    220,   252,   316,   380,   444,   508,   636,
     764,    892,    1020,   1276,  1532,  1788,  2044,  2556,  3068,  3580,
     4092,   5116,   6140,   7164,  8188,  10236, 12284, 14332, 16380, 20476,
     24572,  28668,  32764,  40956, 49148, 57340, 65532, 81916, 98300, 114684,
     131068, 163836, 196604, 229372]"

text \<open>The tables of the encoder, written with the lengths of their runs.\<close>

definition l_sym :: "nat list" where
  "l_sym = [0..<16] @ replicate 4 16 @ replicate 8 17 @ replicate 32 18 @ replicate 256 19"

definition m_sym :: "nat list" where
  "m_sym = [0..<16] @ replicate 8 16 @ replicate 32 17 @ replicate 256 18 @ replicate 2048 19"

definition d_sym :: "nat list" where
  "d_sym =
    [0,  1,  2,  3,  4,  4,  5,  5,  6,  6,  7,  7,  8,  8,  8,  8,  9,  9,
     9,  9,  10, 10, 10, 10, 11, 11, 11, 11, 12, 12, 12, 12, 12, 12, 12, 12,
     13, 13, 13, 13, 13, 13, 13, 13, 14, 14, 14, 14, 14, 14, 14, 14, 15, 15,
     15, 15, 15, 15, 15, 15, 16, 16, 16, 16, 16, 17, 18, 19, 20, 20, 21, 21,
     22, 22, 23, 23, 24, 24, 24, 24, 25, 25, 25, 25, 26, 26, 26, 26, 27, 27,
     27, 27, 28, 28, 28, 28, 28, 28, 28, 28, 29, 29, 29, 29, 29, 29, 29, 29,
     30, 30, 30, 30, 30, 30, 30, 30, 31, 31, 31, 31, 31, 31, 31, 31, 32, 32,
     32, 32, 32, 33, 34, 35, 36, 36, 37, 37, 38, 38, 39, 39, 40, 40, 40, 40,
     41, 41, 41, 41, 42, 42, 42, 42, 43, 43, 43, 43, 44, 44, 44, 44, 44, 44,
     44, 44, 45, 45, 45, 45, 45, 45, 45, 45, 46, 46, 46, 46, 46, 46, 46, 46,
     47, 47, 47, 47, 47, 47, 47, 47, 48, 48, 48, 48, 48, 49, 50, 51, 52, 52,
     53, 53, 54, 54, 55, 55, 56, 56, 56, 56, 57, 57, 57, 57, 58, 58, 58, 58,
     59, 59, 59, 59, 60, 60, 60, 60, 60, 60, 60, 60, 61, 61, 61, 61, 61, 61,
     61, 61, 62, 62, 62, 62, 62, 62, 62, 62, 63, 63, 63, 63, 63, 63, 63, 63,
     0,  0,  0,  0]"

definition l_base_from_value :: "nat \<Rightarrow> nat option" where
  "l_base_from_value v = (if v < length l_sym then Some (l_sym ! v) else None)"

definition m_base_from_value :: "nat \<Rightarrow> nat option" where
  "m_base_from_value v = (if v < length m_sym then Some (m_sym ! v) else None)"

text \<open>\<open>index |= x & -in_range\<close>: a term counts when the value is in its range.\<close>

definition d_base_from_value :: "nat \<Rightarrow> nat" where
  "d_base_from_value v =
     (let index = (if v < 60 then v else 0);
          index = index OR (if 60 \<le> v \<and> v < 1020 then (v - 60) div 2 ^ 4 + 64 else 0);
          index = index OR (if 1020 \<le> v \<and> v < 16380 then (v - 1020) div 2 ^ 8 + 128 else 0);
          index = index OR (if 16380 \<le> v \<and> v < 262140 then (v - 16380) div 2 ^ 12 + 192 else 0)
      in d_sym ! (index mod 256))"

text \<open>A value belongs to a class: between the base and the base of the next.\<close>

definition in_class :: "nat list \<Rightarrow> int list \<Rightarrow> nat \<Rightarrow> nat \<Rightarrow> bool" where
  "in_class extra base cls v \<longleftrightarrow>
     cls < length base \<and> length extra = length base \<and> base ! cls \<le> int v \<and> int v < base ! cls + 2 ^ (extra ! cls)"

lemma length_tables [simp]:
  "length l_extra_bits = 20" "length l_base_value = 20" "length m_extra_bits = 20" "length m_base_value = 20"
  "length d_extra_bits = 64" "length d_base_value = 64" "length d_sym = 256" "length l_sym = 316" "length m_sym = 2360"
  by (simp_all add: l_extra_bits_def l_base_value_def m_extra_bits_def m_base_value_def d_extra_bits_def d_base_value_def
      d_sym_def l_sym_def m_sym_def)

lemma l_class: "v \<le> LZFSE_ENCODE_MAX_L_VALUE \<Longrightarrow> \<exists>cls. l_base_from_value v = Some cls \<and> in_class l_extra_bits l_base_value cls v"
proof -
  assume v: "v \<le> 315"
  have "in_class l_extra_bits l_base_value (l_sym ! v) v"
  proof (cases "v < 16")
    case True
    have "list_all (\<lambda>v. in_class l_extra_bits l_base_value v v) [0..<16]" by code_simp
    then have "in_class l_extra_bits l_base_value v v" using True by (simp add: list_all_iff)
    then show ?thesis using True by (simp add: l_sym_def nth_append)
  next
    case False
    have "l_sym ! v = (if v < 20 then 16 else if v < 28 then 17 else if v < 60 then 18 else 19)"
      using False v by (auto simp: l_sym_def nth_append)
    then show ?thesis
      using False v by (simp add: in_class_def) (simp add: l_base_value_def l_extra_bits_def)
  qed
  then show ?thesis using v by (simp add: l_base_from_value_def)
qed

lemma m_class: "v \<le> LZFSE_ENCODE_MAX_M_VALUE \<Longrightarrow> \<exists>cls. m_base_from_value v = Some cls \<and> in_class m_extra_bits m_base_value cls v"
proof -
  assume v: "v \<le> 2359"
  have "in_class m_extra_bits m_base_value (m_sym ! v) v"
  proof (cases "v < 16")
    case True
    have "list_all (\<lambda>v. in_class m_extra_bits m_base_value v v) [0..<16]" by code_simp
    then have "in_class m_extra_bits m_base_value v v" using True by (simp add: list_all_iff)
    then show ?thesis using True by (simp add: m_sym_def nth_append)
  next
    case False
    have "m_sym ! v = (if v < 24 then 16 else if v < 56 then 17 else if v < 312 then 18 else 19)"
      using False v by (auto simp: m_sym_def nth_append)
    then show ?thesis
      using False v by (simp add: in_class_def) (simp add: m_base_value_def m_extra_bits_def)
  qed
  then show ?thesis using v by (simp add: m_base_from_value_def)
qed

text \<open>A step of the D index covers \<open>16^k\<close> values, all of one class.\<close>

definition d_step_ok :: "nat \<Rightarrow> int \<Rightarrow> int \<Rightarrow> nat \<Rightarrow> bool" where
  "d_step_ok start off w i \<longleftrightarrow>
     (let cls = d_sym ! (start + i) in
      cls < 64 \<and> d_base_value ! cls \<le> off + w * int i \<and> off + w * int i + w \<le> d_base_value ! cls + 2 ^ (d_extra_bits ! cls))"

lemma d_steps:
  "i < 60 \<Longrightarrow> d_step_ok 0 0 1 i" "i < 60 \<Longrightarrow> d_step_ok 64 60 16 i" "i < 60 \<Longrightarrow> d_step_ok 128 1020 256 i" "i < 60 \<Longrightarrow> d_step_ok 192 16380 4096 i"
proof -
  have "list_all (d_step_ok 0 0 1) [0..<60]" "list_all (d_step_ok 64 60 16) [0..<60]"
    "list_all (d_step_ok 128 1020 256) [0..<60]" "list_all (d_step_ok 192 16380 4096) [0..<60]"
    by code_simp+
  then show "i < 60 \<Longrightarrow> d_step_ok 0 0 1 i" "i < 60 \<Longrightarrow> d_step_ok 64 60 16 i" "i < 60 \<Longrightarrow> d_step_ok 128 1020 256 i" "i < 60 \<Longrightarrow> d_step_ok 192 16380 4096 i"
    by (simp_all add: list_all_iff)
qed

lemma d_step_class: "d_step_ok start off w i \<Longrightarrow> off + w * int i \<le> int v \<Longrightarrow> int v < off + w * int i + w \<Longrightarrow> in_class d_extra_bits d_base_value (d_sym ! (start + i)) v"
  unfolding d_step_ok_def in_class_def Let_def by auto

lemma d_class: "v \<le> LZFSE_ENCODE_MAX_D_VALUE \<Longrightarrow> in_class d_extra_bits d_base_value (d_base_from_value v) v"
proof -
  assume v: "v \<le> 262139"
  consider "v < 60" | "60 \<le> v" "v < 1020" | "1020 \<le> v" "v < 16380" | "16380 \<le> v" by linarith
  then show ?thesis
  proof cases
    case 1
    then have "d_base_from_value v = d_sym ! (0 + v)" by (simp add: d_base_from_value_def)
    then show ?thesis using d_step_class [OF d_steps(1)] 1 by simp
  next
    case 2
    then have "d_base_from_value v = d_sym ! (64 + (v - 60) div 16)" by (simp add: d_base_from_value_def add.commute)
    then show ?thesis using d_step_class [OF d_steps(2), of "(v - 60) div 16" v] 2 by (simp add: zdiv_int of_nat_diff)
  next
    case 3
    then have "d_base_from_value v = d_sym ! (128 + (v - 1020) div 256)" by (simp add: d_base_from_value_def add.commute)
    then show ?thesis using d_step_class [OF d_steps(3), of "(v - 1020) div 256" v] 3 by (simp add: zdiv_int of_nat_diff)
  next
    case 4
    then have "d_base_from_value v = d_sym ! (192 + (v - 16380) div 4096)" using v by (simp add: d_base_from_value_def add.commute)
    then show ?thesis using d_step_class [OF d_steps(4), of "(v - 16380) div 4096" v] 4 v by (simp add: zdiv_int of_nat_diff)
  qed
qed

end
