(* ===== verification/LZFSE_Header.thy ===== *)
theory LZFSE_Header
  imports LZFSE_Format
begin

text \<open>
  The headers of LZFSE blocks: the compressed frequency tables
  (\<open>lzfse_encode_v1_freq_value\<close>, \<open>lzfse_encode_v1_freq_table\<close> in \<open>lzfse_encode_base.c\<close>;
  \<open>lzfse_decode_v1_freq_value\<close>, \<open>lzfse_decode_v1\<close> in \<open>lzfse_decode_base.c\<close>), the packed fields
  (\<open>setField\<close>, \<open>lzfse_encode_v1_state\<close>, \<open>get_field\<close>) and the check of a header
  (\<open>lzfse_check_block_header_v1\<close> in \<open>lzfse_internal.h\<close>).

  Shown: the code of the frequencies is prefix free and the tables survive the round
  trip, and so does a whole header; what the check accepts has states and
  frequencies inside the decoder's tables.
\<close>

section \<open>Frequency tables\<close>

definition lzfse_encode_v1_freq_value :: "nat \<Rightarrow> nat \<times> nat" where
  "lzfse_encode_v1_freq_value v =
     (if v = 0 then (0, 2) else if v = 1 then (2, 2) else if v = 2 then (1, 3) else if v = 3 then (5, 3)
      else if v = 4 then (3, 5) else if v = 5 then (11, 5) else if v = 6 then (19, 5) else if v = 7 then (27, 5)
      else if v < 24 then (7 + (v - 8) * 2 ^ 4, 8) else ((v - 24) * 2 ^ 4 + 15, 14))"

definition lzfse_freq_nbits_table :: "nat list" where
  "lzfse_freq_nbits_table =
    [2, 3, 2, 5, 2, 3, 2, 8, 2, 3, 2, 5, 2, 3, 2, 14,
     2, 3, 2, 5, 2, 3, 2, 8, 2, 3, 2, 5, 2, 3, 2, 14]"

definition lzfse_freq_value_table :: "int list" where
  "lzfse_freq_value_table =
    [0, 2, 1, 4, 0, 3, 1, -1, 0, 2, 1, 5, 0, 3, 1, -1,
     0, 2, 1, 6, 0, 3, 1, -1, 0, 2, 1, 7, 0, 3, 1, -1]"

definition lzfse_decode_v1_freq_value :: "nat \<Rightarrow> int \<times> nat" where
  "lzfse_decode_v1_freq_value bits =
     (let b = bits mod 32; n = lzfse_freq_nbits_table ! b in
      if n = 8 then (8 + int (bits div 2 ^ 4 mod 16), n)
      else if n = 14 then (24 + int (bits div 2 ^ 4 mod 1024), n)
      else (lzfse_freq_value_table ! b, n))"

text \<open>The bytes that leave the accumulator, and what stays.\<close>

fun put_bytes :: "nat \<Rightarrow> nat \<Rightarrow> byte list \<times> nat \<times> nat" where
  "put_bytes acc nbits =
     (if nbits \<ge> 8 then (case put_bytes (acc div 2 ^ 8) (nbits - 8) of (bs, r) \<Rightarrow> (of_nat (acc mod 256) # bs, r))
      else ([], acc, nbits))"

declare put_bytes.simps [simp del]

fun encode_freqs :: "nat \<Rightarrow> nat \<Rightarrow> nat list \<Rightarrow> byte list" where
  "encode_freqs acc acc_nbits [] = (if acc_nbits > 0 then [of_nat (acc mod 256)] else [])"
| "encode_freqs acc acc_nbits (v # src) =
     (case lzfse_encode_v1_freq_value v of (bits, nbits) \<Rightarrow>
        case put_bytes (acc OR push_bit acc_nbits bits mod 2 ^ 32) (acc_nbits + nbits) of
          (bs, acc, acc_nbits) \<Rightarrow> bs @ encode_freqs acc acc_nbits src)"

fun refill :: "nat \<Rightarrow> nat \<Rightarrow> byte list \<Rightarrow> nat \<times> nat \<times> byte list" where
  "refill acc acc_nbits [] = (acc, acc_nbits, [])"
| "refill acc acc_nbits (b # src) =
     (if acc_nbits + 8 \<le> 32 then refill (acc OR push_bit acc_nbits (unat b)) (acc_nbits + 8) src
      else (acc, acc_nbits, b # src))"

fun decode_freqs :: "nat \<Rightarrow> nat \<Rightarrow> nat \<Rightarrow> byte list \<Rightarrow> nat list option" where
  "decode_freqs 0 acc acc_nbits src = (if acc_nbits \<ge> 8 \<or> src \<noteq> [] then None else Some [])"
| "decode_freqs (Suc n) acc acc_nbits src =
     (case refill acc acc_nbits src of (acc, acc_nbits, src) \<Rightarrow>
        case lzfse_decode_v1_freq_value acc of (v, nbits) \<Rightarrow>
          if nbits > acc_nbits then None
          else map_option (Cons (nat (v mod 65536))) (decode_freqs n (acc div 2 ^ nbits) (acc_nbits - nbits) src))"

subsection \<open>Round trip\<close>

lemma or_push_bit_nat: "x < 2 ^ n \<Longrightarrow> x OR push_bit n y = x + 2 ^ n * (y :: nat)"
proof -
  assume "x < 2 ^ n"
  then have "take_bit n x = x" by (simp add: take_bit_eq_mod)
  then have "\<not> bit x k \<or> \<not> bit (push_bit n y) k" for k
    by (metis bit_push_bit_iff bit_take_bit_iff linorder_not_le)
  then have "x OR push_bit n y = x + push_bit n y"
    by (rule disjunctive_add [symmetric])
  then show ?thesis by (simp add: push_bit_eq_mult mult.commute)
qed

lemma upt_all: "list_all P [0..<n] \<Longrightarrow> i < n \<Longrightarrow> P i"
  by (simp add: list_all_iff)

text \<open>The code is prefix free: what follows a code word does not matter.\<close>

lemma small_freq_code:
  "v < 8 \<Longrightarrow> lzfse_decode_v1_freq_value (fst (lzfse_encode_v1_freq_value v) + 2 ^ snd (lzfse_encode_v1_freq_value v) * r) =
     (int v, snd (lzfse_encode_v1_freq_value v))"
proof -
  assume v: "v < 8"
  let ?b = "fst (lzfse_encode_v1_freq_value v)" and ?k = "snd (lzfse_encode_v1_freq_value v)"
  have "list_all (\<lambda>v. list_all (\<lambda>r. let b = fst (lzfse_encode_v1_freq_value v); k = snd (lzfse_encode_v1_freq_value v) in
      k \<noteq> 8 \<and> k \<noteq> 14 \<and> lzfse_freq_nbits_table ! ((b + 2 ^ k * r) mod 32) = k \<and> lzfse_freq_value_table ! ((b + 2 ^ k * r) mod 32) = int v) [0..<32]) [0..<8]"
    by code_simp
  from upt_all [OF upt_all [OF this v], of "r mod 32"] have t: "?k \<noteq> 8 \<and> ?k \<noteq> 14 \<and> lzfse_freq_nbits_table ! ((?b + 2 ^ ?k * (r mod 32)) mod 32) = ?k \<and>
      lzfse_freq_value_table ! ((?b + 2 ^ ?k * (r mod 32)) mod 32) = int v"
    by (simp only: Let_def mod_less_divisor zero_less_numeral simp_thms)
  have "(?b + 2 ^ ?k * (r mod 32)) mod 32 = (?b + 2 ^ ?k * r) mod 32"
    by (metis mod_add_right_eq mod_mult_right_eq)
  then show ?thesis
    using t by (simp only: lzfse_decode_v1_freq_value_def Let_def if_False if_True simp_thms)
qed

lemma mod_32: "a < 16 \<Longrightarrow> (a + 16 * y) mod 32 = a \<or> (a + 16 * y) mod 32 = a + (16 :: nat)"
proof -
  assume a: "a < 16"
  have "(a + 16 * y) mod (16 * 2) = 16 * ((a + 16 * y) div 16 mod 2) + (a + 16 * y) mod 16"
    by (rule mod_mult2_eq)
  also have "\<dots> = 16 * (y mod 2) + a" using a by simp
  finally show ?thesis by (cases "y mod 2 = 0") (auto simp: mod2_eq_if)
qed

lemma freq_code:
  assumes "v \<le> 1047" and "lzfse_encode_v1_freq_value v = (b, k)"
  shows "lzfse_decode_v1_freq_value (b + 2 ^ k * r) = (int v, k)" and "b < 2 ^ k" and "2 \<le> k" and "k \<le> 14"
proof -
  consider "v < 8" | "8 \<le> v" "v < 24" | "24 \<le> v" by linarith
  then have "lzfse_decode_v1_freq_value (b + 2 ^ k * r) = (int v, k) \<and> b < 2 ^ k \<and> 2 \<le> k \<and> k \<le> 14"
  proof cases
    case 1
    have "list_all (\<lambda>v. let (b, k) = lzfse_encode_v1_freq_value v in b < 2 ^ k \<and> 2 \<le> k \<and> k \<le> 14) [0..<8]"
      by code_simp
    from upt_all [OF this 1] show ?thesis using small_freq_code [OF 1, of r] assms(2) by simp
  next
    case 2
    define u where "u = v - 8"
    have u: "v = 8 + u" "u < 16" using 2 by (simp_all add: u_def)
    have bk: "b = 7 + u * 16" "k = 8" using assms(2) u by (auto simp: lzfse_encode_v1_freq_value_def)
    have x: "b + 2 ^ k * r = 7 + 16 * (u + 16 * r)" using bk by simp
    have "(7 + 16 * (u + 16 * r)) mod 32 = 7 \<or> (7 + 16 * (u + 16 * r)) mod 32 = 23"
      using mod_32 [of 7 "u + 16 * r"] by simp
    then have "lzfse_freq_nbits_table ! ((7 + 16 * (u + 16 * r)) mod 32) = 8"
      by (auto simp: lzfse_freq_nbits_table_def)
    moreover have "(7 + 16 * (u + 16 * r)) div 2 ^ 4 = u + 16 * r" by (simp del: distrib_left_numeral)
    then have "(7 + 16 * (u + 16 * r)) div 2 ^ 4 mod 16 = u" using u(2) by simp
    ultimately show ?thesis using u bk unfolding x by (simp add: lzfse_decode_v1_freq_value_def Let_def)
  next
    case 3
    define u where "u = v - 24"
    have u: "v = 24 + u" "u < 1024" using 3 assms(1) by (simp_all add: u_def)
    have bk: "b = 15 + u * 16" "k = 14" using assms(2) u by (auto simp: lzfse_encode_v1_freq_value_def)
    have x: "b + 2 ^ k * r = 15 + 16 * (u + 1024 * r)" using bk by simp
    have "(15 + 16 * (u + 1024 * r)) mod 32 = 15 \<or> (15 + 16 * (u + 1024 * r)) mod 32 = 31"
      using mod_32 [of 15 "u + 1024 * r"] by simp
    then have "lzfse_freq_nbits_table ! ((15 + 16 * (u + 1024 * r)) mod 32) = 14"
      by (auto simp: lzfse_freq_nbits_table_def)
    moreover have "(15 + 16 * (u + 1024 * r)) div 2 ^ 4 = u + 1024 * r" by (simp del: distrib_left_numeral)
    then have "(15 + 16 * (u + 1024 * r)) div 2 ^ 4 mod 1024 = u" using u(2) by simp
    ultimately show ?thesis using u bk unfolding x by (simp add: lzfse_decode_v1_freq_value_def Let_def)
  qed
  then show "lzfse_decode_v1_freq_value (b + 2 ^ k * r) = (int v, k)" "b < 2 ^ k" "2 \<le> k" "k \<le> 14" by auto
qed

text \<open>The bits of a table as one number, first value lowest.\<close>

fun code_value :: "nat list \<Rightarrow> nat \<times> nat" where
  "code_value [] = (0, 0)"
| "code_value (v # vs) =
     (case lzfse_encode_v1_freq_value v of (b, k) \<Rightarrow> case code_value vs of (V, N) \<Rightarrow> (b + 2 ^ k * V, k + N))"

lemma put_bytes_value:
  assumes "put_bytes a n = (bs, a', n')" and "a < 2 ^ n"
  shows "le_val bs + 256 ^ length bs * a' = a \<and> n = 8 * length bs + n' \<and> n' < 8 \<and> a' < 2 ^ n'"
  using assms
proof (induction a n arbitrary: bs rule: put_bytes.induct)
  case (1 a n)
  show ?case
  proof (cases "n \<ge> 8")
    case True
    then obtain cs where cs: "put_bytes (a div 2 ^ 8) (n - 8) = (cs, a', n')" "bs = of_nat (a mod 256) # cs"
      using 1(2) by (subst (asm) put_bytes.simps) (auto split: prod.splits)
    have "a < 2 ^ (n - 8) * 2 ^ 8" using 1(3) True by (simp only: power_add [symmetric] le_add_diff_inverse2)
    then have "a div 2 ^ 8 < 2 ^ (n - 8)" by (rule less_mult_imp_div_less)
    then have "le_val cs + 256 ^ length cs * a' = a div 256 \<and> n - 8 = 8 * length cs + n' \<and> n' < 8 \<and> a' < 2 ^ n'"
      using 1(1) [OF True cs(1)] by simp
    note IH = this
    have "le_val bs + 256 ^ length bs * a' = a mod 256 + 256 * (le_val cs + 256 ^ length cs * a')"
      using cs(2) by (simp add: algebra_simps)
    also have "\<dots> = a" using IH by (simp only: mod_mult_div_eq)
    finally show ?thesis using IH cs(2) True by auto
  next
    case False
    then show ?thesis using 1(2,3) by (subst (asm) put_bytes.simps) auto
  qed
qed

lemma encode_freqs_value:
  assumes "list_all (\<lambda>v. v \<le> 1047) vs" and "a < 2 ^ n" and "n < 8" and "code_value vs = (V, N)"
  shows "le_val (encode_freqs a n vs) = a + 2 ^ n * V \<and> length (encode_freqs a n vs) = (n + N + 7) div 8 \<and> 2 * length vs \<le> N \<and> N \<le> 14 * length vs"
  using assms
proof (induction vs arbitrary: a n V N)
  case Nil
  have "a < 256" using Nil(2,3) power_increasing [of n 8 "2 :: nat"] by simp
  then show ?case using Nil by auto
next
  case (Cons v vs)
  obtain b k where bk: "lzfse_encode_v1_freq_value v = (b, k)" by force
  obtain V' N' where VN: "code_value vs = (V', N')" "V = b + 2 ^ k * V'" "N = k + N'"
    using Cons.prems(4) bk by (auto split: prod.splits)
  have k: "b < 2 ^ k" "2 \<le> k" "k \<le> 14" using freq_code(2,3,4) [OF _ bk] Cons.prems(1) by simp_all
  have lt: "a + 2 ^ n * b < 2 ^ (n + k)"
    using push_ok [of "(a, n)" b k] k(1) Cons.prems(2) by (simp add: stack_ok_def push_def mult.commute)
  have "push_bit n b < 2 ^ 32"
  proof -
    have "push_bit n b < 2 ^ (n + k)" using lt by (simp add: push_bit_eq_mult mult.commute)
    then show ?thesis using power_increasing [of "n + k" 32 "2 :: nat"] k(3) Cons.prems(3) by simp
  qed
  then have acc: "a OR push_bit n b mod 2 ^ 32 = a + 2 ^ n * b"
    using or_push_bit_nat [OF Cons.prems(2), of b] by simp
  obtain bs a' n' where p: "put_bytes (a + 2 ^ n * b) (n + k) = (bs, a', n')" by (metis surj_pair)
  note pv = put_bytes_value [OF p lt]
  have IH: "le_val (encode_freqs a' n' vs) = a' + 2 ^ n' * V'" "length (encode_freqs a' n' vs) = (n' + N' + 7) div 8"
      "2 * length vs \<le> N'" "N' \<le> 14 * length vs"
    using Cons.IH [OF _ _ _ VN(1), of a' n'] Cons.prems(1) pv by simp_all
  have e: "encode_freqs a n (v # vs) = bs @ encode_freqs a' n' vs"
    using bk acc p by simp
  have "le_val (bs @ encode_freqs a' n' vs) = (le_val bs + 256 ^ length bs * a') + 2 ^ (8 * length bs + n') * V'"
    using IH(1) by (simp add: le_val_append pow_256 power_add algebra_simps)
  also have "\<dots> = a + 2 ^ n * V"
    using pv VN(2) by (metis (no_types, opaque_lifting) add.assoc distrib_left mult.assoc power_add)
  finally show ?case
    using e pv IH VN(3) k by auto
qed

lemma refill_value:
  assumes "refill a n src = (a', n', src')" and "a < 2 ^ n" and "n \<le> 32"
  shows "a' + 2 ^ n' * le_val src' = a + 2 ^ n * le_val src \<and> n' + 8 * length src' = n + 8 * length src \<and>
    a' < 2 ^ n' \<and> n' \<le> 32 \<and> (src' = [] \<or> 24 < n')"
  using assms
proof (induction src arbitrary: a n)
  case (Cons b src)
  show ?case
  proof (cases "n + 8 \<le> 32")
    case True
    have "a + 2 ^ n * unat b < 2 ^ (n + 8)"
      using push_ok [of "(a, n)" "unat b" 8] Cons.prems(2) by (simp add: stack_ok_def push_def mult.commute)
    then show ?thesis
      using Cons.IH [of "a + 2 ^ n * unat b" "n + 8"] Cons.prems True or_push_bit_nat [OF Cons.prems(2), of "unat b"]
      by (simp add: power_add algebra_simps)
  qed (use Cons.prems in auto)
qed auto

lemma decode_freqs_value:
  assumes "list_all (\<lambda>v. v \<le> 1047) vs" and "code_value vs = (V, N)" and "a < 2 ^ n" and "n \<le> 32"
    and "a + 2 ^ n * le_val src = V" and "n + 8 * length src = N + pad" and "pad < 8"
  shows "decode_freqs (length vs) a n src = Some vs"
  using assms
proof (induction vs arbitrary: a n src V N)
  case (Cons v vs)
  obtain b k where bk: "lzfse_encode_v1_freq_value v = (b, k)" by force
  obtain V' N' where VN: "code_value vs = (V', N')" "V = b + 2 ^ k * V'" "N = k + N'"
    using Cons.prems(2) bk by (auto split: prod.splits)
  have v: "v \<le> 1047" and vs: "list_all (\<lambda>v. v \<le> 1047) vs" using Cons.prems(1) by simp_all
  note fc = freq_code [OF v bk]
  obtain a' n' src' where r: "refill a n src = (a', n', src')" by (metis surj_pair)
  note rv = refill_value [OF r Cons.prems(3,4)]
  have tot: "a' + 2 ^ n' * le_val src' = b + 2 ^ k * V'" using rv Cons.prems(5) VN(2) by simp
  have kn: "k \<le> n'"
    using rv Cons.prems(6) VN(3) fc(4) by (cases "src' = []") auto
  have pw: "2 ^ n' = 2 ^ k * (2 :: nat) ^ (n' - k)" using kn by (simp flip: power_add)
  have "(a' + 2 ^ k * (2 ^ (n' - k) * le_val src')) mod 2 ^ k = (b + 2 ^ k * V') mod 2 ^ k"
    using tot pw by (simp add: mult.assoc)
  then have m: "a' mod 2 ^ k = b" using fc(2) by simp
  then have a: "a' = b + 2 ^ k * (a' div 2 ^ k)" using div_mult_mod_eq [of a' "2 ^ k"] by (simp add: algebra_simps)
  have "2 ^ k * (a' div 2 ^ k + 2 ^ (n' - k) * le_val src') + b = 2 ^ k * V' + b"
    using tot a pw by (simp add: algebra_simps)
  then have V': "a' div 2 ^ k + 2 ^ (n' - k) * le_val src' = V'" by simp
  have "a' < 2 ^ (n' - k) * 2 ^ k" using rv kn by (simp flip: power_add)
  then have lt: "a' div 2 ^ k < 2 ^ (n' - k)" by (rule less_mult_imp_div_less)
  have IH: "decode_freqs (length vs) (a' div 2 ^ k) (n' - k) src' = Some vs"
    using Cons.IH [OF vs VN(1) lt _ V' _ Cons.prems(7)] rv kn Cons.prems(6) VN(3) by simp
  have "lzfse_decode_v1_freq_value a' = (int v, k)" using fc(1) [of "a' div 2 ^ k"] a by simp
  then show ?case using r kn IH v by (simp add: nat_mod_distrib)
next
  case Nil
  then have "N = 0" by simp
  then have "8 * length src < 8" using Nil(6,7) by linarith
  then have "src = []" by simp
  then show ?case using Nil by simp
qed

lemma freqs_roundtrip:
  assumes "list_all (\<lambda>v. v \<le> 1047) vs"
  shows "decode_freqs (length vs) 0 0 (encode_freqs 0 0 vs) = Some vs"
    and "length (encode_freqs 0 0 vs) \<le> (14 * length vs + 7) div 8" and "vs \<noteq> [] \<Longrightarrow> encode_freqs 0 0 vs \<noteq> []"
proof -
  obtain V N where VN: "code_value vs = (V, N)" by force
  have e: "le_val (encode_freqs 0 0 vs) = V" "length (encode_freqs 0 0 vs) = (N + 7) div 8" "2 * length vs \<le> N" "N \<le> 14 * length vs"
    using encode_freqs_value [OF assms, of 0 0 V N] VN by simp_all
  show "decode_freqs (length vs) 0 0 (encode_freqs 0 0 vs) = Some vs"
    using decode_freqs_value [OF assms VN, of 0 0 "encode_freqs 0 0 vs" "8 * ((N + 7) div 8) - N"] e(1,2) by simp
  show "length (encode_freqs 0 0 vs) \<le> (14 * length vs + 7) div 8" unfolding e(2) using e(4) by (intro div_le_mono) simp
  show "encode_freqs 0 0 vs \<noteq> []" if "vs \<noteq> []"
  proof
    assume "encode_freqs 0 0 vs = []"
    then have "(N + 7) div 8 = 0" using e(2) by simp
    then show False using e(3) that by (cases vs) auto
  qed
qed

section \<open>Headers\<close>

record lzfse_header_v1 =
  h_magic :: u32
  h_n_raw_bytes :: nat
  h_n_payload_bytes :: nat
  h_n_literals :: nat
  h_n_matches :: nat
  h_n_literal_payload_bytes :: nat
  h_n_lmd_payload_bytes :: nat
  h_literal_bits :: int
  h_literal_state :: "nat list"
  h_lmd_bits :: int
  h_l_state :: nat
  h_m_state :: nat
  h_d_state :: nat
  h_l_freq :: "nat list"
  h_m_freq :: "nat list"
  h_d_freq :: "nat list"
  h_literal_freq :: "nat list"

text \<open>Signed 32-bit fields.\<close>

definition s32 :: "nat \<Rightarrow> int" where
  "s32 w = (if w < 2 ^ 31 then int w else int w - 2 ^ 32)"

definition lzfse_check_block_header_v1 :: "lzfse_header_v1 \<Rightarrow> nat" where
  "lzfse_check_block_header_v1 h =
     (let t = \<lambda>k ok. if ok then 0 else 2 ^ k :: nat;
          r = t 0 (h_magic h = LZFSE_COMPRESSEDV1_BLOCK_MAGIC);
          r = r OR t 1 (h_n_literals h \<le> LZFSE_LITERALS_PER_BLOCK);
          r = r OR t 2 (h_n_matches h \<le> LZFSE_MATCHES_PER_BLOCK);
          r = r OR t 3 (h_literal_state h ! 0 < LZFSE_ENCODE_LITERAL_STATES);
          r = r OR t 4 (h_literal_state h ! 1 < LZFSE_ENCODE_LITERAL_STATES);
          r = r OR t 5 (h_literal_state h ! 2 < LZFSE_ENCODE_LITERAL_STATES);
          r = r OR t 6 (h_literal_state h ! 3 < LZFSE_ENCODE_LITERAL_STATES);
          r = r OR t 7 (h_l_state h < LZFSE_ENCODE_L_STATES);
          r = r OR t 8 (h_m_state h < LZFSE_ENCODE_M_STATES);
          r = r OR t 9 (h_d_state h < LZFSE_ENCODE_D_STATES);
          r = r OR t 10 (fse_check_freq (h_l_freq h) LZFSE_ENCODE_L_STATES = 0);
          r = r OR t 11 (fse_check_freq (h_m_freq h) LZFSE_ENCODE_M_STATES = 0);
          r = r OR t 12 (fse_check_freq (h_d_freq h) LZFSE_ENCODE_D_STATES = 0);
          r = r OR t 13 (fse_check_freq (h_literal_freq h) LZFSE_ENCODE_LITERAL_STATES = 0)
      in if r \<noteq> 0 then r OR 0x80000000 else 0)"

definition setField :: "nat \<Rightarrow> nat \<Rightarrow> u64" where
  "setField v offset = push_bit offset (of_nat (v mod 2 ^ 32))"

definition get_field :: "u64 \<Rightarrow> nat \<Rightarrow> nat \<Rightarrow> nat" where
  "get_field v offset nbits =
     (if nbits = 32 then unat (drop_bit offset v) mod 2 ^ 32
      else unat (drop_bit offset v AND (push_bit nbits 1 - 1)) mod 2 ^ 32)"

definition freq_table :: "lzfse_header_v1 \<Rightarrow> nat list" where
  "freq_table h = h_l_freq h @ h_m_freq h @ h_d_freq h @ h_literal_freq h"

definition with_freqs :: "nat list \<Rightarrow> lzfse_header_v1 \<Rightarrow> lzfse_header_v1" where
  "with_freqs fs h = h\<lparr>h_l_freq := take 20 fs, h_m_freq := take 20 (drop 20 fs), h_d_freq := take 64 (drop 40 fs),
     h_literal_freq := take 256 (drop 104 fs)\<rparr>"

text \<open>Writing: \<open>header2\<close> lies at \<open>p\<close> in the destination, with its tables at \<open>p + 32\<close>.\<close>

definition lzfse_encode_v1_freq_table :: "nat \<Rightarrow> byte list \<Rightarrow> nat \<Rightarrow> lzfse_header_v1 \<Rightarrow> (byte list \<times> nat) option" where
  "lzfse_encode_v1_freq_table hi buf p h =
     (let bs = encode_freqs 0 0 (freq_table h); header_size = 32 + length bs in
      do { b \<leftarrow> store buf 0 hi (p + 32) bs;
           b \<leftarrow> store8 b 0 hi (p + 8) 0;
           b \<leftarrow> store8 b 0 hi (p + 16) 0;
           b \<leftarrow> store8 b 0 hi (p + 24) (setField header_size 0);
           Some (b, header_size) })"

definition packed0 :: "lzfse_header_v1 \<Rightarrow> u64" where
  "packed0 h = ((setField (h_n_literals h) 0 OR setField (h_n_literal_payload_bytes h) 20) OR
     setField (h_n_matches h) 40) OR setField (nat ((7 + h_literal_bits h) mod 2 ^ 32)) 60"

definition packed1 :: "lzfse_header_v1 \<Rightarrow> u64" where
  "packed1 h = ((((setField (h_literal_state h ! 0) 0 OR setField (h_literal_state h ! 1) 10) OR
     setField (h_literal_state h ! 2) 20) OR setField (h_literal_state h ! 3) 30) OR
     setField (h_n_lmd_payload_bytes h) 40) OR setField (nat ((7 + h_lmd_bits h) mod 2 ^ 32)) 60"

definition packed2 :: "u64 \<Rightarrow> lzfse_header_v1 \<Rightarrow> u64" where
  "packed2 v h = ((v OR setField (h_l_state h) 32) OR setField (h_m_state h) 42) OR setField (h_d_state h) 52"

definition lzfse_encode_v1_state :: "nat \<Rightarrow> byte list \<Rightarrow> nat \<Rightarrow> lzfse_header_v1 \<Rightarrow> byte list option" where
  "lzfse_encode_v1_state hi buf p h =
     do { b \<leftarrow> store4 buf 0 hi p LZFSE_COMPRESSEDV2_BLOCK_MAGIC;
          b \<leftarrow> store4 b 0 hi (p + 4) (of_nat (h_n_raw_bytes h));
          b \<leftarrow> store8 b 0 hi (p + 8) (packed0 h);
          b \<leftarrow> store8 b 0 hi (p + 16) (packed1 h);
          v \<leftarrow> load8 b 0 hi (p + 24);
          store8 b 0 hi (p + 24) (packed2 v h) }"

text \<open>Reading the header at \<open>p\<close>; the inner \<open>None\<close> is the result -1.\<close>

definition lzfse_decode_v2_header_size :: "byte list \<Rightarrow> nat \<Rightarrow> nat \<Rightarrow> nat option" where
  "lzfse_decode_v2_header_size src hi p = map_option (\<lambda>v2. get_field v2 0 32) (load8 src 0 hi (p + 24))"

definition unpacked :: "nat \<Rightarrow> u64 \<Rightarrow> u64 \<Rightarrow> u64 \<Rightarrow> lzfse_header_v1" where
  "unpacked n_raw v0 v1 v2 =
     \<lparr>h_magic = LZFSE_COMPRESSEDV1_BLOCK_MAGIC, h_n_raw_bytes = n_raw,
      h_n_payload_bytes = get_field v0 20 20 + get_field v1 40 20,
      h_n_literals = get_field v0 0 20, h_n_matches = get_field v0 40 20,
      h_n_literal_payload_bytes = get_field v0 20 20, h_n_lmd_payload_bytes = get_field v1 40 20,
      h_literal_bits = int (get_field v0 60 3) - 7,
      h_literal_state = [get_field v1 0 10, get_field v1 10 10, get_field v1 20 10, get_field v1 30 10],
      h_lmd_bits = int (get_field v1 60 3) - 7,
      h_l_state = get_field v2 32 10, h_m_state = get_field v2 42 10, h_d_state = get_field v2 52 10,
      h_l_freq = replicate 20 0, h_m_freq = replicate 20 0, h_d_freq = replicate 64 0, h_literal_freq = replicate 256 0\<rparr>"

definition lzfse_decode_v1 :: "byte list \<Rightarrow> nat \<Rightarrow> nat \<Rightarrow> lzfse_header_v1 option option" where
  "lzfse_decode_v1 src hi p =
     do { n_raw \<leftarrow> load4 src 0 hi (p + 4);
          v0 \<leftarrow> load8 src 0 hi (p + 8);
          v1 \<leftarrow> load8 src 0 hi (p + 16);
          v2 \<leftarrow> load8 src 0 hi (p + 24);
          let out = unpacked (unat n_raw) v0 v1 v2; header_size = get_field v2 0 32 in
          if header_size = 32 then Some (Some out)
          else do { bs \<leftarrow> load src 0 hi (p + 32) (header_size - 32);
                    Some (map_option (\<lambda>fs. with_freqs fs out) (decode_freqs 360 0 0 bs)) } }"

text \<open>The header with uncompressed tables, as it lies in memory (772 bytes).\<close>

definition u16s :: "byte list \<Rightarrow> nat \<Rightarrow> nat \<Rightarrow> nat list" where
  "u16s bs off n = map (\<lambda>i. le_val (slice bs (off + 2 * i) 2)) [0..<n]"

definition header_v1_of_bytes :: "byte list \<Rightarrow> lzfse_header_v1" where
  "header_v1_of_bytes bs =
     (let u32at = \<lambda>i. le_val (slice bs i 4) in
      \<lparr>h_magic = of_nat (u32at 0), h_n_raw_bytes = u32at 4, h_n_payload_bytes = u32at 8, h_n_literals = u32at 12,
       h_n_matches = u32at 16, h_n_literal_payload_bytes = u32at 20, h_n_lmd_payload_bytes = u32at 24,
       h_literal_bits = s32 (u32at 28), h_literal_state = u16s bs 32 4, h_lmd_bits = s32 (u32at 40),
       h_l_state = le_val (slice bs 44 2), h_m_state = le_val (slice bs 46 2), h_d_state = le_val (slice bs 48 2),
       h_l_freq = u16s bs 50 20, h_m_freq = u16s bs 90 20, h_d_freq = u16s bs 130 64, h_literal_freq = u16s bs 258 256\<rparr>)"

section \<open>Round trip of headers\<close>

lemma check_block_header_ok:
  "lzfse_check_block_header_v1 h = 0 \<longleftrightarrow>
     h_magic h = LZFSE_COMPRESSEDV1_BLOCK_MAGIC \<and> h_n_literals h \<le> LZFSE_LITERALS_PER_BLOCK \<and> h_n_matches h \<le> LZFSE_MATCHES_PER_BLOCK \<and>
     h_literal_state h ! 0 < 1024 \<and> h_literal_state h ! 1 < 1024 \<and> h_literal_state h ! 2 < 1024 \<and> h_literal_state h ! 3 < 1024 \<and>
     h_l_state h < 64 \<and> h_m_state h < 64 \<and> h_d_state h < 256 \<and>
     sum_list (h_l_freq h) \<le> 64 \<and> sum_list (h_m_freq h) \<le> 64 \<and> sum_list (h_d_freq h) \<le> 256 \<and> sum_list (h_literal_freq h) \<le> 1024"
  unfolding lzfse_check_block_header_v1_def Let_def fse_check_freq_def
  by (simp add: or_eq_0_iff)

lemma unat_setField: "v < 2 ^ 32 \<Longrightarrow> unat (of_nat (v mod 2 ^ 32) :: u64) = v"
  by (simp add: unat_of_nat)

lemma get_field_value: "n < 32 \<Longrightarrow> get_field v off n = unat v div 2 ^ off mod 2 ^ n"
proof -
  assume n: "n < 32"
  have "unat (drop_bit off v AND (push_bit n 1 - 1)) = unat v div 2 ^ off mod 2 ^ n"
    using n by (simp add: push_bit_of_1 unat_drop_bit unat_and_mask flip: mask_eq_exp_minus_1)
  moreover have "unat v div 2 ^ off mod 2 ^ n < 2 ^ 32"
    using n order_less_le_trans [OF mod_less_divisor power_increasing [of n 32 "2 :: nat"]] by simp
  ultimately show ?thesis using n by (simp add: get_field_def)
qed

lemma get_field_32: "get_field v 0 32 = unat v mod 2 ^ 32"
  by (simp add: get_field_def)

lemma or_field:
  assumes "unat x < 2 ^ n" and "v < 2 ^ k" and "n + k \<le> 64" and "k \<le> 32"
  shows "unat (x OR setField v n) = unat x + 2 ^ n * v" and "unat (x OR setField v n) < 2 ^ (n + k)"
proof -
  have v: "unat (of_nat (v mod 2 ^ 32) :: u64) = v"
    using assms(2,4) power_increasing [of k 32 "2 :: nat"] by (intro unat_setField) simp
  have lt: "unat x + 2 ^ n * v < 2 ^ (n + k)"
    using push_ok [of "(unat x, n)" v k] assms(1,2) by (simp add: stack_ok_def push_def mult.commute)
  have "unat x + v * 2 ^ n < 2 ^ 64"
    using lt power_increasing [of "n + k" 64 "2 :: nat"] assms(3) by (simp add: mult.commute)
  then show "unat (x OR setField v n) = unat x + 2 ^ n * v"
    using unat_or_push_bit [OF assms(1), of "of_nat (v mod 2 ^ 32)"] v by (simp add: setField_def mult.commute)
  then show "unat (x OR setField v n) < 2 ^ (n + k)" using lt by simp
qed

definition header_ok :: "lzfse_header_v1 \<Rightarrow> bool" where
  "header_ok h \<longleftrightarrow>
     h_magic h = LZFSE_COMPRESSEDV1_BLOCK_MAGIC \<and> h_n_raw_bytes h < 2 ^ 32 \<and>
     h_n_payload_bytes h = h_n_literal_payload_bytes h + h_n_lmd_payload_bytes h \<and>
     h_n_literals h < 2 ^ 20 \<and> h_n_literal_payload_bytes h < 2 ^ 20 \<and> h_n_matches h < 2 ^ 20 \<and> h_n_lmd_payload_bytes h < 2 ^ 20 \<and>
     - 7 \<le> h_literal_bits h \<and> h_literal_bits h \<le> 0 \<and> - 7 \<le> h_lmd_bits h \<and> h_lmd_bits h \<le> 0 \<and>
     (\<exists>a b c d. h_literal_state h = [a, b, c, d] \<and> a < 2 ^ 10 \<and> b < 2 ^ 10 \<and> c < 2 ^ 10 \<and> d < 2 ^ 10) \<and>
     h_l_state h < 2 ^ 10 \<and> h_m_state h < 2 ^ 10 \<and> h_d_state h < 2 ^ 10 \<and>
     length (h_l_freq h) = 20 \<and> length (h_m_freq h) = 20 \<and> length (h_d_freq h) = 64 \<and> length (h_literal_freq h) = 256 \<and>
     list_all (\<lambda>f. f \<le> 1047) (freq_table h)"

text \<open>Adding a field above the others sets it and leaves the others.\<close>

lemma or_field_new:
  assumes "unat x < 2 ^ n" and "v < 2 ^ k" and "n + k \<le> 64" and "k < 32"
  shows "get_field (x OR setField v n) n k = v"
  using or_field(1) [OF assms(1-3)] assms by (simp add: get_field_value)

lemma or_field_old:
  assumes "unat x < 2 ^ n" and "v < 2 ^ k" and "n + k \<le> 64" and "k \<le> 32" and "off + j \<le> n"
  shows "unat (x OR setField v n) div 2 ^ off mod 2 ^ j = unat x div 2 ^ off mod 2 ^ j"
proof -
  obtain r where r: "n = off + j + r" using assms(5) le_Suc_ex by blast
  have "(unat x + 2 ^ n * v) div 2 ^ off = unat x div 2 ^ off + 2 ^ j * (2 ^ r * v)"
    by (simp add: r power_add mult.assoc)
  then show ?thesis by (simp add: or_field(1) [OF assms(1-4)])
qed

lemma get_field_or:
  assumes "unat x < 2 ^ n" and "v < 2 ^ k" and "n + k \<le> 64" and "k \<le> 32" and "off + j \<le> n" and "j < 32"
  shows "get_field (x OR setField v n) off j = get_field x off j"
  using or_field_old [OF assms(1-5)] assms(6) by (simp add: get_field_value)

lemma get_size_or:
  assumes "unat x < 2 ^ n" and "v < 2 ^ k" and "n + k \<le> 64" and "k \<le> 32" and "32 \<le> n"
  shows "get_field (x OR setField v n) 0 32 = get_field x 0 32"
  using or_field_old [OF assms(1-4), of 0 32] assms(5) by (simp add: get_field_32)

lemma first_field:
  assumes "v < 2 ^ k" and "k \<le> 32"
  shows "unat (setField v 0) < 2 ^ k" and "k < 32 \<Longrightarrow> get_field (setField v 0) 0 k = v" and "get_field (setField v 0) 0 32 = v"
proof -
  have "unat (setField v 0) = v" using or_field(1) [of "0 :: u64" 0 v k] assms by simp
  moreover have "v < 2 ^ 32" using assms power_increasing [of k 32 "2 :: nat"] by simp
  ultimately show "unat (setField v 0) < 2 ^ k" "k < 32 \<Longrightarrow> get_field (setField v 0) 0 k = v" "get_field (setField v 0) 0 32 = v"
    using assms(1) by (simp_all add: get_field_value get_field_32)
qed

lemma bits_field:
  assumes "- 7 \<le> b" and "b \<le> 0"
  shows "nat ((7 + b) mod 2 ^ 32) < 2 ^ 3" and "int (nat ((7 + b) mod 2 ^ 32)) - 7 = b"
proof -
  have "(7 + b) mod 2 ^ 32 = 7 + b" using assms by simp
  then show "nat ((7 + b) mod 2 ^ 32) < 2 ^ 3" "int (nat ((7 + b) mod 2 ^ 32)) - 7 = b" using assms by simp_all
qed

lemma packed0_fields:
  assumes "header_ok h"
  shows "get_field (packed0 h) 0 20 = h_n_literals h" and "get_field (packed0 h) 20 20 = h_n_literal_payload_bytes h"
    and "get_field (packed0 h) 40 20 = h_n_matches h" and "int (get_field (packed0 h) 60 3) - 7 = h_literal_bits h"
proof -
  have f: "h_n_literals h < 2 ^ 20" "h_n_literal_payload_bytes h < 2 ^ 20" "h_n_matches h < 2 ^ 20" "- 7 \<le> h_literal_bits h" "h_literal_bits h \<le> 0"
    using assms by (auto simp: header_ok_def)
  note b = bits_field [OF f(4,5)]
  note u1 = or_field(2) [OF first_field(1) [OF f(1)] f(2)]
  note u2 = or_field(2) [OF u1 f(3)]
  show "get_field (packed0 h) 0 20 = h_n_literals h" "get_field (packed0 h) 20 20 = h_n_literal_payload_bytes h"
    "get_field (packed0 h) 40 20 = h_n_matches h" "int (get_field (packed0 h) 60 3) - 7 = h_literal_bits h"
    using get_field_or [OF u2 b(1)] or_field_new [OF u2 b(1)] get_field_or [OF u1 f(3)] or_field_new [OF u1 f(3)]
      get_field_or [OF first_field(1) [OF f(1)] f(2)] or_field_new [OF first_field(1) [OF f(1)] f(2)] first_field(2) [OF f(1)] b(2)
    by (simp_all add: packed0_def)
qed

lemma packed1_fields:
  assumes "header_ok h"
  shows "[get_field (packed1 h) 0 10, get_field (packed1 h) 10 10, get_field (packed1 h) 20 10, get_field (packed1 h) 30 10] = h_literal_state h"
    and "get_field (packed1 h) 40 20 = h_n_lmd_payload_bytes h" and "int (get_field (packed1 h) 60 3) - 7 = h_lmd_bits h"
proof -
  obtain a b c d where s: "h_literal_state h = [a, b, c, d]" "a < 2 ^ 10" "b < 2 ^ 10" "c < 2 ^ 10" "d < 2 ^ 10"
    using assms by (auto simp: header_ok_def)
  have f: "h_n_lmd_payload_bytes h < 2 ^ 20" "- 7 \<le> h_lmd_bits h" "h_lmd_bits h \<le> 0"
    using assms by (auto simp: header_ok_def)
  note bt = bits_field [OF f(2,3)]
  note u0 = first_field(1) [OF s(2)]
  note u1 = or_field(2) [OF u0 s(3)]
  note u2 = or_field(2) [OF u1 s(4)]
  note u3 = or_field(2) [OF u2 s(5)]
  note u4 = or_field(2) [OF u3 f(1)]
  have p: "packed1 h = ((((setField a 0 OR setField b 10) OR setField c 20) OR setField d 30) OR
     setField (h_n_lmd_payload_bytes h) 40) OR setField (nat ((7 + h_lmd_bits h) mod 2 ^ 32)) 60"
    by (simp only: packed1_def s(1)) simp
  show "[get_field (packed1 h) 0 10, get_field (packed1 h) 10 10, get_field (packed1 h) 20 10, get_field (packed1 h) 30 10] = h_literal_state h"
    "get_field (packed1 h) 40 20 = h_n_lmd_payload_bytes h" "int (get_field (packed1 h) 60 3) - 7 = h_lmd_bits h"
    using get_field_or [OF u4 bt(1)] or_field_new [OF u4 bt(1)] get_field_or [OF u3 f(1)] or_field_new [OF u3 f(1)]
      get_field_or [OF u2 s(5)] or_field_new [OF u2 s(5)] get_field_or [OF u1 s(4)] or_field_new [OF u1 s(4)]
      get_field_or [OF u0 s(3)] or_field_new [OF u0 s(3)] first_field(2) [OF s(2)] bt(2)
    unfolding p s(1) by simp_all
qed

lemma packed2_fields:
  assumes "header_ok h" and "n < 2 ^ 32"
  shows "get_field (packed2 (setField n 0) h) 0 32 = n" and "get_field (packed2 (setField n 0) h) 32 10 = h_l_state h"
    and "get_field (packed2 (setField n 0) h) 42 10 = h_m_state h" and "get_field (packed2 (setField n 0) h) 52 10 = h_d_state h"
proof -
  have s: "h_l_state h < 2 ^ 10" "h_m_state h < 2 ^ 10" "h_d_state h < 2 ^ 10" using assms(1) by (auto simp: header_ok_def)
  note u0 = first_field(1) [OF assms(2)]
  note u1 = or_field(2) [OF u0 s(1)]
  note u2 = or_field(2) [OF u1 s(2)]
  show "get_field (packed2 (setField n 0) h) 0 32 = n" "get_field (packed2 (setField n 0) h) 32 10 = h_l_state h"
    "get_field (packed2 (setField n 0) h) 42 10 = h_m_state h" "get_field (packed2 (setField n 0) h) 52 10 = h_d_state h"
    using get_size_or [OF u2 s(3)] get_size_or [OF u1 s(2)] get_size_or [OF u0 s(1)] first_field(3) [OF assms(2)]
      get_field_or [OF u2 s(3)] or_field_new [OF u2 s(3)] get_field_or [OF u1 s(2)] or_field_new [OF u1 s(2)] or_field_new [OF u0 s(1)]
    by (simp_all add: packed2_def)
qed

text \<open>The bytes of a header.\<close>

definition header_bytes :: "lzfse_header_v1 \<Rightarrow> byte list" where
  "header_bytes h =
     (let fs = encode_freqs 0 0 (freq_table h) in
      le_enc 4 (unat LZFSE_COMPRESSEDV2_BLOCK_MAGIC) @ le_enc 4 (h_n_raw_bytes h) @ le_enc 8 (unat (packed0 h)) @
      le_enc 8 (unat (packed1 h)) @ le_enc 8 (unat (packed2 (setField (32 + length fs) 0) h)) @ fs)"

lemma length_header_bytes: "header_ok h \<Longrightarrow> length (header_bytes h) = 32 + length (encode_freqs 0 0 (freq_table h))"
  by (simp add: header_bytes_def Let_def)

lemma freq_table_size:
  assumes "header_ok h"
  shows "length (freq_table h) = 360" and "length (encode_freqs 0 0 (freq_table h)) \<le> 630" and "encode_freqs 0 0 (freq_table h) \<noteq> []"
    and "decode_freqs 360 0 0 (encode_freqs 0 0 (freq_table h)) = Some (freq_table h)"
proof -
  show l: "length (freq_table h) = 360" using assms by (simp add: freq_table_def header_ok_def)
  then have "freq_table h \<noteq> []" by auto
  then show "length (encode_freqs 0 0 (freq_table h)) \<le> 630" "encode_freqs 0 0 (freq_table h) \<noteq> []"
    "decode_freqs 360 0 0 (encode_freqs 0 0 (freq_table h)) = Some (freq_table h)"
    using freqs_roundtrip [of "freq_table h"] assms l by (auto simp: header_ok_def)
qed

lemma with_freqs_table: "header_ok h \<Longrightarrow> with_freqs (freq_table h) g = g\<lparr>h_l_freq := h_l_freq h, h_m_freq := h_m_freq h, h_d_freq := h_d_freq h, h_literal_freq := h_literal_freq h\<rparr>"
  by (simp add: with_freqs_def freq_table_def header_ok_def)

lemma load_le:
  assumes "slice buf (p + i) n = le_enc n v" and "p + i + n \<le> hi" and "hi \<le> length buf"
  shows "load buf 0 hi (p + i) n = Some (le_enc n v)"
  using assms by (simp add: load_def)

text \<open>The decoder reads the header back from its bytes.\<close>

lemma decode_header_bytes:
  assumes h: "header_ok h" and b: "slice buf p (length (header_bytes h)) = header_bytes h"
    and hi: "p + length (header_bytes h) \<le> hi" "hi \<le> length buf"
  shows "lzfse_decode_v1 buf hi p = Some (Some h)" and "lzfse_decode_v2_header_size buf hi p = Some (length (header_bytes h))"
    and "load4 buf 0 hi p = Some LZFSE_COMPRESSEDV2_BLOCK_MAGIC"
proof -
  let ?fs = "encode_freqs 0 0 (freq_table h)" let ?n = "32 + length ?fs"
  let ?v2 = "packed2 (setField ?n 0) h"
  have n: "?n < 2 ^ 32" "length (header_bytes h) = ?n" using freq_table_size(2) [OF h] by (simp_all add: length_header_bytes [OF h])
  have sl: "slice buf (p + i) k = take k (drop i (header_bytes h))" if "i + k \<le> ?n" for i k
    using slice_slice [of i k ?n buf p] b n(2) that by (simp add: slice_def)
  have s: "slice buf (p + 0) 4 = le_enc 4 (unat LZFSE_COMPRESSEDV2_BLOCK_MAGIC)" "slice buf (p + 4) 4 = le_enc 4 (h_n_raw_bytes h)"
    "slice buf (p + 8) 8 = le_enc 8 (unat (packed0 h))" "slice buf (p + 16) 8 = le_enc 8 (unat (packed1 h))"
    "slice buf (p + 24) 8 = le_enc 8 (unat ?v2)" "slice buf (p + 32) (length ?fs) = ?fs"
    by (subst sl, simp, simp add: header_bytes_def Let_def)+
  have raw: "h_n_raw_bytes h < 256 ^ 4" using h by (simp add: header_ok_def)
  have ld: "load4 buf 0 hi (p + 4) = Some (of_nat (h_n_raw_bytes h))" "load8 buf 0 hi (p + 8) = Some (packed0 h)"
    "load8 buf 0 hi (p + 16) = Some (packed1 h)" "load8 buf 0 hi (p + 24) = Some ?v2" "load buf 0 hi (p + 32) (length ?fs) = Some ?fs"
    using hi n(2) s raw by (simp_all add: load4_def load8_def load_def)
  show "load4 buf 0 hi p = Some LZFSE_COMPRESSEDV2_BLOCK_MAGIC"
    using hi n(2) s(1) by (simp add: load4_def load_def magic_defs)
  show "lzfse_decode_v2_header_size buf hi p = Some (length (header_bytes h))"
    using ld(4) packed2_fields(1) [OF h n(1)] n(2) by (simp add: lzfse_decode_v2_header_size_def)
  have "with_freqs (freq_table h) (unpacked (h_n_raw_bytes h) (packed0 h) (packed1 h) ?v2) = h"
    unfolding with_freqs_table [OF h] unpacked_def
    using packed0_fields [OF h] packed1_fields [OF h] packed2_fields(2-4) [OF h n(1)] h
    by (cases h) (simp add: header_ok_def)
  moreover have "unat (of_nat (h_n_raw_bytes h) :: u32) = h_n_raw_bytes h" using raw by (simp add: unat_of_nat)
  ultimately show "lzfse_decode_v1 buf hi p = Some (Some h)"
    using ld packed2_fields(1) [OF h n(1)] freq_table_size(3,4) [OF h] by (simp add: lzfse_decode_v1_def Let_def)
qed

text \<open>A store of a whole number leaves it there, and leaves the rest.\<close>

lemma store_le:
  assumes "p + i + n \<le> hi" and "hi \<le> length buf"
  obtains b where "store buf 0 hi (p + i) (le_enc n v) = Some b" "frame b buf (p + i) (p + i + n)" "slice b (p + i) n = le_enc n v"
    "length b = length buf"
proof -
  obtain b where b: "store buf 0 hi (p + i) (le_enc n v) = Some b"
    by (rule store_some [of 0 "p + i" "le_enc n v" hi buf]) (use assms in auto)
  show thesis by (rule that [OF b]) (use storeD [OF b] in simp_all)
qed

lemma write_freq_table:
  assumes "header_ok h" and "p + 752 \<le> hi" and "hi \<le> length buf"
  shows "\<exists>b. lzfse_encode_v1_freq_table hi buf p h = Some (b, length (header_bytes h)) \<and> frame b buf (p + 8) (p + length (header_bytes h)) \<and>
    slice b (p + 32) (length (header_bytes h) - 32) = encode_freqs 0 0 (freq_table h) \<and>
    load8 b 0 hi (p + 24) = Some (setField (length (header_bytes h)) 0)"
proof -
  let ?fs = "encode_freqs 0 0 (freq_table h)"
  have n: "length (header_bytes h) = 32 + length ?fs" "length ?fs \<le> 630"
    using freq_table_size(2) [OF assms(1)] length_header_bytes [OF assms(1)] by simp_all
  obtain b1 where s1: "store buf 0 hi (p + 32) ?fs = Some b1"
    by (rule store_some [of 0 "p + 32" ?fs hi buf]) (use assms n in auto)
  note d1 = storeD [OF s1]
  obtain b2 where b2: "store b1 0 hi (p + 8) (le_enc 8 0) = Some b2" "frame b2 b1 (p + 8) (p + 8 + 8)" "length b2 = length b1"
    by (rule store_le [of p 8 8 hi b1 0]) (use assms n d1 in auto)
  obtain b3 where b3: "store b2 0 hi (p + 16) (le_enc 8 0) = Some b3" "frame b3 b2 (p + 16) (p + 16 + 8)" "length b3 = length b2"
    by (rule store_le [of p 16 8 hi b2 0]) (use assms n d1 b2 in auto)
  obtain b4 where b4: "store b3 0 hi (p + 24) (le_enc 8 (unat (setField (32 + length ?fs) 0))) = Some b4" "frame b4 b3 (p + 24) (p + 24 + 8)"
      "slice b4 (p + 24) 8 = le_enc 8 (unat (setField (32 + length ?fs) 0))" "length b4 = length b3"
    by (rule store_le [of p 24 8 hi b3 "unat (setField (32 + length ?fs) 0)"]) (use assms n d1 b2 b3 in auto)
  have "frame b3 b1 (p + 8) (p + 32)" by (rule frame_join [OF b3(2) b2(2)]) auto
  then have f: "frame b4 b1 (p + 8) (p + 32)" by (rule frame_join [OF b4(2)]) auto
  have "slice b4 (p + 32) (length ?fs) = ?fs"
    using frame_slice [OF f, of "p + 32" "length ?fs"] d1 assms n by simp
  moreover have "frame b4 buf (p + 8) (p + length (header_bytes h))"
    by (rule frame_join [OF f d1(1)]) (use n in auto)
  moreover have "load8 b4 0 hi (p + 24) = Some (setField (32 + length ?fs) 0)"
    using b4(3) assms n by (simp add: load8_def load_def)
  moreover have "lzfse_encode_v1_freq_table hi buf p h = Some (b4, 32 + length ?fs)"
    using s1 b2(1) b3(1) b4(1) by (simp add: lzfse_encode_v1_freq_table_def store8_def Let_def)
  ultimately show ?thesis using n(1) by auto
qed

lemma write_state:
  assumes h: "header_ok h" and p: "p + length (header_bytes h) \<le> hi" "hi \<le> length buf"
    and fs: "slice buf (p + 32) (length (header_bytes h) - 32) = encode_freqs 0 0 (freq_table h)"
    and v: "load8 buf 0 hi (p + 24) = Some (setField (length (header_bytes h)) 0)"
  shows "\<exists>b. lzfse_encode_v1_state hi buf p h = Some b \<and> frame b buf p (p + 32) \<and> slice b p (length (header_bytes h)) = header_bytes h"
proof -
  let ?fs = "encode_freqs 0 0 (freq_table h)" let ?v = "setField (32 + length ?fs) 0"
  have n: "length (header_bytes h) = 32 + length ?fs" by (rule length_header_bytes [OF h])
  obtain b1 where b1: "store buf 0 hi (p + 0) (le_enc 4 (unat LZFSE_COMPRESSEDV2_BLOCK_MAGIC)) = Some b1" "frame b1 buf (p + 0) (p + 0 + 4)"
      "slice b1 (p + 0) 4 = le_enc 4 (unat LZFSE_COMPRESSEDV2_BLOCK_MAGIC)" "length b1 = length buf"
    by (rule store_le [of p 0 4 hi buf "unat LZFSE_COMPRESSEDV2_BLOCK_MAGIC"]) (use p n in auto)
  obtain b2 where b2: "store b1 0 hi (p + 4) (le_enc 4 (h_n_raw_bytes h)) = Some b2" "frame b2 b1 (p + 4) (p + 4 + 4)"
      "slice b2 (p + 4) 4 = le_enc 4 (h_n_raw_bytes h)" "length b2 = length b1"
    by (rule store_le [of p 4 4 hi b1 "h_n_raw_bytes h"]) (use p n b1 in auto)
  obtain b3 where b3: "store b2 0 hi (p + 8) (le_enc 8 (unat (packed0 h))) = Some b3" "frame b3 b2 (p + 8) (p + 8 + 8)"
      "slice b3 (p + 8) 8 = le_enc 8 (unat (packed0 h))" "length b3 = length b2"
    by (rule store_le [of p 8 8 hi b2 "unat (packed0 h)"]) (use p n b1 b2 in auto)
  obtain b4 where b4: "store b3 0 hi (p + 16) (le_enc 8 (unat (packed1 h))) = Some b4" "frame b4 b3 (p + 16) (p + 16 + 8)"
      "slice b4 (p + 16) 8 = le_enc 8 (unat (packed1 h))" "length b4 = length b3"
    by (rule store_le [of p 16 8 hi b3 "unat (packed1 h)"]) (use p n b1 b2 b3 in auto)
  obtain b5 where b5: "store b4 0 hi (p + 24) (le_enc 8 (unat (packed2 ?v h))) = Some b5" "frame b5 b4 (p + 24) (p + 24 + 8)"
      "slice b5 (p + 24) 8 = le_enc 8 (unat (packed2 ?v h))" "length b5 = length b4"
    by (rule store_le [of p 24 8 hi b4 "unat (packed2 ?v h)"]) (use p n b1 b2 b3 b4 in auto)
  have "frame b2 buf p (p + 24)" by (rule frame_join [OF b2(2) b1(2)]) auto
  then have "frame b3 buf p (p + 24)" by (rule frame_join [OF b3(2)]) auto
  then have f43: "frame b4 buf p (p + 24)" by (rule frame_join [OF b4(2)]) auto
  have f: "frame b5 buf p (p + 32)" by (rule frame_join [OF b5(2) f43]) auto
  have "slice b4 (p + 24) 8 = slice buf (p + 24) 8" by (rule frame_slice [OF f43]) (use p n in auto)
  then have "load8 b4 0 hi (p + 24) = Some ?v" using v n by (auto simp: load8_def load_def split: if_splits)
  moreover have "unat (of_nat (h_n_raw_bytes h) :: u32) = h_n_raw_bytes h" using h by (simp add: header_ok_def unat_of_nat)
  ultimately have "lzfse_encode_v1_state hi buf p h = Some b5"
    using b1(1) b2(1) b3(1) b4(1) b5(1) by (simp add: lzfse_encode_v1_state_def store4_def store8_def)
  moreover have "slice b5 p (32 + length ?fs) = header_bytes h"
  proof -
    have "slice b5 (p + 0) 4 = le_enc 4 (unat LZFSE_COMPRESSEDV2_BLOCK_MAGIC)"
      using b1(3) frame_slice [OF b2(2), of "p + 0" 4] frame_slice [OF b3(2), of "p + 0" 4] frame_slice [OF b4(2), of "p + 0" 4]
        frame_slice [OF b5(2), of "p + 0" 4] b1(4) b2(4) b3(4) b4(4) p n by simp
    moreover have "slice b5 (p + 4) 4 = le_enc 4 (h_n_raw_bytes h)"
      using b2(3) frame_slice [OF b3(2), of "p + 4" 4] frame_slice [OF b4(2), of "p + 4" 4]
        frame_slice [OF b5(2), of "p + 4" 4] b1(4) b2(4) b3(4) b4(4) p n by simp
    moreover have "slice b5 (p + 8) 8 = le_enc 8 (unat (packed0 h))"
      using b3(3) frame_slice [OF b4(2), of "p + 8" 8] frame_slice [OF b5(2), of "p + 8" 8] b1(4) b2(4) b3(4) b4(4) p n by simp
    moreover have "slice b5 (p + 16) 8 = le_enc 8 (unat (packed1 h))"
      using b4(3) frame_slice [OF b5(2), of "p + 16" 8] b1(4) b2(4) b3(4) b4(4) p n by simp
    moreover have "slice b5 (p + 32) (length ?fs) = ?fs"
      using fs n frame_slice [OF f, of "p + 32" "length ?fs"] p by simp
    moreover have "slice b5 p (32 + length ?fs) = slice b5 (p + 0) 4 @ slice b5 (p + 4) 4 @ slice b5 (p + 8) 8 @ slice b5 (p + 16) 8 @
        slice b5 (p + 24) 8 @ slice b5 (p + 32) (length ?fs)"
    proof -
      have "32 + length ?fs = 4 + (4 + (8 + (8 + (8 + length ?fs))))" by simp
      then show ?thesis by (simp only: slice_add) (simp add: add.assoc)
    qed
    ultimately show ?thesis using b5(3) by (simp add: header_bytes_def Let_def)
  qed
  ultimately show ?thesis using f n by auto
qed

text \<open>C8. A block header survives the stream.  With room for the full header, writing the frequency
  tables, anything behind the header, and then the packed fields succeeds; the decoder then finds
  the V2 magic, the size of the header and exactly the header that was written.\<close>

theorem lzfse_header_roundtrip:
  assumes "header_ok h" and "p + 752 \<le> hi" and "hi \<le> length buf"
  shows "\<exists>b n. lzfse_encode_v1_freq_table hi buf p h = Some (b, n) \<and> n \<le> 752 \<and>
     (\<forall>b'. frame b' b (p + n) hi \<longrightarrow>
        (\<exists>b''. lzfse_encode_v1_state hi b' p h = Some b'' \<and> frame b'' b' p (p + n) \<and>
           load4 b'' 0 hi p = Some LZFSE_COMPRESSEDV2_BLOCK_MAGIC \<and>
           lzfse_decode_v2_header_size b'' hi p = Some n \<and> lzfse_decode_v1 b'' hi p = Some (Some h)))"
proof -
  obtain b n where n: "n = length (header_bytes h)" and b: "lzfse_encode_v1_freq_table hi buf p h = Some (b, n)"
      "frame b buf (p + 8) (p + n)" "slice b (p + 32) (n - 32) = encode_freqs 0 0 (freq_table h)" "load8 b 0 hi (p + 24) = Some (setField n 0)"
    using write_freq_table [OF assms] by blast
  have sz: "32 \<le> n" "n \<le> 752" using freq_table_size(2) [OF assms(1)] length_header_bytes [OF assms(1)] n by simp_all
  have "\<exists>b''. lzfse_encode_v1_state hi b' p h = Some b'' \<and> frame b'' b' p (p + n) \<and>
           load4 b'' 0 hi p = Some LZFSE_COMPRESSEDV2_BLOCK_MAGIC \<and>
           lzfse_decode_v2_header_size b'' hi p = Some n \<and> lzfse_decode_v1 b'' hi p = Some (Some h)" if f: "frame b' b (p + n) hi" for b'
  proof -
    have len: "length b' = length buf" "length b = length buf" using frame_length [OF f] frame_length [OF b(2)] by simp_all
    have "slice b' (p + 32) (n - 32) = slice b (p + 32) (n - 32)" "slice b' (p + 24) 8 = slice b (p + 24) 8"
      by (rule frame_slice [OF f]; use sz assms len in auto)+
    then have "slice b' (p + 32) (n - 32) = encode_freqs 0 0 (freq_table h)" "load8 b' 0 hi (p + 24) = Some (setField n 0)"
      using b(3,4) by (auto simp: load8_def load_def split: if_splits)
    then obtain b'' where w: "lzfse_encode_v1_state hi b' p h = Some b''" "frame b'' b' p (p + 32)" "slice b'' p n = header_bytes h"
      using write_state [OF assms(1), of p hi b'] n sz assms len by auto
    have "p + length (header_bytes h) \<le> hi" "hi \<le> length b''" "slice b'' p (length (header_bytes h)) = header_bytes h"
      using frame_length [OF w(2)] len assms sz n w(3) by simp_all
    note d = decode_header_bytes [OF assms(1) this(3,1,2)]
    show ?thesis
      using w(1) frame_weaken [OF w(2)] d sz n by auto
  qed
  then show ?thesis using b(1) sz(2) by blast
qed

abbreviation sample_header :: lzfse_header_v1 where
  "sample_header \<equiv>
     \<lparr>h_magic = LZFSE_COMPRESSEDV1_BLOCK_MAGIC, h_n_raw_bytes = 5, h_n_payload_bytes = 30, h_n_literals = 4, h_n_matches = 1,
      h_n_literal_payload_bytes = 10, h_n_lmd_payload_bytes = 20, h_literal_bits = -3, h_literal_state = [1, 2, 3, 1000], h_lmd_bits = 0,
      h_l_state = 5, h_m_state = 6, h_d_state = 7, h_l_freq = replicate 20 3, h_m_freq = replicate 20 2, h_d_freq = replicate 64 4,
      h_literal_freq = replicate 256 4\<rparr>"

lemma sample_header_ok: "header_ok sample_header"
  by (simp add: header_ok_def freq_table_def list_all_iff)

theorem lzfse_header_roundtrip_witness:
  "\<exists>b n. lzfse_encode_v1_freq_table 752 (replicate 752 0) 0 sample_header = Some (b, n) \<and> n \<le> 752 \<and>
     (\<forall>b'. frame b' b (0 + n) 752 \<longrightarrow>
        (\<exists>b''. lzfse_encode_v1_state 752 b' 0 sample_header = Some b'' \<and> frame b'' b' 0 (0 + n) \<and>
           load4 b'' 0 752 0 = Some LZFSE_COMPRESSEDV2_BLOCK_MAGIC \<and>
           lzfse_decode_v2_header_size b'' 752 0 = Some n \<and> lzfse_decode_v1 b'' 752 0 = Some (Some sample_header)))"
  by (rule lzfse_header_roundtrip [OF sample_header_ok]) simp_all

end
