(* ===== verification/LZVN_Decode.thy ===== *)
theory LZVN_Decode
  imports LZ_Memory
begin

text \<open>
  The LZVN decoder (\<open>src/src/darwin/libcompression/lzfse/lzvn_decode_base.c\<close>).
  Pointers are indices into the source and destination buffers; \<open>src_len\<close> and
  \<open>dst_len\<close>, which the code always moves together with their pointers, are the
  distances to \<open>src_end\<close> and \<open>dst_end\<close>.  Every label of \<open>lzvn_decode\<close> is a
  definition; it ends the call (\<open>Stop\<close>), goes to the next instruction (\<open>Jump\<close>) or
  touches memory outside the buffers (\<open>None\<close>).  The buffers of a running program are
  far shorter than \<open>2^64\<close> and \<open>L\<close>, \<open>M\<close> are at most 271 (shown), so positions and
  lengths are naturals.

  Shown: the decoder is memory safe and returns for every input; what it writes is
  what the instructions mean (\<open>lzvn_run_spec\<close>), also when the output is handed over in
  pieces and the call is resumed in the middle of an instruction.
\<close>

section \<open>State\<close>

record lzvn_decoder_state =
  src_buf :: "byte list"
  src :: nat
  src_end :: nat
  dst_buf :: "byte list"
  dst :: nat
  dst_begin :: nat
  dst_end :: nat
  st_L :: nat
  st_M :: nat
  st_D :: nat
  d_prev :: nat
  end_of_stream :: bool

datatype outcome =
    Stop lzvn_decoder_state
  | Jump lzvn_decoder_state nat nat nat

definition update_good :: "lzvn_decoder_state \<Rightarrow> nat \<Rightarrow> nat \<Rightarrow> nat \<Rightarrow> lzvn_decoder_state" where
  "update_good st s d D = st\<lparr>src := s, dst := d, d_prev := D\<rparr>"

section \<open>The instructions\<close>

datatype label = sml_d | med_d | lrg_d | pre_d | sml_m | lrg_m | sml_l | lrg_l | nop | eos | udef

definition opc_tbl :: "label list" where
  "opc_tbl =
    [sml_d, sml_d, sml_d, sml_d, sml_d, sml_d, eos, lrg_d,
     sml_d, sml_d, sml_d, sml_d, sml_d, sml_d, nop, lrg_d,
     sml_d, sml_d, sml_d, sml_d, sml_d, sml_d, nop, lrg_d,
     sml_d, sml_d, sml_d, sml_d, sml_d, sml_d, udef, lrg_d,
     sml_d, sml_d, sml_d, sml_d, sml_d, sml_d, udef, lrg_d,
     sml_d, sml_d, sml_d, sml_d, sml_d, sml_d, udef, lrg_d,
     sml_d, sml_d, sml_d, sml_d, sml_d, sml_d, udef, lrg_d,
     sml_d, sml_d, sml_d, sml_d, sml_d, sml_d, udef, lrg_d,
     sml_d, sml_d, sml_d, sml_d, sml_d, sml_d, pre_d, lrg_d,
     sml_d, sml_d, sml_d, sml_d, sml_d, sml_d, pre_d, lrg_d,
     sml_d, sml_d, sml_d, sml_d, sml_d, sml_d, pre_d, lrg_d,
     sml_d, sml_d, sml_d, sml_d, sml_d, sml_d, pre_d, lrg_d,
     sml_d, sml_d, sml_d, sml_d, sml_d, sml_d, pre_d, lrg_d,
     sml_d, sml_d, sml_d, sml_d, sml_d, sml_d, pre_d, lrg_d,
     udef, udef, udef, udef, udef, udef, udef, udef,
     udef, udef, udef, udef, udef, udef, udef, udef,
     sml_d, sml_d, sml_d, sml_d, sml_d, sml_d, pre_d, lrg_d,
     sml_d, sml_d, sml_d, sml_d, sml_d, sml_d, pre_d, lrg_d,
     sml_d, sml_d, sml_d, sml_d, sml_d, sml_d, pre_d, lrg_d,
     sml_d, sml_d, sml_d, sml_d, sml_d, sml_d, pre_d, lrg_d,
     med_d, med_d, med_d, med_d, med_d, med_d, med_d, med_d,
     med_d, med_d, med_d, med_d, med_d, med_d, med_d, med_d,
     med_d, med_d, med_d, med_d, med_d, med_d, med_d, med_d,
     med_d, med_d, med_d, med_d, med_d, med_d, med_d, med_d,
     sml_d, sml_d, sml_d, sml_d, sml_d, sml_d, pre_d, lrg_d,
     sml_d, sml_d, sml_d, sml_d, sml_d, sml_d, pre_d, lrg_d,
     udef, udef, udef, udef, udef, udef, udef, udef,
     udef, udef, udef, udef, udef, udef, udef, udef,
     lrg_l, sml_l, sml_l, sml_l, sml_l, sml_l, sml_l, sml_l,
     sml_l, sml_l, sml_l, sml_l, sml_l, sml_l, sml_l, sml_l,
     lrg_m, sml_m, sml_m, sml_m, sml_m, sml_m, sml_m, sml_m,
     sml_m, sml_m, sml_m, sml_m, sml_m, sml_m, sml_m, sml_m]"

definition src_bytes :: "lzvn_decoder_state \<Rightarrow> nat \<Rightarrow> nat \<Rightarrow> nat \<Rightarrow> byte list option" where
  "src_bytes st s w i = load (src_buf st) 0 (src_end st) (s + i) w"

definition copy_match :: "lzvn_decoder_state \<Rightarrow> nat \<Rightarrow> nat \<Rightarrow> nat \<Rightarrow> nat \<Rightarrow> outcome option" where
  "copy_match st s d D M =
     (let dst_len = dst_end st - d in
      if dst_len \<ge> M + 7 \<and> D \<ge> 8 then
        do { b \<leftarrow> match_loop 8 (dst_begin st) (dst_end st) d D ((M + 7) div 8) (dst_buf st);
             Some (Jump (st\<lparr>dst_buf := b\<rparr>) s (d + M) D) }
      else if M \<le> dst_len then
        do { b \<leftarrow> match_loop 1 (dst_begin st) (dst_end st) d D M (dst_buf st);
             Some (Jump (st\<lparr>dst_buf := b\<rparr>) s (d + M) D) }
      else
        do { b \<leftarrow> match_loop 1 (dst_begin st) (dst_end st) d D dst_len (dst_buf st);
             Some (Stop (st\<lparr>dst_buf := b, src := s, dst := d + dst_len,
                           st_L := 0, st_M := M - dst_len, st_D := D\<rparr>)) })"

definition copy_literal_and_match :: "lzvn_decoder_state \<Rightarrow> nat \<Rightarrow> nat \<Rightarrow> nat \<Rightarrow> nat \<Rightarrow> nat \<Rightarrow> nat \<Rightarrow> outcome option" where
  "copy_literal_and_match st s0 d D opc_len L M =
     (let s = s0 + opc_len; src_len = src_end st - s; dst_len = dst_end st - d;
          copy = (\<lambda>n. copy_loop 1 (src_bytes st s 1) (dst_begin st) (dst_end st) d n (dst_buf st));
          continue = (\<lambda>b. let d2 = d + L; s2 = s + L; st2 = st\<lparr>dst_buf := b\<rparr> in
             if D > d2 - dst_begin st \<or> D = 0 then Some (Stop st2) else copy_match st2 s2 d2 D M) in
      if dst_len \<ge> 4 \<and> src_len \<ge> 4 then
        do { bs \<leftarrow> load (src_buf st) 0 (src_end st) s 4;
             b \<leftarrow> store (dst_buf st) (dst_begin st) (dst_end st) d bs; continue b }
      else if L \<le> dst_len then do { b \<leftarrow> copy L; continue b }
      else
        do { b \<leftarrow> copy dst_len;
             Some (Stop (st\<lparr>dst_buf := b, src := s + dst_len, dst := d + dst_len,
                           st_L := L - dst_len, st_M := M, st_D := D\<rparr>)) })"

definition copy_literal :: "lzvn_decoder_state \<Rightarrow> nat \<Rightarrow> nat \<Rightarrow> nat \<Rightarrow> nat \<Rightarrow> nat \<Rightarrow> outcome option" where
  "copy_literal st s0 d D opc_len L =
     (if src_end st - s0 \<le> opc_len + L then Some (Stop st)
      else
       (let s = s0 + opc_len; src_len = src_end st - s; dst_len = dst_end st - d;
            copy = (\<lambda>w n. copy_loop w (src_bytes st s w) (dst_begin st) (dst_end st) d n (dst_buf st)) in
        if dst_len \<ge> L + 7 \<and> src_len \<ge> L + 7 then
          do { b \<leftarrow> copy 8 ((L + 7) div 8); Some (Jump (st\<lparr>dst_buf := b\<rparr>) (s + L) (d + L) D) }
        else if L \<le> dst_len then
          do { b \<leftarrow> copy 1 L; Some (Jump (st\<lparr>dst_buf := b\<rparr>) (s + L) (d + L) D) }
        else
          do { b \<leftarrow> copy 1 dst_len;
               Some (Stop (st\<lparr>dst_buf := b, src := s + dst_len, dst := d + dst_len,
                             st_L := L - dst_len, st_M := 0, st_D := D\<rparr>)) }))"

definition op_sml_d :: "lzvn_decoder_state \<Rightarrow> nat \<Rightarrow> nat \<Rightarrow> nat \<Rightarrow> byte \<Rightarrow> outcome option" where
  "op_sml_d st0 s d D opc =
     (let st = update_good st0 s d D;
          opc_len = 2;
          L = unat (extract_bits (ucast opc) 6 2);
          M = unat (extract_bits (ucast opc) 3 3) + 3 in
      if src_end st - s \<le> opc_len + L then Some (Stop st)
      else do { b1 \<leftarrow> load1 (src_buf st) 0 (src_end st) (s + 1);
                let D1 = unat (push_bit 8 (extract_bits (ucast opc) 0 3) OR ucast b1);
                copy_literal_and_match st s d D1 opc_len L M })"

definition op_med_d :: "lzvn_decoder_state \<Rightarrow> nat \<Rightarrow> nat \<Rightarrow> nat \<Rightarrow> byte \<Rightarrow> outcome option" where
  "op_med_d st0 s d D opc =
     (let st = update_good st0 s d D;
          opc_len = 3;
          L = unat (extract_bits (ucast opc) 3 2) in
      if src_end st - s \<le> opc_len + L then Some (Stop st)
      else do { opc23 \<leftarrow> load2 (src_buf st) 0 (src_end st) (s + 1);
                let M = unat ((push_bit 2 (extract_bits (ucast opc) 0 3) OR extract_bits (ucast opc23) 0 2) + 3);
                let D1 = unat (extract_bits (ucast opc23) 2 14);
                copy_literal_and_match st s d D1 opc_len L M })"

definition op_lrg_d :: "lzvn_decoder_state \<Rightarrow> nat \<Rightarrow> nat \<Rightarrow> nat \<Rightarrow> byte \<Rightarrow> outcome option" where
  "op_lrg_d st0 s d D opc =
     (let st = update_good st0 s d D;
          opc_len = 3;
          L = unat (extract_bits (ucast opc) 6 2);
          M = unat (extract_bits (ucast opc) 3 3) + 3 in
      if src_end st - s \<le> opc_len + L then Some (Stop st)
      else do { D1 \<leftarrow> load2 (src_buf st) 0 (src_end st) (s + 1);
                copy_literal_and_match st s d (unat D1) opc_len L M })"

definition op_pre_d :: "lzvn_decoder_state \<Rightarrow> nat \<Rightarrow> nat \<Rightarrow> nat \<Rightarrow> byte \<Rightarrow> outcome option" where
  "op_pre_d st0 s d D opc =
     (let st = update_good st0 s d D;
          opc_len = 1;
          L = unat (extract_bits (ucast opc) 6 2);
          M = unat (extract_bits (ucast opc) 3 3) + 3 in
      if src_end st - s \<le> opc_len + L then Some (Stop st)
      else copy_literal_and_match st s d D opc_len L M)"

definition op_sml_m :: "lzvn_decoder_state \<Rightarrow> nat \<Rightarrow> nat \<Rightarrow> nat \<Rightarrow> byte \<Rightarrow> outcome option" where
  "op_sml_m st0 s d D opc =
     (let st = update_good st0 s d D; opc_len = 1 in
      if src_end st - s \<le> opc_len then Some (Stop st)
      else copy_match st (s + opc_len) d D (unat (extract_bits (ucast opc) 0 4)))"

definition op_lrg_m :: "lzvn_decoder_state \<Rightarrow> nat \<Rightarrow> nat \<Rightarrow> nat \<Rightarrow> outcome option" where
  "op_lrg_m st0 s d D =
     (let st = update_good st0 s d D; opc_len = 2 in
      if src_end st - s \<le> opc_len then Some (Stop st)
      else do { b1 \<leftarrow> load1 (src_buf st) 0 (src_end st) (s + 1);
                copy_match st (s + opc_len) d D (unat b1 + 16) })"

definition op_sml_l :: "lzvn_decoder_state \<Rightarrow> nat \<Rightarrow> nat \<Rightarrow> nat \<Rightarrow> byte \<Rightarrow> outcome option" where
  "op_sml_l st0 s d D opc =
     copy_literal (update_good st0 s d D) s d D 1 (unat (extract_bits (ucast opc) 0 4))"

definition op_lrg_l :: "lzvn_decoder_state \<Rightarrow> nat \<Rightarrow> nat \<Rightarrow> nat \<Rightarrow> outcome option" where
  "op_lrg_l st0 s d D =
     (let st = update_good st0 s d D in
      if src_end st - s \<le> 2 then Some (Stop st)
      else do { b1 \<leftarrow> load1 (src_buf st) 0 (src_end st) (s + 1);
                copy_literal st s d D 2 (unat b1 + 16) })"

definition op_nop :: "lzvn_decoder_state \<Rightarrow> nat \<Rightarrow> nat \<Rightarrow> nat \<Rightarrow> outcome option" where
  "op_nop st0 s d D =
     (let st = update_good st0 s d D in
      if src_end st - s \<le> 1 then Some (Stop st) else Some (Jump st (s + 1) d D))"

text \<open>The end of the stream updates the state only when all its 8 bytes are there.\<close>

definition op_eos :: "lzvn_decoder_state \<Rightarrow> nat \<Rightarrow> nat \<Rightarrow> nat \<Rightarrow> outcome option" where
  "op_eos st s d D =
     (if src_end st - s < 8 then Some (Stop st)
      else Some (Stop (update_good (st\<lparr>end_of_stream := True\<rparr>) (s + 8) d D)))"

text \<open>An undefined opcode returns without touching the state.\<close>

definition op_udef :: "lzvn_decoder_state \<Rightarrow> outcome option" where
  "op_udef st = Some (Stop st)"

definition decode_op :: "lzvn_decoder_state \<Rightarrow> nat \<Rightarrow> nat \<Rightarrow> nat \<Rightarrow> outcome option" where
  "decode_op st s d D =
     do { opc \<leftarrow> load1 (src_buf st) 0 (src_end st) s;
          case opc_tbl ! unat opc of
            sml_d \<Rightarrow> op_sml_d st s d D opc
          | med_d \<Rightarrow> op_med_d st s d D opc
          | lrg_d \<Rightarrow> op_lrg_d st s d D opc
          | pre_d \<Rightarrow> op_pre_d st s d D opc
          | sml_m \<Rightarrow> op_sml_m st s d D opc
          | lrg_m \<Rightarrow> op_lrg_m st s d D
          | sml_l \<Rightarrow> op_sml_l st s d D opc
          | lrg_l \<Rightarrow> op_lrg_l st s d D
          | nop \<Rightarrow> op_nop st s d D
          | eos \<Rightarrow> op_eos st s d D
          | udef \<Rightarrow> op_udef st }"

section \<open>The loop\<close>

text \<open>Every instruction moves the source pointer forward, so the loop ends.\<close>

lemma copy_match_advance:
  "copy_match st s d D M = Some (Jump st' s' d' D') \<Longrightarrow> s' = s \<and> src_end st' = src_end st"
  by (auto simp: copy_match_def Let_def bind_eq_Some_conv split: if_splits)

lemma literal_match_advance:
  "copy_literal_and_match st s d D n L M = Some (Jump st' s' d' D') \<Longrightarrow> s' = s + n + L \<and> src_end st' = src_end st"
  by (auto simp: copy_literal_and_match_def Let_def bind_eq_Some_conv split: if_splits dest!: copy_match_advance)

lemma copy_literal_advance:
  "copy_literal st s d D n L = Some (Jump st' s' d' D') \<Longrightarrow> s' = s + n + L \<and> src_end st' = src_end st"
  by (auto simp: copy_literal_def Let_def bind_eq_Some_conv split: if_splits)

lemmas op_defs = op_sml_d_def op_med_d_def op_lrg_d_def op_pre_d_def op_sml_m_def op_lrg_m_def
  op_sml_l_def op_lrg_l_def op_nop_def op_eos_def op_udef_def update_good_def

lemma decode_op_advance:
  assumes "decode_op st s d D = Some (Jump st' s' d' D')"
  shows "s < s' \<and> s < src_end st \<and> src_end st' = src_end st"
  using assms
  by (auto simp: decode_op_def op_defs Let_def bind_eq_Some_conv load1_def split: if_splits label.splits
      dest!: copy_match_advance literal_match_advance copy_literal_advance)

function lzvn_run :: "lzvn_decoder_state \<Rightarrow> nat \<Rightarrow> nat \<Rightarrow> nat \<Rightarrow> lzvn_decoder_state option" where
  "lzvn_run st s d D =
     (case decode_op st s d D of
        None \<Rightarrow> None
      | Some (Stop st') \<Rightarrow> Some st'
      | Some (Jump st' s' d' D') \<Rightarrow> lzvn_run st' s' d' D')"
  by pat_completeness auto

termination lzvn_run
  by (relation "measure (\<lambda>(st, s, d, D). src_end st - s)") (auto dest!: decode_op_advance)

declare lzvn_run.simps [simp del]

definition lzvn_resume :: "lzvn_decoder_state \<Rightarrow> outcome option" where
  "lzvn_resume st0 =
     (let L = st_L st0; M = st_M st0; D = st_D st0; st = st0\<lparr>st_L := 0, st_M := 0, st_D := 0\<rparr> in
      if M = 0 then copy_literal st (src st) (dst st) D 0 L
      else if L = 0 then copy_match st (src st) (dst st) D M
      else copy_literal_and_match st (src st) (dst st) D 0 L M)"

definition lzvn_decode :: "lzvn_decoder_state \<Rightarrow> lzvn_decoder_state option" where
  "lzvn_decode st =
     (if src_end st - src st = 0 \<or> dst_end st - dst st = 0 then Some st
      else if st_L st \<noteq> 0 \<or> st_M st \<noteq> 0 then
        (case lzvn_resume st of
           None \<Rightarrow> None
         | Some (Stop st') \<Rightarrow> Some st'
         | Some (Jump st' s d D) \<Rightarrow> lzvn_run st' s d D)
      else lzvn_run st (src st) (dst st) (d_prev st))"

section \<open>What the copying labels do\<close>

lemma src_bytes_some:
  "s + i + w \<le> src_end st \<Longrightarrow> src_bytes st s w i = Some (slice (src_buf st) (s + i) w)"
  by (simp add: src_bytes_def load_def)

lemma div8_cover:
  fixes n :: nat
  shows "n \<le> 8 * ((n + 7) div 8)" "8 * ((n + 7) div 8) \<le> n + 7"
  by presburger+

lemma slice_take: "m \<le> n \<Longrightarrow> slice xs i n = ys \<Longrightarrow> slice xs i m = take m ys"
  by (auto simp: slice_def min_def)

lemma copy_match_char:
  fixes M :: nat
  assumes "dst_begin st + D \<le> d" "d \<le> dst_end st" "dst_end st \<le> length (dst_buf st)"
  defines "n \<equiv> min M (dst_end st - d)"
  shows "\<exists>b. frame b (dst_buf st) d (dst_end st) \<and>
     (0 < D \<longrightarrow> slice b (dst_begin st) (d - dst_begin st + n) = expand (slice (dst_buf st) (dst_begin st) (d - dst_begin st)) D n) \<and>
     copy_match st s d D M = Some
       (if M \<le> dst_end st - d then Jump (st\<lparr>dst_buf := b\<rparr>) s (d + M) D
        else Stop (st\<lparr>dst_buf := b, src := s, dst := dst_end st, st_L := 0, st_M := M - (dst_end st - d), st_D := D\<rparr>))"
proof (cases "dst_end st - d \<ge> M + 7 \<and> D \<ge> 8")
  case True
  let ?k = "(M + 7) div 8" and ?o = "slice (dst_buf st) (dst_begin st) (d - dst_begin st)"
  have k: "M \<le> 8 * ?k" "8 * ?k \<le> M + 7" by (rule div8_cover)+
  have fit: "d + 8 * ?k \<le> dst_end st" using k True assms(2) by linarith
  obtain b where b: "match_loop 8 (dst_begin st) (dst_end st) d D ?k (dst_buf st) = Some b"
      "frame b (dst_buf st) d (d + 8 * ?k)"
      "slice b (dst_begin st) (d - dst_begin st + 8 * ?k) = expand ?o D (8 * ?k)"
    using match_loop_ok [of 8 D "dst_begin st" d ?k "dst_end st" "dst_buf st"] assms(1,3) True fit by blast
  have n: "n = M" using True by (simp add: n_def)
  have lo: "length ?o = d - dst_begin st" using assms by auto
  have "slice b (dst_begin st) (d - dst_begin st + M) = take (length ?o + M) (expand ?o D (M + (8 * ?k - M)))"
    using slice_take [OF _ b(3), of "d - dst_begin st + M"] k lo by simp
  also have "\<dots> = expand ?o D M" by (rule take_expand)
  finally have "slice b (dst_begin st) (d - dst_begin st + n) = expand ?o D n" by (simp add: n)
  moreover have "frame b (dst_buf st) d (dst_end st)"
    by (rule frame_weaken [OF b(2)]) (use k True assms in auto)
  ultimately show ?thesis
    using b(1) True by (auto simp: copy_match_def)
next
  case False
  have fit: "d + 1 * n \<le> dst_end st" using assms(2) by (simp add: n_def)
  obtain b where b: "match_loop 1 (dst_begin st) (dst_end st) d D n (dst_buf st) = Some b"
      "frame b (dst_buf st) d (d + n)"
      "0 < D \<longrightarrow> slice b (dst_begin st) (d - dst_begin st + n) = expand (slice (dst_buf st) (dst_begin st) (d - dst_begin st)) D n"
    using match_loop_ok [OF _ assms(1) fit assms(3)] match_loop_safe [OF assms(1) fit assms(3)]
    by (cases "0 < D") auto
  have "frame b (dst_buf st) d (dst_end st)"
    by (rule frame_weaken [OF b(2)]) (use assms in auto)
  with b False show ?thesis
    using assms(2) by (auto simp: copy_match_def Let_def n_def min_def split: if_splits)
qed

lemma copy_bytes_char:
  assumes "s + n \<le> src_end st" "src_end st \<le> length (src_buf st)" "dst_begin st \<le> d" "d + n \<le> dst_end st"
    "dst_end st \<le> length (dst_buf st)"
  obtains b where "copy_loop 1 (src_bytes st s 1) (dst_begin st) (dst_end st) d n (dst_buf st) = Some b"
    "frame b (dst_buf st) d (dst_end st)" "slice b d n = slice (src_buf st) s n"
proof -
  obtain b where b: "copy_loop 1 (src_bytes st s 1) (dst_begin st) (dst_end st) d n (dst_buf st) = Some b"
      "frame b (dst_buf st) d (d + n)" "slice b d n = slice (src_buf st) s n"
    using copy_loop_ok [of n "src_bytes st s 1" 1 "src_buf st" s "dst_begin st" d "dst_end st" "dst_buf st"] assms
    by (auto simp: src_bytes_some)
  show thesis
    by (rule that [OF b(1) _ b(3)]) (rule frame_weaken [OF b(2)], use assms in auto)
qed

lemma copy_literal_char:
  assumes "s0 + k + L < src_end st" "src_end st \<le> length (src_buf st)" "dst_begin st \<le> d" "d \<le> dst_end st"
    "dst_end st \<le> length (dst_buf st)"
  defines "n \<equiv> min L (dst_end st - d)"
  shows "\<exists>b. frame b (dst_buf st) d (dst_end st) \<and> slice b d n = slice (src_buf st) (s0 + k) n \<and>
     copy_literal st s0 d D k L = Some
       (if L \<le> dst_end st - d then Jump (st\<lparr>dst_buf := b\<rparr>) (s0 + k + L) (d + L) D
        else Stop (st\<lparr>dst_buf := b, src := s0 + k + (dst_end st - d), dst := dst_end st,
                      st_L := L - (dst_end st - d), st_M := 0, st_D := D\<rparr>))"
proof (cases "dst_end st - d \<ge> L + 7 \<and> src_end st - (s0 + k) \<ge> L + 7")
  case True
  let ?k = "(L + 7) div 8" and ?s = "s0 + k"
  have k: "L \<le> 8 * ?k" "8 * ?k \<le> L + 7" by (rule div8_cover)+
  have ld: "src_bytes st ?s 8 (8 * i) = Some (slice (src_buf st) (?s + 8 * i) 8)" if "i < ?k" for i
    by (rule src_bytes_some) (use that k True in linarith)
  have fit: "?s + 8 * ?k \<le> length (src_buf st)" "d + 8 * ?k \<le> dst_end st"
    using k True assms(1,2,4) by linarith+
  obtain b where b: "copy_loop 8 (src_bytes st ?s 8) (dst_begin st) (dst_end st) d ?k (dst_buf st) = Some b"
      "frame b (dst_buf st) d (d + 8 * ?k)" "slice b d (8 * ?k) = slice (src_buf st) ?s (8 * ?k)"
    using copy_loop_ok [of ?k "src_bytes st ?s 8" 8 "src_buf st" ?s "dst_begin st" d "dst_end st" "dst_buf st"]
      ld fit assms by blast
  have "slice b d L = slice (src_buf st) ?s L"
    using slice_take [OF k(1) b(3)] slice_take [OF k(1) refl, of "src_buf st" ?s] by simp
  moreover have "frame b (dst_buf st) d (dst_end st)"
    by (rule frame_weaken [OF b(2)]) (use fit in auto)
  moreover have "\<not> src_end st - s0 \<le> k + L" using assms by simp
  ultimately show ?thesis
    using b(1) True by (auto simp: copy_literal_def Let_def n_def)
next
  case False
  obtain b where b: "copy_loop 1 (src_bytes st (s0 + k) 1) (dst_begin st) (dst_end st) d n (dst_buf st) = Some b"
      "frame b (dst_buf st) d (dst_end st)" "slice b d n = slice (src_buf st) (s0 + k) n"
    by (rule copy_bytes_char [of "s0 + k" n st d]) (use assms in auto)
  have "\<not> src_end st - s0 \<le> k + L" using assms by simp
  with b False show ?thesis
    using assms(4) by (auto simp: copy_literal_def Let_def n_def min_def split: if_splits)
qed

definition after_literal :: "lzvn_decoder_state \<Rightarrow> nat \<Rightarrow> nat \<Rightarrow> nat \<Rightarrow> nat \<Rightarrow> outcome option" where
  "after_literal st s d D M =
     (if D > d - dst_begin st \<or> D = 0 then Some (Stop st) else copy_match st s d D M)"

lemma literal_match_char:
  assumes "s0 + k + L < src_end st" "L \<le> 3" "src_end st \<le> length (src_buf st)" "dst_begin st \<le> d"
    "d \<le> dst_end st" "dst_end st \<le> length (dst_buf st)"
  defines "n \<equiv> min L (dst_end st - d)"
  shows "\<exists>b. frame b (dst_buf st) d (dst_end st) \<and> slice b d n = slice (src_buf st) (s0 + k) n \<and>
     copy_literal_and_match st s0 d D k L M =
       (if L \<le> dst_end st - d then after_literal (st\<lparr>dst_buf := b\<rparr>) (s0 + k + L) (d + L) D M
        else Some (Stop (st\<lparr>dst_buf := b, src := s0 + k + (dst_end st - d), dst := dst_end st,
                      st_L := L - (dst_end st - d), st_M := M, st_D := D\<rparr>)))"
proof (cases "dst_end st - d \<ge> 4 \<and> src_end st - (s0 + k) \<ge> 4")
  case True
  let ?bs = "slice (src_buf st) (s0 + k) 4"
  have ld: "load (src_buf st) 0 (src_end st) (s0 + k) 4 = Some ?bs"
    using True assms(1) by (simp add: load_def) linarith
  have len: "length ?bs = 4" using True assms by auto
  obtain b where b: "store (dst_buf st) (dst_begin st) (dst_end st) d ?bs = Some b"
    by (rule store_some [of "dst_begin st" d ?bs "dst_end st" "dst_buf st"]) (use True assms len in auto)
  have "slice b d L = slice (src_buf st) (s0 + k) L"
    using slice_take [OF _ storeD(2) [OF b], of L] slice_take [of L 4 "src_buf st" "s0 + k", OF _ refl] len assms(2) by simp
  moreover have "frame b (dst_buf st) d (dst_end st)"
    by (rule frame_weaken [OF storeD(1) [OF b]]) (use True len in auto)
  ultimately show ?thesis
    using b ld True assms(2) by (auto simp: copy_literal_and_match_def after_literal_def Let_def n_def)
next
  case False
  obtain b where b: "copy_loop 1 (src_bytes st (s0 + k) 1) (dst_begin st) (dst_end st) d n (dst_buf st) = Some b"
      "frame b (dst_buf st) d (dst_end st)" "slice b d n = slice (src_buf st) (s0 + k) n"
    by (rule copy_bytes_char [of "s0 + k" n st d]) (use assms in auto)
  with False show ?thesis
    using assms(5) by (auto simp: copy_literal_and_match_def after_literal_def Let_def n_def min_def split: if_splits)
qed

section \<open>Memory safety\<close>

text \<open>A state between calls: the pointers lie in their buffers, and a saved partial
  instruction has its literal, and a byte behind it, still in the source.\<close>

definition lzvn_pending :: "lzvn_decoder_state \<Rightarrow> bool" where
  "lzvn_pending st \<longleftrightarrow> st_L st \<noteq> 0 \<or> st_M st \<noteq> 0"

definition pending_ok :: "lzvn_decoder_state \<Rightarrow> bool" where
  "pending_ok st \<longleftrightarrow>
     src st + st_L st < src_end st \<and> st_L st \<le> 271 \<and> st_M st \<le> 271 \<and>
     (st_L st \<noteq> 0 \<and> st_M st \<noteq> 0 \<longrightarrow> st_L st \<le> 3) \<and>
     (st_L st = 0 \<or> st_M st = 0 \<longrightarrow> st_D st \<le> dst st - dst_begin st)"

definition lzvn_ok :: "lzvn_decoder_state \<Rightarrow> bool" where
  "lzvn_ok st \<longleftrightarrow>
     src st \<le> src_end st \<and> src_end st \<le> length (src_buf st) \<and>
     dst_begin st \<le> dst st \<and> dst st \<le> dst_end st \<and> dst_end st \<le> length (dst_buf st) \<and>
     d_prev st \<le> dst st - dst_begin st \<and> (lzvn_pending st \<longrightarrow> pending_ok st)"

text \<open>The local variables at the start of an instruction.\<close>

definition loc_ok :: "lzvn_decoder_state \<Rightarrow> nat \<Rightarrow> nat \<Rightarrow> nat \<Rightarrow> bool" where
  "loc_ok st s d D \<longleftrightarrow>
     lzvn_ok st \<and> \<not> lzvn_pending st \<and> s < src_end st \<and> dst_begin st + D \<le> d \<and> d \<le> dst_end st"

text \<open>\<open>writes st d st'\<close>: from \<open>st\<close> to \<open>st'\<close> only destination bytes from \<open>d\<close> up to
  \<open>dst_end\<close> may have changed.\<close>

definition writes :: "lzvn_decoder_state \<Rightarrow> nat \<Rightarrow> lzvn_decoder_state \<Rightarrow> bool" where
  "writes st d st' \<longleftrightarrow>
     src_buf st' = src_buf st \<and> src_end st' = src_end st \<and> dst_begin st' = dst_begin st \<and>
     dst_end st' = dst_end st \<and> frame (dst_buf st') (dst_buf st) d (dst_end st)"

fun outcome_ok :: "lzvn_decoder_state \<Rightarrow> nat \<Rightarrow> outcome option \<Rightarrow> bool" where
  "outcome_ok st d None = False"
| "outcome_ok st d (Some (Stop st')) = (lzvn_ok st' \<and> writes st d st')"
| "outcome_ok st d (Some (Jump st' s' d' D')) = (loc_ok st' s' d' D' \<and> writes st d st' \<and> d \<le> d')"

lemmas ok_defs = lzvn_ok_def loc_ok_def lzvn_pending_def pending_ok_def writes_def

lemma writes_trans: "writes st d st' \<Longrightarrow> writes st' d' st'' \<Longrightarrow> d \<le> d' \<Longrightarrow> writes st d st''"
  using frame_join [of "dst_buf st''" "dst_buf st'" d' "dst_end st'" "dst_buf st" d "dst_end st" d "dst_end st"]
  by (simp add: writes_def)

lemma writes_refl [simp]: "writes st d st"
  by (simp add: writes_def)

lemma copy_match_safe:
  assumes "loc_ok st s d D" "M \<le> 271"
  shows "outcome_ok st d (copy_match st s d D M)"
  using copy_match_char [of st D d M s] assms by (auto simp: ok_defs frame_length)

lemma loc_ok_buf:
  "loc_ok st s d D \<Longrightarrow> frame b (dst_buf st) d (dst_end st) \<Longrightarrow>
   lzvn_ok (st\<lparr>dst_buf := b\<rparr>) \<and> writes st d (st\<lparr>dst_buf := b\<rparr>)"
  by (simp add: ok_defs frame_length)

lemma outcome_ok_join:
  assumes "outcome_ok st' d' r" "writes st d st'" "d \<le> d'"
  shows "outcome_ok st d r"
proof (cases r)
  case (Some x)
  then show ?thesis using assms by (cases x) (auto elim: writes_trans)
qed (use assms in simp)

lemma copy_literal_safe:
  assumes "loc_ok st s d D" "L \<le> 271"
  shows "outcome_ok st d (copy_literal st s d D k L)"
proof (cases "s + k + L < src_end st")
  case True
  then show ?thesis
    using copy_literal_char [of s k L st d D] assms by (auto simp: ok_defs frame_length)
next
  case False
  with assms show ?thesis by (auto simp: copy_literal_def ok_defs)
qed

lemma literal_match_safe:
  assumes "loc_ok st s d D0" "s + k + L < src_end st" "L \<le> 3" "M \<le> 271" "0 < M"
  shows "outcome_ok st d (copy_literal_and_match st s d D k L M)"
proof -
  have pre: "src_end st \<le> length (src_buf st)" "dst_begin st \<le> d" "d \<le> dst_end st" "dst_end st \<le> length (dst_buf st)"
    using assms(1) by (auto simp: ok_defs)
  obtain b where b: "frame b (dst_buf st) d (dst_end st)"
    "copy_literal_and_match st s d D k L M =
       (if L \<le> dst_end st - d then after_literal (st\<lparr>dst_buf := b\<rparr>) (s + k + L) (d + L) D M
        else Some (Stop (st\<lparr>dst_buf := b, src := s + k + (dst_end st - d), dst := dst_end st,
                      st_L := L - (dst_end st - d), st_M := M, st_D := D\<rparr>)))"
    using literal_match_char [OF assms(2,3) pre, of D M] by auto
  let ?st = "st\<lparr>dst_buf := b\<rparr>"
  note w = loc_ok_buf [OF assms(1) b(1)]
  show ?thesis
  proof (cases "L \<le> dst_end st - d")
    case False
    then have eq: "copy_literal_and_match st s d D k L M = Some (Stop (st\<lparr>dst_buf := b, src := s + k + (dst_end st - d),
        dst := dst_end st, st_L := L - (dst_end st - d), st_M := M, st_D := D\<rparr>))"
      using b(2) by simp
    let ?n = "dst_end st - d"
    have "s + k + ?n + (L - ?n) < src_end st" "s + k + ?n \<le> src_end st" "L - ?n \<noteq> 0" "L - ?n \<le> 3"
      using False assms(2,3) by linarith+
    moreover have "dst_begin st \<le> dst_end st" "d_prev st \<le> dst_end st - dst_begin st"
      using assms(1) by (auto simp: ok_defs)
    ultimately show ?thesis
      unfolding eq using b(1) pre assms(3-5) False
      by (simp add: lzvn_ok_def lzvn_pending_def pending_ok_def writes_def frame_length)
  next
    case fits: True
    show ?thesis
    proof (cases "D > d + L - dst_begin ?st \<or> D = 0")
      case True
      with fits b(2) w show ?thesis by (simp add: after_literal_def)
    next
      case False
      have "loc_ok ?st (s + k + L) (d + L) D"
        using w assms fits False by (auto simp: loc_ok_def lzvn_pending_def)
      from outcome_ok_join [OF copy_match_safe [OF this assms(4)]] w False fits b(2)
      show ?thesis by (simp add: after_literal_def)
    qed
  qed
qed

lemma update_good_ok:
  "loc_ok st s d D \<Longrightarrow> loc_ok (update_good st s d D) s d D \<and> writes st d (update_good st s d D) \<and>
   lzvn_ok (update_good st s d D) \<and> src_end (update_good st s d D) = src_end st"
  by (auto simp: ok_defs update_good_def)

lemma literal_match_op_safe:
  assumes ok: "loc_ok st0 s d D0" and lim: "L \<le> 3" "M \<le> 271" "0 < M"
  shows "outcome_ok st0 d
    (if src_end (update_good st0 s d D0) - s \<le> k + L then Some (Stop (update_good st0 s d D0))
     else copy_literal_and_match (update_good st0 s d D0) s d D k L M)"
proof -
  let ?st = "update_good st0 s d D0"
  note u = update_good_ok [OF ok]
  have "outcome_ok st0 d (copy_literal_and_match ?st s d D k L M)" if "\<not> src_end ?st - s \<le> k + L"
    by (rule outcome_ok_join [OF literal_match_safe [OF _ _ lim]]) (use u that in auto)
  with u show ?thesis by simp
qed

lemma load1_some: "i < hi \<Longrightarrow> load1 buf 0 hi i = Some (buf ! i)"
  by (simp add: load1_def)

lemma load2_some: "i + 2 \<le> hi \<Longrightarrow> load2 buf 0 hi i = Some (of_nat (le_val (slice buf i 2)))"
  by (simp add: load2_def load_def)

lemma mod_bounds: "(x :: nat) mod 4 \<le> 3" "(x :: nat) mod 8 \<le> 7" "(x :: nat) mod 16 \<le> 15"
  using mod_less_divisor [of 4 x] mod_less_divisor [of 8 x] mod_less_divisor [of 16 x] by linarith+

lemma med_length:
  "unat ((push_bit 2 (extract_bits (ucast (c :: byte)) 0 3) OR extract_bits (ucast (w :: u16)) 0 2) + 3 :: u64)
     = unat c mod 8 * 4 + unat w mod 4 + 3"
proof -
  have w: "unat (extract_bits (ucast w) 0 2) = unat w mod 4"
    by simp
  have "push_bit 2 (extract_bits (ucast c) 0 3) OR extract_bits (ucast w) 0 2
      = push_bit 2 (extract_bits (ucast c :: u64) 0 3) + extract_bits (ucast w) 0 2"
    by (rule or_push_bit_eq_plus) (simp add: w)
  moreover have "unat (push_bit 2 (extract_bits (ucast c) 0 3) :: u64) = unat c mod 8 * 4"
    using mod_bounds(2) [of "unat c"] by (simp add: unat_push_bit_mod)
  ultimately show ?thesis
    using w mod_bounds(1) [of "unat w"] mod_bounds(2) [of "unat c"] by (simp add: unat_word_ariths)
qed

lemma sml_distance:
  "unat (push_bit 8 (extract_bits (ucast (c :: byte)) 0 3) OR ucast (b :: byte) :: u64) = unat c mod 8 * 256 + unat b"
proof -
  have "push_bit 8 (extract_bits (ucast c) 0 3) OR ucast b = push_bit 8 (extract_bits (ucast c :: u64) 0 3) + ucast b"
    by (rule or_push_bit_eq_plus) simp
  moreover have "unat (push_bit 8 (extract_bits (ucast c) 0 3) :: u64) = unat c mod 8 * 256"
    using mod_bounds(2) [of "unat c"] by (simp add: unat_push_bit_mod)
  ultimately show ?thesis
    using mod_bounds(2) [of "unat c"] unat_less_256 [of b] by (simp add: unat_word_ariths del: unat_less_256)
qed

lemma med_distance: "unat (extract_bits (ucast (w :: u16)) 2 14) = unat w div 4"
proof -
  have "unat w < 65536" using unsigned_less [of w] by simp
  then show ?thesis by simp
qed

lemma update_good_sel [simp]:
  "src_end (update_good st s d D) = src_end st" "src_buf (update_good st s d D) = src_buf st"
  "dst_buf (update_good st s d D) = dst_buf st" "dst_begin (update_good st s d D) = dst_begin st"
  "dst_end (update_good st s d D) = dst_end st" "end_of_stream (update_good st s d D) = end_of_stream st"
  by (simp_all add: update_good_def)

lemma op_sml_d_eq:
  "op_sml_d st s d D c =
     (let L = unat c div 64 mod 4 in
      if src_end st - s \<le> 2 + L then Some (Stop (update_good st s d D))
      else copy_literal_and_match (update_good st s d D) s d
             (unat c mod 8 * 256 + unat (src_buf st ! (s + 1))) 2 L (unat c div 8 mod 8 + 3))"
  by (simp add: op_sml_d_def Let_def load1_some sml_distance)

lemma op_med_d_eq:
  "op_med_d st s d D c =
     (let L = unat c div 8 mod 4; w = le_val (slice (src_buf st) (s + 1) 2) mod 65536 in
      if src_end st - s \<le> 3 + L then Some (Stop (update_good st s d D))
      else copy_literal_and_match (update_good st s d D) s d (w div 4) 3 L (unat c mod 8 * 4 + w mod 4 + 3))"
  by (simp add: op_med_d_def Let_def load2_some med_length med_distance unat_of_nat)

lemma op_lrg_d_eq:
  "op_lrg_d st s d D c =
     (let L = unat c div 64 mod 4 in
      if src_end st - s \<le> 3 + L then Some (Stop (update_good st s d D))
      else copy_literal_and_match (update_good st s d D) s d
             (le_val (slice (src_buf st) (s + 1) 2) mod 65536) 3 L (unat c div 8 mod 8 + 3))"
  by (simp add: op_lrg_d_def Let_def load2_some unat_of_nat)

lemma op_pre_d_eq:
  "op_pre_d st s d D c =
     (let L = unat c div 64 mod 4 in
      if src_end st - s \<le> 1 + L then Some (Stop (update_good st s d D))
      else copy_literal_and_match (update_good st s d D) s d D 1 L (unat c div 8 mod 8 + 3))"
  by (simp add: op_pre_d_def Let_def)

lemma op_sml_m_eq:
  "op_sml_m st s d D c =
     (if src_end st - s \<le> 1 then Some (Stop (update_good st s d D))
      else copy_match (update_good st s d D) (s + 1) d D (unat c mod 16))"
  by (simp add: op_sml_m_def Let_def)

lemma op_lrg_m_eq:
  "op_lrg_m st s d D =
     (if src_end st - s \<le> 2 then Some (Stop (update_good st s d D))
      else copy_match (update_good st s d D) (s + 2) d D (unat (src_buf st ! (s + 1)) + 16))"
  by (simp add: op_lrg_m_def Let_def load1_some)

lemma op_sml_l_eq: "op_sml_l st s d D c = copy_literal (update_good st s d D) s d D 1 (unat c mod 16)"
  by (simp add: op_sml_l_def)

lemma op_lrg_l_eq:
  "op_lrg_l st s d D =
     (if src_end st - s \<le> 2 then Some (Stop (update_good st s d D))
      else copy_literal (update_good st s d D) s d D 2 (unat (src_buf st ! (s + 1)) + 16))"
  by (simp add: op_lrg_l_def Let_def load1_some)

lemmas op_eqs = op_sml_d_eq op_med_d_eq op_lrg_d_eq op_pre_d_eq op_sml_m_eq op_lrg_m_eq op_sml_l_eq op_lrg_l_eq

lemma decode_op_safe:
  assumes "loc_ok st s d D"
  shows "outcome_ok st d (decode_op st s d D)"
proof -
  let ?c = "src_buf st ! s" and ?b = "src_buf st ! (s + 1)"
  have opc: "load1 (src_buf st) 0 (src_end st) s = Some ?c"
    using assms by (simp add: load1_some loc_ok_def)
  note lim = mod_bounds [of "unat ?c"] mod_bounds [of "unat ?c div 64"] mod_bounds [of "unat ?c div 8"] unat_less_256 [of ?b]
  have n: "unat ?c mod 16 \<le> 271" "unat ?b + 16 \<le> 271" using lim by linarith+
  note u = update_good_ok [OF assms]
  note lm = literal_match_op_safe [OF assms, unfolded update_good_sel]
  have m: "outcome_ok st d (copy_match (update_good st s d D) (s + k) d D M)"
    if "\<not> src_end st - s \<le> k" "M \<le> 271" for k M
    by (rule outcome_ok_join [OF copy_match_safe]) (use u that in \<open>auto simp: loc_ok_def\<close>)
  have l: "outcome_ok st d (copy_literal (update_good st s d D) s d D k L)" if "L \<le> 271" for k L
    by (rule outcome_ok_join [OF copy_literal_safe]) (use u that in auto)
  have "outcome_ok st d (op_sml_d st s d D ?c)" "outcome_ok st d (op_lrg_d st s d D ?c)" "outcome_ok st d (op_pre_d st s d D ?c)"
    unfolding op_eqs Let_def by (rule lm; use lim in linarith)+
  moreover have "outcome_ok st d (op_med_d st s d D ?c)"
    using lim mod_bounds(1) [of "le_val (slice (src_buf st) (s + 1) 2) mod 65536"]
    unfolding op_eqs Let_def by (intro lm) linarith+
  moreover have "outcome_ok st d (op_sml_m st s d D ?c)" "outcome_ok st d (op_lrg_m st s d D)"
    "outcome_ok st d (op_sml_l st s d D ?c)" "outcome_ok st d (op_lrg_l st s d D)"
    using u m [OF _ n(1), of 1] m [OF _ n(2), of 2] l [OF n(1), of 1] l [OF n(2), of 2]
    by (simp_all add: op_eqs)
  moreover have "outcome_ok st d (op_nop st s d D)" "outcome_ok st d (op_eos st s d D)" "outcome_ok st d (op_udef st)"
    using assms by (simp_all add: op_nop_def op_eos_def op_udef_def update_good_def ok_defs Let_def) auto
  ultimately show ?thesis
    by (simp add: decode_op_def opc split: label.split)
qed

lemma lzvn_run_safe:
  "loc_ok st s d D \<Longrightarrow> \<exists>st'. lzvn_run st s d D = Some st' \<and> lzvn_ok st' \<and> writes st d st'"
proof (induction st s d D rule: lzvn_run.induct)
  case (1 st s d D)
  note safe = decode_op_safe [OF 1(2)]
  show ?case
  proof (cases "decode_op st s d D")
    case (Some r)
    with safe 1(1) [OF Some] show ?thesis
      by (cases r) (auto simp: lzvn_run.simps [of st s d D] intro: writes_trans)
  qed (use safe in simp)
qed

lemma lzvn_resume_safe:
  assumes "lzvn_ok st" "lzvn_pending st" "dst st < dst_end st"
  shows "outcome_ok st (dst st) (lzvn_resume st)"
proof -
  let ?st = "st\<lparr>st_L := 0, st_M := 0, st_D := 0\<rparr>"
  have p: "pending_ok st" using assms by (simp add: lzvn_ok_def)
  have w: "writes st (dst st) ?st" by (simp add: writes_def)
  have base: "loc_ok ?st (src st) (dst st) D" if "D \<le> dst st - dst_begin st" for D
    using assms p that by (auto simp: ok_defs)
  have "outcome_ok ?st (dst st) (lzvn_resume st)"
    using p base [of "st_D st"] base [of 0] copy_literal_safe [of ?st "src st" "dst st" "st_D st" "st_L st" 0]
      copy_match_safe [of ?st "src st" "dst st" "st_D st" "st_M st"]
      literal_match_safe [of ?st "src st" "dst st" 0 0 "st_L st" "st_M st" "st_D st"]
    by (auto simp: lzvn_resume_def Let_def pending_ok_def)
  from outcome_ok_join [OF this w] show ?thesis by simp
qed

lemma lzvn_decode_ok:
  assumes "lzvn_ok st"
  shows "\<exists>st'. lzvn_decode st = Some st' \<and> lzvn_ok st' \<and> writes st (dst st) st'"
proof (cases "src_end st - src st = 0 \<or> dst_end st - dst st = 0")
  case True
  with assms show ?thesis by (auto simp: lzvn_decode_def)
next
  case False
  show ?thesis
  proof (cases "lzvn_pending st")
    case True
    have safe: "outcome_ok st (dst st) (lzvn_resume st)"
      by (rule lzvn_resume_safe) (use assms True False in auto)
    show ?thesis
    proof (cases "lzvn_resume st")
      case (Some r)
      with safe True False show ?thesis
        by (cases r) (auto simp: lzvn_decode_def lzvn_pending_def dest!: lzvn_run_safe intro: writes_trans)
    qed (use safe in simp)
  next
    case none: False
    then have "loc_ok st (src st) (dst st) (d_prev st)"
      using assms False by (auto simp: ok_defs)
    from lzvn_run_safe [OF this] False none show ?thesis
      by (simp add: lzvn_decode_def lzvn_pending_def)
  qed
qed

section \<open>The meaning of a stream\<close>

text \<open>The instruction at the start of a byte sequence, read off the bit patterns of the
  format: \<open>Instr n L M D\<close> is an opcode of \<open>n\<close> bytes, \<open>L\<close> literal bytes behind it and
  a match of \<open>M\<close> bytes at distance \<open>D\<close>.  An instruction is only complete when one more
  byte follows it.\<close>

datatype instr = Instr nat nat nat nat | End_op | Cut | Cut_end | Undefined

definition complete_instr :: "byte list \<Rightarrow> nat \<Rightarrow> nat \<Rightarrow> nat \<Rightarrow> nat \<Rightarrow> instr" where
  "complete_instr bs n L M D = (if length bs \<le> n + L then Cut else Instr n L M D)"

definition instr_of :: "nat \<Rightarrow> byte list \<Rightarrow> instr" where
  "instr_of D bs =
     (let op = unat (bs ! 0); b = unat (bs ! 1); w = b + 256 * unat (bs ! 2) in
      if bs = [] then Cut
      else if op = 240 then complete_instr bs 2 0 (b + 16) D
      else if op > 240 then complete_instr bs 1 0 (op - 240) D
      else if op = 224 then complete_instr bs 2 (b + 16) 0 D
      else if op > 224 then complete_instr bs 1 (op - 224) 0 D
      else if op \<ge> 208 \<or> 112 \<le> op \<and> op < 128 then Undefined
      else if 160 \<le> op \<and> op < 192 then
        complete_instr bs 3 (op div 8 mod 4) (op mod 8 * 4 + w mod 4 + 3) (w div 4)
      else if op mod 8 = 7 then complete_instr bs 3 (op div 64) (op div 8 mod 8 + 3) w
      else if op mod 8 \<le> 5 then complete_instr bs 2 (op div 64) (op div 8 mod 8 + 3) (op mod 8 * 256 + b)
      else if op \<ge> 64 then complete_instr bs 1 (op div 64) (op div 8 mod 8 + 3) D
      else if op = 6 then (if length bs < 8 then Cut_end else End_op)
      else if op = 14 \<or> op = 22 then complete_instr bs 1 0 0 D
      else Undefined)"

text \<open>What an instruction appends to the output, if its distance is in range.\<close>

definition apply_instr :: "nat \<Rightarrow> nat \<Rightarrow> nat \<Rightarrow> byte list \<Rightarrow> byte list \<Rightarrow> byte list option" where
  "apply_instr L M D bs out =
     (let o1 = out @ take L bs in
      if M = 0 then Some o1 else if 0 < D \<and> D \<le> length o1 then Some (expand o1 D M) else None)"

datatype status = Finished | Truncated | Cut_marker | Bad_opcode | Bad_distance

lemma instr_of_length: "instr_of D bs = Instr n L M D' \<Longrightarrow> 0 < n \<and> n + L < length bs"
  by (auto simp: instr_of_def complete_instr_def Let_def split: if_splits)

function lzvn_run_spec :: "nat \<Rightarrow> byte list \<Rightarrow> byte list \<Rightarrow> byte list \<times> status" where
  "lzvn_run_spec D bs out =
     (case instr_of D bs of
        Cut \<Rightarrow> (out, Truncated)
      | Cut_end \<Rightarrow> (out, Cut_marker)
      | End_op \<Rightarrow> (out, Finished)
      | Undefined \<Rightarrow> (out, Bad_opcode)
      | Instr n L M D' \<Rightarrow>
          (case apply_instr L M D' (drop n bs) out of
             None \<Rightarrow> (out, Bad_distance)
           | Some o1 \<Rightarrow> lzvn_run_spec D' (drop (n + L) bs) o1))"
  by pat_completeness auto

termination lzvn_run_spec
  by (relation "measure (\<lambda>(D, bs, out). length bs)") (auto dest!: instr_of_length)

declare lzvn_run_spec.simps [simp del]

text \<open>The source bytes from \<open>s\<close> on, the output before \<open>d\<close>, and the whole output a state
  stands for: what was written and what the rest of the source will add.\<close>

definition rest :: "lzvn_decoder_state \<Rightarrow> nat \<Rightarrow> byte list" where
  "rest st s = slice (src_buf st) s (src_end st - s)"

definition hist :: "lzvn_decoder_state \<Rightarrow> nat \<Rightarrow> byte list" where
  "hist st d = slice (dst_buf st) (dst_begin st) (d - dst_begin st)"

definition written :: "lzvn_decoder_state \<Rightarrow> byte list" where
  "written st = hist st (dst st)"

definition denote :: "lzvn_decoder_state \<Rightarrow> byte list \<times> status" where
  "denote st =
     (if lzvn_pending st then
        (case apply_instr (st_L st) (st_M st) (st_D st) (rest st (src st)) (written st) of
           None \<Rightarrow> (written st, Bad_distance)
         | Some o1 \<Rightarrow> lzvn_run_spec (st_D st) (drop (st_L st) (rest st (src st))) o1)
      else lzvn_run_spec (d_prev st) (rest st (src st)) (written st))"

section \<open>The decoder computes it\<close>

definition class_of :: "nat \<Rightarrow> label" where
  "class_of op =
     (if op = 240 then lrg_m else if op > 240 then sml_m else if op = 224 then lrg_l else if op > 224 then sml_l
      else if op \<ge> 208 \<or> 112 \<le> op \<and> op < 128 then udef else if 160 \<le> op \<and> op < 192 then med_d
      else if op mod 8 = 7 then lrg_d else if op mod 8 \<le> 5 then sml_d else if op \<ge> 64 then pre_d
      else if op = 6 then eos else if op = 14 \<or> op = 22 then nop else udef)"

lemma opc_tbl_class: "opc_tbl = map class_of [0..<256]"
  by code_simp

lemma opc_tbl_nth: "opc_tbl ! unat (c :: byte) = class_of (unat c)"
  by (simp add: opc_tbl_class)

lemma length_hist: "dst_begin st \<le> d \<Longrightarrow> d \<le> length (dst_buf st) \<Longrightarrow> length (hist st d) = d - dst_begin st"
  by (simp add: hist_def)

lemma drop_rest: "src_end st \<le> length (src_buf st) \<Longrightarrow> drop n (rest st s) = rest st (s + n)"
  by (simp add: rest_def slice_def drop_take add.commute)

lemma take_rest: "s + n \<le> src_end st \<Longrightarrow> take n (rest st s) = slice (src_buf st) s n"
  by (simp add: rest_def slice_def min_def)

lemma nth_rest: "s + n < src_end st \<Longrightarrow> src_end st \<le> length (src_buf st) \<Longrightarrow> rest st s ! n = src_buf st ! (s + n)"
  by (simp add: rest_def nth_slice)

lemma length_rest: "src_end st \<le> length (src_buf st) \<Longrightarrow> length (rest st s) = src_end st - s"
  by (cases "s \<le> src_end st") (auto simp: rest_def slice_def)

lemma apply_split:
  assumes "n \<le> L"
  shows "apply_instr (L - n) M D (drop n bs) (out @ take n bs) = apply_instr L M D bs out"
proof -
  have "take n bs @ take (L - n) (drop n bs) = take L bs"
    using assms by (metis le_add_diff_inverse take_add)
  then show ?thesis by (simp add: apply_instr_def Let_def)
qed

lemma apply_match: "M \<noteq> 0 \<Longrightarrow> 0 < D \<Longrightarrow> D \<le> length out \<Longrightarrow> apply_instr 0 M D bs out = Some (expand out D M)"
  by (simp add: apply_instr_def)

lemma hist_frame: "frame b (dst_buf st) d e \<Longrightarrow> dst_begin st \<le> d \<Longrightarrow> d \<le> length (dst_buf st) \<Longrightarrow>
  hist (st\<lparr>dst_buf := b\<rparr>) d = hist st d"
  by (simp add: hist_def frame_slice)

lemma hist_append:
  "dst_begin st \<le> d \<Longrightarrow> hist st (d + n) = hist st d @ slice (dst_buf st) d n"
  using slice_add [of "dst_buf st" "dst_begin st" "d - dst_begin st" n] by (simp add: hist_def)

text \<open>\<open>carries st s D o1 r\<close>: the outcome \<open>r\<close> goes on behind the instruction, at source \<open>s\<close>
  with distance \<open>D\<close> and \<open>o1\<close> written, or it filled the destination and saved a state
  that stands for the same output.\<close>

fun carries :: "lzvn_decoder_state \<Rightarrow> nat \<Rightarrow> nat \<Rightarrow> byte list \<Rightarrow> outcome option \<Rightarrow> bool" where
  "carries st s D o1 None = False"
| "carries st s D o1 (Some (Jump st' s' d' D')) =
     (s' = s \<and> D' = D \<and> hist st' d' = o1 \<and> end_of_stream st' = end_of_stream st)"
| "carries st s D o1 (Some (Stop st')) =
     (dst st' = dst_end st' \<and> lzvn_pending st' \<and> end_of_stream st' = end_of_stream st \<and>
      denote st' = lzvn_run_spec D (rest st s) o1)"

lemma rest_buf [simp]: "rest (st\<lparr>dst_buf := b\<rparr>) s = rest st s"
  by (simp add: rest_def)

lemma carries_cong:
  assumes "rest st1 = rest st" "end_of_stream st1 = end_of_stream st"
  shows "carries st1 s D o1 r = carries st s D o1 r"
proof (cases r)
  case (Some x)
  then show ?thesis using assms by (cases x) simp_all
qed simp

lemma copy_match_carries:
  assumes "dst_begin st + D \<le> d" "d \<le> dst_end st" "dst_end st \<le> length (dst_buf st)" "0 < D"
  shows "carries st s D (expand (hist st d) D M) (copy_match st s d D M)"
proof -
  let ?n = "min M (dst_end st - d)"
  obtain b where b: "frame b (dst_buf st) d (dst_end st)"
      "slice b (dst_begin st) (d - dst_begin st + ?n) = expand (hist st d) D ?n"
      "copy_match st s d D M = Some
       (if M \<le> dst_end st - d then Jump (st\<lparr>dst_buf := b\<rparr>) s (d + M) D
        else Stop (st\<lparr>dst_buf := b, src := s, dst := dst_end st, st_L := 0, st_M := M - (dst_end st - d), st_D := D\<rparr>))"
    using copy_match_char [OF assms(1-3), of M s] assms(4) by (auto simp: hist_def)
  show ?thesis
  proof (cases "M \<le> dst_end st - d")
    case True
    with b assms show ?thesis by (simp add: hist_def)
  next
    case False
    let ?m = "dst_end st - d"
      and ?st = "st\<lparr>dst_buf := b, src := s, dst := dst_end st, st_L := 0, st_M := M - (dst_end st - d), st_D := D\<rparr>"
    have w: "written ?st = expand (hist st d) D ?m"
      using b(2) False assms by (simp add: written_def hist_def)
    have lh: "length (hist st d) = d - dst_begin st"
      by (rule length_hist) (use assms in auto)
    have "apply_instr 0 (M - ?m) D (rest ?st s) (written ?st) = Some (expand (written ?st) D (M - ?m))"
      unfolding w by (rule apply_match) (use False assms lh in auto)
    moreover have "expand (written ?st) D (M - ?m) = expand (hist st d) D M"
      unfolding w using False expand_add [of "hist st d" D ?m "M - ?m"] by simp
    ultimately have "denote ?st = lzvn_run_spec D (rest st s) (expand (hist st d) D M)"
      using False by (simp add: denote_def lzvn_pending_def rest_def)
    with False b(3) show ?thesis by (simp add: lzvn_pending_def)
  qed
qed

lemma copy_literal_carries:
  assumes "s0 + k + L < src_end st" "src_end st \<le> length (src_buf st)" "dst_begin st \<le> d" "d \<le> dst_end st"
    "dst_end st \<le> length (dst_buf st)"
  shows "carries st (s0 + k + L) D (hist st d @ slice (src_buf st) (s0 + k) L) (copy_literal st s0 d D k L)"
proof -
  let ?m = "dst_end st - d" and ?n = "min L (dst_end st - d)"
  obtain b where b: "frame b (dst_buf st) d (dst_end st)" "slice b d ?n = slice (src_buf st) (s0 + k) ?n"
     "copy_literal st s0 d D k L = Some
       (if L \<le> ?m then Jump (st\<lparr>dst_buf := b\<rparr>) (s0 + k + L) (d + L) D
        else Stop (st\<lparr>dst_buf := b, src := s0 + k + ?m, dst := dst_end st, st_L := L - ?m, st_M := 0, st_D := D\<rparr>))"
    using copy_literal_char [OF assms, of D] by auto
  have h: "hist (st\<lparr>dst_buf := b\<rparr>) d = hist st d"
    by (rule hist_frame [OF b(1)]) (use assms in auto)
  have h': "hist (st\<lparr>dst_buf := b\<rparr>) (d + ?n) = hist st d @ slice (src_buf st) (s0 + k) ?n"
    using h b(2) hist_append [of "st\<lparr>dst_buf := b\<rparr>" d ?n] assms by simp
  show ?thesis
  proof (cases "L \<le> ?m")
    case True
    with b h' show ?thesis by simp
  next
    case False
    let ?st = "st\<lparr>dst_buf := b, src := s0 + k + ?m, dst := dst_end st, st_L := L - ?m, st_M := 0, st_D := D\<rparr>"
    have w: "written ?st = hist st d @ take ?m (rest st (s0 + k))"
      using h' False assms take_rest [of "s0 + k" ?m st] by (simp add: written_def hist_def)
    have r: "rest ?st (s0 + k + ?m) = drop ?m (rest st (s0 + k))"
      using drop_rest [OF assms(2)] by (simp add: rest_def)
    have "apply_instr (L - ?m) 0 D (rest ?st (s0 + k + ?m)) (written ?st) = apply_instr L 0 D (rest st (s0 + k)) (hist st d)"
      unfolding w r by (rule apply_split) (use False in simp)
    also have "\<dots> = Some (hist st d @ slice (src_buf st) (s0 + k) L)"
      using assms by (simp add: apply_instr_def take_rest)
    finally have "denote ?st = lzvn_run_spec D (drop (L - ?m) (rest ?st (s0 + k + ?m))) (hist st d @ slice (src_buf st) (s0 + k) L)"
      using False by (simp add: denote_def lzvn_pending_def)
    moreover have "drop (L - ?m) (rest ?st (s0 + k + ?m)) = rest st (s0 + k + L)"
      unfolding r using False drop_rest [OF assms(2), of L "s0 + k"] by simp
    ultimately show ?thesis using False b(3) by (simp add: lzvn_pending_def)
  qed
qed

lemma literal_match_carries:
  assumes "s0 + k + L < src_end st" "L \<le> 3" "src_end st \<le> length (src_buf st)" "dst_begin st \<le> d"
    "d \<le> dst_end st" "dst_end st \<le> length (dst_buf st)" "0 < M"
    and ap: "apply_instr L M D (rest st (s0 + k)) (hist st d) = Some o1"
  shows "carries st (s0 + k + L) D o1 (copy_literal_and_match st s0 d D k L M)"
proof -
  let ?m = "dst_end st - d" and ?n = "min L (dst_end st - d)"
  obtain b where b: "frame b (dst_buf st) d (dst_end st)" "slice b d ?n = slice (src_buf st) (s0 + k) ?n"
     "copy_literal_and_match st s0 d D k L M =
       (if L \<le> ?m then after_literal (st\<lparr>dst_buf := b\<rparr>) (s0 + k + L) (d + L) D M
        else Some (Stop (st\<lparr>dst_buf := b, src := s0 + k + ?m, dst := dst_end st, st_L := L - ?m, st_M := M, st_D := D\<rparr>)))"
    using literal_match_char [OF assms(1-6), of D M] by auto
  let ?b = "st\<lparr>dst_buf := b\<rparr>"
  have h: "hist ?b d = hist st d"
    by (rule hist_frame [OF b(1)]) (use assms in auto)
  have h': "hist ?b (d + ?n) = hist st d @ slice (src_buf st) (s0 + k) ?n"
    using h b(2) hist_append [of ?b d ?n] assms by simp
  have lh: "length (hist st d) = d - dst_begin st" by (rule length_hist) (use assms in auto)
  have lb: "length b = length (dst_buf st)" using b(1) by (rule frame_length)
  show ?thesis
  proof (cases "L \<le> ?m")
    case True
    have hl: "hist ?b (d + L) = hist st d @ take L (rest st (s0 + k))"
      using h' True assms take_rest [of "s0 + k" L st] by simp
    have "length (hist ?b (d + L)) = d + L - dst_begin st"
      using length_hist [of ?b "d + L"] True assms lb by simp
    then have D: "0 < D" "D \<le> d + L - dst_begin st" and o1: "o1 = expand (hist ?b (d + L)) D M"
      using ap hl assms(7) by (auto simp: apply_instr_def Let_def split: if_splits)
    have "carries ?b (s0 + k + L) D o1 (copy_match ?b (s0 + k + L) (d + L) D M)"
      unfolding o1 by (rule copy_match_carries) (use D True assms lb in auto)
    moreover have "carries ?b (s0 + k + L) D o1 r = carries st (s0 + k + L) D o1 r" for r
      by (rule carries_cong) (simp_all add: fun_eq_iff)
    ultimately show ?thesis
      using b(3) True D by (simp add: after_literal_def)
  next
    case False
    let ?st = "st\<lparr>dst_buf := b, src := s0 + k + ?m, dst := dst_end st, st_L := L - ?m, st_M := M, st_D := D\<rparr>"
    have w: "written ?st = hist st d @ take ?m (rest st (s0 + k))"
      using h' False assms take_rest [of "s0 + k" ?m st] by (simp add: written_def hist_def)
    have r: "rest ?st (s0 + k + ?m) = drop ?m (rest st (s0 + k))"
      using drop_rest [OF assms(3)] by (simp add: rest_def)
    have "apply_instr (L - ?m) M D (rest ?st (s0 + k + ?m)) (written ?st) = apply_instr L M D (rest st (s0 + k)) (hist st d)"
      unfolding w r by (rule apply_split) (use False in simp)
    then have "denote ?st = lzvn_run_spec D (drop (L - ?m) (rest ?st (s0 + k + ?m))) o1"
      using False ap by (simp add: denote_def lzvn_pending_def)
    moreover have "drop (L - ?m) (rest ?st (s0 + k + ?m)) = rest st (s0 + k + L)"
      unfolding r using False drop_rest [OF assms(3), of L "s0 + k"] by simp
    ultimately show ?thesis using False b(3) by (simp add: lzvn_pending_def)
  qed
qed

lemma carries_update [simp]: "carries (update_good st s d D) s' D' o1 r = carries st s' D' o1 r"
  by (rule carries_cong) (simp_all add: rest_def fun_eq_iff)

lemma hist_update [simp]: "hist (update_good st s d D) d' = hist st d'" "rest (update_good st s d D) s' = rest st s'"
  by (simp_all add: hist_def rest_def)

text \<open>The format's reading of an opcode, by the decoder's label for it.\<close>

lemma instr_of_class:
  assumes "bs \<noteq> []"
  defines "op \<equiv> unat (bs ! 0)" and "b \<equiv> unat (bs ! 1)" and "w \<equiv> unat (bs ! 1) + 256 * unat (bs ! 2)"
  shows "instr_of D bs = (case class_of op of
      sml_d \<Rightarrow> complete_instr bs 2 (op div 64 mod 4) (op div 8 mod 8 + 3) (op mod 8 * 256 + b)
    | med_d \<Rightarrow> complete_instr bs 3 (op div 8 mod 4) (op mod 8 * 4 + w mod 4 + 3) (w div 4)
    | lrg_d \<Rightarrow> complete_instr bs 3 (op div 64 mod 4) (op div 8 mod 8 + 3) w
    | pre_d \<Rightarrow> complete_instr bs 1 (op div 64 mod 4) (op div 8 mod 8 + 3) D
    | sml_m \<Rightarrow> complete_instr bs 1 0 (op mod 16) D
    | lrg_m \<Rightarrow> complete_instr bs 2 0 (b + 16) D
    | sml_l \<Rightarrow> complete_instr bs 1 (op mod 16) 0 D
    | lrg_l \<Rightarrow> complete_instr bs 2 (b + 16) 0 D
    | nop \<Rightarrow> complete_instr bs 1 0 0 D
    | eos \<Rightarrow> if length bs < 8 then Cut_end else End_op
    | udef \<Rightarrow> Undefined)"
proof -
  have op: "op < 256" by (simp add: op_def)
  then have l: "op div 64 mod 4 = op div 64" by (simp add: div_less mod_less less_mult_imp_div_less)
  have m: "op > 240 \<Longrightarrow> op mod 16 = op - 240" "224 < op \<Longrightarrow> op < 240 \<Longrightarrow> op mod 16 = op - 224"
    using op by presburger+
  show ?thesis
    using assms(1) l m unfolding instr_of_def class_of_def Let_def op_def [symmetric] b_def [symmetric]
    by (simp add: w_def b_def)
qed

lemma slice_two: "i + 1 < length xs \<Longrightarrow> slice xs i 2 = [xs ! i, xs ! (i + 1)]"
  by (simp add: slice_def numeral_2_eq_2 take_Suc_conv_app_nth)

lemma complete_instrD:
  "complete_instr bs n L M D = Instr n' L' M' D' \<Longrightarrow> n' = n \<and> L' = L \<and> M' = M \<and> D' = D \<and> n + L < length bs"
  by (simp add: complete_instr_def split: if_splits)

lemma le16: "i + 1 < length xs \<Longrightarrow> le_val (slice xs i 2) mod 65536 = unat (xs ! i) + 256 * unat (xs ! (i + 1))"
  using unat_less_256 [of "xs ! i"] unat_less_256 [of "xs ! (i + 1)"]
  by (simp add: slice_two del: unat_less_256)

lemma decode_op_carries:
  assumes ok: "loc_ok st s d D" and i: "instr_of D (rest st s) = Instr n L M D'"
    and ap: "apply_instr L M D' (drop n (rest st s)) (hist st d) = Some o1"
  shows "carries st (s + n + L) D' o1 (decode_op st s d D)"
proof -
  let ?c = "src_buf st ! s" and ?b = "src_buf st ! (s + 1)" and ?b2 = "src_buf st ! (s + 2)"
  have pre: "src_end st \<le> length (src_buf st)" "dst_begin st \<le> d" "d \<le> dst_end st" "dst_end st \<le> length (dst_buf st)"
    and s: "s < src_end st" and D: "dst_begin st + D \<le> d"
    using ok by (auto simp: ok_defs)
  have opc: "load1 (src_buf st) 0 (src_end st) s = Some ?c"
    using s by (simp add: load1_some)
  have len: "length (rest st s) = src_end st - s" by (rule length_rest [OF pre(1)])
  have fit: "0 < n" "n + L < src_end st - s" using instr_of_length [OF i] len by auto
  have ne: "rest st s \<noteq> []" using len s by auto
  have r0: "rest st s ! 0 = ?c" using nth_rest [of s 0 st] s pre by simp
  have ap': "apply_instr L M D' (rest st (s + n)) (hist st d) = Some o1"
    using ap drop_rest [OF pre(1)] by simp
  note cls = instr_of_class [OF ne, of D, unfolded r0, symmetric, unfolded i]
  have lm: "carries st (s + n + L) D' o1 (copy_literal_and_match (update_good st s d D) s d D' n L M)"
    if "L \<le> 3" "0 < M"
    using literal_match_carries [of s n L "update_good st s d D" d M D' o1] that fit pre ap' by simp
  have m: "carries st (s + n) D o1 (copy_match (update_good st s d D) (s + n) d D M)"
    if "L = 0" "0 < M" "D' = D"
  proof -
    have "0 < D" "o1 = expand (hist st d) D M"
      using ap' that by (auto simp: apply_instr_def Let_def split: if_splits)
    then show ?thesis
      using copy_match_carries [of "update_good st s d D" D d "s + n" M] D pre by simp
  qed
  have l: "carries st (s + n + L) D o1 (copy_literal (update_good st s d D) s d D n L)" if "M = 0" "D' = D"
  proof -
    have "o1 = hist st d @ slice (src_buf st) (s + n) L"
      using ap' that fit by (simp add: apply_instr_def take_rest)
    then show ?thesis
      using copy_literal_carries [of s n L "update_good st s d D" d D] fit pre that by simp
  qed
  show ?thesis
  proof (cases "class_of (unat ?c)")
    case sml_d
    from cls have "complete_instr (rest st s) 2 (unat ?c div 64 mod 4) (unat ?c div 8 mod 8 + 3)
        (unat ?c mod 8 * 256 + unat (rest st s ! 1)) = Instr n L M D'"
      unfolding sml_d by simp
    then show ?thesis
      using lm mod_bounds(1) [of "unat ?c div 64"] fit nth_rest [of s 1 st] pre
      by (auto simp: decode_op_def opc opc_tbl_nth sml_d op_sml_d_eq Let_def dest!: complete_instrD)
  next
    case med_d
    from cls have c: "n = 3" "L = unat ?c div 8 mod 4" "M = unat ?c mod 8 * 4 + (unat (rest st s ! 1) + 256 * unat (rest st s ! 2)) mod 4 + 3"
        "D' = (unat (rest st s ! 1) + 256 * unat (rest st s ! 2)) div 4"
      unfolding med_d by (auto dest!: complete_instrD)
    have w: "le_val (slice (src_buf st) (s + 1) 2) mod 65536 = unat (rest st s ! 1) + 256 * unat (rest st s ! 2)"
      using le16 [of "s + 1" "src_buf st"] nth_rest [of s 1 st] nth_rest [of s 2 st] fit c pre by simp
    show ?thesis
      using lm fit mod_bounds(1) [of "unat ?c div 8"]
      by (simp add: decode_op_def opc opc_tbl_nth med_d op_med_d_eq Let_def w [simplified] c)
  next
    case lrg_d
    from cls have c: "n = 3" "L = unat ?c div 64 mod 4" "M = unat ?c div 8 mod 8 + 3"
        "D' = unat (rest st s ! 1) + 256 * unat (rest st s ! 2)"
      unfolding lrg_d by (auto dest!: complete_instrD)
    have w: "le_val (slice (src_buf st) (s + 1) 2) mod 65536 = unat (rest st s ! 1) + 256 * unat (rest st s ! 2)"
      using le16 [of "s + 1" "src_buf st"] nth_rest [of s 1 st] nth_rest [of s 2 st] fit c pre by simp
    show ?thesis
      using lm fit mod_bounds(1) [of "unat ?c div 64"]
      by (simp add: decode_op_def opc opc_tbl_nth lrg_d op_lrg_d_eq Let_def w [simplified] c)
  next
    case pre_d
    from cls have c: "n = 1" "L = unat ?c div 64 mod 4" "M = unat ?c div 8 mod 8 + 3" "D' = D"
      unfolding pre_d by (auto dest!: complete_instrD)
    show ?thesis
      using lm fit mod_bounds(1) [of "unat ?c div 64"]
      by (simp add: decode_op_def opc opc_tbl_nth pre_d op_pre_d_eq Let_def c)
  next
    case sml_m
    from cls have c: "n = 1" "L = 0" "M = unat ?c mod 16" "D' = D"
      unfolding sml_m by (auto dest!: complete_instrD)
    have "240 < unat ?c" using sml_m unfolding class_of_def by (auto split: if_splits)
    with unat_less_256 [of ?c] have "0 < M" unfolding c by presburger
    then show ?thesis
      using m fit by (simp add: decode_op_def opc opc_tbl_nth sml_m op_sml_m_eq c)
  next
    case lrg_m
    from cls have c: "n = 2" "L = 0" "M = unat (rest st s ! 1) + 16" "D' = D"
      unfolding lrg_m by (auto dest!: complete_instrD)
    show ?thesis
      using m fit nth_rest [of s 1 st] pre by (simp add: decode_op_def opc opc_tbl_nth lrg_m op_lrg_m_eq c)
  next
    case sml_l
    from cls have c: "n = 1" "L = unat ?c mod 16" "M = 0" "D' = D"
      unfolding sml_l by (auto dest!: complete_instrD)
    show ?thesis
      using l fit by (simp add: decode_op_def opc opc_tbl_nth sml_l op_sml_l_eq c)
  next
    case lrg_l
    from cls have c: "n = 2" "L = unat (rest st s ! 1) + 16" "M = 0" "D' = D"
      unfolding lrg_l by (auto dest!: complete_instrD)
    show ?thesis
      using l fit nth_rest [of s 1 st] pre by (simp add: decode_op_def opc opc_tbl_nth lrg_l op_lrg_l_eq c)
  next
    case nop
    from cls have c: "n = 1" "L = 0" "M = 0" "D' = D"
      unfolding nop by (auto dest!: complete_instrD)
    have "o1 = hist st d" using ap' c by (simp add: apply_instr_def)
    then show ?thesis
      using fit by (simp add: decode_op_def opc opc_tbl_nth nop op_nop_def Let_def c)
  next
    case eos
    with cls show ?thesis by (simp split: if_splits)
  next
    case udef
    with cls show ?thesis by simp
  qed
qed

text \<open>Where the stream stops, so does the decoder, at the start of the instruction.\<close>

lemma decode_op_stops:
  assumes ok: "loc_ok st s d D"
  shows "instr_of D (rest st s) = Cut \<Longrightarrow> decode_op st s d D = Some (Stop (update_good st s d D))"
    and "instr_of D (rest st s) = End_op \<Longrightarrow>
      decode_op st s d D = Some (Stop (update_good (st\<lparr>end_of_stream := True\<rparr>) (s + 8) d D))"
proof -
  let ?c = "src_buf st ! s"
  have pre: "src_end st \<le> length (src_buf st)" and s: "s < src_end st" using ok by (auto simp: ok_defs)
  have opc: "load1 (src_buf st) 0 (src_end st) s = Some ?c"
    using s by (simp add: load1_some)
  have len: "length (rest st s) = src_end st - s" by (rule length_rest [OF pre])
  have ne: "rest st s \<noteq> []" using len s by auto
  have r0: "rest st s ! 0 = ?c" using nth_rest [of s 0 st] s pre by simp
  have b: "src_end st - s > 1 \<Longrightarrow> rest st s ! 1 = src_buf st ! (s + 1)" using nth_rest [of s 1 st] pre by simp
  note cls = instr_of_class [OF ne, of D, unfolded r0]
  show "decode_op st s d D = Some (Stop (update_good st s d D))" if "instr_of D (rest st s) = Cut"
    using that b unfolding cls
    by (cases "class_of (unat ?c)")
      (auto simp: decode_op_def opc opc_tbl_nth op_eqs op_nop_def op_eos_def op_udef_def complete_instr_def copy_literal_def len Let_def
        split: if_splits)
  show "decode_op st s d D = Some (Stop (update_good (st\<lparr>end_of_stream := True\<rparr>) (s + 8) d D))"
    if "instr_of D (rest st s) = End_op"
    using that unfolding cls
    by (cases "class_of (unat ?c)")
      (auto simp: decode_op_def opc opc_tbl_nth op_eos_def complete_instr_def len split: if_splits)
qed

text \<open>The result of a call: the stream's end was reached, or the state stands for the same
  output and the destination is full or everything is written.\<close>

definition delivered :: "byte list \<Rightarrow> status \<Rightarrow> lzvn_decoder_state \<Rightarrow> bool" where
  "delivered out why st \<longleftrightarrow>
     (if end_of_stream st then why = Finished \<and> written st = out
      else denote st = (out, why) \<and> (dst st = dst_end st \<or> why = Truncated \<and> written st = out))"

lemma lzvn_run_denotes:
  assumes "loc_ok st s d D" "\<not> end_of_stream st" "lzvn_run_spec D (rest st s) (hist st d) = (out, why)"
    "why = Finished \<or> why = Truncated"
  shows "\<exists>st'. lzvn_run st s d D = Some st' \<and> delivered out why st'"
  using assms
proof (induction st s d D rule: lzvn_run.induct)
  case (1 st s d D)
  note ok = 1(2) and spec = 1(4)
  show ?case
  proof (cases "instr_of D (rest st s)")
    case (Instr n L M D')
    then obtain o1 where ap: "apply_instr L M D' (drop n (rest st s)) (hist st d) = Some o1"
        and r: "lzvn_run_spec D' (drop (n + L) (rest st s)) o1 = (out, why)"
      using spec 1(5) by (auto simp: lzvn_run_spec.simps [of D] split: option.splits)
    have sr: "drop (n + L) (rest st s) = rest st (s + n + L)"
      using drop_rest [of st "n + L" s] ok by (simp add: ok_defs add.assoc)
    have c: "carries st (s + n + L) D' o1 (decode_op st s d D)" by (rule decode_op_carries [OF ok Instr ap])
    have safe: "outcome_ok st d (decode_op st s d D)" by (rule decode_op_safe [OF ok])
    show ?thesis
    proof (cases "decode_op st s d D")
      case (Some x)
      show ?thesis
      proof (cases x)
        case (Stop st')
        with Some c 1(3) r sr show ?thesis
          by (simp add: lzvn_run.simps [of st s d D] delivered_def)
      next
        case (Jump st' s' d' E)
        have "rest st' s' = rest st (s + n + L)"
          using safe c Some Jump by (simp add: writes_def rest_def)
        then show ?thesis
          using 1(1) [OF Some Jump] safe c Some Jump 1(3,5) r sr
          by (simp add: lzvn_run.simps [of st s d D])
      qed
    qed (use c in simp)
  next
    case Cut
    then have "out = hist st d" "why = Truncated" using spec by (simp_all add: lzvn_run_spec.simps [of D])
    moreover have "written (update_good st s d D) = hist st d"
      by (simp add: written_def hist_def update_good_def)
    moreover have "denote (update_good st s d D) = (out, why)"
      using spec ok by (simp add: denote_def update_good_def loc_ok_def lzvn_pending_def written_def hist_def rest_def)
    ultimately show ?thesis
      using decode_op_stops(1) [OF ok Cut] 1(3) by (simp add: lzvn_run.simps [of st s d D] delivered_def)
  next
    case End_op
    then show ?thesis
      using decode_op_stops(2) [OF ok End_op] spec
      by (simp add: lzvn_run.simps [of st s d D] delivered_def lzvn_run_spec.simps [of D] written_def hist_def update_good_def)
  next
    case Cut_end
    with spec 1(5) show ?thesis by (simp add: lzvn_run_spec.simps [of D])
  next
    case Undefined
    with spec 1(5) show ?thesis by (simp add: lzvn_run_spec.simps [of D])
  qed
qed

lemma lzvn_resume_carries:
  assumes ok: "lzvn_ok st" "lzvn_pending st"
    and ap: "apply_instr (st_L st) (st_M st) (st_D st) (rest st (src st)) (written st) = Some o1"
  shows "carries st (src st + st_L st) (st_D st) o1 (lzvn_resume st)"
proof -
  let ?st = "st\<lparr>st_L := 0, st_M := 0, st_D := 0\<rparr>" and ?s = "src st" and ?d = "dst st" and ?L = "st_L st" and ?M = "st_M st" and ?D = "st_D st"
  have pre: "src_end st \<le> length (src_buf st)" "dst_begin st \<le> ?d" "?d \<le> dst_end st" "dst_end st \<le> length (dst_buf st)"
    and p: "?s + ?L < src_end st" "?L \<noteq> 0 \<Longrightarrow> ?M \<noteq> 0 \<Longrightarrow> ?L \<le> 3" "?L = 0 \<or> ?M = 0 \<Longrightarrow> ?D \<le> ?d - dst_begin st"
    using ok by (auto simp: lzvn_ok_def pending_ok_def)
  have same: "rest ?st = rest st" "hist ?st = hist st" by (auto simp: rest_def hist_def fun_eq_iff)
  have h: "written st = hist st ?d" by (simp add: written_def)
  have "carries ?st (?s + ?L) ?D o1 (lzvn_resume st)"
  proof (cases "?M = 0")
    case True
    then have "o1 = hist st ?d @ slice (src_buf st) ?s ?L"
      using ap p(1) h by (simp add: apply_instr_def take_rest)
    then show ?thesis
      using copy_literal_carries [of ?s 0 ?L ?st ?d ?D] p pre True by (simp add: lzvn_resume_def same)
  next
    case M: False
    show ?thesis
    proof (cases "?L = 0")
      case True
      then have "0 < ?D" "o1 = expand (hist st ?d) ?D ?M"
        using ap M h by (auto simp: apply_instr_def Let_def split: if_splits)
      then show ?thesis
        using copy_match_carries [of ?st ?D ?d ?s ?M] p(3) pre True M by (simp add: lzvn_resume_def same)
    next
      case False
      then show ?thesis
        using literal_match_carries [of ?s 0 ?L ?st ?d ?M ?D o1] p pre M ap h
        by (simp add: lzvn_resume_def Let_def same)
    qed
  qed
  with carries_cong [of ?st st] show ?thesis by (simp add: same)
qed

lemma lzvn_decode_denotes:
  assumes ok: "lzvn_ok st" and run: "\<not> end_of_stream st" and den: "denote st = (out, why)"
    and why: "why = Finished \<or> why = Truncated"
  shows "\<exists>st'. lzvn_decode st = Some st' \<and> delivered out why st'"
proof (cases "src_end st - src st = 0 \<or> dst_end st - dst st = 0")
  case True
  have "why = Truncated \<and> written st = out" if "src_end st - src st = 0"
  proof -
    have "\<not> lzvn_pending st" using ok that by (auto simp: lzvn_ok_def pending_ok_def)
    then show ?thesis
      using den that by (simp add: denote_def rest_def lzvn_run_spec.simps [of "d_prev st"] instr_of_def)
  qed
  with True den run ok show ?thesis by (auto simp: lzvn_decode_def delivered_def lzvn_ok_def)
next
  case go: False
  show ?thesis
  proof (cases "lzvn_pending st")
    case True
    obtain o1 where ap: "apply_instr (st_L st) (st_M st) (st_D st) (rest st (src st)) (written st) = Some o1"
        and r: "lzvn_run_spec (st_D st) (rest st (src st + st_L st)) o1 = (out, why)"
      using den why True drop_rest [of st] ok by (auto simp: denote_def lzvn_ok_def split: option.splits)
    have c: "carries st (src st + st_L st) (st_D st) o1 (lzvn_resume st)"
      by (rule lzvn_resume_carries [OF ok True ap])
    have safe: "outcome_ok st (dst st) (lzvn_resume st)"
      by (rule lzvn_resume_safe [OF ok True]) (use go in simp)
    show ?thesis
    proof (cases "lzvn_resume st")
      case (Some x)
      show ?thesis
      proof (cases x)
        case (Stop st')
        with Some c run r go True show ?thesis
          by (simp add: lzvn_decode_def lzvn_pending_def delivered_def)
      next
        case (Jump st' s' d' E)
        have "rest st' s' = rest st (src st + st_L st)"
          using safe c Some Jump by (simp add: writes_def rest_def)
        then show ?thesis
          using lzvn_run_denotes [of st' s' d' E out why] safe c Some Jump run why r go True
          by (simp add: lzvn_decode_def lzvn_pending_def)
      qed
    qed (use c in simp)
  next
    case False
    then have "loc_ok st (src st) (dst st) (d_prev st)"
      using ok go by (auto simp: ok_defs)
    from lzvn_run_denotes [OF this run _ why, of out] den go False show ?thesis
      by (simp add: lzvn_decode_def lzvn_pending_def denote_def written_def)
  qed
qed

section \<open>Output handed over in pieces\<close>

text \<open>A caller gives the decoder room up to \<open>e\<close>, and more room each time it returns.\<close>

fun decode_pieces :: "nat list \<Rightarrow> lzvn_decoder_state \<Rightarrow> lzvn_decoder_state option" where
  "decode_pieces [] st = Some st"
| "decode_pieces (e # es) st =
     (if end_of_stream st then Some st
      else case lzvn_decode (st\<lparr>dst_end := e\<rparr>) of None \<Rightarrow> None | Some st' \<Rightarrow> decode_pieces es st')"

lemma denote_room [simp]: "denote (st\<lparr>dst_end := e\<rparr>) = denote st"
proof -
  have "rest (st\<lparr>dst_end := e\<rparr>) = rest st" "written (st\<lparr>dst_end := e\<rparr>) = written st"
    by (auto simp: rest_def written_def hist_def fun_eq_iff)
  then show ?thesis by (simp add: denote_def lzvn_pending_def split: option.split)
qed

lemma decode_pieces_ok:
  assumes "lzvn_ok st" "\<not> end_of_stream st" "denote st = (out, why)" "why = Finished \<or> why = Truncated"
    "sorted (dst_end st # es)" "last (dst_end st # es) \<le> length (dst_buf st)" "es \<noteq> []"
  shows "\<exists>st'. decode_pieces es st = Some st' \<and> lzvn_ok st' \<and> delivered out why st' \<and>
           (end_of_stream st' \<or> dst_end st' = last es) \<and> dst_begin st' = dst_begin st"
  using assms
proof (induction es arbitrary: st)
  case (Cons e es)
  let ?st = "st\<lparr>dst_end := e\<rparr>"
  have e: "dst_end st \<le> e" "e \<le> length (dst_buf st)"
    using Cons.prems(5,6) by (auto split: if_splits intro: order_trans [of e "last es"])
  have ok: "lzvn_ok ?st" using Cons.prems(1) e by (auto simp: ok_defs)
  obtain st' where st': "lzvn_decode ?st = Some st'" "lzvn_ok st'" "writes ?st (dst ?st) st'"
    using lzvn_decode_ok [OF ok] by blast
  have d: "delivered out why st'"
    using lzvn_decode_denotes [OF ok _ _ Cons.prems(4), of out] Cons.prems(2,3) st'(1) by auto
  show ?case
  proof (cases "es = [] \<or> end_of_stream st'")
    case True
    then show ?thesis
      using st' d Cons.prems(2) by (cases es) (auto simp: writes_def)
  next
    case False
    have "dst_end st' = e" "dst_begin st' = dst_begin st" "length (dst_buf st') = length (dst_buf st)"
      using st'(3) by (auto simp: writes_def frame_length)
    then show ?thesis
      using Cons.IH [of st'] st' d False Cons.prems by (auto simp: delivered_def)
  qed
qed simp

lemma apply_instr_prefix: "apply_instr L M D bs out = Some o1 \<Longrightarrow> take (length out) o1 = out"
proof -
  have "take (length out) (expand (out @ ys) D M) = out" for ys
    using expand_prefix [of "out @ ys" D M] by (metis append_eq_conv_conj append_take_drop_id append.assoc)
  then show "apply_instr L M D bs out = Some o1 \<Longrightarrow> take (length out) o1 = out"
    by (auto simp: apply_instr_def Let_def split: if_splits)
qed

lemma take_prefix_trans: "take (length a) b = a \<Longrightarrow> take (length b) c = b \<Longrightarrow> take (length a) c = a"
  by (metis length_take min.absorb_iff2 nle_le take_take)

lemma run_spec_prefix: "take (length out) (fst (lzvn_run_spec D bs out)) = out"
proof (induction D bs out rule: lzvn_run_spec.induct)
  case (1 D bs out)
  show ?case
  proof (cases "instr_of D bs")
    case (Instr n L M D')
    show ?thesis
    proof (cases "apply_instr L M D' (drop n bs) out")
      case (Some o1)
      then show ?thesis
        using 1 [OF Instr Some] apply_instr_prefix [OF Some] Instr take_prefix_trans
        by (simp add: lzvn_run_spec.simps [of D bs])
    qed (simp add: lzvn_run_spec.simps [of D bs] Instr)
  qed (simp_all add: lzvn_run_spec.simps [of D bs])
qed

lemma denote_prefix: "take (length (written st)) (fst (denote st)) = written st"
  using run_spec_prefix apply_instr_prefix take_prefix_trans
  by (auto simp: denote_def split: option.split) blast

lemma delivered_fits:
  assumes "lzvn_ok st" "delivered out why st" "length out \<le> dst_end st - dst_begin st"
  shows "written st = out"
proof (cases "end_of_stream st \<or> dst st \<noteq> dst_end st")
  case False
  then have "denote st = (out, why)" "dst st = dst_end st" using assms(2) by (auto simp: delivered_def)
  moreover have "length (written st) = dst st - dst_begin st"
    unfolding written_def by (rule length_hist) (use assms(1) in \<open>auto simp: lzvn_ok_def\<close>)
  ultimately show ?thesis using denote_prefix [of st] assms(3) by simp
qed (use assms(2) in \<open>auto simp: delivered_def split: if_splits\<close>)

definition decoder_start :: "byte list \<Rightarrow> byte list \<Rightarrow> lzvn_decoder_state" where
  "decoder_start bs out =
     \<lparr>src_buf = bs, src = 0, src_end = length bs, dst_buf = out, dst = 0, dst_begin = 0, dst_end = length out,
      st_L = 0, st_M = 0, st_D = 0, d_prev = 0, end_of_stream = False\<rparr>"

lemma decoder_start_ok: "lzvn_ok (decoder_start bs out)" "\<not> end_of_stream (decoder_start bs out)"
  "denote (decoder_start bs out) = lzvn_run_spec 0 bs []"
  by (simp_all add: decoder_start_def ok_defs denote_def rest_def written_def hist_def slice_def)

section \<open>Properties\<close>

text \<open>C11. The decoder is memory safe and returns for every input: from a well-formed state,
  \<open>lzvn_decode\<close> returns a well-formed state and has changed no byte of the destination
  outside \<open>[dst, dst_end)\<close>.  No read or write left its buffer: such an access is \<open>None\<close>.\<close>

theorem lzvn_decode_safe:
  assumes "lzvn_ok st"
  shows "\<exists>st'. lzvn_decode st = Some st' \<and> lzvn_ok st' \<and> writes st (dst st) st'"
  using assms by (rule lzvn_decode_ok)

text \<open>C12. What the decoder writes is what the instructions mean: if the stream of a state
  ends with its marker or is cut between instructions, a call either reaches the marker with
  exactly the stream's output written, or leaves a state that stands for the same output, with
  the destination full or the source used up.\<close>

theorem lzvn_decode_refines:
  assumes "lzvn_ok st" and "\<not> end_of_stream st" and "denote st = (out, why)"
    and "why = Finished \<or> why = Truncated"
  shows "\<exists>st'. lzvn_decode st = Some st' \<and> delivered out why st'"
  using assms by (rule lzvn_decode_denotes)

text \<open>C13. Decoding in pieces gives the same output as decoding at once: with the destination
  limit raised step by step to room for the whole output, the calls resume in the middle of
  literals and matches and in the end exactly the output is there.\<close>

theorem lzvn_decode_in_pieces:
  assumes "lzvn_run_spec 0 bs [] = (xs, Finished)" and "es \<noteq> []" and "sorted es"
    and "last es = length out" and "length xs \<le> length out"
  shows "\<exists>st'. decode_pieces es ((decoder_start bs out)\<lparr>dst_end := 0\<rparr>) = Some st' \<and> written st' = xs"
proof -
  let ?st = "(decoder_start bs out)\<lparr>dst_end := 0\<rparr>"
  have ok: "lzvn_ok ?st" "\<not> end_of_stream ?st" "denote ?st = (xs, Finished)"
    using decoder_start_ok(3) [of bs out] assms(1) by (simp_all only: denote_room) (simp_all add: decoder_start_def ok_defs)
  have len: "last (dst_end ?st # es) \<le> length (dst_buf ?st)" using assms(2,4) by (simp add: decoder_start_def)
  obtain st' where st': "decode_pieces es ?st = Some st'" "lzvn_ok st'" "delivered xs Finished st'"
      "end_of_stream st' \<or> dst_end st' = last es" "dst_begin st' = dst_begin ?st"
    using decode_pieces_ok [OF ok _ _ len assms(2)] assms(3) by auto
  have "written st' = xs"
  proof (cases "end_of_stream st'")
    case True
    then show ?thesis using st'(3) by (simp add: delivered_def)
  next
    case False
    then show ?thesis
      using delivered_fits [OF st'(2,3)] st'(4,5) assms(4,5) by (simp add: decoder_start_def)
  qed
  with st'(1) show ?thesis by blast
qed

text \<open>A match without a previous distance is not rejected: the stream \<open>F2 06 00 ...\<close> has no
  literal at all, and decoding it succeeds with the two bytes that were in the destination
  before the call.\<close>

lemma lzvn_match_without_distance:
  "\<exists>st'. lzvn_decode (decoder_start [0xF2, 6, 0, 0, 0, 0, 0, 0, 0] [x, y]) = Some st' \<and>
     end_of_stream st' \<and> written st' = [x, y]"
proof -
  have "map_option (\<lambda>s. (end_of_stream s, written s))
      (lzvn_decode (decoder_start [0xF2, 6, 0, 0, 0, 0, 0, 0, 0] [x, y])) = Some (True, [x, y])"
    by code_simp
  then show ?thesis by auto
qed

text \<open>An end marker cut short is reported with a stale state: when a literal was resumed
  in the same call, its saved rest is already cleared and the position is still the old one,
  so a later call would read the literal \<open>42\<close> as an opcode.\<close>

lemma lzvn_cut_marker_forgets:
  "\<exists>st1 st2. lzvn_decode ((decoder_start [0xE2, 0x41, 0x42, 6, 0, 0] (replicate 10 0))\<lparr>dst_end := 1\<rparr>) = Some st1 \<and>
     lzvn_decode (st1\<lparr>dst_end := 10\<rparr>) = Some st2 \<and> denote st1 = ([0x41, 0x42], Cut_marker) \<and>
     denote st2 \<noteq> denote st1 \<and> src st2 = 2 \<and> \<not> lzvn_pending st2"
proof -
  have "case lzvn_decode ((decoder_start [0xE2, 0x41, 0x42, 6, 0, 0] (replicate 10 0))\<lparr>dst_end := 1\<rparr>) of
      None \<Rightarrow> False
    | Some st1 \<Rightarrow> (case lzvn_decode (st1\<lparr>dst_end := 10\<rparr>) of
         None \<Rightarrow> False
       | Some st2 \<Rightarrow> denote st1 = ([0x41, 0x42], Cut_marker) \<and> denote st2 \<noteq> denote st1 \<and> src st2 = 2 \<and> \<not> lzvn_pending st2)"
    by code_simp
  then show ?thesis by (auto split: option.splits)
qed

section \<open>Witnesses\<close>

text \<open>One literal \<open>41\<close> and a match of three bytes at distance one.\<close>

abbreviation sample_stream :: "byte list" where
  "sample_stream \<equiv> [0xE1, 0x41, 0, 1, 6, 0, 0, 0, 0, 0, 0, 0]"

lemma sample_spec: "lzvn_run_spec 0 sample_stream [] = ([0x41, 0x41, 0x41, 0x41], Finished)"
  by code_simp

lemma sample_denote: "denote (decoder_start sample_stream [0, 0]) = ([0x41, 0x41, 0x41, 0x41], Finished)"
  by (simp only: decoder_start_ok(3) sample_spec)

theorem lzvn_decode_safe_witness:
  "\<exists>st'. lzvn_decode (decoder_start sample_stream [0, 0]) = Some st' \<and> lzvn_ok st' \<and>
     writes (decoder_start sample_stream [0, 0]) (dst (decoder_start sample_stream [0, 0])) st'"
  by (rule lzvn_decode_safe [OF decoder_start_ok(1)])

theorem lzvn_decode_refines_witness:
  "\<exists>st'. lzvn_decode (decoder_start sample_stream [0, 0]) = Some st' \<and> delivered [0x41, 0x41, 0x41, 0x41] Finished st'"
  by (rule lzvn_decode_refines [OF decoder_start_ok(1,2) sample_denote]) simp

theorem lzvn_decode_in_pieces_witness:
  "\<exists>st'. decode_pieces [2, 3, 5] ((decoder_start sample_stream (replicate 5 0))\<lparr>dst_end := 0\<rparr>) = Some st' \<and>
     written st' = [0x41, 0x41, 0x41, 0x41]"
  by (rule lzvn_decode_in_pieces [OF sample_spec]) simp_all

end
