(* ===== verification/LZFSE_Decode.thy ===== *)
theory LZFSE_Decode
  imports LZFSE_Header LZVN_Decode
begin

text \<open>
  The LZFSE decoder, \<open>lzfse_decode_base.c\<close> and \<open>lzfse_decode.c\<close> under
  \<open>src/src/darwin/libcompression/lzfse/\<close>, with the state records of
  \<open>lzfse_internal.h\<close>.  Pointers are indices into the source and destination memory;
  \<open>remaining_bytes\<close>, which the code keeps equal to \<open>dst_end - dst - 32\<close>, is that
  difference.  \<open>None\<close> is an access outside the memory, so that returning a result is
  memory safety; the status is the result proper.  \<open>b_literals\<close> is the literal array
  together with the 16 bytes of the state that follow it, since the wide copies may
  read up to 7 bytes behind the array.  After \<open>Status_error\<close> only the destination
  memory of the returned state is meant; the callers drop the rest.

  The tables of the decoder shift by nonnegative counts only (\<open>decoder_entry_eq\<close>), so
  the value of an undefined shift, 0 here, plays no role.
\<close>

section \<open>State\<close>

record lzfse_block_state =
  b_n_matches :: nat
  b_n_lmd_payload_bytes :: nat
  b_current_literal :: nat
  b_l_value :: nat
  b_m_value :: nat
  b_d_value :: int
  b_lmd_in_stream :: fse_stream
  b_lmd_in_buf :: nat
  b_l_state :: nat
  b_m_state :: nat
  b_d_state :: nat
  b_l_decoder :: "fse_value_decoder_entry list"
  b_m_decoder :: "fse_value_decoder_entry list"
  b_d_decoder :: "fse_value_decoder_entry list"
  b_literal_decoder :: "nat list"
  b_literals :: "byte list"

record lzvn_block_state =
  v_n_raw_bytes :: nat
  v_n_payload_bytes :: nat
  v_d_prev :: nat

record lzfse_decoder_state =
  z_mem :: "byte list"
  z_src :: nat
  z_src_begin :: nat
  z_src_end :: nat
  z_out :: "byte list"
  z_dst :: nat
  z_dst_begin :: nat
  z_dst_end :: nat
  z_end_of_stream :: bool
  z_block_magic :: u32
  z_lzfse :: lzfse_block_state
  z_lzvn :: lzvn_block_state
  z_n_raw_bytes :: nat

section \<open>Literals and matches\<close>

text \<open>\<open>copy\<close> moves 8 bytes at least once.\<close>

definition copies :: "nat \<Rightarrow> nat" where
  "copies n = (if n = 0 then 1 else (n + 7) div 8)"

datatype lmd_result =
    Lmd_error
  | Lmd_full nat nat nat nat "byte list"
  | Lmd_next nat nat "byte list"

text \<open>From the label \<open>ExecuteMatch\<close> on: \<open>Lmd_full\<close> carries \<open>L\<close>, \<open>M\<close>, the literal and the
  destination position, \<open>Lmd_next\<close> the positions.\<close>

definition execute_match ::
  "byte list \<Rightarrow> nat \<Rightarrow> nat \<Rightarrow> nat \<Rightarrow> nat \<Rightarrow> int \<Rightarrow> nat \<Rightarrow> nat \<Rightarrow> byte list \<Rightarrow> lmd_result option" where
  "execute_match literals lo hi L M D lit d out =
     (if D mod 2 ^ 32 > int d + int L - int lo then Some Lmd_error
      else if D < 0 then None
      else
       (let remaining_bytes = int hi - int d - 32;
            ld = (\<lambda>w i. load literals 0 (length literals) (lit + i) w) in
        if int L + int M \<le> remaining_bytes then
          do { b \<leftarrow> copy_loop 8 (ld 8) lo hi d (copies L) out;
               b \<leftarrow> (if D \<ge> 8 \<or> D \<ge> int M then match_loop 8 lo hi (d + L) (nat D) (copies M) b
                    else match_loop 1 lo hi (d + L) (nat D) M b);
               Some (Lmd_next (lit + L) (d + L + M) b) }
        else
         (let remaining_bytes = remaining_bytes + 32 in
          if int L \<le> remaining_bytes then
            (let remaining_bytes = remaining_bytes - int L in
             do { b \<leftarrow> copy_loop 1 (ld 1) lo hi d L out;
                  if int M \<le> remaining_bytes then
                    do { b \<leftarrow> match_loop 1 lo hi (d + L) (nat D) M b;
                         Some (Lmd_next (lit + L) (d + L + M) b) }
                  else
                    do { b \<leftarrow> match_loop 1 lo hi (d + L) (nat D) (nat remaining_bytes) b;
                         Some (Lmd_full 0 (M - nat remaining_bytes) (lit + L) (d + L + nat remaining_bytes) b) } })
          else
            do { b \<leftarrow> copy_loop 1 (ld 1) lo hi d (nat remaining_bytes) out;
                 Some (Lmd_full (L - nat remaining_bytes) M (lit + nat remaining_bytes) (d + nat remaining_bytes) b) })))"

text \<open>The local variables of \<open>lzfse_decode_lmd\<close>.\<close>

record lmd_vars =
  x_l_state :: nat
  x_m_state :: nat
  x_d_state :: nat
  x_in :: fse_stream
  x_src :: nat
  x_lit :: nat
  x_dst :: nat
  x_L :: nat
  x_M :: nat
  x_D :: int
  x_out :: "byte list"

text \<open>The next triple; the inner \<open>None\<close> is the error status.  Lengths are never negative
  (shown); a negative value would be \<open>None\<close>.\<close>

definition next_lmd :: "lzfse_decoder_state \<Rightarrow> lmd_vars \<Rightarrow> lmd_vars option option" where
  "next_lmd s x =
     (let bs = z_lzfse s in
      do { r \<leftarrow> fse_in_checked_flush64 (z_mem s) (z_src_begin s) (x_in x) (x_src x);
           case r of None \<Rightarrow> Some None
           | Some (inp, p) \<Rightarrow>
             do { (L, ls, inp) \<leftarrow> fse_value_decode (x_l_state x) (b_l_decoder bs) inp;
                  if L < 0 then None
                  else if x_lit x + nat L \<ge> LZFSE_LITERALS_PER_BLOCK + 64 then Some None
                  else
                    do { (M, ms, inp) \<leftarrow> fse_value_decode (x_m_state x) (b_m_decoder bs) inp;
                         (new_d, ds, inp) \<leftarrow> fse_value_decode (x_d_state x) (b_d_decoder bs) inp;
                         if M < 0 then None
                         else Some (Some (x\<lparr>x_l_state := ls, x_m_state := ms, x_d_state := ds, x_in := inp, x_src := p,
                                            x_L := nat L, x_M := nat M, x_D := (if new_d \<noteq> 0 then new_d else x_D x)\<rparr>)) } } })"

text \<open>The loop, with the number of triples left.  \<open>run_match\<close> executes the current triple
  and goes on.\<close>

definition run_match ::
  "lzfse_decoder_state \<Rightarrow> (lmd_vars \<Rightarrow> (lzfse_status \<times> nat \<times> lmd_vars) option) \<Rightarrow> nat \<Rightarrow> lmd_vars \<Rightarrow> (lzfse_status \<times> nat \<times> lmd_vars) option" where
  "run_match s cont n x =
     (case execute_match (b_literals (z_lzfse s)) (z_dst_begin s) (z_dst_end s) (x_L x) (x_M x) (x_D x) (x_lit x) (x_dst x) (x_out x) of
        None \<Rightarrow> None
      | Some Lmd_error \<Rightarrow> Some (Status_error, n, x)
      | Some (Lmd_full L M lit d b) \<Rightarrow> Some (Dst_full, n, x\<lparr>x_L := L, x_M := M, x_lit := lit, x_dst := d, x_out := b\<rparr>)
      | Some (Lmd_next lit d b) \<Rightarrow> cont (x\<lparr>x_L := 0, x_M := 0, x_lit := lit, x_dst := d, x_out := b\<rparr>))"

fun lmd_loop :: "lzfse_decoder_state \<Rightarrow> nat \<Rightarrow> lmd_vars \<Rightarrow> (lzfse_status \<times> nat \<times> lmd_vars) option" where
  "lmd_loop s 0 x = Some (Status_ok, 0, x)"
| "lmd_loop s (Suc symbols) x =
     (case next_lmd s x of
        None \<Rightarrow> None
      | Some None \<Rightarrow> Some (Status_error, Suc symbols, x)
      | Some (Some x') \<Rightarrow> run_match s (lmd_loop s symbols) symbols x')"

definition lmd_start :: "lzfse_decoder_state \<Rightarrow> lmd_vars" where
  "lmd_start s =
     (let bs = z_lzfse s in
      \<lparr>x_l_state = b_l_state bs, x_m_state = b_m_state bs, x_d_state = b_d_state bs, x_in = b_lmd_in_stream bs,
       x_src = z_src s + b_lmd_in_buf bs, x_lit = b_current_literal bs, x_dst = z_dst s,
       x_L = b_l_value bs, x_M = b_m_value bs, x_D = b_d_value bs, x_out = z_out s\<rparr>)"

definition lmd_save :: "lzfse_decoder_state \<Rightarrow> nat \<Rightarrow> lmd_vars \<Rightarrow> lzfse_decoder_state" where
  "lmd_save s n x =
     s\<lparr>z_lzfse := (z_lzfse s)\<lparr>b_l_value := x_L x, b_m_value := x_M x, b_d_value := x_D x, b_l_state := x_l_state x,
          b_m_state := x_m_state x, b_d_state := x_d_state x, b_lmd_in_stream := x_in x, b_n_matches := n,
          b_lmd_in_buf := nat ((int (x_src x) - int (z_src s)) mod 2 ^ 32), b_current_literal := x_lit x\<rparr>,
       z_dst := x_dst x, z_out := x_out x\<rparr>"

definition lzfse_decode_lmd :: "lzfse_decoder_state \<Rightarrow> (lzfse_status \<times> lzfse_decoder_state) option" where
  "lzfse_decode_lmd s =
     (let x = lmd_start s; symbols = b_n_matches (z_lzfse s) in
      case (if x_L x \<noteq> 0 \<or> x_M x \<noteq> 0 then run_match s (lmd_loop s symbols) symbols x else lmd_loop s symbols x) of
        None \<Rightarrow> None
      | Some (Status_ok, n, x) \<Rightarrow> Some (Status_ok, s\<lparr>z_dst := x_dst x, z_out := x_out x\<rparr>)
      | Some (Dst_full, n, x) \<Rightarrow> Some (Dst_full, lmd_save s n x)
      | Some (st, n, x) \<Rightarrow> Some (st, s\<lparr>z_out := x_out x\<rparr>))"

section \<open>Blocks\<close>

text \<open>The four interleaved literal streams; the inner \<open>None\<close> is the error status.\<close>

fun decode_literals ::
  "byte list \<Rightarrow> nat \<Rightarrow> nat list \<Rightarrow> nat \<Rightarrow> nat \<times> nat \<times> nat \<times> nat \<Rightarrow> fse_stream \<Rightarrow> nat \<Rightarrow> byte list option option" where
  "decode_literals mem buf_start t 0 states inp buf = Some (Some [])"
| "decode_literals mem buf_start t (Suc n) (state0, state1, state2, state3) inp buf =
     do { r \<leftarrow> fse_in_checked_flush64 mem buf_start inp buf;
          case r of None \<Rightarrow> Some None
          | Some (inp, buf) \<Rightarrow>
            do { (c0, state0, inp) \<leftarrow> fse_decode state0 t inp;
                 (c1, state1, inp) \<leftarrow> fse_decode state1 t inp;
                 (c2, state2, inp) \<leftarrow> fse_decode state2 t inp;
                 (c3, state3, inp) \<leftarrow> fse_decode state3 t inp;
                 map_option (map_option (\<lambda>cs. c0 # c1 # c2 # c3 # cs))
                   (decode_literals mem buf_start t n (state0, state1, state2, state3) inp buf) } }"

text \<open>A block result is a status to return, or none: the block loop goes on.\<close>

type_synonym block_result = "(lzfse_status option \<times> lzfse_decoder_state) option"

abbreviation return_status :: "lzfse_status \<Rightarrow> lzfse_decoder_state \<Rightarrow> block_result" where
  "return_status st s \<equiv> Some (Some st, s)"

definition start_uncompressed :: "lzfse_decoder_state \<Rightarrow> block_result" where
  "start_uncompressed s =
     (if z_src s + 8 > z_src_end s then return_status Src_empty s
      else do { n \<leftarrow> load4 (z_mem s) 0 (length (z_mem s)) (z_src s + 4);
                Some (None, s\<lparr>z_n_raw_bytes := unat n, z_src := z_src s + 8, z_block_magic := LZFSE_UNCOMPRESSED_BLOCK_MAGIC\<rparr>) })"

definition start_lzvn :: "lzfse_decoder_state \<Rightarrow> block_result" where
  "start_lzvn s =
     (if z_src s + 12 > z_src_end s then return_status Src_empty s
      else do { n \<leftarrow> load4 (z_mem s) 0 (length (z_mem s)) (z_src s + 4);
                m \<leftarrow> load4 (z_mem s) 0 (length (z_mem s)) (z_src s + 8);
                Some (None, s\<lparr>z_lzvn := \<lparr>v_n_raw_bytes = unat n, v_n_payload_bytes = unat m, v_d_prev = 0\<rparr>,
                              z_src := z_src s + 12, z_block_magic := LZFSE_COMPRESSEDLZVN_BLOCK_MAGIC\<rparr>) })"

text \<open>The header of a V1 or V2 block and its size.\<close>

datatype header_result = Header_short | Header_bad | Header lzfse_header_v1 nat

definition read_header :: "lzfse_decoder_state \<Rightarrow> u32 \<Rightarrow> header_result option" where
  "read_header s magic =
     (let len = length (z_mem s) in
      if magic = LZFSE_COMPRESSEDV2_BLOCK_MAGIC then
        if z_src s + 32 > z_src_end s then Some Header_short
        else do { header_size \<leftarrow> lzfse_decode_v2_header_size (z_mem s) len (z_src s);
                  if z_src s + header_size > z_src_end s then Some Header_short
                  else do { r \<leftarrow> lzfse_decode_v1 (z_mem s) len (z_src s);
                            case r of None \<Rightarrow> Some Header_bad | Some h \<Rightarrow> Some (Header h header_size) } }
      else
        if z_src s + 772 > z_src_end s then Some Header_short
        else do { bs \<leftarrow> load (z_mem s) 0 len (z_src s) 772; Some (Header (header_v1_of_bytes bs) 772) })"

definition init_tables :: "lzfse_header_v1 \<Rightarrow> lzfse_block_state \<Rightarrow> lzfse_block_state option" where
  "init_tables h bs =
     do { lt \<leftarrow> fse_init_value_decoder_table 0 LZFSE_ENCODE_L_STATES (h_l_freq h) l_extra_bits l_base_value (b_l_decoder bs);
          mt \<leftarrow> fse_init_value_decoder_table 0 LZFSE_ENCODE_M_STATES (h_m_freq h) m_extra_bits m_base_value (b_m_decoder bs);
          dt \<leftarrow> fse_init_value_decoder_table 0 LZFSE_ENCODE_D_STATES (h_d_freq h) d_extra_bits d_base_value (b_d_decoder bs);
          Some (bs\<lparr>b_n_lmd_payload_bytes := h_n_lmd_payload_bytes h, b_n_matches := h_n_matches h,
                   b_literal_decoder := snd (fse_init_decoder_table 0 LZFSE_ENCODE_LITERAL_STATES (h_literal_freq h) (b_literal_decoder bs)),
                   b_l_decoder := lt, b_m_decoder := mt, b_d_decoder := dt\<rparr>) }"

text \<open>The literals of a block whose payload ends at \<open>p\<close>.\<close>

definition block_literals :: "lzfse_decoder_state \<Rightarrow> lzfse_header_v1 \<Rightarrow> lzfse_block_state \<Rightarrow> nat \<Rightarrow> byte list option option" where
  "block_literals s h bs p =
     do { r \<leftarrow> fse_in_checked_init64 (z_mem s) (z_src_begin s) (h_literal_bits h) p;
          case r of None \<Rightarrow> Some None
          | Some (inp, buf) \<Rightarrow>
              decode_literals (z_mem s) (z_src_begin s) (b_literal_decoder bs) ((h_n_literals h + 3) div 4)
                (h_literal_state h ! 0, h_literal_state h ! 1, h_literal_state h ! 2, h_literal_state h ! 3) inp buf }"

definition start_compressed :: "lzfse_decoder_state \<Rightarrow> u32 \<Rightarrow> block_result" where
  "start_compressed s magic =
     do { r \<leftarrow> read_header s magic;
          case r of Header_short \<Rightarrow> return_status Src_empty s | Header_bad \<Rightarrow> return_status Status_error s
          | Header h header_size \<Rightarrow>
            if z_src s + header_size + h_n_literal_payload_bytes h + h_n_lmd_payload_bytes h > z_src_end s then return_status Src_empty s
            else if lzfse_check_block_header_v1 h \<noteq> 0 then return_status Status_error s
            else
              do { bs \<leftarrow> init_tables h (z_lzfse s);
                   let p = z_src s + header_size + h_n_literal_payload_bytes h in
                   do { lits \<leftarrow> block_literals s h bs p;
                        case lits of None \<Rightarrow> return_status Status_error s
                        | Some cs \<Rightarrow>
                          do { r \<leftarrow> fse_in_checked_init64 (z_mem s) p (h_lmd_bits h) (p + h_n_lmd_payload_bytes h);
                               case r of None \<Rightarrow> return_status Status_error s
                               | Some (inp, buf) \<Rightarrow>
                                   Some (None, s\<lparr>z_src := p, z_block_magic := magic,
                                     z_lzfse := bs\<lparr>b_literals := cs @ drop (length cs) (b_literals bs), b_current_literal := 0,
                                       b_l_state := h_l_state h, b_m_state := h_m_state h, b_d_state := h_d_state h,
                                       b_lmd_in_buf := buf - p, b_l_value := 0, b_m_value := 0, b_d_value := - 1,
                                       b_lmd_in_stream := inp\<rparr>\<rparr>) } } } }"

definition start_block :: "lzfse_decoder_state \<Rightarrow> block_result" where
  "start_block s =
     (if z_src s + 4 > z_src_end s then return_status Src_empty s
      else
        do { magic \<leftarrow> load4 (z_mem s) 0 (length (z_mem s)) (z_src s);
             if magic = LZFSE_ENDOFSTREAM_BLOCK_MAGIC then return_status Status_ok (s\<lparr>z_src := z_src s + 4, z_end_of_stream := True\<rparr>)
             else if magic = LZFSE_UNCOMPRESSED_BLOCK_MAGIC then start_uncompressed s
             else if magic = LZFSE_COMPRESSEDLZVN_BLOCK_MAGIC then start_lzvn s
             else if magic = LZFSE_COMPRESSEDV1_BLOCK_MAGIC \<or> magic = LZFSE_COMPRESSEDV2_BLOCK_MAGIC then start_compressed s magic
             else return_status Status_error s })"

definition uncompressed_block :: "lzfse_decoder_state \<Rightarrow> block_result" where
  "uncompressed_block s =
     (let copy_size = z_n_raw_bytes s in
      if copy_size = 0 then Some (None, s\<lparr>z_block_magic := LZFSE_NO_BLOCK_MAGIC\<rparr>)
      else if z_src_end s \<le> z_src s then return_status Src_empty s
      else
       (let copy_size = min copy_size (z_src_end s - z_src s) in
        if z_dst_end s \<le> z_dst s then return_status Dst_full s
        else
         (let copy_size = min copy_size (z_dst_end s - z_dst s) in
          do { bs \<leftarrow> load (z_mem s) 0 (length (z_mem s)) (z_src s) copy_size;
               b \<leftarrow> store (z_out s) (z_dst_begin s) (z_dst_end s) (z_dst s) bs;
               Some (None, s\<lparr>z_out := b, z_src := z_src s + copy_size, z_dst := z_dst s + copy_size,
                             z_n_raw_bytes := z_n_raw_bytes s - copy_size\<rparr>) })))"

definition compressed_block :: "lzfse_decoder_state \<Rightarrow> block_result" where
  "compressed_block s =
     (if z_src_end s \<le> z_src s \<or> b_n_lmd_payload_bytes (z_lzfse s) > z_src_end s - z_src s then return_status Src_empty s
      else case lzfse_decode_lmd s of
        None \<Rightarrow> None
      | Some (Status_ok, s') \<Rightarrow>
          Some (None, s'\<lparr>z_block_magic := LZFSE_NO_BLOCK_MAGIC, z_src := z_src s + b_n_lmd_payload_bytes (z_lzfse s)\<rparr>)
      | Some (st, s') \<Rightarrow> return_status st s')"

definition lzvn_start :: "lzfse_decoder_state \<Rightarrow> lzvn_decoder_state" where
  "lzvn_start s =
     (let bs = z_lzvn s in
      \<lparr>src_buf = z_mem s, src = z_src s,
       src_end = (if z_src_end s - z_src s > v_n_payload_bytes bs then z_src s + v_n_payload_bytes bs else z_src_end s),
       dst_buf = z_out s, dst = z_dst s, dst_begin = z_dst_begin s,
       dst_end = (if z_dst_end s - z_dst s > v_n_raw_bytes bs then z_dst s + v_n_raw_bytes bs else z_dst_end s),
       st_L = 0, st_M = 0, st_D = 0, d_prev = v_d_prev bs, end_of_stream = False\<rparr>)"

text \<open>The differences are unsigned: of a pointer that went back it exceeds every payload.\<close>

definition lzvn_block :: "lzfse_decoder_state \<Rightarrow> block_result" where
  "lzvn_block s =
     (let bs = z_lzvn s in
      if v_n_payload_bytes bs > 0 \<and> z_src_end s \<le> z_src s then return_status Src_empty s
      else
        do { d \<leftarrow> lzvn_decode (lzvn_start s);
             let src_used = src d - z_src s; dst_used = dst d - z_dst s in
             if src d < z_src s \<or> src_used > v_n_payload_bytes bs \<or> dst d < z_dst s \<or> dst_used > v_n_raw_bytes bs
             then return_status Status_error (s\<lparr>z_out := dst_buf d\<rparr>)
             else
              (let n_payload = v_n_payload_bytes bs - src_used; n_raw = v_n_raw_bytes bs - dst_used;
                   s' = s\<lparr>z_out := dst_buf d, z_src := src d, z_dst := dst d,
                          z_lzvn := \<lparr>v_n_raw_bytes = n_raw, v_n_payload_bytes = n_payload, v_d_prev = d_prev d mod 2 ^ 32\<rparr>\<rparr> in
               if n_payload = 0 \<and> n_raw = 0 \<and> end_of_stream d then Some (None, s'\<lparr>z_block_magic := LZFSE_NO_BLOCK_MAGIC\<rparr>)
               else if n_payload = 0 \<or> n_raw = 0 \<or> end_of_stream d then return_status Status_error s'
               else return_status Dst_full s') })"

text \<open>One turn of the block loop.\<close>

definition decode_step :: "lzfse_decoder_state \<Rightarrow> block_result" where
  "decode_step s =
     (if z_block_magic s = LZFSE_NO_BLOCK_MAGIC then start_block s
      else if z_block_magic s = LZFSE_UNCOMPRESSED_BLOCK_MAGIC then uncompressed_block s
      else if z_block_magic s = LZFSE_COMPRESSEDV1_BLOCK_MAGIC \<or> z_block_magic s = LZFSE_COMPRESSEDV2_BLOCK_MAGIC then compressed_block s
      else if z_block_magic s = LZFSE_COMPRESSEDLZVN_BLOCK_MAGIC then lzvn_block s
      else return_status Status_error s)"

text \<open>Every turn that goes on uses up source, or ends a block.\<close>

definition decode_measure :: "lzfse_decoder_state \<Rightarrow> nat" where
  "decode_measure s = 2 * (z_src_end s - z_src s) + (if z_block_magic s = LZFSE_NO_BLOCK_MAGIC then 0 else 1)"

lemma magic_distinct:
  "LZFSE_NO_BLOCK_MAGIC \<noteq> LZFSE_UNCOMPRESSED_BLOCK_MAGIC" "LZFSE_NO_BLOCK_MAGIC \<noteq> LZFSE_COMPRESSEDV1_BLOCK_MAGIC"
  "LZFSE_NO_BLOCK_MAGIC \<noteq> LZFSE_COMPRESSEDV2_BLOCK_MAGIC" "LZFSE_NO_BLOCK_MAGIC \<noteq> LZFSE_COMPRESSEDLZVN_BLOCK_MAGIC"
  "LZFSE_UNCOMPRESSED_BLOCK_MAGIC \<noteq> LZFSE_COMPRESSEDV1_BLOCK_MAGIC" "LZFSE_UNCOMPRESSED_BLOCK_MAGIC \<noteq> LZFSE_COMPRESSEDV2_BLOCK_MAGIC"
  "LZFSE_UNCOMPRESSED_BLOCK_MAGIC \<noteq> LZFSE_COMPRESSEDLZVN_BLOCK_MAGIC" "LZFSE_COMPRESSEDV1_BLOCK_MAGIC \<noteq> LZFSE_COMPRESSEDLZVN_BLOCK_MAGIC"
  "LZFSE_COMPRESSEDV2_BLOCK_MAGIC \<noteq> LZFSE_COMPRESSEDLZVN_BLOCK_MAGIC" "LZFSE_COMPRESSEDV1_BLOCK_MAGIC \<noteq> LZFSE_COMPRESSEDV2_BLOCK_MAGIC"
  "LZFSE_ENDOFSTREAM_BLOCK_MAGIC \<noteq> LZFSE_UNCOMPRESSED_BLOCK_MAGIC" "LZFSE_ENDOFSTREAM_BLOCK_MAGIC \<noteq> LZFSE_COMPRESSEDV2_BLOCK_MAGIC"
  "LZFSE_ENDOFSTREAM_BLOCK_MAGIC \<noteq> LZFSE_COMPRESSEDLZVN_BLOCK_MAGIC"
  by (simp_all add: magic_defs)

lemmas magic_neq [simp] = magic_distinct magic_distinct [symmetric]

lemma decode_v2_size:
  assumes "lzfse_decode_v2_header_size m hi p = Some n" and "lzfse_decode_v1 m hi p = Some (Some h)"
  shows "32 \<le> n"
proof (rule ccontr)
  assume "\<not> 32 \<le> n"
  moreover have "decode_freqs (Suc n) 0 0 [] = None" for n
    by (simp add: lzfse_decode_v1_freq_value_def lzfse_freq_nbits_table_def lzfse_freq_value_table_def Let_def)
  then have "decode_freqs 360 0 0 [] = None" by (metis eval_nat_numeral(3) numeral_eq_Suc)
  ultimately show False
    using assms by (auto simp: lzfse_decode_v2_header_size_def lzfse_decode_v1_def Let_def load_def bind_eq_Some_conv split: if_splits)
qed

lemma read_header_size: "read_header s magic = Some (Header h n) \<Longrightarrow> 32 \<le> n"
  using decode_v2_size
  by (auto simp: read_header_def Let_def bind_eq_Some_conv split: if_splits option.splits)

lemma start_compressed_measure:
  assumes "start_compressed s magic = Some (None, s')" and "z_block_magic s = LZFSE_NO_BLOCK_MAGIC"
  shows "decode_measure s' < decode_measure s"
proof -
  obtain h n where h: "read_header s magic = Some (Header h n)"
    and le: "z_src s + n + h_n_literal_payload_bytes h + h_n_lmd_payload_bytes h \<le> z_src_end s"
    and s': "z_src s' = z_src s + n + h_n_literal_payload_bytes h" "z_src_end s' = z_src_end s"
    using assms(1) unfolding start_compressed_def
    by (auto simp: Let_def split: Option.bind_splits header_result.splits if_splits option.splits)
  have "32 \<le> n" by (rule read_header_size [OF h])
  then have "2 * (z_src_end s' - z_src s') + 1 < 2 * (z_src_end s - z_src s)" using le s' by simp
  then show ?thesis using assms(2) by (simp add: decode_measure_def)
qed

lemma lzfse_decode_lmd_src:
  assumes "lzfse_decode_lmd s = Some (st, s')"
  shows "z_src s' = z_src s" and "z_src_end s' = z_src_end s"
  using assms by (auto simp: lzfse_decode_lmd_def lmd_save_def Let_def split: option.splits lzfse_status.splits)

lemma decode_step_measure:
  assumes "decode_step s = Some (None, s')"
  shows "decode_measure s' < decode_measure s"
proof -
  consider "z_block_magic s = LZFSE_NO_BLOCK_MAGIC" "start_block s = Some (None, s')"
    | "z_block_magic s = LZFSE_UNCOMPRESSED_BLOCK_MAGIC" "uncompressed_block s = Some (None, s')"
    | "z_block_magic s \<noteq> LZFSE_NO_BLOCK_MAGIC" "compressed_block s = Some (None, s')"
    | "z_block_magic s \<noteq> LZFSE_NO_BLOCK_MAGIC" "lzvn_block s = Some (None, s')"
    using assms by (auto simp: decode_step_def split: if_splits)
  then show ?thesis
  proof cases
    case 1
    then show ?thesis
      using start_compressed_measure [of s _ s']
      by (auto simp: start_block_def start_uncompressed_def start_lzvn_def decode_measure_def Let_def bind_eq_Some_conv split: if_splits)
  next
    case 2
    then show ?thesis
      by (auto simp: uncompressed_block_def decode_measure_def Let_def bind_eq_Some_conv split: if_splits)
  next
    case 3
    then show ?thesis
      using lzfse_decode_lmd_src [of s Status_ok]
      by (auto simp: compressed_block_def decode_measure_def split: if_splits option.splits prod.splits lzfse_status.splits)
  next
    case 4
    then show ?thesis
      by (auto simp: lzvn_block_def decode_measure_def Let_def bind_eq_Some_conv split: if_splits)
  qed
qed

function lzfse_decode :: "lzfse_decoder_state \<Rightarrow> (lzfse_status \<times> lzfse_decoder_state) option" where
  "lzfse_decode s =
     (case decode_step s of
        None \<Rightarrow> None
      | Some (Some st, s') \<Rightarrow> Some (st, s')
      | Some (None, s') \<Rightarrow> lzfse_decode s')"
  by pat_completeness auto

termination lzfse_decode
  by (relation "measure decode_measure") (auto dest: decode_step_measure)

declare lzfse_decode.simps [simp del]

section \<open>Buffers\<close>

text \<open>The whole state is cleared first.  \<open>pad\<close> is the memory behind the source buffer.\<close>

definition cleared_block :: lzfse_block_state where
  "cleared_block =
     (let e = \<lparr>total_bits = 0, value_bits = 0, vdelta = 0, vbase = 0\<rparr> in
      \<lparr>b_n_matches = 0, b_n_lmd_payload_bytes = 0, b_current_literal = 0, b_l_value = 0, b_m_value = 0, b_d_value = 0,
       b_lmd_in_stream = \<lparr>accum = 0, accum_nbits = 0\<rparr>, b_lmd_in_buf = 0, b_l_state = 0, b_m_state = 0, b_d_state = 0,
       b_l_decoder = replicate LZFSE_ENCODE_L_STATES e, b_m_decoder = replicate LZFSE_ENCODE_M_STATES e,
       b_d_decoder = replicate LZFSE_ENCODE_D_STATES e, b_literal_decoder = replicate LZFSE_ENCODE_LITERAL_STATES 0,
       b_literals = replicate (LZFSE_LITERALS_PER_BLOCK + 64 + 16) 0\<rparr>)"

definition decode_start :: "byte list \<Rightarrow> byte list \<Rightarrow> byte list \<Rightarrow> lzfse_decoder_state" where
  "decode_start dst_buffer src_buffer pad =
     \<lparr>z_mem = src_buffer @ pad, z_src = 0, z_src_begin = 0, z_src_end = length src_buffer,
      z_out = dst_buffer, z_dst = 0, z_dst_begin = 0, z_dst_end = length dst_buffer,
      z_end_of_stream = False, z_block_magic = LZFSE_NO_BLOCK_MAGIC, z_lzfse = cleared_block,
      z_lzvn = \<lparr>v_n_raw_bytes = 0, v_n_payload_bytes = 0, v_d_prev = 0\<rparr>, z_n_raw_bytes = 0\<rparr>"

text \<open>The destination afterwards and the number of bytes decoded.\<close>

definition lzfse_decode_buffer_with_scratch :: "byte list \<Rightarrow> byte list \<Rightarrow> byte list \<Rightarrow> (byte list \<times> nat) option" where
  "lzfse_decode_buffer_with_scratch dst_buffer src_buffer pad =
     do { (status, s) \<leftarrow> lzfse_decode (decode_start dst_buffer src_buffer pad);
          Some (z_out s, if status = Dst_full then length dst_buffer else if status \<noteq> Status_ok then 0 else z_dst s) }"

text \<open>\<open>scratch\<close> is what the caller passes, \<open>malloc_ok\<close> whether an allocation succeeds.\<close>

definition lzfse_decode_buffer :: "byte list \<Rightarrow> byte list \<Rightarrow> byte list \<Rightarrow> bool \<Rightarrow> bool \<Rightarrow> (byte list \<times> nat) option" where
  "lzfse_decode_buffer dst_buffer src_buffer pad scratch malloc_ok =
     (if \<not> scratch \<and> \<not> malloc_ok then Some (dst_buffer, 0)
      else lzfse_decode_buffer_with_scratch dst_buffer src_buffer pad)"

datatype compression_algorithm = COMPRESSION_LZ4 | COMPRESSION_ZLIB | COMPRESSION_LZMA | COMPRESSION_LZ4_RAW | COMPRESSION_LZFSE

definition compression_decode_buffer :: "byte list \<Rightarrow> byte list \<Rightarrow> byte list \<Rightarrow> bool \<Rightarrow> bool \<Rightarrow> compression_algorithm \<Rightarrow> (byte list \<times> nat) option" where
  "compression_decode_buffer dst_buffer src_buffer pad scratch malloc_ok algorithm =
     (if algorithm = COMPRESSION_LZFSE then lzfse_decode_buffer dst_buffer src_buffer pad scratch malloc_ok else Some (dst_buffer, 0))"

end
