(* ===== verification/LZVN_Encode.thy ===== *)
theory LZVN_Encode
  imports LZ_Memory
begin

text \<open>
  The LZVN encoder (\<open>src/src/darwin/libcompression/lzfse/lzvn_encode_base.c\<close> and
  \<open>lzvn_encode_base.h\<close>).  The source is a byte list addressed by signed offsets from
  \<open>src_begin\<close>, the destination a byte list addressed from \<open>dst_begin\<close>; an access outside
  the valid range is \<open>None\<close>.  \<open>lzvn_offset\<close> is \<^typ>\<open>int\<close>: offsets stay below \<open>2^33\<close> by the
  size limit of \<open>lzvn_encode_partial\<close>.  The stored indices keep their 32 bits, and the
  hash table is a function from slot to entry (\<open>hash3i_bound\<close>: slots are in range).
\<close>

section \<open>Emitting instructions\<close>

definition src_load :: "byte list \<Rightarrow> nat \<Rightarrow> nat \<Rightarrow> nat \<Rightarrow> byte list option" where
  "src_load src p w i = load src 0 (length src) (p + i) w"

text \<open>\<open>lzvn_copy64\<close> and \<open>lzvn_copy8\<close>: 8 bytes or 1 byte per iteration.\<close>

definition lzvn_copy64 :: "byte list \<Rightarrow> nat \<Rightarrow> byte list \<Rightarrow> nat \<Rightarrow> nat \<Rightarrow> nat \<Rightarrow> (byte list \<times> nat) option" where
  "lzvn_copy64 buf q1 src p q nbytes =
     map_option (\<lambda>b. (b, q + nbytes)) (copy_loop 8 (src_load src p 8) 0 q1 q ((nbytes + 7) div 8) buf)"

definition lzvn_copy8 :: "byte list \<Rightarrow> nat \<Rightarrow> byte list \<Rightarrow> nat \<Rightarrow> nat \<Rightarrow> nat \<Rightarrow> (byte list \<times> nat) option" where
  "lzvn_copy8 buf q1 src p q nbytes =
     map_option (\<lambda>b. (b, q + nbytes)) (copy_loop 1 (src_load src p 1) 0 q1 q nbytes buf)"

type_synonym copier = "byte list \<Rightarrow> nat \<Rightarrow> byte list \<Rightarrow> nat \<Rightarrow> nat \<Rightarrow> nat \<Rightarrow> (byte list \<times> nat) option"

text \<open>The loop \<open>while (L > 15)\<close> that starts both emitters.  \<open>Out_full\<close> is the jump to
  \<open>OUT_FULL\<close>; the bytes written so far stay in the buffer.\<close>

datatype literals = Out_full "byte list" | Emitted "byte list" nat nat nat

function long_literals :: "copier \<Rightarrow> byte list \<Rightarrow> nat \<Rightarrow> byte list \<Rightarrow> nat \<Rightarrow> nat \<Rightarrow> nat \<Rightarrow> literals option" where
  "long_literals cp src p buf q q1 L =
     (if L > 15 then
        let x = if L < 271 then L else 271 in
        if q + x + 10 \<ge> q1 then Some (Out_full buf)
        else do { b1 \<leftarrow> store2 buf 0 q1 q (of_nat (0xE0 + push_bit 8 (x - 16)));
                  (b2, q2) \<leftarrow> cp b1 q1 src p (q + 2) x;
                  long_literals cp src (p + x) b2 q2 q1 (L - x) }
      else Some (Emitted buf p q L))"
  by pat_completeness auto

termination long_literals
  by (relation "measure (\<lambda>(cp, src, p, buf, q, q1, L). L)") auto

declare long_literals.simps [simp del]

definition emit_literal :: "byte list \<Rightarrow> nat \<Rightarrow> byte list \<Rightarrow> nat \<Rightarrow> nat \<Rightarrow> nat \<Rightarrow> (byte list \<times> nat) option" where
  "emit_literal src p0 buf0 q0 q1 L0 =
     do { r \<leftarrow> long_literals lzvn_copy8 src p0 buf0 q0 q1 L0;
          case r of Out_full b \<Rightarrow> Some (b, q1)
          | Emitted buf p q L \<Rightarrow>
              if L > 0 then
                if q + L + 10 \<ge> q1 then Some (buf, q1)
                else do { b1 \<leftarrow> store buf 0 q1 q [of_nat (0xE0 + L)];
                          lzvn_copy8 b1 q1 src p (q + 1) L }
              else Some (buf, q) }"

text \<open>The opcode of a match, as the bytes stored for it, and the match length left over.\<close>

definition match_opcode :: "nat \<Rightarrow> nat \<Rightarrow> nat \<Rightarrow> nat \<Rightarrow> nat \<Rightarrow> byte list \<times> nat" where
  "match_opcode L x M D D_prev =
     (if D = D_prev then
        (if L = 0 then ([of_nat (0xF0 + (x + 3))], M)
         else ([of_nat (push_bit 6 L + push_bit 3 x + 6)], M))
      else if D < 2048 - 2 * 256 then
        ([of_nat (drop_bit 8 D + push_bit 6 L + push_bit 3 x), of_nat (D AND 0xFF)], M)
      else if D \<ge> push_bit 14 1 \<or> M = 0 \<or> (x + 3) + M > 34 then
        (of_nat (push_bit 6 L + push_bit 3 x + 7) # le_enc 2 (unat (of_nat D :: u16)), M)
      else
        (of_nat (0xA0 + drop_bit 2 (x + M) + push_bit 3 L) #
           le_enc 2 (unat (of_nat (push_bit 2 D OR ((x + M) AND 3)) :: u16)), 0))"

function rest_of_match :: "byte list \<Rightarrow> nat \<Rightarrow> nat \<Rightarrow> nat \<Rightarrow> (byte list \<times> nat) option" where
  "rest_of_match buf q q1 M =
     (if M > 15 then
        if q + 2 \<ge> q1 then Some (buf, q1)
        else let x = if M < 271 then M else 271 in
             do { b1 \<leftarrow> store2 buf 0 q1 q (of_nat (0xf0 + push_bit 8 (x - 16)));
                  rest_of_match b1 (q + 2) q1 (M - x) }
      else if M > 0 then
        if q + 1 \<ge> q1 then Some (buf, q1)
        else do { b1 \<leftarrow> store buf 0 q1 q [of_nat (0xF0 + M)]; Some (b1, q + 1) }
      else Some (buf, q))"
  by pat_completeness auto

termination rest_of_match
  by (relation "measure (\<lambda>(buf, q, q1, M). M)") auto

declare rest_of_match.simps [simp del]

definition emit_short :: "byte list \<Rightarrow> nat \<Rightarrow> byte list \<Rightarrow> nat \<Rightarrow> nat \<Rightarrow> nat \<Rightarrow> nat \<Rightarrow> nat \<Rightarrow> nat \<Rightarrow> (byte list \<times> nat) option" where
  "emit_short src p buf q q1 L M0 D D_prev =
     (let x0 = if M0 \<le> 10 - 2 * L then M0 else 10 - 2 * L; M = M0 - x0; x = x0 - 3 in
      do { literal \<leftarrow> load4 src 0 (length src) p;
           if q + 8 \<ge> q1 then Some (buf, q1)
           else
             (case match_opcode L x M D D_prev of
                (opc, M') \<Rightarrow>
                  do { b1 \<leftarrow> store buf 0 q1 q opc;
                       b2 \<leftarrow> store4 b1 0 q1 (q + length opc) literal;
                       rest_of_match b2 (q + length opc + L) q1 M' }) })"

definition emit :: "byte list \<Rightarrow> nat \<Rightarrow> byte list \<Rightarrow> nat \<Rightarrow> nat \<Rightarrow> nat \<Rightarrow> nat \<Rightarrow> nat \<Rightarrow> nat \<Rightarrow> (byte list \<times> nat) option" where
  "emit src p0 buf0 q0 q1 L0 M D D_prev =
     do { r \<leftarrow> long_literals lzvn_copy64 src p0 buf0 q0 q1 L0;
          case r of Out_full b \<Rightarrow> Some (b, q1)
          | Emitted buf p q L \<Rightarrow>
              if L > 3 then
                if q + L + 10 \<ge> q1 then Some (buf, q1)
                else do { b1 \<leftarrow> store buf 0 q1 q [of_nat (0xE0 + L)];
                          (b2, q2) \<leftarrow> lzvn_copy64 b1 q1 src p (q + 1) L;
                          emit_short src (p + L) b2 q2 q1 0 M D D_prev }
              else emit_short src p buf q q1 L M D D_prev }"

section \<open>Hashing and matching\<close>

definition offset_to_s32 :: "int \<Rightarrow> u32" where
  "offset_to_s32 x = word_of_int x"

definition offset_from_s32 :: "u32 \<Rightarrow> int" where
  "offset_from_s32 x = sint x"

definition LZVN_ENCODE_HASH_VALUES :: nat where
  "LZVN_ENCODE_HASH_VALUES = 2 ^ 14"

definition LZVN_ENCODE_MAX_DISTANCE :: int where
  "LZVN_ENCODE_MAX_DISTANCE = 0xffff"

definition hash3i :: "u32 \<Rightarrow> u32" where
  "hash3i i0 =
     (let i = i0 AND 0xffffff; h = drop_bit 12 (i * (1 + push_bit 6 1 + push_bit 12 1)) in
      h AND (of_nat LZVN_ENCODE_HASH_VALUES - 1))"

text \<open>\<open>__builtin_ctzl\<close> of a non-zero value.\<close>

fun ctz :: "nat \<Rightarrow> nat" where
  "ctz x = (if x = 0 \<or> odd x then 0 else Suc (ctz (x div 2)))"

declare ctz.simps [simp del]

definition trailing_zero_bytes :: "u32 \<Rightarrow> int" where
  "trailing_zero_bytes x = (if x = 0 then 4 else int (ctz (unat x) div 8))"

text \<open>The source by signed offset: \<open>src + i\<close> for \<open>src_begin \<le> i\<close>; here \<open>src_begin\<close> is 0, as
  the only caller sets it.\<close>

definition src4 :: "byte list \<Rightarrow> int \<Rightarrow> u32 option" where
  "src4 src i = (if i < 0 then None else load4 src 0 (length src) (nat i))"

definition src1 :: "byte list \<Rightarrow> int \<Rightarrow> byte option" where
  "src1 src i = (if i < 0 then None else load1 src 0 (length src) (nat i))"

definition nmatch4 :: "byte list \<Rightarrow> int \<Rightarrow> int \<Rightarrow> int option" where
  "nmatch4 src i j = do { vi \<leftarrow> src4 src i; vj \<leftarrow> src4 src j; Some (trailing_zero_bytes (vi XOR vj)) }"

record lzvn_match_info =
  match_begin :: int
  match_end :: int
  match_M :: int
  match_D :: int
  match_K :: int

definition NO_MATCH :: lzvn_match_info where
  "NO_MATCH = \<lparr>match_begin = 0, match_end = 0, match_M = 0, match_D = 0, match_K = 0\<rparr>"

function expand_forward :: "byte list \<Rightarrow> int \<Rightarrow> int \<Rightarrow> int \<Rightarrow> int \<Rightarrow> int option" where
  "expand_forward src src_end D n m_end =
     (if n = 4 \<and> m_end + 4 < src_end then
        (case nmatch4 src m_end (m_end - D) of
           None \<Rightarrow> None
         | Some n' \<Rightarrow> expand_forward src src_end D n' (m_end + n'))
      else Some m_end)"
  by pat_completeness auto

lemma trailing_zero_nonneg: "0 \<le> trailing_zero_bytes x"
  by (simp add: trailing_zero_bytes_def)

lemma nmatch4_nonneg: "nmatch4 src i j = Some n \<Longrightarrow> 0 \<le> n"
  by (auto simp: nmatch4_def trailing_zero_nonneg bind_eq_Some_conv)

termination expand_forward
  by (relation "measure (\<lambda>(src, src_end, D, n, m_end). nat (2 * (src_end - m_end)) + (if n = 4 then 1 else 0))")
    (auto dest: nmatch4_nonneg)

declare expand_forward.simps [simp del]

function expand_backwards :: "byte list \<Rightarrow> int \<Rightarrow> int \<Rightarrow> int \<Rightarrow> int \<Rightarrow> int option" where
  "expand_backwards src src_begin l_begin m0_begin m_begin =
     (if m0_begin > src_begin \<and> m_begin > l_begin then
        do { a \<leftarrow> src1 src (m_begin - 1);
             b \<leftarrow> src1 src (m0_begin - 1);
             if a = b then expand_backwards src src_begin l_begin (m0_begin - 1) (m_begin - 1)
             else Some m_begin }
      else Some m_begin)"
  by pat_completeness auto

termination expand_backwards
  by (relation "measure (\<lambda>(src, src_begin, l_begin, m0_begin, m_begin). nat (m_begin - l_begin))") auto

declare expand_backwards.simps [simp del]

text \<open>\<open>lzvn_find_matchN\<close>: \<open>n\<close> bytes are known to match.  \<open>Some None\<close> is the result 0.\<close>

definition lzvn_find_matchN :: "byte list \<Rightarrow> int \<Rightarrow> int \<Rightarrow> int \<Rightarrow> int \<Rightarrow> int \<Rightarrow> int \<Rightarrow> lzvn_match_info option option" where
  "lzvn_find_matchN src src_begin src_end l_begin m0_begin m_begin n =
     (if n < 3 then Some None
      else
       (let D = m_begin - m0_begin in
        if D \<le> 0 \<or> D > LZVN_ENCODE_MAX_DISTANCE then Some None
        else do { m_end \<leftarrow> expand_forward src src_end D n (m_begin + n);
                  m_begin' \<leftarrow> expand_backwards src src_begin l_begin m0_begin m_begin;
                  let M = m_end - m_begin';
                  Some (Some \<lparr>match_begin = m_begin', match_end = m_end, match_M = M, match_D = D,
                              match_K = M - (if D < 0x600 then 2 else 3)\<rparr>) }))"

definition lzvn_find_match :: "byte list \<Rightarrow> int \<Rightarrow> int \<Rightarrow> int \<Rightarrow> int \<Rightarrow> int \<Rightarrow> lzvn_match_info option option" where
  "lzvn_find_match src src_begin src_end l_begin m0_begin m_begin =
     do { n \<leftarrow> nmatch4 src m_begin m0_begin;
          if n < 3 then Some None
          else
           (let D = m_begin - m0_begin in
            if D \<le> 0 \<or> D > LZVN_ENCODE_MAX_DISTANCE then Some None
            else do { m_end \<leftarrow> expand_forward src src_end D n (m_begin + n);
                      m_begin' \<leftarrow> expand_backwards src src_begin l_begin m0_begin m_begin;
                      let M = m_end - m_begin';
                      Some (Some \<lparr>match_begin = m_begin', match_end = m_end, match_M = M, match_D = D,
                                  match_K = M - (if D < 0x600 then 2 else 3)\<rparr>) }) }"

section \<open>The encoder's state\<close>

record lzvn_encode_entry_type =
  indices :: "u32 list"
  entry_values :: "u32 list"

record lzvn_encoder_state =
  en_src :: "byte list"
  en_src_begin :: int
  en_src_end :: int
  en_src_current :: int
  en_src_current_end :: int
  en_src_literal :: int
  en_buf :: "byte list"
  en_dst :: nat
  en_dst_end :: nat
  en_pending :: lzvn_match_info
  en_d_prev :: int
  en_table :: "nat \<Rightarrow> lzvn_encode_entry_type"

text \<open>The two emitters return False where the C functions return 0 for a full destination.\<close>

definition lzvn_emit_match :: "lzvn_encoder_state \<Rightarrow> lzvn_match_info \<Rightarrow> (lzvn_encoder_state \<times> bool) option" where
  "lzvn_emit_match st m =
     do { (b, q) \<leftarrow> emit (en_src st) (nat (en_src_literal st)) (en_buf st) (en_dst st) (en_dst_end st)
                        (nat (match_begin m - en_src_literal st)) (nat (match_M m)) (nat (match_D m)) (nat (en_d_prev st));
          if q \<ge> en_dst_end st then Some (st\<lparr>en_buf := b\<rparr>, False)
          else Some (st\<lparr>en_buf := b, en_d_prev := match_D m, en_dst := q, en_src_literal := match_end m\<rparr>, True) }"

definition lzvn_emit_literal :: "lzvn_encoder_state \<Rightarrow> int \<Rightarrow> (lzvn_encoder_state \<times> bool) option" where
  "lzvn_emit_literal st n =
     do { (b, q) \<leftarrow> emit_literal (en_src st) (nat (en_src_literal st)) (en_buf st) (en_dst st) (en_dst_end st) (nat n);
          if q \<ge> en_dst_end st then Some (st\<lparr>en_buf := b\<rparr>, False)
          else Some (st\<lparr>en_buf := b, en_dst := q, en_src_literal := en_src_literal st + n\<rparr>, True) }"

definition lzvn_emit_end_of_stream :: "lzvn_encoder_state \<Rightarrow> (lzvn_encoder_state \<times> nat) option" where
  "lzvn_emit_end_of_stream st =
     (if en_dst_end st < en_dst st + 8 then Some (st, 0)
      else do { b \<leftarrow> store8 (en_buf st) 0 (en_dst_end st) (en_dst st) 6;
                Some (st\<lparr>en_buf := b, en_dst := en_dst st + 8\<rparr>, 8) })"

definition lzvn_init_table :: "lzvn_encoder_state \<Rightarrow> lzvn_encoder_state option" where
  "lzvn_init_table st =
     (let index = (if - LZVN_ENCODE_MAX_DISTANCE < en_src_begin st then en_src_begin st else - LZVN_ENCODE_MAX_DISTANCE) in
      do { v \<leftarrow> src4 (en_src st) index;
           let e = \<lparr>indices = replicate 4 (offset_to_s32 index), entry_values = replicate 4 v\<rparr>;
           Some (st\<lparr>en_table := (\<lambda>u. e)\<rparr>) })"

section \<open>The encoder\<close>

definition UPDATE :: "lzvn_match_info \<Rightarrow> lzvn_match_info \<Rightarrow> lzvn_match_info" where
  "UPDATE best candidate =
     (if match_K candidate > match_K best \<or>
         match_K candidate = match_K best \<and> match_end candidate > match_end best + 1
      then candidate else best)"

definition CHECK_CANDIDATE :: "lzvn_encoder_state \<Rightarrow> int \<Rightarrow> int \<Rightarrow> lzvn_match_info \<Rightarrow> lzvn_match_info option" where
  "CHECK_CANDIDATE st ik nk incoming =
     do { r \<leftarrow> lzvn_find_matchN (en_src st) (en_src_begin st) (en_src_end st) (en_src_literal st) ik (en_src_current st) nk;
          case r of None \<Rightarrow> Some incoming | Some m1 \<Rightarrow> Some (UPDATE incoming m1) }"

definition entry_candidate :: "lzvn_encoder_state \<Rightarrow> lzvn_encode_entry_type \<Rightarrow> u32 \<Rightarrow> nat \<Rightarrow> lzvn_match_info \<Rightarrow> lzvn_match_info option" where
  "entry_candidate st e vi k incoming =
     CHECK_CANDIDATE st (offset_from_s32 (indices e ! k)) (trailing_zero_bytes (entry_values e ! k XOR vi)) incoming"

definition previous_candidate :: "lzvn_encoder_state \<Rightarrow> lzvn_match_info \<Rightarrow> lzvn_match_info option" where
  "previous_candidate st incoming =
     (if en_d_prev st \<noteq> 0 then
        do { r \<leftarrow> lzvn_find_match (en_src st) (en_src_begin st) (en_src_end st) (en_src_literal st)
                   (en_src_current st - en_d_prev st) (en_src_current st);
             case r of None \<Rightarrow> Some incoming | Some m1 \<Rightarrow> Some (UPDATE incoming (m1\<lparr>match_K := match_M m1 - 1\<rparr>)) }
      else Some incoming)"

definition best_candidate :: "lzvn_encoder_state \<Rightarrow> lzvn_encode_entry_type \<Rightarrow> u32 \<Rightarrow> lzvn_match_info option" where
  "best_candidate st e vi =
     do { m0 \<leftarrow> entry_candidate st e vi 0 NO_MATCH;
          m1 \<leftarrow> entry_candidate st e vi 1 m0;
          m2 \<leftarrow> entry_candidate st e vi 2 m1;
          m3 \<leftarrow> entry_candidate st e vi 3 m2;
          previous_candidate st m3 }"

definition LZVN_ENCODE_MAX_LITERAL_BACKLOG :: int where
  "LZVN_ENCODE_MAX_LITERAL_BACKLOG = 400"

text \<open>What is emitted at a position; False is the return with a full destination.\<close>

definition emit_pending :: "lzvn_encoder_state \<Rightarrow> lzvn_match_info \<Rightarrow> (lzvn_encoder_state \<times> bool) option" where
  "emit_pending st next =
     do { (st', ok) \<leftarrow> lzvn_emit_match st (en_pending st);
          Some (if ok then (st'\<lparr>en_pending := next\<rparr>, True) else (st', False)) }"

definition emit_at :: "lzvn_encoder_state \<Rightarrow> lzvn_match_info \<Rightarrow> (lzvn_encoder_state \<times> bool) option" where
  "emit_at st incoming =
     (if match_M incoming = 0 then
        if en_src_current st - en_src_literal st \<ge> LZVN_ENCODE_MAX_LITERAL_BACKLOG then
          if match_M (en_pending st) \<noteq> 0 then emit_pending st NO_MATCH
          else lzvn_emit_literal st 271
        else Some (st, True)
      else if match_M (en_pending st) = 0 then Some (st\<lparr>en_pending := incoming\<rparr>, True)
      else if match_end (en_pending st) \<le> match_begin incoming then emit_pending st incoming
      else emit_pending (if match_K incoming > match_K (en_pending st) then st\<lparr>en_pending := incoming\<rparr> else st) NO_MATCH)"

definition push_entry :: "lzvn_encode_entry_type \<Rightarrow> u32 \<Rightarrow> u32 \<Rightarrow> lzvn_encode_entry_type" where
  "push_entry e i v = \<lparr>indices = i # take 3 (indices e), entry_values = v # take 3 (entry_values e)\<rparr>"

definition encode_step :: "lzvn_encoder_state \<Rightarrow> (lzvn_encoder_state \<times> bool) option" where
  "encode_step st =
     do { vi \<leftarrow> src4 (en_src st) (en_src_current st);
          let h = unat (hash3i vi);
          let e = en_table st h;
          let updated_e = push_entry e (offset_to_s32 (en_src_current st)) vi;
          (st1, ok) \<leftarrow> (if en_src_current st < en_src_literal st then Some (st, True)
                       else do { incoming \<leftarrow> best_candidate st e vi; emit_at st incoming });
          Some (if ok then (st1\<lparr>en_table := (en_table st1)(h := updated_e), en_src_current := en_src_current st1 + 1\<rparr>, True)
                else (st1, False)) }"

text \<open>Only the position itself moves \<open>src_current\<close>, so the loop over the source ends.\<close>

definition keeps_position :: "lzvn_encoder_state \<Rightarrow> lzvn_encoder_state \<Rightarrow> bool" where
  "keeps_position st st' \<longleftrightarrow> en_src_current st' = en_src_current st \<and> en_src_current_end st' = en_src_current_end st"

lemma emit_match_position: "lzvn_emit_match st m = Some (st', ok) \<Longrightarrow> keeps_position st st'"
  by (auto simp: lzvn_emit_match_def bind_eq_Some_conv keeps_position_def split: if_splits)

lemma emit_pending_position: "emit_pending st m = Some (st', ok) \<Longrightarrow> keeps_position st st'"
  by (auto simp: emit_pending_def bind_eq_Some_conv keeps_position_def split: if_splits dest!: emit_match_position)

lemma emit_literal_position: "lzvn_emit_literal st n = Some (st', ok) \<Longrightarrow> keeps_position st st'"
  by (auto simp: lzvn_emit_literal_def bind_eq_Some_conv keeps_position_def split: if_splits)

lemma emit_at_position: "emit_at st m = Some (st', ok) \<Longrightarrow> keeps_position st st'"
  unfolding emit_at_def
  by (auto simp: keeps_position_def split: if_splits dest!: emit_pending_position emit_literal_position)

lemma encode_step_position:
  "encode_step st = Some (st', True) \<Longrightarrow>
   en_src_current st' = en_src_current st + 1 \<and> en_src_current_end st' = en_src_current_end st"
  by (auto simp: encode_step_def Let_def bind_eq_Some_conv keeps_position_def split: if_splits dest!: emit_at_position)

function lzvn_encode :: "lzvn_encoder_state \<Rightarrow> lzvn_encoder_state option" where
  "lzvn_encode st =
     (if en_src_current st < en_src_current_end st then
        (case encode_step st of
           None \<Rightarrow> None
         | Some (st', ok) \<Rightarrow> if ok then lzvn_encode st' else Some st')
      else Some st)"
  by pat_completeness auto

termination lzvn_encode
  by (relation "measure (\<lambda>st. nat (en_src_current_end st - en_src_current st))") (auto dest!: encode_step_position)

declare lzvn_encode.simps [simp del]

definition LZVN_ENCODE_MAX_SRC_SIZE :: nat where
  "LZVN_ENCODE_MAX_SRC_SIZE = 0xffffffff"

definition encoder_start :: "byte list \<Rightarrow> byte list \<Rightarrow> lzvn_encoder_state" where
  "encoder_start buf src =
     \<lparr>en_src = src, en_src_begin = 0, en_src_end = int (length src), en_src_current = 0, en_src_current_end = 0,
      en_src_literal = 0, en_buf = buf, en_dst = 0, en_dst_end = length buf - 8, en_pending = NO_MATCH,
      en_d_prev = 0, en_table = (\<lambda>u. \<lparr>indices = [], entry_values = []\<rparr>)\<rparr>"

text \<open>Destination after the call, bytes of it used, and bytes of the source encoded.\<close>

definition lzvn_encode_partial :: "byte list \<Rightarrow> byte list \<Rightarrow> (byte list \<times> nat \<times> nat) option" where
  "lzvn_encode_partial buf src0 =
     (if length buf < 8 then Some (buf, 0, 0)
      else
       (let src = take LZVN_ENCODE_MAX_SRC_SIZE src0; st0 = encoder_start buf src in
        do { st1 \<leftarrow> (if length src \<ge> 8 then
                       do { st \<leftarrow> lzvn_init_table (st0\<lparr>en_src_current_end := int (length src) - 8\<rparr>); lzvn_encode st }
                     else Some st0);
             (st2, ok) \<leftarrow> lzvn_emit_literal st1 (en_src_end st1 - en_src_literal st1);
             (st3, n) \<leftarrow> lzvn_emit_end_of_stream (st2\<lparr>en_dst_end := length buf\<rparr>);
             Some (en_buf st3, en_dst st3, nat (en_src_literal st3)) }))"

definition lzvn_encode_buffer :: "byte list \<Rightarrow> byte list \<Rightarrow> (byte list \<times> nat) option" where
  "lzvn_encode_buffer buf src =
     do { (b, dst_used, src_used) \<leftarrow> lzvn_encode_partial buf src;
          Some (b, if src_used \<noteq> length src then 0 else dst_used) }"

end
