(* ===== verification/LZFSE_Encode.thy ===== *)
theory LZFSE_Encode
  imports LZFSE_Decode LZVN_Encode
begin

text \<open>
  The LZFSE encoder, \<open>lzfse_encode_base.c\<close> and \<open>lzfse_encode.c\<close> under
  \<open>src/src/darwin/libcompression/lzfse/\<close>, with the encoder state of \<open>lzfse_internal.h\<close>.

  The source is the byte list \<open>e_text\<close> and \<open>e_src\<close> the index of the pointer \<open>src\<close> in it;
  offsets (\<open>lzfse_offset\<close>, 64 bits) are integers relative to it.  The destination is
  \<open>e_out\<close>, written up to \<open>e_dst_end\<close>.  An access outside the memory or an array, and a
  signed overflow, is \<open>None\<close>; the boolean of a result says \<open>LZFSE_STATUS_OK\<close> or
  \<open>LZFSE_STATUS_DST_FULL\<close>, the only codes these functions return.  Lengths and counts are
  naturals: what is added to them is bounded by the block size, so that \<open>uint32_t\<close> holds
  them; the conversions of differences of offsets to \<open>uint32_t\<close> are written out.  \<open>ub\<close> is what
  the machine delivers for the shift by -1 in \<open>fse_init_encoder_table\<close>.
\<close>

section \<open>State\<close>

record lzfse_match =
  mt_pos :: int
  mt_ref :: int
  mt_length :: nat

definition NO_MATCH_LZFSE :: lzfse_match where
  "NO_MATCH_LZFSE = \<lparr>mt_pos = 0, mt_ref = 0, mt_length = 0\<rparr>"

text \<open>A line of the history table.\<close>

record lzfse_history_set =
  hs_pos :: "int list"
  hs_value :: "u32 list"

record lzfse_encoder_state =
  e_text :: "byte list"
  e_src :: int
  e_src_end :: int
  e_src_literal :: int
  e_src_encode_i :: int
  e_src_encode_end :: int
  e_out :: "byte list"
  e_dst :: nat
  e_dst_end :: nat
  e_pending :: lzfse_match
  e_n_matches :: nat
  e_n_literals :: nat
  e_l_values :: "nat list"
  e_m_values :: "nat list"
  e_d_values :: "nat list"
  e_literals :: "byte list"
  e_history :: "lzfse_history_set list"

abbreviation (input) LZFSE_ENCODE_HASH_WIDTH :: nat where "LZFSE_ENCODE_HASH_WIDTH \<equiv> 4"
abbreviation (input) LZFSE_ENCODE_HASH_BITS :: nat where "LZFSE_ENCODE_HASH_BITS \<equiv> 14"
abbreviation (input) LZFSE_ENCODE_GOOD_MATCH :: nat where "LZFSE_ENCODE_GOOD_MATCH \<equiv> 40"
abbreviation (input) LZFSE_ENCODE_LZVN_THRESHOLD :: nat where "LZFSE_ENCODE_LZVN_THRESHOLD \<equiv> 4096"
abbreviation (input) LZFSE_ENCODE_MAX_MATCH_LENGTH :: nat where "LZFSE_ENCODE_MAX_MATCH_LENGTH \<equiv> 100 * LZFSE_ENCODE_MAX_M_VALUE"

definition LZFSE_ENCODE_HASH_VALUES :: nat where "LZFSE_ENCODE_HASH_VALUES = 2 ^ LZFSE_ENCODE_HASH_BITS"

type_synonym encoder_result = "(bool \<times> lzfse_encoder_state) option"

section \<open>Encoding a block\<close>

text \<open>Zero literals up to a multiple of 4.\<close>

function pad_literals :: "byte list \<Rightarrow> nat \<Rightarrow> (byte list \<times> nat) option" where
  "pad_literals lits n =
     (if n mod 4 = 0 then Some (lits, n)
      else if n < length lits then pad_literals (lits[n := 0]) (Suc n) else None)"
  by pat_completeness auto

termination pad_literals
  by (relation "measure (\<lambda>(lits, n). length lits - n)") auto

declare pad_literals.simps [simp del]

text \<open>A repeated distance is stored as 0, and back.\<close>

fun code_prev :: "nat \<Rightarrow> nat list \<Rightarrow> nat list" where
  "code_prev prev [] = []"
| "code_prev prev (d # ds) = (if d = prev then 0 # code_prev prev ds else d # code_prev d ds)"

fun restore_prev :: "nat \<Rightarrow> nat list \<Rightarrow> nat list" where
  "restore_prev prev [] = []"
| "restore_prev prev (d # ds) = (if d = 0 then prev # restore_prev prev ds else d # restore_prev d ds)"

text \<open>The occurrences of the classes of the values, counted into a cleared table.\<close>

fun count_classes :: "(nat \<Rightarrow> nat option) \<Rightarrow> nat list \<Rightarrow> nat list \<Rightarrow> nat list option" where
  "count_classes base_from_value occ [] = Some occ"
| "count_classes base_from_value occ (v # vs) =
     do { b \<leftarrow> base_from_value v;
          if b < length occ then count_classes base_from_value (occ[b := occ ! b + 1]) vs else None }"

type_synonym encoder_table = "fse_encoder_entry option list"

text \<open>The literals in groups of four, from the last group to the first.  \<open>Inl\<close>: the destination
  is full, with the memory as written so far.\<close>

fun encode_literals ::
  "nat \<Rightarrow> byte list \<Rightarrow> encoder_table \<Rightarrow> nat \<Rightarrow> nat \<times> nat \<times> nat \<times> nat \<Rightarrow> fse_stream \<Rightarrow> byte list \<Rightarrow> nat \<Rightarrow>
    (byte list + (nat \<times> nat \<times> nat \<times> nat) \<times> fse_stream \<times> byte list \<times> nat) option" where
  "encode_literals hi lits t 0 states out b buf = Some (Inr (states, out, b, buf))"
| "encode_literals hi lits t (Suc k) (state0, state1, state2, state3) out b buf =
     (if buf + 16 > hi then Some (Inl b)
      else do { (state3, out) \<leftarrow> fse_encode state3 t out (unat (lits ! (4 * k + 3)));
                (state2, out) \<leftarrow> fse_encode state2 t out (unat (lits ! (4 * k + 2)));
                (state1, out) \<leftarrow> fse_encode state1 t out (unat (lits ! (4 * k + 1)));
                (state0, out) \<leftarrow> fse_encode state0 t out (unat (lits ! (4 * k)));
                (out, b, buf) \<leftarrow> fse_out_flush64 hi out b buf;
                encode_literals hi lits t k (state0, state1, state2, state3) out b buf })"

text \<open>One value: its extra bits and then its symbol.\<close>

definition encode_value :: "nat \<Rightarrow> nat list \<Rightarrow> int list \<Rightarrow> encoder_table \<Rightarrow> nat \<Rightarrow> nat \<Rightarrow> fse_stream \<Rightarrow> (nat \<times> fse_stream) option" where
  "encode_value symbol extra_bits base_value t state v out =
     do { out \<leftarrow> fse_out_push64 out (int (extra_bits ! symbol)) (of_int (int v - base_value ! symbol));
          fse_encode state t out symbol }"

text \<open>The triples, from the last to the first: D, M, L.\<close>

fun encode_lmds ::
  "nat \<Rightarrow> nat list \<times> nat list \<times> nat list \<Rightarrow> encoder_table \<times> encoder_table \<times> encoder_table \<Rightarrow> nat \<Rightarrow>
    nat \<times> nat \<times> nat \<Rightarrow> fse_stream \<Rightarrow> byte list \<Rightarrow> nat \<Rightarrow> (byte list + (nat \<times> nat \<times> nat) \<times> fse_stream \<times> byte list \<times> nat) option" where
  "encode_lmds hi values tabs 0 states out b buf = Some (Inr (states, out, b, buf))"
| "encode_lmds hi (ls, ms, ds) (lt, mt, dt) (Suc i) (l_state, m_state, d_state) out b buf =
     (if buf + 16 > hi then Some (Inl b)
      else do { (d_state, out) \<leftarrow> encode_value (d_base_from_value (ds ! i)) d_extra_bits d_base_value dt d_state (ds ! i) out;
                m_symbol \<leftarrow> m_base_from_value (ms ! i);
                (m_state, out) \<leftarrow> encode_value m_symbol m_extra_bits m_base_value mt m_state (ms ! i) out;
                l_symbol \<leftarrow> l_base_from_value (ls ! i);
                (l_state, out) \<leftarrow> encode_value l_symbol l_extra_bits l_base_value lt l_state (ls ! i) out;
                (out, b, buf) \<leftarrow> fse_out_flush64 hi out b buf;
                encode_lmds hi (ls, ms, ds) (lt, mt, dt) i (l_state, m_state, d_state) out b buf })"

text \<open>The occurrences of the classes of L, M, D and of the literals.\<close>

definition block_counts :: "nat list \<Rightarrow> nat list \<Rightarrow> nat list \<Rightarrow> byte list \<Rightarrow> (nat list \<times> nat list \<times> nat list \<times> nat list) option" where
  "block_counts ls ms ds lits =
     do { l_occ \<leftarrow> count_classes l_base_from_value (replicate 20 0) ls;
          m_occ \<leftarrow> count_classes m_base_from_value (replicate 20 0) ms;
          d_occ \<leftarrow> count_classes (\<lambda>d. Some (d_base_from_value d)) (replicate 64 0) ds;
          literal_occ \<leftarrow> count_classes Some (replicate 256 0) (map unat lits);
          Some (l_occ, m_occ, d_occ, literal_occ) }"

text \<open>\<open>header1\<close> after the tables are normalised.\<close>

definition block_header :: "nat list \<times> nat list \<times> nat list \<times> nat list \<Rightarrow> nat list \<Rightarrow> nat list \<Rightarrow> byte list \<Rightarrow> lzfse_header_v1 option" where
  "block_header occ ls ms lits =
     (case occ of (l_occ, m_occ, d_occ, literal_occ) \<Rightarrow>
     do { l_freq \<leftarrow> fse_normalize_freq LZFSE_ENCODE_L_STATES l_occ;
          m_freq \<leftarrow> fse_normalize_freq LZFSE_ENCODE_M_STATES m_occ;
          d_freq \<leftarrow> fse_normalize_freq LZFSE_ENCODE_D_STATES d_occ;
          literal_freq \<leftarrow> fse_normalize_freq LZFSE_ENCODE_LITERAL_STATES literal_occ;
          Some \<lparr>h_magic = LZFSE_COMPRESSEDV1_BLOCK_MAGIC, h_n_raw_bytes = (sum_list ms + sum_list ls) mod 2 ^ 32, h_n_payload_bytes = 0,
                h_n_literals = length lits, h_n_matches = length ls, h_n_literal_payload_bytes = 0, h_n_lmd_payload_bytes = 0,
                h_literal_bits = 0, h_literal_state = [0, 0, 0, 0], h_lmd_bits = 0, h_l_state = 0, h_m_state = 0, h_d_state = 0,
                h_l_freq = l_freq, h_m_freq = m_freq, h_d_freq = d_freq, h_literal_freq = literal_freq\<rparr> })"

text \<open>The literal payload at \<open>start\<close>: the header, memory and position behind it.\<close>

definition literal_payload :: "int \<Rightarrow> nat \<Rightarrow> byte list \<Rightarrow> lzfse_header_v1 \<Rightarrow> byte list \<Rightarrow> nat \<Rightarrow> (byte list + lzfse_header_v1 \<times> byte list \<times> nat) option" where
  "literal_payload ub hi lits h b start =
     do { r \<leftarrow> encode_literals hi lits (fse_init_encoder_table ub LZFSE_ENCODE_LITERAL_STATES (h_literal_freq h))
                 (h_n_literals h div 4) (0, 0, 0, 0) fse_out_init64 b start;
          case r of Inl b \<Rightarrow> Some (Inl b)
          | Inr ((state0, state1, state2, state3), out, b, buf) \<Rightarrow>
            do { (out, b, buf) \<leftarrow> fse_out_finish64 hi out b buf;
                 Some (Inr (h\<lparr>h_literal_bits := accum_nbits out, h_n_literal_payload_bytes := buf - start,
                               h_literal_state := [state0, state1, state2, state3]\<rparr>, b, buf)) } }"

definition lmd_payload :: "int \<Rightarrow> nat \<Rightarrow> nat list \<times> nat list \<times> nat list \<Rightarrow> lzfse_header_v1 \<Rightarrow> byte list \<Rightarrow> nat \<Rightarrow> (byte list + lzfse_header_v1 \<times> byte list \<times> nat) option" where
  "lmd_payload ub hi values h b start =
     (if start + 8 > hi then Some (Inl b)
      else
       do { b \<leftarrow> store8 b 0 hi start 0;
            r \<leftarrow> encode_lmds hi values
                   (fse_init_encoder_table ub LZFSE_ENCODE_L_STATES (h_l_freq h), fse_init_encoder_table ub LZFSE_ENCODE_M_STATES (h_m_freq h),
                    fse_init_encoder_table ub LZFSE_ENCODE_D_STATES (h_d_freq h))
                   (h_n_matches h) (0, 0, 0) fse_out_init64 b (start + 8);
            case r of Inl b \<Rightarrow> Some (Inl b)
            | Inr ((l_state, m_state, d_state), out, b, buf) \<Rightarrow>
              do { (out, b, buf) \<leftarrow> fse_out_finish64 hi out b buf;
                   Some (Inr (h\<lparr>h_n_lmd_payload_bytes := buf - start, h_lmd_bits := accum_nbits out,
                                 h_l_state := l_state, h_m_state := m_state, h_d_state := d_state\<rparr>, b, buf)) } })"

text \<open>The block of the values and literals at \<open>start\<close>: the memory, and the position behind the
  block unless the destination is full.\<close>

definition encode_block ::
  "int \<Rightarrow> nat \<Rightarrow> nat list \<times> nat list \<times> nat list \<Rightarrow> byte list \<Rightarrow> byte list \<Rightarrow> nat \<Rightarrow> (byte list \<times> nat option) option" where
  "encode_block ub hi values lits b start =
     do { occ \<leftarrow> block_counts (fst values) (fst (snd values)) (snd (snd values)) lits;
      if start + 752 > hi then Some (b, None)
      else
       do { h \<leftarrow> block_header occ (fst values) (fst (snd values)) lits;
            (b, header_size) \<leftarrow> lzfse_encode_v1_freq_table hi b start h;
            r \<leftarrow> literal_payload ub hi lits h b (start + header_size);
            case r of Inl b \<Rightarrow> Some (b, None)
            | Inr (h, b, buf) \<Rightarrow>
              do { r \<leftarrow> lmd_payload ub hi values h b buf;
                   case r of Inl b \<Rightarrow> Some (b, None)
                   | Inr (h, b, buf) \<Rightarrow>
                     do { b \<leftarrow> lzfse_encode_v1_state hi b start (h\<lparr>h_n_payload_bytes := h_n_literal_payload_bytes h + h_n_lmd_payload_bytes h\<rparr>);
                          Some (b, Some buf) } } } }"

definition lzfse_encode_matches :: "int \<Rightarrow> lzfse_encoder_state \<Rightarrow> encoder_result" where
  "lzfse_encode_matches ub s =
     (if e_n_literals s = 0 \<and> e_n_matches s = 0 then Some (True, s)
      else
       (let n = e_n_matches s; ds = code_prev 0 (take n (e_d_values s)) in
        do { (literals, n_literals) \<leftarrow> pad_literals (e_literals s) (e_n_literals s);
             (b, r) \<leftarrow> encode_block ub (e_dst_end s) (take n (e_l_values s), take n (e_m_values s), ds) (take n_literals literals) (e_out s) (e_dst s);
             case r of
               None \<Rightarrow> Some (False, s\<lparr>e_out := b, e_literals := literals, e_d_values := restore_prev 0 ds @ drop n (e_d_values s)\<rparr>)
             | Some start \<Rightarrow> Some (True, s\<lparr>e_out := b, e_literals := literals, e_d_values := ds @ drop n (e_d_values s),
                                         e_dst := start, e_n_literals := 0, e_n_matches := 0\<rparr>) }))"

section \<open>Collecting matches\<close>

definition text_load :: "lzfse_encoder_state \<Rightarrow> int \<Rightarrow> nat \<Rightarrow> byte list option" where
  "text_load s off k = (if e_src s + off < 0 then None else load (e_text s) 0 (length (e_text s)) (nat (e_src s + off)) k)"

text \<open>The literals are copied in blocks of 16, at least one, unless the end of the source is near.\<close>

definition copy_literals :: "lzfse_encoder_state \<Rightarrow> nat \<Rightarrow> byte list option" where
  "copy_literals s L =
     (if e_src_literal s + int L + 16 > e_src_end s then
        if L > 0 then do { bs \<leftarrow> text_load s (e_src_literal s) L; poke (e_literals s) (e_n_literals s) bs } else Some (e_literals s)
      else copy_loop 16 (\<lambda>i. text_load s (e_src_literal s + int i) 16) 0 (length (e_literals s)) (e_n_literals s) (max 1 ((L + 15) div 16)) (e_literals s))"

definition lzfse_push_lmd :: "lzfse_encoder_state \<Rightarrow> nat \<Rightarrow> nat \<Rightarrow> nat \<Rightarrow> encoder_result" where
  "lzfse_push_lmd s L M D =
     (let n = e_n_matches s in
      if n + 1 + 8 > LZFSE_MATCHES_PER_BLOCK then Some (False, s)
      else if e_n_literals s + L + 16 > LZFSE_LITERALS_PER_BLOCK then Some (False, s)
      else if length (e_l_values s) \<le> n \<or> length (e_m_values s) \<le> n \<or> length (e_d_values s) \<le> n then None
      else
        do { literals \<leftarrow> copy_literals s L;
             Some (True, s\<lparr>e_n_matches := n + 1, e_l_values := (e_l_values s)[n := L], e_m_values := (e_m_values s)[n := M],
                           e_d_values := (e_d_values s)[n := D], e_literals := literals, e_n_literals := e_n_literals s + L,
                           e_src_literal := e_src_literal s + int (L + M)\<rparr>) })"

text \<open>The two loops that split a literal run and a match: the rest.\<close>

function split_literals :: "lzfse_encoder_state \<Rightarrow> nat \<Rightarrow> (bool \<times> lzfse_encoder_state \<times> nat) option" where
  "split_literals s L =
     (if L > LZFSE_ENCODE_MAX_L_VALUE then
        do { (ok, s) \<leftarrow> lzfse_push_lmd s LZFSE_ENCODE_MAX_L_VALUE 0 1;
             if ok then split_literals s (L - LZFSE_ENCODE_MAX_L_VALUE) else Some (False, s, L) }
      else Some (True, s, L))"
  by pat_completeness auto

termination split_literals
  by (relation "measure snd") auto

function split_match :: "lzfse_encoder_state \<Rightarrow> nat \<Rightarrow> nat \<Rightarrow> nat \<Rightarrow> (bool \<times> lzfse_encoder_state \<times> nat \<times> nat) option" where
  "split_match s L M D =
     (if M > LZFSE_ENCODE_MAX_M_VALUE then
        do { (ok, s) \<leftarrow> lzfse_push_lmd s L LZFSE_ENCODE_MAX_M_VALUE D;
             if ok then split_match s 0 (M - LZFSE_ENCODE_MAX_M_VALUE) D else Some (False, s, L, M) }
      else Some (True, s, L, M))"
  by pat_completeness auto

termination split_match
  by (relation "measure (\<lambda>(s, L, M, D). M)") auto

declare split_literals.simps [simp del] split_match.simps [simp del]

definition lzfse_push_match :: "lzfse_encoder_state \<Rightarrow> lzfse_match \<Rightarrow> encoder_result" where
  "lzfse_push_match s m =
     (let L = nat ((mt_pos m - e_src_literal s) mod 2 ^ 32); M = mt_length m; D = nat ((mt_pos m - mt_ref m) mod 2 ^ 32);
          revert = (\<lambda>s'. Some (False, s'\<lparr>e_n_matches := e_n_matches s, e_n_literals := e_n_literals s, e_src_literal := e_src_literal s\<rparr>)) in
      do { (ok, s', L) \<leftarrow> split_literals s L;
           if \<not> ok then revert s'
           else do { (ok, s', L, M) \<leftarrow> split_match s' L M D;
                     if \<not> ok then revert s'
                     else if L > 0 \<or> M > 0 then
                       do { (ok, s') \<leftarrow> lzfse_push_lmd s' L M D; if ok then Some (True, s') else revert s' }
                     else Some (True, s') } })"

definition lzfse_backend_match :: "int \<Rightarrow> lzfse_encoder_state \<Rightarrow> lzfse_match \<Rightarrow> encoder_result" where
  "lzfse_backend_match ub s m =
     do { (ok, s) \<leftarrow> lzfse_push_match s m;
          if ok then Some (True, s)
          else do { (ok, s) \<leftarrow> lzfse_encode_matches ub s;
                    if ok then lzfse_push_match s m else Some (False, s) } }"

definition lzfse_backend_literals :: "int \<Rightarrow> lzfse_encoder_state \<Rightarrow> int \<Rightarrow> encoder_result" where
  "lzfse_backend_literals ub s L =
     (let pos = e_src_literal s + L in lzfse_backend_match ub s \<lparr>mt_pos = pos, mt_ref = pos - 1, mt_length = 0\<rparr>)"

definition lzfse_backend_end_of_stream :: "int \<Rightarrow> lzfse_encoder_state \<Rightarrow> encoder_result" where
  "lzfse_backend_end_of_stream ub s =
     do { (ok, s) \<leftarrow> lzfse_encode_matches ub s;
          if \<not> ok then Some (False, s)
          else if e_dst s + 4 > e_dst_end s then Some (False, s)
          else do { b \<leftarrow> store4 (e_out s) 0 (e_dst_end s) (e_dst s) LZFSE_ENDOFSTREAM_BLOCK_MAGIC;
                    Some (True, s\<lparr>e_out := b, e_dst := e_dst s + 4\<rparr>) } }"

section \<open>The match search\<close>

definition invalid_pos :: int where "invalid_pos = - 4 * int LZFSE_ENCODE_MAX_D_VALUE"

definition lzfse_encode_init :: "lzfse_encoder_state \<Rightarrow> lzfse_encoder_state" where
  "lzfse_encode_init s =
     (let line = \<lparr>hs_pos = replicate LZFSE_ENCODE_HASH_WIDTH invalid_pos, hs_value = replicate LZFSE_ENCODE_HASH_WIDTH 0\<rparr> in
      s\<lparr>e_history := replicate LZFSE_ENCODE_HASH_VALUES line, e_pending := NO_MATCH_LZFSE, e_src_literal := 0\<rparr>)"

definition int32 :: "int \<Rightarrow> int" where
  "int32 x = (x + 2 ^ 31) mod 2 ^ 32 - 2 ^ 31"

definition lzfse_encode_translate :: "lzfse_encoder_state \<Rightarrow> int \<Rightarrow> lzfse_encoder_state" where
  "lzfse_encode_translate s delta =
     (if delta = 0 then s
      else s\<lparr>e_src := e_src s + delta, e_src_end := e_src_end s - delta, e_src_encode_i := e_src_encode_i s - delta,
             e_src_encode_end := e_src_encode_end s - delta, e_src_literal := e_src_literal s - delta,
             e_pending := (e_pending s)\<lparr>mt_pos := mt_pos (e_pending s) - delta, mt_ref := mt_ref (e_pending s) - delta\<rparr>,
             e_history := map (\<lambda>h. h\<lparr>hs_pos := map (\<lambda>p. let newPos = p - delta in int32 (if newPos < invalid_pos then invalid_pos else newPos)) (hs_pos h)\<rparr>)
                            (e_history s)\<rparr>)"

definition hashX :: "u32 \<Rightarrow> nat" where
  "hashX x = unat (drop_bit (32 - LZFSE_ENCODE_HASH_BITS) (x * 2654435761))"

definition text4 :: "lzfse_encoder_state \<Rightarrow> int \<Rightarrow> u32 option" where
  "text4 s off = map_option (\<lambda>bs. of_nat (le_val bs)) (text_load s off 4)"

definition text8 :: "lzfse_encoder_state \<Rightarrow> int \<Rightarrow> u64 option" where
  "text8 s off = map_option (\<lambda>bs. of_nat (le_val bs)) (text_load s off 8)"

definition text1 :: "lzfse_encoder_state \<Rightarrow> int \<Rightarrow> byte option" where
  "text1 s off = map_option hd (text_load s off 1)"

function match_length :: "lzfse_encoder_state \<Rightarrow> int \<Rightarrow> int \<Rightarrow> nat \<Rightarrow> nat \<Rightarrow> nat option" where
  "match_length s ref pos maxLength len =
     (if len < maxLength then
        do { a \<leftarrow> text8 s (ref + int len);
             b \<leftarrow> text8 s (pos + int len);
             let d = a XOR b in
             if d = 0 then match_length s ref pos maxLength (len + 8)
             else Some (len + ctz (unat d) div 8) }
      else Some len)"
  by pat_completeness auto

termination match_length
  by (relation "measure (\<lambda>(s, ref, pos, m, len). m - len)") auto

declare match_length.simps [simp del]

text \<open>One entry of the history line.\<close>

definition check_candidate :: "lzfse_encoder_state \<Rightarrow> int \<Rightarrow> u32 \<Rightarrow> int \<times> u32 \<Rightarrow> lzfse_match \<Rightarrow> lzfse_match option" where
  "check_candidate s pos x entry incoming =
     (case entry of (ref, value) \<Rightarrow>
        if value XOR x \<noteq> 0 then Some incoming
        else if ref + int LZFSE_ENCODE_MAX_D_VALUE \<ge> 2 ^ 31 then None
        else if ref + int LZFSE_ENCODE_MAX_D_VALUE < pos then Some incoming
        else do { len \<leftarrow> match_length s ref pos (nat ((e_src_end s - pos - 8) mod 2 ^ 32)) 4;
                  Some (if len > mt_length incoming then incoming\<lparr>mt_length := len, mt_ref := ref\<rparr> else incoming) })"

fun check_candidates :: "lzfse_encoder_state \<Rightarrow> int \<Rightarrow> u32 \<Rightarrow> (int \<times> u32) list \<Rightarrow> lzfse_match \<Rightarrow> lzfse_match option" where
  "check_candidates s pos x [] incoming = Some incoming"
| "check_candidates s pos x (e # es) incoming =
     do { incoming \<leftarrow> check_candidate s pos x e incoming; check_candidates s pos x es incoming }"

function expand_back :: "lzfse_encoder_state \<Rightarrow> lzfse_match \<Rightarrow> lzfse_match option" where
  "expand_back s m =
     (if mt_pos m > e_src_literal s \<and> mt_ref m > 0 then
        do { a \<leftarrow> text1 s (mt_ref m - 1);
             b \<leftarrow> text1 s (mt_pos m - 1);
             if a = b then expand_back s (m\<lparr>mt_pos := mt_pos m - 1, mt_ref := mt_ref m - 1\<rparr>) else Some m }
      else Some m)"
  by pat_completeness auto

termination expand_back
  by (relation "measure (\<lambda>(s, m). nat (mt_pos m - e_src_literal s))") auto

declare expand_back.simps [simp del]

text \<open>The limit on the length, the expansion backwards, and the new length.\<close>

definition extend_match :: "lzfse_encoder_state \<Rightarrow> int \<Rightarrow> lzfse_match \<Rightarrow> lzfse_match option" where
  "extend_match s pos incoming =
     do { m \<leftarrow> expand_back s (incoming\<lparr>mt_length := min (mt_length incoming) LZFSE_ENCODE_MAX_MATCH_LENGTH\<rparr>);
          Some (m\<lparr>mt_length := mt_length m + nat (pos - mt_pos m)\<rparr>) }"

text \<open>Emit a match, and set the pending one.\<close>

definition emit_and_keep :: "int \<Rightarrow> lzfse_encoder_state \<Rightarrow> lzfse_match \<Rightarrow> lzfse_match \<Rightarrow> encoder_result" where
  "emit_and_keep ub s m pending =
     do { (ok, s) \<leftarrow> lzfse_backend_match ub s m; Some (ok, if ok then s\<lparr>e_pending := pending\<rparr> else s) }"

definition no_incoming :: "int \<Rightarrow> lzfse_encoder_state \<Rightarrow> int \<Rightarrow> encoder_result" where
  "no_incoming ub s pos =
     (if pos - e_src_literal s > 8 * int LZFSE_ENCODE_MAX_L_VALUE then
        if mt_length (e_pending s) > 0 then emit_and_keep ub s (e_pending s) NO_MATCH_LZFSE
        else lzfse_backend_literals ub s (int LZFSE_ENCODE_MAX_L_VALUE)
      else Some (True, s))"

definition keep_or_emit :: "int \<Rightarrow> lzfse_encoder_state \<Rightarrow> lzfse_match \<Rightarrow> encoder_result" where
  "keep_or_emit ub s incoming =
     (let pending = e_pending s in
      if mt_length incoming \<ge> LZFSE_ENCODE_GOOD_MATCH then emit_and_keep ub s incoming NO_MATCH_LZFSE
      else if mt_length pending = 0 then Some (True, s\<lparr>e_pending := incoming\<rparr>)
      else if mt_pos pending + int (mt_length pending) \<le> mt_pos incoming then emit_and_keep ub s pending incoming
      else if mt_length incoming > mt_length pending then emit_and_keep ub s incoming NO_MATCH_LZFSE
      else emit_and_keep ub s pending NO_MATCH_LZFSE)"

text \<open>The body of the loop up to \<open>END_POS\<close>, given the value and the history line at the position.\<close>

definition encode_pos :: "int \<Rightarrow> lzfse_encoder_state \<Rightarrow> u32 \<Rightarrow> lzfse_history_set \<Rightarrow> encoder_result" where
  "encode_pos ub s x h =
     (let pos = e_src_encode_i s in
      if pos < e_src_literal s then Some (True, s)
      else
        do { incoming \<leftarrow> check_candidates s pos x (zip (hs_pos h) (hs_value h)) \<lparr>mt_pos = pos, mt_ref = 0, mt_length = 0\<rparr>;
             if mt_length incoming = 0 then no_incoming ub s pos
             else do { incoming \<leftarrow> extend_match s pos incoming; keep_or_emit ub s incoming } })"

definition next_line :: "int \<Rightarrow> u32 \<Rightarrow> lzfse_history_set \<Rightarrow> lzfse_history_set" where
  "next_line pos x h =
     \<lparr>hs_pos = int32 pos # take (LZFSE_ENCODE_HASH_WIDTH - 1) (hs_pos h), hs_value = x # take (LZFSE_ENCODE_HASH_WIDTH - 1) (hs_value h)\<rparr>"

text \<open>The \<open>for\<close> loop; nothing in its body changes the counter or its end, so the number of
  rounds is fixed.\<close>

fun encode_loop :: "int \<Rightarrow> nat \<Rightarrow> lzfse_encoder_state \<Rightarrow> encoder_result" where
  "encode_loop ub 0 s = Some (True, s)"
| "encode_loop ub (Suc n) s =
     do { x \<leftarrow> text4 s (e_src_encode_i s);
          if hashX x < length (e_history s) then
            do { (ok, s') \<leftarrow> encode_pos ub s x (e_history s ! hashX x);
                 if ok then
                   encode_loop ub n (s'\<lparr>e_history := (e_history s')[hashX x := next_line (e_src_encode_i s) x (e_history s ! hashX x)],
                                        e_src_encode_i := e_src_encode_i s' + 1\<rparr>)
                 else Some (False, s') }
          else None }"

definition lzfse_encode_base :: "int \<Rightarrow> lzfse_encoder_state \<Rightarrow> encoder_result" where
  "lzfse_encode_base ub s =
     (let s = s\<lparr>e_src_encode_end := e_src_end s - 8\<rparr> in
      encode_loop ub (nat (e_src_encode_end s - e_src_encode_i s)) s)"

definition lzfse_encode_finish :: "int \<Rightarrow> lzfse_encoder_state \<Rightarrow> encoder_result" where
  "lzfse_encode_finish ub s =
     do { (ok, s) \<leftarrow> (if mt_length (e_pending s) > 0 then emit_and_keep ub s (e_pending s) NO_MATCH_LZFSE else Some (True, s));
          if \<not> ok then Some (False, s)
          else do { (ok, s) \<leftarrow> (let L = e_src_end s - e_src_literal s in if L > 0 then lzfse_backend_literals ub s L else Some (True, s));
                    if \<not> ok then Some (False, s) else lzfse_backend_end_of_stream ub s } }"

section \<open>Buffers\<close>

definition encode_start :: "byte list \<Rightarrow> byte list \<Rightarrow> lzfse_encoder_state" where
  "encode_start dst_buffer src_buffer =
     lzfse_encode_init \<lparr>e_text = src_buffer, e_src = 0, e_src_end = 0, e_src_literal = 0, e_src_encode_i = 0, e_src_encode_end = 0,
       e_out = dst_buffer, e_dst = 0, e_dst_end = length dst_buffer, e_pending = NO_MATCH_LZFSE, e_n_matches = 0, e_n_literals = 0,
       e_l_values = replicate LZFSE_MATCHES_PER_BLOCK 0, e_m_values = replicate LZFSE_MATCHES_PER_BLOCK 0,
       e_d_values = replicate LZFSE_MATCHES_PER_BLOCK 0, e_literals = replicate LZFSE_LITERALS_PER_BLOCK 0, e_history = []\<rparr>"

text \<open>The chunks of a source of 4 GiB or more.\<close>

function encode_chunks :: "int \<Rightarrow> lzfse_encoder_state \<Rightarrow> nat \<Rightarrow> (bool \<times> lzfse_encoder_state \<times> nat) option" where
  "encode_chunks ub s src_size =
     (if src_size \<ge> 262144 then
        do { (ok, s) \<leftarrow> lzfse_encode_base ub (s\<lparr>e_src_end := 2 * 262144\<rparr>);
             if ok then encode_chunks ub (lzfse_encode_translate s 262144) (src_size - 262144) else Some (False, s, src_size) }
      else Some (True, s, src_size))"
  by pat_completeness auto

termination encode_chunks
  by (relation "measure (\<lambda>(ub, s, n). n)") auto

declare encode_chunks.simps [simp del]

text \<open>The state before the last chunk.\<close>

definition encode_huge :: "int \<Rightarrow> lzfse_encoder_state \<Rightarrow> nat \<Rightarrow> encoder_result" where
  "encode_huge ub s src_size =
     (if src_size \<ge> 0xffffffff then
        do { (ok, s) \<leftarrow> lzfse_encode_base ub (s\<lparr>e_src_end := 262144\<rparr>);
             if \<not> ok then Some (False, s)
             else do { (ok, s, src_size) \<leftarrow> encode_chunks ub s (src_size - 262144);
                       Some (ok, s\<lparr>e_src_end := 262144 + int src_size\<rparr>) } }
      else Some (True, s\<lparr>e_src_end := int src_size\<rparr>))"

text \<open>Destination and bytes written; \<open>None\<close> inside is the jump to \<open>try_uncompressed\<close>.\<close>

definition encode_lzvn :: "byte list \<Rightarrow> byte list \<Rightarrow> (byte list \<times> nat option) option" where
  "encode_lzvn dst_buffer src_buffer =
     (let dst_size = length dst_buffer; src_size = length src_buffer; extra_size = 4 + 12 in
      if dst_size \<le> extra_size then Some (dst_buffer, None)
      else
        do { (b, sz) \<leftarrow> lzvn_encode_buffer (slice dst_buffer 12 (dst_size - extra_size)) src_buffer;
             dst_buffer \<leftarrow> poke dst_buffer 12 b;
             if sz = 0 \<or> sz \<ge> src_size then Some (dst_buffer, None)
             else
               do { b \<leftarrow> store dst_buffer 0 dst_size 0
                      (le_enc 4 (unat LZFSE_COMPRESSEDLZVN_BLOCK_MAGIC) @ le_enc 4 (src_size mod 2 ^ 32) @ le_enc 4 (sz mod 2 ^ 32));
                    b \<leftarrow> store4 b 0 dst_size (12 + sz) LZFSE_ENDOFSTREAM_BLOCK_MAGIC;
                    Some (b, Some (sz + extra_size)) } })"

definition encode_lzfse :: "int \<Rightarrow> byte list \<Rightarrow> byte list \<Rightarrow> (byte list \<times> nat option) option" where
  "encode_lzfse ub dst_buffer src_buffer =
     do { (ok, s) \<leftarrow> encode_huge ub (encode_start dst_buffer src_buffer) (length src_buffer);
          if \<not> ok then Some (e_out s, None)
          else do { (ok, s) \<leftarrow> lzfse_encode_base ub s;
                    if \<not> ok then Some (e_out s, None)
                    else do { (ok, s) \<leftarrow> lzfse_encode_finish ub s;
                              Some (e_out s, if ok then Some (e_dst s) else None) } } }"

definition encode_uncompressed :: "byte list \<Rightarrow> byte list \<Rightarrow> (byte list \<times> nat) option" where
  "encode_uncompressed dst_buffer src_buffer =
     (let original_size = length src_buffer; dst_size = length dst_buffer in
      if original_size + 12 \<le> dst_size \<and> original_size < 2 ^ 31 - 1 then
        do { b \<leftarrow> store dst_buffer 0 dst_size 0 (le_enc 4 (unat LZFSE_UNCOMPRESSED_BLOCK_MAGIC) @ le_enc 4 original_size);
             b \<leftarrow> store b 0 dst_size 8 src_buffer;
             b \<leftarrow> store4 b 0 dst_size (8 + original_size) LZFSE_ENDOFSTREAM_BLOCK_MAGIC;
             Some (b, 8 + original_size + 4) }
      else Some (dst_buffer, 0))"

definition lzfse_encode_buffer_with_scratch :: "int \<Rightarrow> byte list \<Rightarrow> byte list \<Rightarrow> (byte list \<times> nat) option" where
  "lzfse_encode_buffer_with_scratch ub dst_buffer src_buffer =
     (let src_size = length src_buffer in
      do { (b, r) \<leftarrow> (if src_size < 8 then Some (dst_buffer, None)
                     else if src_size < LZFSE_ENCODE_LZVN_THRESHOLD then encode_lzvn dst_buffer src_buffer
                     else encode_lzfse ub dst_buffer src_buffer);
           case r of Some n \<Rightarrow> Some (b, n) | None \<Rightarrow> encode_uncompressed b src_buffer })"

definition lzfse_encode_buffer :: "int \<Rightarrow> byte list \<Rightarrow> byte list \<Rightarrow> bool \<Rightarrow> bool \<Rightarrow> (byte list \<times> nat) option" where
  "lzfse_encode_buffer ub dst_buffer src_buffer scratch malloc_ok =
     (if \<not> scratch \<and> \<not> malloc_ok then Some (dst_buffer, 0)
      else lzfse_encode_buffer_with_scratch ub dst_buffer src_buffer)"

text \<open>\<open>compression_encode_buffer\<close>.\<close>

definition compression_encode_buffer :: "int \<Rightarrow> byte list \<Rightarrow> byte list \<Rightarrow> bool \<Rightarrow> bool \<Rightarrow> compression_algorithm \<Rightarrow> (byte list \<times> nat) option" where
  "compression_encode_buffer ub dst_buffer src_buffer scratch malloc_ok algorithm =
     (if algorithm = COMPRESSION_LZFSE then lzfse_encode_buffer ub dst_buffer src_buffer scratch malloc_ok else Some (dst_buffer, 0))"

end
