(* ===== verification/LZFSE_Safety.thy ===== *)
theory LZFSE_Safety
  imports LZFSE_Decode
begin

text \<open>
  Memory safety of the LZFSE decoder.  The invariant \<open>z_ok\<close> of a decoder state says that
  the pointers lie in their buffers, the tables hold only entries that stay inside
  them, and the saved position of an interrupted block can be used again.

  One byte behind the source buffer must be readable: the refill of a bit stream loads
  8 bytes at a position that is 7 bytes before the end when the stream ends with a full byte.
\<close>

section \<open>Streams\<close>

lemma in_init_safe:
  assumes "lo \<le> p" and "p \<le> length mem"
  shows "\<exists>r. fse_in_checked_init64 mem lo n p = Some r \<and>
    (r = None \<or> (\<exists>s p'. r = Some (s, p') \<and> stream_ok s \<and> lo \<le> p' \<and> p' + 7 \<le> p))"
proof -
  have top: "stream_ok \<lparr>accum = a, accum_nbits = m\<rparr>" if "\<not> (m < 56 \<or> m \<ge> 64 \<or> drop_bit (nat m) a \<noteq> 0)" for a :: u64 and m
    using that by (simp add: stream_ok_def word_unat_eq_iff unat_drop_bit div_eq_0_iff)
  show ?thesis
  proof (cases "n = 0")
    case True
    then show ?thesis
      using assms top by (auto simp: fse_in_checked_init64_def load_def Let_def)
  next
    case False
    then show ?thesis
      using assms top [of "n + 64"] by (auto simp: fse_in_checked_init64_def load8_def load_def Let_def)
  qed
qed

lemma in_flush_safe:
  assumes "stream_ok s" and "lo \<le> p" and "p + 8 \<le> length mem"
  shows "\<exists>r. fse_in_checked_flush64 mem lo s p = Some r \<and>
    (r = None \<or> (\<exists>s' p'. r = Some (s', p') \<and> stream_ok s' \<and> 56 \<le> accum_nbits s' \<and> lo \<le> p' \<and> p' \<le> p))"
  using in_flush(1) [OF assms refl] by blast

lemma decode_literals_safe:
  assumes t: "decoder_table_ok 10 t"
  shows "u0 < 1024 \<Longrightarrow> u1 < 1024 \<Longrightarrow> u2 < 1024 \<Longrightarrow> u3 < 1024 \<Longrightarrow> stream_ok inp \<Longrightarrow> lo \<le> p \<Longrightarrow> p + 8 \<le> length mem \<Longrightarrow>
    \<exists>r. decode_literals mem lo t n (u0, u1, u2, u3) inp p = Some r \<and> (\<forall>cs. r = Some cs \<longrightarrow> length cs = 4 * n)"
proof (induction n arbitrary: u0 u1 u2 u3 inp p)
  case (Suc n)
  obtain r where r: "fse_in_checked_flush64 mem lo inp p = Some r"
      "r = None \<or> (\<exists>s' p'. r = Some (s', p') \<and> stream_ok s' \<and> 56 \<le> accum_nbits s' \<and> lo \<le> p' \<and> p' \<le> p)"
    using in_flush_safe [OF Suc.prems(5-7)] by blast
  show ?case
  proof (cases r)
    case None
    then show ?thesis using r(1) by simp
  next
    case (Some ip)
    then obtain i0 p' where ip: "ip = (i0, p')" "stream_ok i0" "56 \<le> accum_nbits i0" "lo \<le> p'" "p' \<le> p"
      using r(2) by auto
    have step: "\<exists>c s' i'. fse_decode s t i = Some (c, s', i') \<and> s' < 1024 \<and> stream_ok i' \<and> accum_nbits i \<le> accum_nbits i' + 10"
      if "s < 1024" "stream_ok i" "10 \<le> accum_nbits i" for s i
      using fse_decode_safe [OF t _ _ that(2)] that by fastforce
    obtain c0 t0 i1 where a: "fse_decode u0 t i0 = Some (c0, t0, i1)" "t0 < 1024" "stream_ok i1" "46 \<le> accum_nbits i1"
      using step [OF Suc.prems(1) ip(2)] ip(3) by force
    obtain c1 t1 i2 where b: "fse_decode u1 t i1 = Some (c1, t1, i2)" "t1 < 1024" "stream_ok i2" "36 \<le> accum_nbits i2"
      using step [OF Suc.prems(2) a(3)] a(4) by force
    obtain c2 t2 i3 where c: "fse_decode u2 t i2 = Some (c2, t2, i3)" "t2 < 1024" "stream_ok i3" "26 \<le> accum_nbits i3"
      using step [OF Suc.prems(3) b(3)] b(4) by force
    obtain c3 t3 i4 where d: "fse_decode u3 t i3 = Some (c3, t3, i4)" "t3 < 1024" "stream_ok i4"
      using step [OF Suc.prems(4) c(3)] c(4) by force
    have "p' + 8 \<le> length mem" using Suc.prems(7) ip(5) by simp
    then obtain r' where "decode_literals mem lo t n (t0, t1, t2, t3) i4 p' = Some r'" "\<forall>cs. r' = Some cs \<longrightarrow> length cs = 4 * n"
      using Suc.IH [OF a(2) b(2) c(2) d(2,3) ip(4)] by blast
    then show ?thesis using r(1) Some ip(1) a(1) b(1) c(1) d(1) by auto
  qed
qed simp

section \<open>Matches\<close>

lemma copies_bounds: "n \<le> 8 * copies n" "8 * copies n \<le> n + 8" "0 < n \<Longrightarrow> 8 * copies n \<le> n + 7"
proof -
  have "n \<le> 8 * ((n + 7) div 8) \<and> 8 * ((n + 7) div 8) \<le> n + 7" using div8_cover [of n] by simp
  then show "n \<le> 8 * copies n" "8 * copies n \<le> n + 8" "0 < n \<Longrightarrow> 8 * copies n \<le> n + 7" by (auto simp: copies_def)
qed

fun lmd_result_ok :: "nat \<Rightarrow> nat \<Rightarrow> nat \<Rightarrow> nat \<Rightarrow> nat \<Rightarrow> byte list \<Rightarrow> lmd_result option \<Rightarrow> bool" where
  "lmd_result_ok hi L M lit d out None = False"
| "lmd_result_ok hi L M lit d out (Some Lmd_error) = True"
| "lmd_result_ok hi L M lit d out (Some (Lmd_full L' M' lit' d' b)) = (lit' + L' = lit + L \<and> d' = hi \<and> frame b out d hi)"
| "lmd_result_ok hi L M lit d out (Some (Lmd_next lit' d' b)) =
     (lit' = lit + L \<and> d' = d + L + M \<and> d' \<le> hi \<and> frame b out d hi)"

lemma literal_copy_safe:
  assumes "lit + w * k \<le> length lits" and "lo \<le> d" and "d + w * k \<le> hi" and "hi \<le> length out"
  shows "\<exists>b. copy_loop w (\<lambda>i. load lits 0 (length lits) (lit + i) w) lo hi d k out = Some b \<and> frame b out d (d + w * k)"
proof -
  have "load lits 0 (length lits) (lit + w * i) w = Some (slice lits (lit + w * i) w)" if "i < k" for i
  proof -
    have "w * Suc i \<le> w * k" using that by (intro mult_le_mono2) simp
    then show ?thesis using assms(1) by (simp add: load_def)
  qed
  then show ?thesis
    using copy_loop_ok [of k "\<lambda>i. load lits 0 (length lits) (lit + i) w" w lits lit lo d hi out] assms by blast
qed

lemma execute_match_safe:
  assumes len: "length lits = 40080" and lit: "lit + L < 40064"
    and w: "lo \<le> d" "d \<le> hi" "hi \<le> length out" "hi - lo < 2 ^ 31" and D: "- 1 \<le> D" "D < 2 ^ 31"
  shows "lmd_result_ok hi L M lit d out (execute_match lits lo hi L M D lit d out)"
proof (cases "D mod 2 ^ 32 > int d + int L - int lo")
  case True
  then show ?thesis by (simp add: execute_match_def)
next
  case False
  have "D \<noteq> - 1"
  proof
    assume "D = - 1"
    then have "(2 :: int) ^ 32 - 1 \<le> int d + int L - int lo" using False by simp
    then show False using w lit by simp
  qed
  then have D0: "0 \<le> D" using D by simp
  have Dle: "lo + nat D \<le> d + L"
    using False D0 D(2) by simp
  let ?ld = "\<lambda>w i. load lits 0 (length lits) (lit + i) w" and ?rem = "int hi - int d - 32"
  show ?thesis
  proof (cases "int L + int M \<le> ?rem")
    case True
    have k: "8 * copies L \<le> L + 8" "8 * copies M \<le> M + 8" "0 < L \<Longrightarrow> 8 * copies L \<le> L + 7" using copies_bounds by simp_all
    obtain b where b: "copy_loop 8 (?ld 8) lo hi d (copies L) out = Some b" "frame b out d (d + 8 * copies L)"
      using literal_copy_safe [of lit 8 "copies L" lits lo d hi out] k True w lit len by auto
    have lb: "length b = length out" by (rule frame_length [OF b(2)])
    have m: "\<exists>b'. match_loop v lo hi (d + L) (nat D) n b = Some b' \<and> frame b' b (d + L) (d + L + v * n)" if "v * n \<le> M + 8" for v n
      by (rule match_loop_safe) (use that True w Dle lb in auto)
    obtain b' where b': "(if D \<ge> 8 \<or> D \<ge> int M then match_loop 8 lo hi (d + L) (nat D) (copies M) b
          else match_loop 1 lo hi (d + L) (nat D) M b) = Some b'" "frame b' b (d + L) hi"
    proof (cases "D \<ge> 8 \<or> D \<ge> int M")
      case t: True
      obtain b' where "match_loop 8 lo hi (d + L) (nat D) (copies M) b = Some b'" "frame b' b (d + L) (d + L + 8 * copies M)"
        using m k(2) by blast
      then show thesis using that t frame_weaken [of b' b "d + L" "d + L + 8 * copies M" "d + L" hi] k(2) True by auto
    next
      case f: False
      obtain b' where "match_loop 1 lo hi (d + L) (nat D) M b = Some b'" "frame b' b (d + L) (d + L + 1 * M)"
        using m [of 1 M] by auto
      then show thesis using that f frame_weaken [of b' b "d + L" "d + L + 1 * M" "d + L" hi] True by auto
    qed
    have "execute_match lits lo hi L M D lit d out = Some (Lmd_next (lit + L) (d + L + M) b')"
      using False D0 True b(1) b'(1) by (simp add: execute_match_def Let_def)
    moreover have "frame b' out d hi"
      by (rule frame_join [OF b'(2) b(2)]) (use k(1) True in auto)
    ultimately show ?thesis using True by simp
  next
    case slow: False
    show ?thesis
    proof (cases "int L \<le> int hi - int d")
      case False
      let ?n = "hi - d"
      have n: "lit + 1 * ?n \<le> length lits" "d + 1 * ?n \<le> hi" using False lit len w by auto
      obtain b where b: "copy_loop 1 (?ld 1) lo hi d ?n out = Some b" "frame b out d (d + 1 * ?n)"
        using literal_copy_safe [OF n(1) w(1) n(2) w(3)] by auto
      have "execute_match lits lo hi L M D lit d out = Some (Lmd_full (L - ?n) M (lit + ?n) (d + ?n) b)"
        using \<open>\<not> D mod 2 ^ 32 > int d + int L - int lo\<close> D0 slow False b(1) w by (simp add: execute_match_def Let_def nat_diff_distrib)
      then show ?thesis using b(2) w False by simp
    next
      case True
      obtain b where b: "copy_loop 1 (?ld 1) lo hi d L out = Some b" "frame b out d (d + 1 * L)"
        using literal_copy_safe [of lit 1 L lits lo d hi out] w lit len True by auto
      have lb: "length b = length out" by (rule frame_length [OF b(2)])
      let ?n = "min M (hi - d - L)"
      have n: "d + L + 1 * ?n \<le> hi" using True by auto
      obtain b' where b': "match_loop 1 lo hi (d + L) (nat D) ?n b = Some b'" "frame b' b (d + L) (d + L + 1 * ?n)"
        using match_loop_safe [OF Dle n, of b] w(3) lb by auto
      have f: "frame b' out d hi"
        by (rule frame_join [OF b'(2) b(2)]) (use True in auto)
      show ?thesis
      proof (cases "int M \<le> int hi - int d - int L")
        case m: True
        then have "?n = M" by auto
        then have "execute_match lits lo hi L M D lit d out = Some (Lmd_next (lit + L) (d + L + M) b')"
          using \<open>\<not> D mod 2 ^ 32 > int d + int L - int lo\<close> D0 slow True m b(1) b'(1) by (simp add: execute_match_def Let_def)
        then show ?thesis using f m by simp
      next
        case m: False
        then have "nat (int hi - int d - int L) = hi - d - L" "min M (hi - d - L) = hi - d - L" by auto
        then have "execute_match lits lo hi L M D lit d out =
            Some (Lmd_full 0 (M - (hi - d - L)) (lit + L) (d + L + (hi - d - L)) b')"
          using \<open>\<not> D mod 2 ^ 32 > int d + int L - int lo\<close> D0 slow True m b(1) b'(1) by (simp add: execute_match_def Let_def)
        then show ?thesis using f True by simp
      qed
    qed
  qed
qed

section \<open>Triples\<close>

definition tables_ok :: "lzfse_block_state \<Rightarrow> bool" where
  "tables_ok bs \<longleftrightarrow>
     value_table_ok 6 8 316 (b_l_decoder bs) \<and> value_table_ok 6 11 2360 (b_m_decoder bs) \<and>
     value_table_ok 8 15 262140 (b_d_decoder bs) \<and> decoder_table_ok 10 (b_literal_decoder bs) \<and> length (b_literals bs) = 40080"

definition bounds_ok :: "lzfse_decoder_state \<Rightarrow> bool" where
  "bounds_ok s \<longleftrightarrow>
     z_src_begin s \<le> z_src s \<and> z_src s \<le> z_src_end s \<and> z_src_end s < length (z_mem s) \<and>
     z_dst_begin s \<le> z_dst s \<and> z_dst s \<le> z_dst_end s \<and> z_dst_end s \<le> length (z_out s) \<and> z_dst_end s - z_dst_begin s < 2 ^ 31"

definition lmd_ok :: "lzfse_decoder_state \<Rightarrow> lmd_vars \<Rightarrow> bool" where
  "lmd_ok s x \<longleftrightarrow>
     x_l_state x < 64 \<and> x_m_state x < 64 \<and> x_d_state x < 256 \<and> stream_ok (x_in x) \<and>
     z_src_begin s \<le> x_src x \<and> x_src x + 8 \<le> length (z_mem s) \<and> x_lit x + x_L x < 40064 \<and>
     - 1 \<le> x_D x \<and> x_D x < 262140 \<and>
     z_dst_begin s \<le> x_dst x \<and> x_dst x \<le> z_dst_end s \<and> length (x_out x) = length (z_out s)"

lemma next_lmd_safe:
  assumes t: "tables_ok (z_lzfse s)" and x: "lmd_ok s x"
  shows "\<exists>r. next_lmd s x = Some r \<and> (\<forall>x'. r = Some x' \<longrightarrow> lmd_ok s x' \<and> x_dst x' = x_dst x \<and> x_out x' = x_out x \<and> x_src x' \<le> x_src x)"
proof -
  let ?bs = "z_lzfse s"
  have tb: "value_table_ok 6 8 316 (b_l_decoder ?bs)" "value_table_ok 6 11 2360 (b_m_decoder ?bs)" "value_table_ok 8 15 262140 (b_d_decoder ?bs)"
    using t by (simp_all add: tables_ok_def)
  have xs: "stream_ok (x_in x)" "z_src_begin s \<le> x_src x" "x_src x + 8 \<le> length (z_mem s)"
    "x_l_state x < 2 ^ 6" "x_m_state x < 2 ^ 6" "x_d_state x < 2 ^ 8"
    using x by (simp_all add: lmd_ok_def)
  obtain r where r: "fse_in_checked_flush64 (z_mem s) (z_src_begin s) (x_in x) (x_src x) = Some r"
      "r = None \<or> (\<exists>i p. r = Some (i, p) \<and> stream_ok i \<and> 56 \<le> accum_nbits i \<and> z_src_begin s \<le> p \<and> p \<le> x_src x)"
    using in_flush_safe [OF xs(1-3)] by blast
  show ?thesis
  proof (cases r)
    case None
    then show ?thesis using r(1) by (simp add: next_lmd_def)
  next
    case (Some ip)
    then obtain i p where i: "ip = (i, p)" "stream_ok i" "56 \<le> accum_nbits i" "z_src_begin s \<le> p" "p \<le> x_src x"
      using r(2) by auto
    obtain L ls i1 where l: "fse_value_decode (x_l_state x) (b_l_decoder ?bs) i = Some (L, ls, i1)" "0 \<le> L" "ls < 2 ^ 6"
        "stream_ok i1" "accum_nbits i \<le> accum_nbits i1 + int (6 + 8)"
      using fse_value_decode_safe [OF tb(1) _ _ xs(4) i(2)] i(3) by auto
    obtain M ms i2 where m: "fse_value_decode (x_m_state x) (b_m_decoder ?bs) i1 = Some (M, ms, i2)" "0 \<le> M" "ms < 2 ^ 6"
        "stream_ok i2" "accum_nbits i1 \<le> accum_nbits i2 + int (6 + 11)"
      using fse_value_decode_safe [OF tb(2) _ _ xs(5) l(4)] l(5) i(3) by auto
    obtain nd ds i3 where d: "fse_value_decode (x_d_state x) (b_d_decoder ?bs) i2 = Some (nd, ds, i3)" "0 \<le> nd" "nd < 262140" "ds < 2 ^ 8"
        "stream_ok i3"
      using fse_value_decode_safe [OF tb(3) _ _ xs(6) m(4)] m(5) l(5) i(3) by auto
    show ?thesis
      using r(1) Some i(1,4,5) l(1-3) m(1-3) d x by (auto simp: next_lmd_def lmd_ok_def Let_def)
  qed
qed

text \<open>The result of the loop.\<close>

definition loop_ok :: "lzfse_decoder_state \<Rightarrow> lmd_vars \<Rightarrow> (lzfse_status \<times> nat \<times> lmd_vars) option \<Rightarrow> bool" where
  "loop_ok s x r \<longleftrightarrow>
     (\<exists>st n x'. r = Some (st, n, x') \<and> st \<noteq> Src_empty \<and> lmd_ok s x' \<and> frame (x_out x') (x_out x) (x_dst x) (z_dst_end s) \<and>
        x_dst x \<le> x_dst x' \<and> x_src x' \<le> x_src x)"

lemma loop_ok_trans:
  "loop_ok s y r \<Longrightarrow> frame (x_out y) (x_out x) (x_dst x) (z_dst_end s) \<Longrightarrow> x_dst x \<le> x_dst y \<Longrightarrow> x_src y \<le> x_src x \<Longrightarrow> loop_ok s x r"
  unfolding loop_ok_def by (fastforce elim: frame_join)

lemma run_match_safe:
  assumes t: "tables_ok (z_lzfse s)" and b: "bounds_ok s" and x: "lmd_ok s x" and c: "\<And>x. lmd_ok s x \<Longrightarrow> loop_ok s x (cont x)"
  shows "loop_ok s x (run_match s cont n x)"
proof -
  let ?e = "execute_match (b_literals (z_lzfse s)) (z_dst_begin s) (z_dst_end s) (x_L x) (x_M x) (x_D x) (x_lit x) (x_dst x) (x_out x)"
  have e: "lmd_result_ok (z_dst_end s) (x_L x) (x_M x) (x_lit x) (x_dst x) (x_out x) ?e"
    by (rule execute_match_safe) (use t b x in \<open>auto simp: tables_ok_def bounds_ok_def lmd_ok_def\<close>)
  show ?thesis
  proof (cases ?e)
    case None
    then show ?thesis using e by simp
  next
    case (Some r)
    show ?thesis
    proof (cases r)
      case Lmd_error
      then show ?thesis using Some x by (simp add: run_match_def loop_ok_def)
    next
      case (Lmd_full L M lit d b')
      then show ?thesis using Some e x frame_length [of b' "x_out x"]
        by (auto simp: run_match_def loop_ok_def lmd_ok_def)
    next
      case (Lmd_next lit d b')
      let ?y = "x\<lparr>x_L := 0, x_M := 0, x_lit := lit, x_dst := d, x_out := b'\<rparr>"
      have f: "frame b' (x_out x) (x_dst x) (z_dst_end s)" "lit = x_lit x + x_L x" "x_dst x \<le> d" "d \<le> z_dst_end s"
        using e Some Lmd_next by auto
      have "lmd_ok s ?y" using x f frame_length [OF f(1)] by (auto simp: lmd_ok_def)
      then have "loop_ok s ?y (cont ?y)" by (rule c)
      then have "loop_ok s x (cont ?y)" by (rule loop_ok_trans) (use f in auto)
      then show ?thesis using Some Lmd_next by (simp add: run_match_def)
    qed
  qed
qed

lemma lmd_loop_safe:
  assumes t: "tables_ok (z_lzfse s)" and b: "bounds_ok s"
  shows "lmd_ok s x \<Longrightarrow> loop_ok s x (lmd_loop s n x)"
proof (induction n arbitrary: x)
  case 0
  then show ?case by (simp add: loop_ok_def)
next
  case (Suc n)
  obtain r where r: "next_lmd s x = Some r"
      "\<forall>x'. r = Some x' \<longrightarrow> lmd_ok s x' \<and> x_dst x' = x_dst x \<and> x_out x' = x_out x \<and> x_src x' \<le> x_src x"
    using next_lmd_safe [OF t Suc.prems] by blast
  show ?case
  proof (cases r)
    case None
    then show ?thesis using r(1) Suc.prems by (simp add: loop_ok_def)
  next
    case (Some x')
    have "loop_ok s x' (run_match s (lmd_loop s n) n x')"
      by (rule run_match_safe [OF t b]) (use r(2) Some Suc.IH in auto)
    then have "loop_ok s x (run_match s (lmd_loop s n) n x')"
      by (rule loop_ok_trans) (use r(2) Some in auto)
    then show ?thesis using r(1) Some by simp
  qed
qed

section \<open>States\<close>

definition in_lzfse_block :: "lzfse_decoder_state \<Rightarrow> bool" where
  "in_lzfse_block s \<longleftrightarrow> z_block_magic s = LZFSE_COMPRESSEDV1_BLOCK_MAGIC \<or> z_block_magic s = LZFSE_COMPRESSEDV2_BLOCK_MAGIC"

definition z_ok :: "lzfse_decoder_state \<Rightarrow> bool" where
  "z_ok s \<longleftrightarrow>
     bounds_ok s \<and> tables_ok (z_lzfse s) \<and> v_d_prev (z_lzvn s) \<le> z_dst s - z_dst_begin s \<and>
     (in_lzfse_block s \<longrightarrow> lmd_ok s (lmd_start s))"

text \<open>Which parts of a state a step leaves alone.\<close>

definition z_writes :: "lzfse_decoder_state \<Rightarrow> lzfse_decoder_state \<Rightarrow> bool" where
  "z_writes s s' \<longleftrightarrow>
     z_mem s' = z_mem s \<and> z_src_begin s' = z_src_begin s \<and> z_src_end s' = z_src_end s \<and>
     z_dst_begin s' = z_dst_begin s \<and> z_dst_end s' = z_dst_end s \<and> z_dst s \<le> z_dst s' \<and>
     frame (z_out s') (z_out s) (z_dst s) (z_dst_end s)"

lemma z_writes_refl [simp]: "z_writes s s"
  by (simp add: z_writes_def)

lemma z_writes_trans: "z_writes s s' \<Longrightarrow> z_writes s' s'' \<Longrightarrow> z_writes s s''"
  unfolding z_writes_def by (auto elim: frame_join)

text \<open>An interrupted block can be resumed unless the position of the bit stream was saved
  below \<open>src\<close>, where the \<open>uint32_t\<close> wraps.\<close>

definition resumable :: "lzfse_decoder_state \<Rightarrow> bool" where
  "resumable s \<longleftrightarrow> in_lzfse_block s \<longrightarrow> z_src s + b_lmd_in_buf (z_lzfse s) + 8 \<le> length (z_mem s)"

fun step_ok :: "lzfse_decoder_state \<Rightarrow> block_result \<Rightarrow> bool" where
  "step_ok s None = False"
| "step_ok s (Some (None, s')) = (z_ok s' \<and> z_writes s s')"
| "step_ok s (Some (Some st, s')) = (z_writes s s' \<and> (resumable s' \<longrightarrow> z_ok s') \<and> (st \<noteq> Dst_full \<longrightarrow> resumable s') \<and> (st = Status_ok \<longrightarrow> z_end_of_stream s'))"

lemma step_ok_same: "z_ok s \<Longrightarrow> st \<noteq> Status_ok \<Longrightarrow> step_ok s (return_status st s)"
  by (auto simp: z_ok_def resumable_def lmd_ok_def lmd_start_def Let_def)

lemma z_ok_error:
  "z_ok s \<Longrightarrow> frame b (z_out s) (z_dst s) (z_dst_end s) \<Longrightarrow> step_ok s (return_status Status_error (s\<lparr>z_out := b\<rparr>))"
  using frame_length [of b "z_out s"]
  by (auto simp: z_ok_def bounds_ok_def in_lzfse_block_def resumable_def lmd_ok_def lmd_start_def z_writes_def Let_def)

lemma decode_lmd_safe:
  assumes z: "z_ok s" and m: "in_lzfse_block s"
  shows "\<exists>st s'. lzfse_decode_lmd s = Some (st, s') \<and> st \<noteq> Src_empty \<and> z_writes s s' \<and> z_src s' = z_src s \<and>
    z_lzvn s' = z_lzvn s \<and> z_block_magic s' = z_block_magic s \<and> bounds_ok s' \<and> tables_ok (z_lzfse s') \<and>
    (st \<noteq> Dst_full \<longrightarrow> z_lzfse s' = z_lzfse s) \<and> (st = Status_error \<longrightarrow> (\<exists>b. s' = s\<lparr>z_out := b\<rparr>)) \<and>
    (st = Dst_full \<longrightarrow> resumable s' \<longrightarrow> lmd_ok s' (lmd_start s'))"
proof -
  let ?x = "lmd_start s" and ?n = "b_n_matches (z_lzfse s)"
  have t: "tables_ok (z_lzfse s)" and b: "bounds_ok s" and x: "lmd_ok s ?x" using z m by (simp_all add: z_ok_def)
  have "loop_ok s ?x (if x_L ?x \<noteq> 0 \<or> x_M ?x \<noteq> 0 then run_match s (lmd_loop s ?n) ?n ?x else lmd_loop s ?n ?x)"
    using run_match_safe [OF t b x lmd_loop_safe [OF t b]] lmd_loop_safe [OF t b x] by simp
  then obtain st n x' where r: "(if x_L ?x \<noteq> 0 \<or> x_M ?x \<noteq> 0 then run_match s (lmd_loop s ?n) ?n ?x else lmd_loop s ?n ?x) = Some (st, n, x')"
      and ok: "st \<noteq> Src_empty" "lmd_ok s x'" "frame (x_out x') (x_out ?x) (x_dst ?x) (z_dst_end s)" "x_dst ?x \<le> x_dst x'"
    by (auto simp: loop_ok_def)
  have f: "frame (x_out x') (z_out s) (z_dst s) (z_dst_end s)" "z_dst s \<le> x_dst x'"
    using ok(3,4) by (simp_all add: lmd_start_def Let_def)
  have len: "length (x_out x') = length (z_out s)" by (rule frame_length [OF f(1)])
  consider "st = Status_ok" | "st = Dst_full" | "st = Status_error" using ok(1) by (cases st) auto
  then show ?thesis
  proof cases
    case 1
    then show ?thesis
      using r f len b t ok(2) by (auto simp: lzfse_decode_lmd_def Let_def z_writes_def bounds_ok_def lmd_ok_def)
  next
    case 2
    have "lmd_ok (lmd_save s n x') (lmd_start (lmd_save s n x'))" if "resumable (lmd_save s n x')"
      using that ok(2) m len b
      by (auto simp: lmd_ok_def lmd_start_def lmd_save_def resumable_def in_lzfse_block_def bounds_ok_def Let_def)
    then show ?thesis
      using r 2 f len b t ok(2) by (auto simp: lzfse_decode_lmd_def Let_def z_writes_def bounds_ok_def lmd_ok_def lmd_save_def tables_ok_def)
  next
    case 3
    then show ?thesis
      using r f len b t ok(2) by (auto simp: lzfse_decode_lmd_def Let_def z_writes_def bounds_ok_def lmd_ok_def)
  qed
qed

section \<open>Steps\<close>

lemma load_z: "i + k \<le> length m \<Longrightarrow> load m 0 (length m) i k = Some (slice m i k)"
  by (simp add: load_def)

lemma not_in_block:
  "\<not> in_lzfse_block (s\<lparr>z_block_magic := LZFSE_NO_BLOCK_MAGIC\<rparr>)" "\<not> in_lzfse_block (s\<lparr>z_block_magic := LZFSE_UNCOMPRESSED_BLOCK_MAGIC\<rparr>)"
  "\<not> in_lzfse_block (s\<lparr>z_block_magic := LZFSE_COMPRESSEDLZVN_BLOCK_MAGIC\<rparr>)"
  by (simp_all add: in_lzfse_block_def)

lemma uncompressed_block_safe:
  assumes z: "z_ok s" and m: "z_block_magic s = LZFSE_UNCOMPRESSED_BLOCK_MAGIC"
  shows "step_ok s (uncompressed_block s)"
proof (cases "z_n_raw_bytes s = 0 \<or> z_src_end s \<le> z_src s \<or> z_dst_end s \<le> z_dst s")
  case True
  then show ?thesis
    using z step_ok_same [OF z, of Src_empty] step_ok_same [OF z, of Dst_full]
    by (auto simp: uncompressed_block_def z_ok_def bounds_ok_def in_lzfse_block_def z_writes_def Let_def)
next
  case False
  let ?n = "min (min (z_n_raw_bytes s) (z_src_end s - z_src s)) (z_dst_end s - z_dst s)"
  let ?bs = "slice (z_mem s) (z_src s) ?n"
  have b: "bounds_ok s" using z by (simp add: z_ok_def)
  then have len: "length ?bs = ?n" by (intro length_slice) (auto simp: bounds_ok_def)
  have ld: "load (z_mem s) 0 (length (z_mem s)) (z_src s) ?n = Some ?bs"
    by (rule load_z) (use b in \<open>auto simp: bounds_ok_def\<close>)
  obtain o' where o': "store (z_out s) (z_dst_begin s) (z_dst_end s) (z_dst s) ?bs = Some o'"
    by (rule store_some [of "z_dst_begin s" "z_dst s" ?bs "z_dst_end s" "z_out s"]) (use b len in \<open>auto simp: bounds_ok_def min_def\<close>)
  have f: "frame o' (z_out s) (z_dst s) (z_dst_end s)"
    by (rule frame_weaken [OF storeD(1) [OF o']]) (use len b in \<open>auto simp: bounds_ok_def min_def\<close>)
  have "uncompressed_block s = Some (None, s\<lparr>z_out := o', z_src := z_src s + ?n, z_dst := z_dst s + ?n, z_n_raw_bytes := z_n_raw_bytes s - ?n\<rparr>)"
    using False ld o' by (simp add: uncompressed_block_def Let_def)
  then show ?thesis
    using z f m frame_length [OF f] by (auto simp: z_ok_def bounds_ok_def in_lzfse_block_def z_writes_def min_def)
qed

lemma compressed_block_safe:
  assumes z: "z_ok s" and m: "in_lzfse_block s"
  shows "step_ok s (compressed_block s)"
proof (cases "z_src_end s \<le> z_src s \<or> b_n_lmd_payload_bytes (z_lzfse s) > z_src_end s - z_src s")
  case True
  then show ?thesis using step_ok_same [OF z, of Src_empty] by (simp add: compressed_block_def)
next
  case False
  obtain st s' where l: "lzfse_decode_lmd s = Some (st, s')" "st \<noteq> Src_empty" "z_writes s s'" "z_src s' = z_src s"
      "z_lzvn s' = z_lzvn s" "z_block_magic s' = z_block_magic s" "bounds_ok s'" "tables_ok (z_lzfse s')"
      "st \<noteq> Dst_full \<longrightarrow> z_lzfse s' = z_lzfse s" "st = Status_error \<longrightarrow> (\<exists>b. s' = s\<lparr>z_out := b\<rparr>)"
      "st = Dst_full \<longrightarrow> resumable s' \<longrightarrow> lmd_ok s' (lmd_start s')"
    using decode_lmd_safe [OF z m] by blast
  have d: "v_d_prev (z_lzvn s') \<le> z_dst s' - z_dst_begin s'"
    using z l(3,5) by (auto simp: z_ok_def z_writes_def)
  consider "st = Status_ok" | "st = Dst_full" | "st = Status_error" using l(2) by (cases st) auto
  then show ?thesis
  proof cases
    case 1
    then show ?thesis
      using False l d not_in_block(1) by (auto simp: compressed_block_def z_ok_def bounds_ok_def z_writes_def in_lzfse_block_def)
  next
    case 2
    then show ?thesis using False l d by (auto simp: compressed_block_def z_ok_def)
  next
    case 3
    then obtain b where "s' = s\<lparr>z_out := b\<rparr>" using l(10) by blast
    then show ?thesis
      using 3 False l(1,3) z_ok_error [OF z, of b] by (auto simp: compressed_block_def z_writes_def)
  qed
qed

lemma lzvn_block_safe:
  assumes z: "z_ok s" and m: "z_block_magic s = LZFSE_COMPRESSEDLZVN_BLOCK_MAGIC"
  shows "step_ok s (lzvn_block s)"
proof (cases "v_n_payload_bytes (z_lzvn s) > 0 \<and> z_src_end s \<le> z_src s")
  case True
  then show ?thesis using step_ok_same [OF z, of Src_empty] by (simp add: lzvn_block_def)
next
  case False
  let ?d = "lzvn_start s"
  have b: "bounds_ok s" and p: "v_d_prev (z_lzvn s) \<le> z_dst s - z_dst_begin s" using z by (simp_all add: z_ok_def)
  have "lzvn_ok ?d"
    using b p by (auto simp: lzvn_ok_def lzvn_start_def lzvn_pending_def bounds_ok_def Let_def)
  then obtain d where d: "lzvn_decode ?d = Some d" "lzvn_ok d" "writes ?d (dst ?d) d"
    using lzvn_decode_ok by blast
  have w: "dst_begin d = z_dst_begin s" "frame (dst_buf d) (z_out s) (z_dst s) (z_dst_end s)" "dst_end d \<le> z_dst_end s" "src_end d \<le> z_src_end s"
    using d(3) b by (auto simp: writes_def lzvn_start_def bounds_ok_def Let_def elim: frame_weaken split: if_splits)
  have dok: "src d \<le> src_end d" "dst d \<le> dst_end d" "d_prev d \<le> dst d - dst_begin d" "dst_begin d \<le> dst d"
    using d(2) by (simp_all add: lzvn_ok_def)
  have len: "length (dst_buf d) = length (z_out s)" by (rule frame_length [OF w(2)])
  show ?thesis
  proof (cases "src d < z_src s \<or> src d - z_src s > v_n_payload_bytes (z_lzvn s) \<or> dst d < z_dst s \<or> dst d - z_dst s > v_n_raw_bytes (z_lzvn s)")
    case True
    then have "lzvn_block s = return_status Status_error (s\<lparr>z_out := dst_buf d\<rparr>)"
      using False d(1) by (auto simp: lzvn_block_def Let_def)
    then show ?thesis using z_ok_error [OF z w(2)] by simp
  next
    case ok: False
    let ?s = "s\<lparr>z_out := dst_buf d, z_src := src d, z_dst := dst d,
        z_lzvn := \<lparr>v_n_raw_bytes = v_n_raw_bytes (z_lzvn s) - (dst d - z_dst s),
                   v_n_payload_bytes = v_n_payload_bytes (z_lzvn s) - (src d - z_src s), v_d_prev = d_prev d mod 2 ^ 32\<rparr>\<rparr>"
    have dp: "d_prev d mod 2 ^ 32 \<le> dst d - z_dst_begin s"
      using dok(3) w(1) order_trans [OF mod_less_eq_dividend] by metis
    have "z_ok ?s" "z_writes s ?s" "\<not> in_lzfse_block ?s"
      using z ok w dok dp len m by (auto simp: z_ok_def bounds_ok_def in_lzfse_block_def z_writes_def)
    moreover from this have "z_ok (?s\<lparr>z_block_magic := LZFSE_NO_BLOCK_MAGIC\<rparr>)" "z_writes s (?s\<lparr>z_block_magic := LZFSE_NO_BLOCK_MAGIC\<rparr>)"
      by (auto simp: z_ok_def bounds_ok_def in_lzfse_block_def z_writes_def)
    ultimately show ?thesis
      using False ok d(1) by (auto simp: lzvn_block_def Let_def resumable_def)
  qed
qed

lemma class_tables_ok:
  "list_all (\<lambda>(vb, b). vb \<le> 8 \<and> 0 \<le> b \<and> b + 2 ^ vb \<le> 316) (zip l_extra_bits l_base_value)"
  "list_all (\<lambda>(vb, b). vb \<le> 11 \<and> 0 \<le> b \<and> b + 2 ^ vb \<le> 2360) (zip m_extra_bits m_base_value)"
  "list_all (\<lambda>(vb, b). vb \<le> 15 \<and> 0 \<le> b \<and> b + 2 ^ vb \<le> 262140) (zip d_extra_bits d_base_value)"
  by code_simp+

lemma value_table_start:
  assumes "list_all (\<lambda>(vb, b). vb \<le> m \<and> 0 \<le> b \<and> b + 2 ^ vb \<le> V) (zip vbits base)"
    and "p \<le> 14" and "p + m < 256" and "sum_list freq \<le> 2 ^ p" and "length vbits = length freq" and "length base = length freq" and "value_table_ok p m V t"
  shows "\<exists>t'. fse_init_value_decoder_table ub (2 ^ p) freq vbits base t = Some t' \<and> value_table_ok p m V t'"
  by (rule fse_init_value_decoder_table_ok) (use assms in \<open>auto simp: fits_def list_all_iff\<close>)

definition header_shape :: "lzfse_header_v1 \<Rightarrow> bool" where
  "header_shape h \<longleftrightarrow> length (h_l_freq h) = 20 \<and> length (h_m_freq h) = 20 \<and> length (h_d_freq h) = 64 \<and> length (h_literal_freq h) = 256"

lemma init_tables_safe:
  assumes bs: "tables_ok bs" and h: "lzfse_check_block_header_v1 h = 0" "header_shape h"
  shows "\<exists>bs'. init_tables h bs = Some bs' \<and> tables_ok bs'"
proof -
  have t: "value_table_ok 6 8 316 (b_l_decoder bs)" "value_table_ok 6 11 2360 (b_m_decoder bs)" "value_table_ok 8 15 262140 (b_d_decoder bs)"
    "decoder_table_ok 10 (b_literal_decoder bs)" "length (b_literals bs) = 40080"
    using bs by (simp_all add: tables_ok_def)
  have s: "sum_list (h_l_freq h) \<le> 2 ^ 6" "sum_list (h_m_freq h) \<le> 2 ^ 6" "sum_list (h_d_freq h) \<le> 2 ^ 8" "sum_list (h_literal_freq h) \<le> 2 ^ 10"
    using h(1) by (simp_all add: check_block_header_ok)
  obtain lt where lt: "fse_init_value_decoder_table 0 (2 ^ 6) (h_l_freq h) l_extra_bits l_base_value (b_l_decoder bs) = Some lt" "value_table_ok 6 8 316 lt"
    using value_table_start [OF class_tables_ok(1) _ _ s(1) _ _ t(1)] h(2) by (auto simp: header_shape_def)
  obtain mt where mt: "fse_init_value_decoder_table 0 (2 ^ 6) (h_m_freq h) m_extra_bits m_base_value (b_m_decoder bs) = Some mt" "value_table_ok 6 11 2360 mt"
    using value_table_start [OF class_tables_ok(2) _ _ s(2) _ _ t(2)] h(2) by (auto simp: header_shape_def)
  obtain dt where dt: "fse_init_value_decoder_table 0 (2 ^ 8) (h_d_freq h) d_extra_bits d_base_value (b_d_decoder bs) = Some dt" "value_table_ok 8 15 262140 dt"
    using value_table_start [OF class_tables_ok(3) _ _ s(3) _ _ t(3)] h(2) by (auto simp: header_shape_def)
  have "decoder_table_ok 10 (snd (fse_init_decoder_table 0 (2 ^ 10) (h_literal_freq h) (b_literal_decoder bs)))"
    by (rule fse_init_decoder_table_ok(2)) (use s(4) t(4) in \<open>auto simp: fits_def\<close>)
  then show ?thesis
    using lt mt dt t(5) by (simp add: init_tables_def tables_ok_def)
qed

lemma load_some: "i + k \<le> hi \<Longrightarrow> \<exists>bs. load m 0 hi i k = Some bs"
  by (simp add: load_def)

lemma decode_freqs_length: "decode_freqs n a k m = Some fs \<Longrightarrow> length fs = n"
  by (induction n a k m arbitrary: fs rule: decode_freqs.induct) (auto split: if_splits prod.splits)

lemma decode_v1_safe:
  assumes "p + 32 \<le> hi" and "lzfse_decode_v2_header_size m hi p = Some n" and "p + n \<le> hi"
  shows "\<exists>r. lzfse_decode_v1 m hi p = Some r \<and> (\<forall>h. r = Some h \<longrightarrow> header_shape h)"
proof -
  obtain v0 v1 k where l: "load4 m 0 hi (p + 4) = Some k" "load8 m 0 hi (p + 8) = Some v0" "load8 m 0 hi (p + 16) = Some v1"
    using assms(1) by (simp add: load4_def load8_def load_def)
  obtain v2 where v2: "load8 m 0 hi (p + 24) = Some v2" "n = get_field v2 0 32"
    using assms(2) by (auto simp: lzfse_decode_v2_header_size_def)
  obtain bs where bs: "load m 0 hi (p + 32) (n - 32) = Some bs"
  proof -
    have "p + 32 + (n - 32) \<le> hi" using assms(1,3) by linarith
    then show thesis using load_some that by blast
  qed
  show ?thesis
    using l v2 bs by (auto simp: lzfse_decode_v1_def Let_def header_shape_def unpacked_def with_freqs_def dest!: decode_freqs_length)
qed

lemma read_header_safe:
  assumes "bounds_ok s"
  shows "\<exists>r. read_header s magic = Some r \<and> (\<forall>h n. r = Header h n \<longrightarrow> header_shape h)"
proof (cases "magic = LZFSE_COMPRESSEDV2_BLOCK_MAGIC")
  case False
  then show ?thesis
    using assms load_some [of "z_src s" 772 "length (z_mem s)" "z_mem s"]
    by (auto simp: read_header_def bounds_ok_def header_shape_def header_v1_of_bytes_def u16s_def Let_def)
next
  case True
  show ?thesis
  proof (cases "z_src s + 32 > z_src_end s")
    case False
    let ?len = "length (z_mem s)"
    have l: "z_src s + 32 \<le> ?len" using False assms by (simp add: bounds_ok_def)
    obtain n where n: "lzfse_decode_v2_header_size (z_mem s) ?len (z_src s) = Some n"
      using l by (simp add: lzfse_decode_v2_header_size_def load8_def load_def)
    show ?thesis
    proof (cases "z_src s + n > z_src_end s")
      case False
      then have "z_src s + n \<le> ?len" using assms by (simp add: bounds_ok_def)
      then show ?thesis
        using decode_v1_safe [OF l n] n True False \<open>\<not> z_src s + 32 > z_src_end s\<close>
        by (auto simp: read_header_def split: option.split)
    qed (use True n \<open>\<not> z_src s + 32 > z_src_end s\<close> in \<open>simp add: read_header_def\<close>)
  qed (use True in \<open>simp add: read_header_def\<close>)
qed

lemma block_literals_safe:
  assumes b: "bounds_ok s" and t: "tables_ok bs" and h: "lzfse_check_block_header_v1 h = 0" and p: "z_src_begin s \<le> p" "p \<le> z_src_end s"
  shows "\<exists>r. block_literals s h bs p = Some r \<and> (\<forall>cs. r = Some cs \<longrightarrow> length cs \<le> 40000)"
proof -
  have len: "p < length (z_mem s)" using b p(2) by (simp add: bounds_ok_def)
  obtain r where r: "fse_in_checked_init64 (z_mem s) (z_src_begin s) (h_literal_bits h) p = Some r"
      "r = None \<or> (\<exists>i q. r = Some (i, q) \<and> stream_ok i \<and> z_src_begin s \<le> q \<and> q + 7 \<le> p)"
    using in_init_safe [OF p(1), of "z_mem s" "h_literal_bits h"] len by auto
  show ?thesis
  proof (cases r)
    case None
    then show ?thesis using r(1) by (simp add: block_literals_def)
  next
    case (Some iq)
    then obtain i q where i: "r = Some (i, q)" "stream_ok i" "z_src_begin s \<le> q" "q + 7 \<le> p" using r(2) by auto
    have "h_n_literals h \<le> 40000" using h by (simp add: check_block_header_ok)
    then have "h_n_literals h + 3 \<le> 10000 * 4 + 3" by simp
    then have "(h_n_literals h + 3) div 4 \<le> (10000 * 4 + 3) div 4" by (rule div_le_mono)
    then have "4 * ((h_n_literals h + 3) div 4) \<le> 40000" by simp
    moreover have "decoder_table_ok 10 (b_literal_decoder bs)" using t by (simp add: tables_ok_def)
    ultimately show ?thesis
      using decode_literals_safe [of "b_literal_decoder bs" "h_literal_state h ! 0" "h_literal_state h ! 1" "h_literal_state h ! 2"
          "h_literal_state h ! 3" i "z_src_begin s" q "z_mem s" "(h_n_literals h + 3) div 4"] i len r(1) h
      by (auto simp: block_literals_def check_block_header_ok)
  qed
qed

lemma start_compressed_safe:
  assumes z: "z_ok s"
  shows "step_ok s (start_compressed s magic)"
proof -
  have b: "bounds_ok s" and t: "tables_ok (z_lzfse s)" and d: "v_d_prev (z_lzvn s) \<le> z_dst s - z_dst_begin s"
    using z by (simp_all add: z_ok_def)
  have same: "step_ok s (return_status Src_empty s)" "step_ok s (return_status Status_error s)"
    by (rule step_ok_same [OF z]; simp)+
  obtain r where r: "read_header s magic = Some r" "\<forall>h n. r = Header h n \<longrightarrow> header_shape h"
    using read_header_safe [OF b] by blast
  show ?thesis
  proof (cases "\<exists>h n. r = Header h n \<and> z_src s + n + h_n_literal_payload_bytes h + h_n_lmd_payload_bytes h \<le> z_src_end s \<and>
      lzfse_check_block_header_v1 h = 0")
    case False
    then show ?thesis using r(1) same by (cases r) (auto simp: start_compressed_def simp del: step_ok.simps)
  next
    case True
    then obtain h n where h: "r = Header h n" "lzfse_check_block_header_v1 h = 0"
      and le: "z_src s + n + h_n_literal_payload_bytes h + h_n_lmd_payload_bytes h \<le> z_src_end s" by blast
    let ?p = "z_src s + n + h_n_literal_payload_bytes h"
    obtain bs where bs: "init_tables h (z_lzfse s) = Some bs" "tables_ok bs"
      using init_tables_safe [OF t h(2)] r(2) h(1) by blast
    have p: "z_src_begin s \<le> ?p" "?p \<le> z_src_end s" using b le by (auto simp: bounds_ok_def)
    obtain ls where ls: "block_literals s h bs ?p = Some ls" "\<forall>cs. ls = Some cs \<longrightarrow> length cs \<le> 40000"
      using block_literals_safe [OF b bs(2) h(2) p] by blast
    let ?e = "?p + h_n_lmd_payload_bytes h"
    have e: "?e < length (z_mem s)" using b le by (simp add: bounds_ok_def)
    obtain i where i: "fse_in_checked_init64 (z_mem s) ?p (h_lmd_bits h) ?e = Some i"
      "i = None \<or> (\<exists>st q. i = Some (st, q) \<and> stream_ok st \<and> ?p \<le> q \<and> q + 7 \<le> ?e)"
      using in_init_safe [of ?p ?e "z_mem s" "h_lmd_bits h"] e by auto
    show ?thesis
    proof (cases "ls = None \<or> i = None")
      case True
      then show ?thesis using r(1) h le bs(1) ls(1) i(1) same(2)
        by (cases ls) (auto simp: start_compressed_def Let_def simp del: step_ok.simps split: option.split)
    next
      case False
      then obtain cs st q where ok: "ls = Some cs" "i = Some (st, q)" "stream_ok st" "?p \<le> q" "q + 7 \<le> ?e" using i(2) by auto
      let ?s = "s\<lparr>z_src := ?p, z_block_magic := magic,
        z_lzfse := bs\<lparr>b_literals := cs @ drop (length cs) (b_literals bs), b_current_literal := 0,
          b_l_state := h_l_state h, b_m_state := h_m_state h, b_d_state := h_d_state h,
          b_lmd_in_buf := q - ?p, b_l_value := 0, b_m_value := 0, b_d_value := - 1, b_lmd_in_stream := st\<rparr>\<rparr>"
      have "start_compressed s magic = Some (None, ?s)"
        using r(1) h le bs(1) ls(1) i(1) ok(1,2) by (simp add: start_compressed_def Let_def)
      moreover have "bounds_ok ?s" using b p by (simp add: bounds_ok_def)
      moreover have "tables_ok (z_lzfse ?s)" using bs(2) ls(2) ok(1) by (auto simp: tables_ok_def)
      moreover have "lmd_ok ?s (lmd_start ?s)"
        using h(2) ok p e b by (auto simp: lmd_ok_def lmd_start_def check_block_header_ok bounds_ok_def)
      moreover have "z_writes s ?s" by (simp add: z_writes_def)
      ultimately show ?thesis using d by (simp add: z_ok_def)
    qed
  qed
qed

lemma start_block_safe:
  assumes z: "z_ok s" and m: "z_block_magic s = LZFSE_NO_BLOCK_MAGIC"
  shows "step_ok s (start_block s)"
proof (cases "z_src s + 4 > z_src_end s")
  case True
  then show ?thesis using step_ok_same [OF z, of Src_empty] by (simp add: start_block_def)
next
  case False
  have b: "bounds_ok s" using z by (simp add: z_ok_def)
  have nb: "\<not> in_lzfse_block s" using m by (simp add: in_lzfse_block_def)
  have l: "\<exists>v. load4 (z_mem s) 0 (length (z_mem s)) i = Some v" if "i + 4 \<le> z_src_end s" for i
    using that b by (simp add: load4_def load_def bounds_ok_def)
  obtain magic where magic: "load4 (z_mem s) 0 (length (z_mem s)) (z_src s) = Some magic" using l [of "z_src s"] False by auto
  have "step_ok s (start_uncompressed s)"
  proof (cases "z_src s + 8 > z_src_end s")
    case False
    then obtain v where "load4 (z_mem s) 0 (length (z_mem s)) (z_src s + 4) = Some v" using l [of "z_src s + 4"] by auto
    then show ?thesis
      using False z nb by (auto simp: start_uncompressed_def z_ok_def bounds_ok_def in_lzfse_block_def z_writes_def)
  qed (use step_ok_same [OF z, of Src_empty] in \<open>simp add: start_uncompressed_def\<close>)
  moreover have "step_ok s (start_lzvn s)"
  proof (cases "z_src s + 12 > z_src_end s")
    case False
    then obtain v w where "load4 (z_mem s) 0 (length (z_mem s)) (z_src s + 4) = Some v"
        "load4 (z_mem s) 0 (length (z_mem s)) (z_src s + 8) = Some w" using l [of "z_src s + 4"] l [of "z_src s + 8"] by auto
    then show ?thesis
      using False z nb by (auto simp: start_lzvn_def z_ok_def bounds_ok_def in_lzfse_block_def z_writes_def)
  qed (use step_ok_same [OF z, of Src_empty] in \<open>simp add: start_lzvn_def\<close>)
  moreover have "step_ok s (return_status Status_ok (s\<lparr>z_src := z_src s + 4, z_end_of_stream := True\<rparr>))"
    using False z nb by (auto simp: z_ok_def bounds_ok_def in_lzfse_block_def resumable_def z_writes_def)
  ultimately show ?thesis
    using False magic start_compressed_safe [OF z] step_ok_same [OF z, of Status_error] by (auto simp: start_block_def)
qed

lemma decode_step_safe:
  assumes z: "z_ok s"
  shows "step_ok s (decode_step s)"
  using start_block_safe [OF z] uncompressed_block_safe [OF z] compressed_block_safe [OF z] lzvn_block_safe [OF z]
    step_ok_same [OF z, of Status_error]
  by (simp add: decode_step_def in_lzfse_block_def)

section \<open>The decoder\<close>

lemma step_ok_trans: "z_writes s s' \<Longrightarrow> step_ok s' r \<Longrightarrow> step_ok s r"
  by (cases "(s, r)" rule: step_ok.cases) (auto intro: z_writes_trans)

lemma lzfse_decode_safe:
  "z_ok s \<Longrightarrow> \<exists>st s'. lzfse_decode s = Some (st, s') \<and> z_writes s s' \<and> (resumable s' \<longrightarrow> z_ok s') \<and>
    (st \<noteq> Dst_full \<longrightarrow> resumable s') \<and> (st = Status_ok \<longrightarrow> z_end_of_stream s')"
proof (induction s rule: lzfse_decode.induct)
  case (1 s)
  have step: "step_ok s (decode_step s)" by (rule decode_step_safe [OF 1(2)])
  then obtain o' s' where r: "decode_step s = Some (o', s')" by (cases "(s, decode_step s)" rule: step_ok.cases) auto
  show ?case
  proof (cases o')
    case None
    have s': "z_ok s'" "z_writes s s'" using step r None by simp_all
    have "decode_step s = Some (None, s')" using r None by simp
    from 1(1) [OF this refl refl s'(1)] show ?thesis
      using r None s'(2) by (subst lzfse_decode.simps) (auto intro: z_writes_trans)
  next
    case (Some st)
    then show ?thesis using step r by (subst lzfse_decode.simps) auto
  qed
qed

lemma cleared_tables: "tables_ok cleared_block"
proof -
  have "decoder_table_ok 10 (replicate 1024 0)" by (simp add: decoder_table_ok_def decoder_entry_ok_def list_all_iff)
  then show ?thesis
    by (simp add: tables_ok_def cleared_block_def Let_def value_table_ok_def value_entry_ok_def list_all_iff)
qed

lemma decode_start_ok: "pad \<noteq> [] \<Longrightarrow> length dst_buffer < 2 ^ 31 \<Longrightarrow> z_ok (decode_start dst_buffer src_buffer pad)"
  using cleared_tables by (simp add: z_ok_def bounds_ok_def decode_start_def in_lzfse_block_def)





section \<open>Limits of the code\<close>

text \<open>Without the byte behind the source the first refill of a stream whose last byte is full
  reads outside it: the initial position is 7 bytes before the end and 8 bytes are loaded.\<close>

lemma refill_reads_past_end:
  assumes "fse_in_checked_init64 mem lo 0 (length mem) = Some (Some (s, p))"
  shows "fse_in_checked_flush64 mem lo s p = None"
  using assms
  by (auto simp: fse_in_checked_init64_def fse_in_checked_flush64_def load8_def load_def Let_def bind_eq_Some_conv split: if_splits)

text \<open>A bit stream position behind \<open>src\<close> comes back \<open>2 ^ 32\<close> bytes too far: \<open>lmd_in_buf\<close> is
  unsigned.\<close>

lemma saved_position_wraps:
  assumes "x_src x < z_src s" and "z_src s \<le> x_src x + 2 ^ 32"
  shows "x_src (lmd_start (lmd_save s n x)) = x_src x + 2 ^ 32"
proof -
  have "(int (x_src x) - int (z_src s)) mod 2 ^ 32 = (int (x_src x) - int (z_src s) + 2 ^ 32) mod 2 ^ 32"
    by (simp add: mod_simps)
  also have "\<dots> = int (x_src x) - int (z_src s) + 2 ^ 32"
    using assms by (intro mod_pos_pos_trivial) auto
  finally show ?thesis using assms by (simp add: lmd_start_def lmd_save_def Let_def)
qed

end
