(* ===== verification/LZFSE_Payload.thy ===== *)
theory LZFSE_Payload
  imports LZFSE_Encode LZFSE_Safety
begin

text \<open>
  The payloads of an LZFSE block, encoder against decoder.  Both work on a stack of bits
  (\<open>FSE_Stream\<close>): what the encoder pushes while it goes through literals and triples from
  the last to the first, the decoder pulls in the opposite order.  \<open>lit_pushes\<close> and
  \<open>lmd_pushes\<close> are the pushes of a whole payload; the encoder's loops produce them, and the
  decoder's loops take them apart again.
\<close>

section \<open>Stacks on stacks\<close>

definition under :: "stack \<Rightarrow> stack \<Rightarrow> stack" where
  "under low st = (fst low + 2 ^ snd low * fst st, snd low + snd st)"

lemma push_under: "push n b (under low st) = under low (push n b st)"
  by (simp add: under_def push_def power_add algebra_simps)

lemma under_ok: "stack_ok low \<Longrightarrow> stack_ok st \<Longrightarrow> stack_ok (under low st)"
  using push_ok [of low "fst st" "snd st"] by (simp add: stack_ok_def under_def push_def mult.commute)

lemma under_empty [simp]: "under low (0, 0) = low"
  by (simp add: under_def)

lemma snd_push [simp]: "snd (push n b st) = snd st + n"
  by (simp add: push_def)

lemma fse_push_under: "fse_push p f i (s, under low st) = (fst (fse_push p f i (s, st)), under low (snd (fse_push p f i (s, st))))"
  by (simp add: fse_push_def Let_def push_under)

lemma fse_push_height:
  assumes "fits p f" and "i < length f" and "0 < f ! i" and "s < 2 ^ p"
  shows "snd (snd (fse_push p f i (s, st))) \<le> snd st + p"
proof -
  have "f ! i \<le> 2 ^ p" using offset_range [OF assms(2)] assms(1) by (simp add: fits_def)
  then show ?thesis using step_bounds(4) [OF assms(3) _ assms(4)] by (simp add: fse_push_def Let_def)
qed

lemma fse_push_grows: "snd st \<le> snd (snd (fse_push p f i (s, st)))"
  by (simp add: fse_push_def Let_def)

text \<open>Which symbols a frequency table can encode.\<close>

definition codes :: "nat list \<Rightarrow> nat \<Rightarrow> bool" where
  "codes f i \<longleftrightarrow> i < length f \<and> 0 < f ! i"

section \<open>Literals\<close>

type_synonym quad_state = "(nat \<times> nat \<times> nat \<times> nat) \<times> stack"

fun push_quad :: "nat list \<Rightarrow> nat \<times> nat \<times> nat \<times> nat \<Rightarrow> quad_state \<Rightarrow> quad_state" where
  "push_quad f (a, b, c, d) ((u0, u1, u2, u3), st) =
     (let (u3, st) = fse_push 10 f d (u3, st); (u2, st) = fse_push 10 f c (u2, st);
          (u1, st) = fse_push 10 f b (u1, st); (u0, st) = fse_push 10 f a (u0, st)
      in ((u0, u1, u2, u3), st))"

fun lit_pushes :: "nat list \<Rightarrow> byte list \<Rightarrow> quad_state \<Rightarrow> quad_state" where
  "lit_pushes f (a # b # c # d # xs) x = push_quad f (unat a, unat b, unat c, unat d) (lit_pushes f xs x)"
| "lit_pushes f _ x = x"

fun quad_ok :: "quad_state \<Rightarrow> bool" where
  "quad_ok ((u0, u1, u2, u3), st) = (u0 < 1024 \<and> u1 < 1024 \<and> u2 < 1024 \<and> u3 < 1024 \<and> stack_ok st)"

lemma quad_list: "length xs = 4 * Suc n \<Longrightarrow> \<exists>a b c d ys. xs = a # b # c # d # ys \<and> length ys = 4 * n"
proof -
  assume "length xs = 4 * Suc n"
  then have "length xs = Suc (Suc (Suc (Suc (4 * n))))" by simp
  then show ?thesis by (auto simp: length_Suc_conv)
qed

lemma lit_pushes_append: "length xs = 4 * n \<Longrightarrow> lit_pushes f (xs @ ys) x = lit_pushes f xs (lit_pushes f ys x)"
proof (induction n arbitrary: xs)
  case (Suc n)
  then show ?case using quad_list [OF Suc.prems] by auto
qed simp

text \<open>The four pushes one by one.\<close>

lemma push_quad_steps:
  assumes "fits 10 f" and "codes f a" "codes f b" "codes f c" "codes f d" and "quad_ok ((u0, u1, u2, u3), st)"
  obtains v0 v1 v2 v3 st1 st2 st3 st4 where
    "fse_push 10 f d (u3, st) = (v3, st1)" "fse_push 10 f c (u2, st1) = (v2, st2)"
    "fse_push 10 f b (u1, st2) = (v1, st3)" "fse_push 10 f a (u0, st3) = (v0, st4)"
    "push_quad f (a, b, c, d) ((u0, u1, u2, u3), st) = ((v0, v1, v2, v3), st4)"
    "quad_ok ((v0, v1, v2, v3), st4)" "stack_ok st1" "stack_ok st2" "stack_ok st3" "snd st \<le> snd st1" "snd st1 \<le> snd st2"
    "snd st2 \<le> snd st3" "snd st3 \<le> snd st4" "snd st4 \<le> snd st + 40"
    "v0 < sum_list f" "v1 < sum_list f" "v2 < sum_list f" "v3 < sum_list f"
proof -
  have step: "\<exists>v s'. fse_push 10 f i (u, s) = (v, s') \<and> v < 1024 \<and> v < sum_list f \<and> stack_ok s' \<and> snd s \<le> snd s' \<and> snd s' \<le> snd s + 10"
    if "codes f i" "u < 1024" "stack_ok s" for i u s
    using fse_push_state(3,4) [OF assms(1), of i u s] fse_push_ok [OF that(3), of 10 f i u] fse_push_height [OF assms(1), of i u s]
      fse_push_grows [of s 10 f i u] that by (cases "fse_push 10 f i (u, s)") (auto simp: codes_def)
  have u: "u0 < 1024" "u1 < 1024" "u2 < 1024" "u3 < 1024" "stack_ok st" using assms(6) by simp_all
  obtain v3 st1 where 1: "fse_push 10 f d (u3, st) = (v3, st1)" "v3 < 1024" "v3 < sum_list f" "stack_ok st1" "snd st \<le> snd st1" "snd st1 \<le> snd st + 10"
    using step [OF assms(5) u(4,5)] by blast
  obtain v2 st2 where 2: "fse_push 10 f c (u2, st1) = (v2, st2)" "v2 < 1024" "v2 < sum_list f" "stack_ok st2" "snd st1 \<le> snd st2" "snd st2 \<le> snd st1 + 10"
    using step [OF assms(4) u(3) 1(4)] by blast
  obtain v1 st3 where 3: "fse_push 10 f b (u1, st2) = (v1, st3)" "v1 < 1024" "v1 < sum_list f" "stack_ok st3" "snd st2 \<le> snd st3" "snd st3 \<le> snd st2 + 10"
    using step [OF assms(3) u(2) 2(4)] by blast
  obtain v0 st4 where 4: "fse_push 10 f a (u0, st3) = (v0, st4)" "v0 < 1024" "v0 < sum_list f" "stack_ok st4" "snd st3 \<le> snd st4" "snd st4 \<le> snd st3 + 10"
    using step [OF assms(2) u(1) 3(4)] by blast
  show thesis
    by (rule that [OF 1(1) 2(1) 3(1) 4(1)]) (use 1 2 3 4 in simp_all)
qed

lemma push_quad_ok:
  assumes "fits 10 f" and "codes f a" "codes f b" "codes f c" "codes f d" and "quad_ok ((u0, u1, u2, u3), st)"
  shows "quad_ok (push_quad f (a, b, c, d) ((u0, u1, u2, u3), st)) \<and>
    snd st \<le> snd (snd (push_quad f (a, b, c, d) ((u0, u1, u2, u3), st))) \<and> snd (snd (push_quad f (a, b, c, d) ((u0, u1, u2, u3), st))) \<le> snd st + 40"
  by (rule push_quad_steps [OF assms]) (simp del: push_quad.simps quad_ok.simps)

lemma lit_pushes_ok:
  assumes "fits 10 f" and "length xs = 4 * n" and "\<And>x. x \<in> set xs \<Longrightarrow> codes f (unat x)" and "quad_ok c"
  shows "quad_ok (lit_pushes f xs c) \<and> snd (snd c) \<le> snd (snd (lit_pushes f xs c)) \<and> snd (snd (lit_pushes f xs c)) \<le> snd (snd c) + 40 * n"
  using assms(2,3)
proof (induction n arbitrary: xs)
  case 0
  then show ?case using assms(4) by simp
next
  case (Suc n)
  obtain a b c' d ys where xs: "xs = a # b # c' # d # ys" "length ys = 4 * n" using quad_list [OF Suc.prems(1)] by blast
  have IH: "quad_ok (lit_pushes f ys c) \<and> snd (snd c) \<le> snd (snd (lit_pushes f ys c)) \<and> snd (snd (lit_pushes f ys c)) \<le> snd (snd c) + 40 * n"
    by (rule Suc.IH [OF xs(2)]) (use Suc.prems(2) xs(1) in auto)
  obtain u0 u1 u2 u3 st where u: "lit_pushes f ys c = ((u0, u1, u2, u3), st)" by (metis prod.exhaust)
  have cs: "codes f (unat a)" "codes f (unat b)" "codes f (unat c')" "codes f (unat d)" using Suc.prems(2) xs(1) by auto
  have "quad_ok ((u0, u1, u2, u3), st)" using IH u by simp
  from push_quad_ok [OF assms(1) cs this] show ?case
    using IH u xs(1) by (simp del: push_quad.simps quad_ok.simps)
qed

text \<open>The encoder's loop.\<close>

lemma encode_literals_ok:
  assumes f: "fits 10 f" "length f = 256" and t: "t = fse_init_encoder_table ub 1024 f"
  shows "4 * k \<le> length lits \<Longrightarrow> (\<And>x. x \<in> set (take (4 * k) lits) \<Longrightarrow> codes f (unat x)) \<Longrightarrow> stream_ok out \<Longrightarrow> accum_nbits out < 8 \<Longrightarrow>
    lo \<le> buf \<Longrightarrow> hi \<le> length b \<Longrightarrow> quad_ok (us, stack_of b lo buf out) \<Longrightarrow>
    \<exists>r. encode_literals hi lits t k us out b buf = Some r \<and>
      (\<forall>b'. r = Inl b' \<longrightarrow> frame b' b buf hi) \<and>
      (snd (stack_of b lo buf out) + 40 * k + 88 \<le> 8 * (hi - lo) \<longrightarrow> \<not> isl r) \<and>
      (\<forall>us' out' b' buf'. r = Inr (us', out', b', buf') \<longrightarrow>
        stream_ok out' \<and> accum_nbits out' < 8 \<and> buf \<le> buf' \<and> (0 < k \<longrightarrow> buf' + 8 \<le> hi) \<and> (k = 0 \<longrightarrow> buf' = buf) \<and> frame b' b buf hi \<and>
        (us', stack_of b' lo buf' out') = lit_pushes f (take (4 * k) lits) (us, stack_of b lo buf out))"
proof (induction k arbitrary: us out b buf)
  case (Suc k)
  show ?case
  proof (cases "buf + 16 > hi")
    case True
    moreover have "8 * (buf - lo) \<le> snd (stack_of b lo buf out)" by (simp add: stack_of_def)
    ultimately show ?thesis using Suc.prems by (cases us) auto
  next
    case False
    obtain u0 u1 u2 u3 where us: "us = (u0, u1, u2, u3)" by (metis prod.exhaust)
    let ?S = "stack_of b lo buf"
    let ?a = "unat (lits ! (4 * k))" and ?b = "unat (lits ! (4 * k + 1))" and ?c = "unat (lits ! (4 * k + 2))" and ?d = "unat (lits ! (4 * k + 3))"
    have len: "4 * k + 3 < length lits" using Suc.prems(1) by simp
    have tk: "take (4 * Suc k) lits = take (4 * k) lits @ [lits ! (4 * k), lits ! (4 * k + 1), lits ! (4 * k + 2), lits ! (4 * k + 3)]"
    proof -
      have "4 * Suc k = Suc (Suc (Suc (Suc (4 * k))))" by simp
      then show ?thesis using len by (simp add: take_Suc_conv_app_nth eval_nat_numeral)
    qed
    have cs: "codes f ?a" "codes f ?b" "codes f ?c" "codes f ?d" using Suc.prems(2) tk by auto
    obtain v0 v1 v2 v3 st1 st2 st3 st4 where P:
      "fse_push 10 f ?d (u3, ?S out) = (v3, st1)" "fse_push 10 f ?c (u2, st1) = (v2, st2)"
      "fse_push 10 f ?b (u1, st2) = (v1, st3)" "fse_push 10 f ?a (u0, st3) = (v0, st4)"
      "push_quad f (?a, ?b, ?c, ?d) ((u0, u1, u2, u3), ?S out) = ((v0, v1, v2, v3), st4)" "quad_ok ((v0, v1, v2, v3), st4)"
      "snd st4 \<le> snd (?S out) + 40"
      using push_quad_steps [OF f(1) cs, of u0 u1 u2 u3 "?S out"] Suc.prems(7) us by metis
    have u: "u0 < 2 ^ 10" "u1 < 2 ^ 10" "u2 < 2 ^ 10" "u3 < 2 ^ 10" using Suc.prems(7) us by simp_all
    have enc: "\<exists>o'. fse_encode u t s i = Some (v, o') \<and> stream_ok o' \<and> accum_nbits o' \<le> accum_nbits s + 10 \<and> ?S o' = st'"
      if "codes f i" "u < 2 ^ 10" "stream_ok s" "accum_nbits s + 10 < 64" "fse_push 10 f i (u, ?S s) = (v, st')" for u s i v st'
    proof -
      have "f ! i \<le> 2 ^ 10" using offset_range [of i f] f(1) that(1) by (simp add: fits_def codes_def)
      then have "step_bits 10 (f ! i) u \<le> 10" using step_bounds(4) [of "f ! i" 10 u] that(1,2) by (simp add: codes_def)
      moreover have "\<exists>o'. fse_encode u t s i = Some (v, o') \<and> stream_ok o' \<and> accum_nbits o' = accum_nbits s + int (step_bits 10 (f ! i) u) \<and> ?S o' = st'"
        using fse_encode_step [OF f(1) _ _ that(2,3), of i ub b lo buf] that t by (simp add: codes_def)
      ultimately show ?thesis by auto
    qed
    obtain o1 where o1: "fse_encode u3 t out ?d = Some (v3, o1)" "stream_ok o1" "accum_nbits o1 \<le> accum_nbits out + 10" "?S o1 = st1"
      using enc [OF cs(4) u(4) Suc.prems(3) _ P(1)] Suc.prems(4) by auto
    obtain o2 where o2: "fse_encode u2 t o1 ?c = Some (v2, o2)" "stream_ok o2" "accum_nbits o2 \<le> accum_nbits o1 + 10" "?S o2 = st2"
      using enc [OF cs(3) u(3) o1(2), of v2 st2] P(2) o1(3,4) Suc.prems(4) by auto
    obtain o3 where o3: "fse_encode u1 t o2 ?b = Some (v1, o3)" "stream_ok o3" "accum_nbits o3 \<le> accum_nbits o2 + 10" "?S o3 = st3"
      using enc [OF cs(2) u(2) o2(2), of v1 st3] P(3) o2(3,4) o1(3) Suc.prems(4) by auto
    obtain o4 where o4: "fse_encode u0 t o3 ?a = Some (v0, o4)" "stream_ok o4" "?S o4 = st4"
      using enc [OF cs(1) u(1) o3(2), of v0 st4] P(4) o3(3,4) o2(3) o1(3) Suc.prems(4) by auto
    obtain o5 b5 q where o5: "fse_out_flush64 hi o4 b buf = Some (o5, b5, q)" "stream_ok o5" "accum_nbits o5 < 8" "buf \<le> q" "q \<le> buf + 7"
        "frame b5 b buf (buf + 8)" "stack_of b5 lo q o5 = ?S o4"
      using out_flush [OF o4(2) Suc.prems(5) _ Suc.prems(6)] False by auto
    have lb: "length b5 = length b" by (rule frame_length [OF o5(6)])
    have "\<exists>r. encode_literals hi lits t k (v0, v1, v2, v3) o5 b5 q = Some r \<and>
      (\<forall>b'. r = Inl b' \<longrightarrow> frame b' b5 q hi) \<and>
      (snd (stack_of b5 lo q o5) + 40 * k + 88 \<le> 8 * (hi - lo) \<longrightarrow> \<not> isl r) \<and>
      (\<forall>us' out' b' buf'. r = Inr (us', out', b', buf') \<longrightarrow>
        stream_ok out' \<and> accum_nbits out' < 8 \<and> q \<le> buf' \<and> (0 < k \<longrightarrow> buf' + 8 \<le> hi) \<and> (k = 0 \<longrightarrow> buf' = q) \<and> frame b' b5 q hi \<and>
        (us', stack_of b' lo buf' out') = lit_pushes f (take (4 * k) lits) ((v0, v1, v2, v3), stack_of b5 lo q o5))"
      by (rule Suc.IH) (use Suc.prems tk o5 o4(3) P(6) lb in auto)
    then obtain r where r: "encode_literals hi lits t k (v0, v1, v2, v3) o5 b5 q = Some r"
      "\<And>b'. r = Inl b' \<Longrightarrow> frame b' b5 q hi"
      "snd (stack_of b5 lo q o5) + 40 * k + 88 \<le> 8 * (hi - lo) \<Longrightarrow> \<not> isl r"
      "\<And>us' out' b' buf'. r = Inr (us', out', b', buf') \<Longrightarrow>
        stream_ok out' \<and> accum_nbits out' < 8 \<and> q \<le> buf' \<and> (0 < k \<longrightarrow> buf' + 8 \<le> hi) \<and> (k = 0 \<longrightarrow> buf' = q) \<and> frame b' b5 q hi \<and>
        (us', stack_of b' lo buf' out') = lit_pushes f (take (4 * k) lits) ((v0, v1, v2, v3), stack_of b5 lo q o5)"
      by blast
    have "encode_literals hi lits t (Suc k) us out b buf = Some r"
      using False us o1(1) o2(1) o3(1) o4(1) o5(1) r(1) by simp
    moreover have "stream_ok out' \<and> accum_nbits out' < 8 \<and> buf \<le> buf' \<and> buf' + 8 \<le> hi \<and> frame b' b buf hi \<and>
        (us', stack_of b' lo buf' out') = lit_pushes f (take (4 * Suc k) lits) (us, ?S out)"
      if e: "r = Inr (us', out', b', buf')" for us' out' b' buf'
    proof -
      note R = r(4) [OF e]
      have "frame b' b buf hi" using frame_join [of b' b5 q hi b buf "buf + 8" buf hi] R o5(4,6) False by simp
      moreover have "lit_pushes f (take (4 * Suc k) lits) (us, ?S out) = lit_pushes f (take (4 * k) lits) ((v0, v1, v2, v3), st4)"
        unfolding tk using len P(5) us by (subst lit_pushes_append [of _ k]) simp_all
      ultimately show ?thesis using R o5 o4(3) False by (cases "k = 0") auto
    qed
    moreover have "frame b' b buf hi" if e: "r = Inl b'" for b'
      using frame_join [OF r(2) [OF e] o5(6), of buf hi] o5(4) False by simp
    moreover have "\<not> isl r" if "snd (?S out) + 40 * Suc k + 88 \<le> 8 * (hi - lo)"
      by (rule r(3)) (use that P(7) o5(7) o4(3) in simp)
    ultimately show ?thesis by simp
  qed
qed simp

text \<open>The decoder's loop: what was pushed on a stack of at least 56 bits comes back.\<close>

lemma pull_symbol:
  assumes f: "fits p f" "length f \<le> 256" and i: "codes f i" and u: "u < 2 ^ p" and st: "stack_ok st"
    and tab: "tab = snd (fse_init_decoder_table ub (2 ^ p) f old)"
    and p: "fse_push p f i (u, st) = (v, stack_of mem lo q inp)"
    and inp: "stream_ok inp" "int p \<le> accum_nbits inp"
  shows "\<exists>inp'. fse_decode v tab inp = Some (of_nat i, u, inp') \<and> stream_ok inp' \<and> accum_nbits inp \<le> accum_nbits inp' + int p \<and>
    stack_of mem lo q inp' = st"
proof -
  have i': "i < length f" "0 < f ! i" using i by (simp_all add: codes_def)
  have v: "v < sum_list f" using fse_push_state(3) [OF f(1) i' u, of st] p by simp
  have k: "int (pull_bits p f v) \<le> accum_nbits inp" using pull_bits_le [of p f v] inp(2) by linarith
  obtain j s' inp' where d: "fse_decode v tab inp = Some (of_nat j, s', inp')" "stream_ok inp'"
      "accum_nbits inp' = accum_nbits inp - int (pull_bits p f v)" "fse_pull p f (v, stack_of mem lo q inp) = (j, s', stack_of mem lo q inp')"
    using fse_decode_step [OF f(1) v f(2) inp(1) k tab, of mem lo q] by (elim exE conjE) (rule that)
  have "fse_pull p f (v, stack_of mem lo q inp) = (i, u, st)"
    using fse_pull_push [OF f(1) i' u st] p by simp
  then have "j = i" "s' = u" "stack_of mem lo q inp' = st" using d(4) by simp_all
  then show ?thesis using d(1-3) pull_bits_le [of p f v] by auto
qed

lemma decode_literals_ok:
  assumes f: "fits 10 f" "length f = 256" and t: "t = snd (fse_init_decoder_table ub 1024 f old)"
    and c: "quad_ok c" "56 \<le> snd (snd c)"
  shows "length xs = 4 * n \<Longrightarrow> (\<And>x. x \<in> set xs \<Longrightarrow> codes f (unat x)) \<Longrightarrow> stream_ok inp \<Longrightarrow> lo \<le> p \<Longrightarrow> p + 8 \<le> length mem \<Longrightarrow>
    (us, stack_of mem lo p inp) = lit_pushes f xs c \<Longrightarrow> decode_literals mem lo t n us inp p = Some (Some xs)"
proof (induction n arbitrary: xs us inp p)
  case (Suc n)
  obtain a b c' d ys where xs: "xs = a # b # c' # d # ys" "length ys = 4 * n" using quad_list [OF Suc.prems(1)] by blast
  have ysc: "\<And>x. x \<in> set ys \<Longrightarrow> codes f (unat x)" using Suc.prems(2) xs(1) by auto
  have Y: "quad_ok (lit_pushes f ys c)" "snd (snd c) \<le> snd (snd (lit_pushes f ys c))"
    using lit_pushes_ok [OF f(1) xs(2) ysc c(1)] by simp_all
  obtain u0 u1 u2 u3 st where u: "lit_pushes f ys c = ((u0, u1, u2, u3), st)" by (metis prod.exhaust)
  have cs: "codes f (unat a)" "codes f (unat b)" "codes f (unat c')" "codes f (unat d)" using Suc.prems(2) xs(1) by auto
  have q: "quad_ok ((u0, u1, u2, u3), st)" using Y u by simp
  obtain v0 v1 v2 v3 st1 st2 st3 st4 where P:
      "fse_push 10 f (unat d) (u3, st) = (v3, st1)" "fse_push 10 f (unat c') (u2, st1) = (v2, st2)"
      "fse_push 10 f (unat b) (u1, st2) = (v1, st3)" "fse_push 10 f (unat a) (u0, st3) = (v0, st4)"
      "push_quad f (unat a, unat b, unat c', unat d) ((u0, u1, u2, u3), st) = ((v0, v1, v2, v3), st4)"
      "stack_ok st1" "stack_ok st2" "stack_ok st3" "snd st \<le> snd st4"
    by (rule push_quad_steps [OF f(1) cs q], rule that) (assumption | linarith)+
  have us: "us = (v0, v1, v2, v3)" "stack_of mem lo p inp = st4" using Suc.prems(6) xs(1) u P(5) by simp_all
  have h: "56 \<le> 8 * (p - lo) + nat (accum_nbits inp)" using us(2) P(9) Y(2) u c(2) by (auto simp: stack_of_def)
  obtain i0 p0 where fl: "fse_in_checked_flush64 mem lo inp p = Some (Some (i0, p0))" "stream_ok i0" "56 \<le> accum_nbits i0"
      "lo \<le> p0" "p0 \<le> p" "stack_of mem lo p0 i0 = st4"
    using in_flush [OF Suc.prems(3-5) refl] h us(2) by auto
  have t10: "t = snd (fse_init_decoder_table ub (2 ^ 10) f old)" using t by simp
  have f256: "length f \<le> 256" using f(2) by simp
  have q': "u0 < 2 ^ 10" "u1 < 2 ^ 10" "u2 < 2 ^ 10" "u3 < 2 ^ 10" "stack_ok st" using q by simp_all
  obtain i1 where i1: "fse_decode v0 t i0 = Some (a, u0, i1)" "stream_ok i1" "accum_nbits i0 \<le> accum_nbits i1 + 10" "stack_of mem lo p0 i1 = st3"
    using pull_symbol [OF f(1) f256 cs(1) q'(1) P(8) t10, of v0 mem lo p0 i0] P(4) fl by auto
  obtain i2 where i2: "fse_decode v1 t i1 = Some (b, u1, i2)" "stream_ok i2" "accum_nbits i1 \<le> accum_nbits i2 + 10" "stack_of mem lo p0 i2 = st2"
    using pull_symbol [OF f(1) f256 cs(2) q'(2) P(7) t10, of v1 mem lo p0 i1] P(3) fl i1 by auto
  obtain i3 where i3: "fse_decode v2 t i2 = Some (c', u2, i3)" "stream_ok i3" "accum_nbits i2 \<le> accum_nbits i3 + 10" "stack_of mem lo p0 i3 = st1"
    using pull_symbol [OF f(1) f256 cs(3) q'(3) P(6) t10, of v2 mem lo p0 i2] P(2) fl i1 i2 by auto
  obtain i4 where i4: "fse_decode v3 t i3 = Some (d, u3, i4)" "stream_ok i4" "stack_of mem lo p0 i4 = st"
    using pull_symbol [OF f(1) f256 cs(4) q'(4,5) t10, of v3 mem lo p0 i3] P(1) fl i1 i2 i3 by auto
  have "decode_literals mem lo t n (u0, u1, u2, u3) i4 p0 = Some (Some ys)"
    by (rule Suc.IH [OF xs(2) ysc i4(2) fl(4)]) (use fl(5) Suc.prems(5) i4(3) u in auto)
  then show ?case using us(1) fl(1) i1(1) i2(1) i3(1) i4(1) xs(1) by simp
qed simp

section \<open>Values\<close>

definition push_value :: "nat \<Rightarrow> nat list \<Rightarrow> nat list \<Rightarrow> int list \<Rightarrow> nat \<Rightarrow> nat \<Rightarrow> nat \<times> stack \<Rightarrow> nat \<times> stack" where
  "push_value p f extra base cls v c = value_push p f extra (cls, nat (int v - base ! cls)) c"

lemma encode_value_ok:
  assumes f: "fits p f" and cls: "codes f cls" "in_class extra base cls v" "extra ! cls \<le> m" and u: "u < 2 ^ p"
    and s: "stream_ok s" "accum_nbits s + int (p + m) < 64" and m: "m \<le> 15"
    and P: "push_value p f extra base cls v (u, stack_of b lo buf s) = (u', st')"
  shows "\<exists>s'. encode_value cls extra base (fse_init_encoder_table ub (2 ^ p) f) u v s = Some (u', s') \<and> stream_ok s' \<and>
    accum_nbits s' \<le> accum_nbits s + int (p + m) \<and> stack_of b lo buf s' = st'"
proof -
  let ?e = "extra ! cls" and ?d = "int v - base ! cls"
  have d: "0 \<le> ?d" "?d < 2 ^ ?e" using cls(2) by (simp_all add: in_class_def)
  have "(2 :: int) ^ ?e \<le> 2 ^ 15" using cls(3) m by (intro power_increasing) simp_all
  then have "?d < 2 ^ 15" using d by linarith
  then have "nat ?d < 2 ^ 15" using d(1) by (simp add: nat_less_iff)
  moreover have "(of_int ?d :: u64) = of_nat (nat ?d)" using d(1) by simp
  ultimately have w: "unat (of_int ?d :: u64) = nat ?d" by (simp only: unat_of_nat) simp
  have "nat ?d < 2 ^ ?e" using d by (simp add: nat_less_iff)
  then obtain s1 where s1: "fse_out_push64 s (int ?e) (of_int ?d) = Some s1" "stream_ok s1" "accum_nbits s1 = accum_nbits s + int ?e"
      "stack_of b lo buf s1 = push ?e (nat ?d) (stack_of b lo buf s)"
    using out_push [OF s(1), of "int ?e" "of_int ?d" b lo buf] w s(2) cls(3) by auto
  have i: "cls < length f" "0 < f ! cls" using cls(1) by (simp_all add: codes_def)
  have "f ! cls \<le> 2 ^ p" using offset_range [OF i(1)] f by (simp add: fits_def)
  then have k: "step_bits p (f ! cls) u \<le> p" by (rule step_bounds(4) [OF i(2) _ u])
  have "accum_nbits s1 + int p < 64" using s1(3) s(2) cls(3) by simp
  then obtain s2 where s2: "fse_encode u (fse_init_encoder_table ub (2 ^ p) f) s1 cls = Some (fst (fse_push p f cls (u, stack_of b lo buf s1)), s2)"
      "stream_ok s2" "accum_nbits s2 = accum_nbits s1 + int (step_bits p (f ! cls) u)" "stack_of b lo buf s2 = snd (fse_push p f cls (u, stack_of b lo buf s1))"
    using fse_encode_step [OF f i u s1(2)] by blast
  have "fse_push p f cls (u, stack_of b lo buf s1) = (u', st')"
    using P s1(4) by (simp add: push_value_def value_push_def)
  then show ?thesis
    using s1 s2 k cls(3) by (simp add: encode_value_def)
qed

lemma decode_value_ok:
  assumes f: "fits p f" and cls: "codes f cls" "in_class extra base cls v" and u: "u < 2 ^ p" and st: "stack_ok st"
    and len: "length extra = length f" "length base = length f" and vb: "\<And>i. i < length f \<Longrightarrow> extra ! i \<le> m" "p + m \<le> 32"
    and tab: "fse_init_value_decoder_table ub (2 ^ p) f extra base old = Some tab"
    and P: "push_value p f extra base cls v (u, st) = (u', stack_of mem lo q inp)"
    and inp: "stream_ok inp" "int (p + m) \<le> accum_nbits inp"
  shows "\<exists>inp'. fse_value_decode u' tab inp = Some (int v, u, inp') \<and> stream_ok inp' \<and> accum_nbits inp \<le> accum_nbits inp' + int (p + m) \<and>
    stack_of mem lo q inp' = st"
proof -
  let ?d = "nat (int v - base ! cls)"
  have i: "cls < length f" "0 < f ! cls" using cls(1) by (simp_all add: codes_def)
  have d: "base ! cls + int ?d = int v" "?d < 2 ^ (extra ! cls)" using cls(2) by (simp_all add: in_class_def nat_less_iff)
  have pp: "fse_push p f cls (u, push (extra ! cls) ?d st) = (u', stack_of mem lo q inp)"
    using P by (simp add: push_value_def value_push_def)
  have u': "u' < sum_list f" using fse_push_state(3) [OF f i u] pp by (metis fst_conv)
  obtain j e s' inp' where r: "fse_value_decode u' tab inp = Some (base ! j + int e, s', inp')" "stream_ok inp'"
      "accum_nbits inp \<le> accum_nbits inp' + int (p + m)" "value_pull p f extra (u', stack_of mem lo q inp) = ((j, e), s', stack_of mem lo q inp')"
  proof -
    have "\<exists>j e s' inp'. fse_value_decode u' tab inp = Some (base ! j + int e, s', inp') \<and> stream_ok inp' \<and>
        accum_nbits inp \<le> accum_nbits inp' + int (p + m) \<and> value_pull p f extra (u', stack_of mem lo q inp) = ((j, e), s', stack_of mem lo q inp')"
      by (rule fse_value_decode_step [OF f u' len _ _ inp tab]) (use vb in simp_all)
    then show thesis by (elim exE conjE) (rule that)
  qed
  have "value_pull p f extra (u', stack_of mem lo q inp) = ((cls, ?d), u, st)"
    using value_pull_push [OF f i u st d(2)] P by (simp add: push_value_def)
  then show ?thesis using r d(1) by simp
qed

section \<open>Triples\<close>

type_synonym freqs = "nat list \<times> nat list \<times> nat list"

type_synonym tri_state = "(nat \<times> nat \<times> nat) \<times> stack"

text \<open>The classes of the values.\<close>

abbreviation l_push :: "nat list \<Rightarrow> nat \<Rightarrow> nat \<times> stack \<Rightarrow> nat \<times> stack" where
  "l_push f v \<equiv> push_value 6 f l_extra_bits l_base_value (l_sym ! v) v"

abbreviation m_push :: "nat list \<Rightarrow> nat \<Rightarrow> nat \<times> stack \<Rightarrow> nat \<times> stack" where
  "m_push f v \<equiv> push_value 6 f m_extra_bits m_base_value (m_sym ! v) v"

abbreviation d_push :: "nat list \<Rightarrow> nat \<Rightarrow> nat \<times> stack \<Rightarrow> nat \<times> stack" where
  "d_push f v \<equiv> push_value 8 f d_extra_bits d_base_value (d_base_from_value v) v"

fun push_lmd :: "freqs \<Rightarrow> nat \<times> nat \<times> nat \<Rightarrow> tri_state \<Rightarrow> tri_state" where
  "push_lmd (lf, mf, df) (L, M, D) ((ul, um, ud), st) =
     (let (ud, st) = d_push df D (ud, st); (um, st) = m_push mf M (um, st); (ul, st) = l_push lf L (ul, st) in ((ul, um, ud), st))"

fun lmd_pushes :: "freqs \<Rightarrow> (nat \<times> nat \<times> nat) list \<Rightarrow> tri_state \<Rightarrow> tri_state" where
  "lmd_pushes fs [] x = x"
| "lmd_pushes fs (t # ts) x = push_lmd fs t (lmd_pushes fs ts x)"

fun tri_ok :: "tri_state \<Rightarrow> bool" where
  "tri_ok ((ul, um, ud), st) = (ul < 64 \<and> um < 64 \<and> ud < 256 \<and> stack_ok st)"

fun freqs_fit :: "freqs \<Rightarrow> bool" where
  "freqs_fit (lf, mf, df) = (fits 6 lf \<and> fits 6 mf \<and> fits 8 df \<and> length lf = 20 \<and> length mf = 20 \<and> length df = 64)"

fun codes_lmd :: "freqs \<Rightarrow> nat \<times> nat \<times> nat \<Rightarrow> bool" where
  "codes_lmd (lf, mf, df) (L, M, D) =
     (L \<le> 315 \<and> M \<le> 2359 \<and> D \<le> 262139 \<and> codes lf (l_sym ! L) \<and> codes mf (m_sym ! M) \<and> codes df (d_base_from_value D))"

lemma lmd_pushes_append: "lmd_pushes fs (ts @ ts') x = lmd_pushes fs ts (lmd_pushes fs ts' x)"
  by (induction ts) simp_all

lemma extra_le:
  "i < 20 \<Longrightarrow> l_extra_bits ! i \<le> 8" "i < 20 \<Longrightarrow> m_extra_bits ! i \<le> 11" "i < 64 \<Longrightarrow> d_extra_bits ! i \<le> 15"
proof -
  have "list_all (\<lambda>e. e \<le> 8) l_extra_bits" "list_all (\<lambda>e. e \<le> 11) m_extra_bits" "list_all (\<lambda>e. e \<le> 15) d_extra_bits"
    by code_simp+
  then show "i < 20 \<Longrightarrow> l_extra_bits ! i \<le> 8" "i < 20 \<Longrightarrow> m_extra_bits ! i \<le> 11" "i < 64 \<Longrightarrow> d_extra_bits ! i \<le> 15"
    by (simp_all add: list_all_length)
qed

lemma classes:
  "L \<le> 315 \<Longrightarrow> l_base_from_value L = Some (l_sym ! L) \<and> in_class l_extra_bits l_base_value (l_sym ! L) L \<and> l_sym ! L < 20"
  "M \<le> 2359 \<Longrightarrow> m_base_from_value M = Some (m_sym ! M) \<and> in_class m_extra_bits m_base_value (m_sym ! M) M \<and> m_sym ! M < 20"
  "D \<le> 262139 \<Longrightarrow> in_class d_extra_bits d_base_value (d_base_from_value D) D \<and> d_base_from_value D < 64"
  using l_class [of L] m_class [of M] d_class [of D]
  by (auto simp: in_class_def l_base_from_value_def m_base_from_value_def split: if_splits)

lemma push_value_ok:
  assumes "fits p f" and "codes f cls" and "in_class extra base cls v" and "u < 2 ^ p" and "stack_ok st"
  shows "\<exists>u' st'. push_value p f extra base cls v (u, st) = (u', st') \<and> u' < 2 ^ p \<and> stack_ok st' \<and> snd st \<le> snd st' \<and>
    snd st' \<le> snd st + p + extra ! cls"
proof -
  let ?d = "nat (int v - base ! cls)" and ?e = "extra ! cls"
  have "?d < 2 ^ ?e" using assms(3) by (simp add: in_class_def nat_less_iff)
  then have ok: "stack_ok (push ?e ?d st)" by (rule push_ok [OF assms(5)])
  have i: "cls < length f" "0 < f ! cls" using assms(2) by (simp_all add: codes_def)
  show ?thesis
    using fse_push_state(4) [OF assms(1) i assms(4), of "push ?e ?d st"] fse_push_ok [OF ok, of p f cls u]
      fse_push_height [OF assms(1) i assms(4), of "push ?e ?d st"] fse_push_grows [of "push ?e ?d st" p f cls u]
    by (cases "fse_push p f cls (u, push ?e ?d st)") (auto simp: push_value_def value_push_def)
qed

lemma push_lmd_steps:
  assumes "freqs_fit (lf, mf, df)" and "codes_lmd (lf, mf, df) (L, M, D)" and "tri_ok ((ul, um, ud), st)"
  obtains vl vm vd st1 st2 st3 where
    "d_push df D (ud, st) = (vd, st1)" "m_push mf M (um, st1) = (vm, st2)" "l_push lf L (ul, st2) = (vl, st3)"
    "push_lmd (lf, mf, df) (L, M, D) ((ul, um, ud), st) = ((vl, vm, vd), st3)" "tri_ok ((vl, vm, vd), st3)"
    "stack_ok st1" "stack_ok st2" "snd st \<le> snd st3" "snd st3 \<le> snd st + 54"
proof -
  have f: "fits 6 lf" "fits 6 mf" "fits 8 df" using assms(1) by simp_all
  have c: "codes lf (l_sym ! L)" "codes mf (m_sym ! M)" "codes df (d_base_from_value D)" "L \<le> 315" "M \<le> 2359" "D \<le> 262139"
    using assms(2) by simp_all
  note k = classes(1) [OF c(4)] classes(2) [OF c(5)] classes(3) [OF c(6)]
  have e: "l_extra_bits ! (l_sym ! L) \<le> 8" "m_extra_bits ! (m_sym ! M) \<le> 11" "d_extra_bits ! d_base_from_value D \<le> 15"
    using extra_le k by simp_all
  have u: "ul < 2 ^ 6" "um < 2 ^ 6" "ud < 2 ^ 8" "stack_ok st" using assms(3) by simp_all
  obtain vd st1 where 1: "d_push df D (ud, st) = (vd, st1)" "vd < 2 ^ 8" "stack_ok st1" "snd st \<le> snd st1" "snd st1 \<le> snd st + 23"
    using push_value_ok [OF f(3) c(3) _ u(3,4)] k(3) e(3) by fastforce
  obtain vm st2 where 2: "m_push mf M (um, st1) = (vm, st2)" "vm < 2 ^ 6" "stack_ok st2" "snd st1 \<le> snd st2" "snd st2 \<le> snd st1 + 17"
    using push_value_ok [OF f(2) c(2) _ u(2) 1(3)] k(2) e(2) by fastforce
  obtain vl st3 where 3: "l_push lf L (ul, st2) = (vl, st3)" "vl < 2 ^ 6" "stack_ok st3" "snd st2 \<le> snd st3" "snd st3 \<le> snd st2 + 14"
    using push_value_ok [OF f(1) c(1) _ u(1) 2(3)] k(1) e(1) by fastforce
  show thesis
    by (rule that [OF 1(1) 2(1) 3(1)]) (use 1 2 3 in simp_all)
qed

lemma push_lmd_ok:
  assumes "freqs_fit fs" and "codes_lmd fs t" and "tri_ok x"
  shows "tri_ok (push_lmd fs t x) \<and> snd (snd x) \<le> snd (snd (push_lmd fs t x)) \<and> snd (snd (push_lmd fs t x)) \<le> snd (snd x) + 54"
proof -
  obtain lf mf df where fs: "fs = (lf, mf, df)" by (metis prod.exhaust)
  obtain L M D where t: "t = (L, M, D)" by (metis prod.exhaust)
  obtain ul um ud st where x: "x = ((ul, um, ud), st)" by (metis prod.exhaust)
  show ?thesis
    unfolding fs t x
    by (rule push_lmd_steps [OF assms [unfolded fs t x]]) (simp del: push_lmd.simps tri_ok.simps)
qed

lemma lmd_pushes_ok:
  assumes "freqs_fit fs" and "list_all (codes_lmd fs) ts" and "tri_ok x"
  shows "tri_ok (lmd_pushes fs ts x) \<and> snd (snd x) \<le> snd (snd (lmd_pushes fs ts x)) \<and> snd (snd (lmd_pushes fs ts x)) \<le> snd (snd x) + 54 * length ts"
  using assms(2)
proof (induction ts)
  case (Cons t ts)
  then show ?case using push_lmd_ok [OF assms(1), of t "lmd_pushes fs ts x"] by simp
qed (use assms(3) in simp)

text \<open>The encoder's loop.\<close>

lemma encode_lmds_ok:
  assumes fs: "freqs_fit (lf, mf, df)"
    and t: "lt = fse_init_encoder_table ub 64 lf" "mt = fse_init_encoder_table ub 64 mf" "dt = fse_init_encoder_table ub 256 df"
    and ts: "length ls = n" "length ms = n" "length ds = n" "ts = zip ls (zip ms ds)" "list_all (codes_lmd (lf, mf, df)) ts"
  shows "k \<le> n \<Longrightarrow> stream_ok out \<Longrightarrow> accum_nbits out < 8 \<Longrightarrow> lo \<le> buf \<Longrightarrow> hi \<le> length b \<Longrightarrow> tri_ok (us, stack_of b lo buf out) \<Longrightarrow>
    \<exists>r. encode_lmds hi (ls, ms, ds) (lt, mt, dt) k us out b buf = Some r \<and>
      (\<forall>b'. r = Inl b' \<longrightarrow> frame b' b buf hi) \<and>
      (snd (stack_of b lo buf out) + 54 * k + 74 \<le> 8 * (hi - lo) \<longrightarrow> \<not> isl r) \<and>
      (\<forall>us' out' b' buf'. r = Inr (us', out', b', buf') \<longrightarrow>
        stream_ok out' \<and> accum_nbits out' < 8 \<and> buf \<le> buf' \<and> (0 < k \<longrightarrow> buf' + 8 \<le> hi) \<and> (k = 0 \<longrightarrow> buf' = buf) \<and> frame b' b buf hi \<and>
        (us', stack_of b' lo buf' out') = lmd_pushes (lf, mf, df) (take k ts) (us, stack_of b lo buf out))"
proof (induction k arbitrary: us out b buf)
  case (Suc k)
  show ?case
  proof (cases "buf + 16 > hi")
    case True
    moreover have "8 * (buf - lo) \<le> snd (stack_of b lo buf out)" by (simp add: stack_of_def)
    ultimately show ?thesis using Suc.prems by (cases us) auto
  next
    case False
    obtain ul um ud where us: "us = (ul, um, ud)" by (metis prod.exhaust)
    let ?S = "stack_of b lo buf" and ?L = "ls ! k" and ?M = "ms ! k" and ?D = "ds ! k"
    have k: "k < length ts" "ts ! k = (?L, ?M, ?D)" using Suc.prems(1) ts by simp_all
    then have tk: "take (Suc k) ts = take k ts @ [(?L, ?M, ?D)]" by (simp add: take_Suc_conv_app_nth)
    have c: "codes_lmd (lf, mf, df) (?L, ?M, ?D)" using ts(5) k by (metis list_all_length)
    have c': "codes lf (l_sym ! ?L)" "codes mf (m_sym ! ?M)" "codes df (d_base_from_value ?D)" "?L \<le> 315" "?M \<le> 2359" "?D \<le> 262139"
      using c by simp_all
    have f: "fits 6 lf" "fits 6 mf" "fits 8 df" using fs by simp_all
    note cl = classes(1) [OF c'(4)] classes(2) [OF c'(5)] classes(3) [OF c'(6)]
    have e: "l_extra_bits ! (l_sym ! ?L) \<le> 8" "m_extra_bits ! (m_sym ! ?M) \<le> 11" "d_extra_bits ! d_base_from_value ?D \<le> 15"
      using extra_le cl by simp_all
    have tri: "tri_ok ((ul, um, ud), ?S out)" using Suc.prems(6) us by simp
    then have u: "ul < 2 ^ 6" "um < 2 ^ 6" "ud < 2 ^ 8" by simp_all
    obtain vl vm vd st1 st2 st3 where P: "d_push df ?D (ud, ?S out) = (vd, st1)" "m_push mf ?M (um, st1) = (vm, st2)"
        "l_push lf ?L (ul, st2) = (vl, st3)" "push_lmd (lf, mf, df) (?L, ?M, ?D) ((ul, um, ud), ?S out) = ((vl, vm, vd), st3)"
        "tri_ok ((vl, vm, vd), st3)" "snd st3 \<le> snd (?S out) + 54"
      by (rule push_lmd_steps [OF fs c tri], rule that) assumption+
    have t': "lt = fse_init_encoder_table ub (2 ^ 6) lf" "mt = fse_init_encoder_table ub (2 ^ 6) mf" "dt = fse_init_encoder_table ub (2 ^ 8) df"
      using t by simp_all
    obtain o1 where o1: "encode_value (d_base_from_value ?D) d_extra_bits d_base_value dt ud ?D out = Some (vd, o1)" "stream_ok o1"
        "accum_nbits o1 \<le> accum_nbits out + int (8 + 15)" "?S o1 = st1"
      using encode_value_ok [OF f(3) c'(3) _ e(3) u(3) Suc.prems(2) _ _ P(1), of ub] cl(3) Suc.prems(3) t' by auto
    obtain o2 where o2: "encode_value (m_sym ! ?M) m_extra_bits m_base_value mt um ?M o1 = Some (vm, o2)" "stream_ok o2"
        "accum_nbits o2 \<le> accum_nbits o1 + int (6 + 11)" "?S o2 = st2"
      using encode_value_ok [OF f(2) c'(2) _ e(2) u(2) o1(2), where base = m_base_value and v = "?M" and b = b and lo = lo and buf = buf and u' = vm and st' = st2 and ub = ub]
        cl(2) Suc.prems(3) t' o1(3,4) P(2) by auto
    obtain o3 where o3: "encode_value (l_sym ! ?L) l_extra_bits l_base_value lt ul ?L o2 = Some (vl, o3)" "stream_ok o3" "?S o3 = st3"
      using encode_value_ok [OF f(1) c'(1) _ e(1) u(1) o2(2), where base = l_base_value and v = "?L" and b = b and lo = lo and buf = buf and u' = vl and st' = st3 and ub = ub]
        cl(1) Suc.prems(3) t' o1(3) o2(3,4) P(3) by auto
    obtain o5 b5 q where o5: "fse_out_flush64 hi o3 b buf = Some (o5, b5, q)" "stream_ok o5" "accum_nbits o5 < 8" "buf \<le> q" "q \<le> buf + 7"
        "frame b5 b buf (buf + 8)" "stack_of b5 lo q o5 = ?S o3"
      using out_flush [OF o3(2) Suc.prems(4) _ Suc.prems(5)] False by auto
    have lb: "length b5 = length b" by (rule frame_length [OF o5(6)])
    have "\<exists>r. encode_lmds hi (ls, ms, ds) (lt, mt, dt) k (vl, vm, vd) o5 b5 q = Some r \<and>
      (\<forall>b'. r = Inl b' \<longrightarrow> frame b' b5 q hi) \<and>
      (snd (stack_of b5 lo q o5) + 54 * k + 74 \<le> 8 * (hi - lo) \<longrightarrow> \<not> isl r) \<and>
      (\<forall>us' out' b' buf'. r = Inr (us', out', b', buf') \<longrightarrow>
        stream_ok out' \<and> accum_nbits out' < 8 \<and> q \<le> buf' \<and> (0 < k \<longrightarrow> buf' + 8 \<le> hi) \<and> (k = 0 \<longrightarrow> buf' = q) \<and> frame b' b5 q hi \<and>
        (us', stack_of b' lo buf' out') = lmd_pushes (lf, mf, df) (take k ts) ((vl, vm, vd), stack_of b5 lo q o5))"
      by (rule Suc.IH) (use Suc.prems o5 o3(3) P(5) lb in auto)
    then obtain r where r: "encode_lmds hi (ls, ms, ds) (lt, mt, dt) k (vl, vm, vd) o5 b5 q = Some r"
      "\<And>b'. r = Inl b' \<Longrightarrow> frame b' b5 q hi"
      "snd (stack_of b5 lo q o5) + 54 * k + 74 \<le> 8 * (hi - lo) \<Longrightarrow> \<not> isl r"
      "\<And>us' out' b' buf'. r = Inr (us', out', b', buf') \<Longrightarrow>
        stream_ok out' \<and> accum_nbits out' < 8 \<and> q \<le> buf' \<and> (0 < k \<longrightarrow> buf' + 8 \<le> hi) \<and> (k = 0 \<longrightarrow> buf' = q) \<and> frame b' b5 q hi \<and>
        (us', stack_of b' lo buf' out') = lmd_pushes (lf, mf, df) (take k ts) ((vl, vm, vd), stack_of b5 lo q o5)"
      by blast
    have "encode_lmds hi (ls, ms, ds) (lt, mt, dt) (Suc k) us out b buf = Some r"
      using False us o1(1) o2(1) o3(1) o5(1) r(1) cl by simp
    moreover have "stream_ok out' \<and> accum_nbits out' < 8 \<and> buf \<le> buf' \<and> buf' + 8 \<le> hi \<and> frame b' b buf hi \<and>
        (us', stack_of b' lo buf' out') = lmd_pushes (lf, mf, df) (take (Suc k) ts) (us, ?S out)"
      if e: "r = Inr (us', out', b', buf')" for us' out' b' buf'
    proof -
      note R = r(4) [OF e]
      have "frame b' b buf hi" using frame_join [of b' b5 q hi b buf "buf + 8" buf hi] R o5(4,6) False by simp
      moreover have "lmd_pushes (lf, mf, df) (take (Suc k) ts) (us, ?S out) = lmd_pushes (lf, mf, df) (take k ts) ((vl, vm, vd), st3)"
        unfolding tk lmd_pushes_append us by (simp only: lmd_pushes.simps P(4))
      ultimately show ?thesis using R o5 o3(3) False by (cases "k = 0") auto
    qed
    moreover have "frame b' b buf hi" if e: "r = Inl b'" for b'
      using frame_join [OF r(2) [OF e] o5(6), of buf hi] o5(4) False by simp
    moreover have "\<not> isl r" if "snd (?S out) + 54 * Suc k + 74 \<le> 8 * (hi - lo)"
      by (rule r(3)) (use that P(6) o5(7) o3(3) in simp)
    ultimately show ?thesis by simp
  qed
qed simp

text \<open>One triple of the decoder.\<close>

definition lmd_state :: "lzfse_decoder_state \<Rightarrow> lmd_vars \<Rightarrow> tri_state" where
  "lmd_state s x = ((x_l_state x, x_m_state x, x_d_state x), stack_of (z_mem s) (z_src_begin s) (x_src x) (x_in x))"

definition tables_for :: "freqs \<Rightarrow> lzfse_block_state \<Rightarrow> bool" where
  "tables_for fs bs \<longleftrightarrow> (case fs of (lf, mf, df) \<Rightarrow>
     (\<exists>old. fse_init_value_decoder_table 0 64 lf l_extra_bits l_base_value old = Some (b_l_decoder bs)) \<and>
     (\<exists>old. fse_init_value_decoder_table 0 64 mf m_extra_bits m_base_value old = Some (b_m_decoder bs)) \<and>
     (\<exists>old. fse_init_value_decoder_table 0 256 df d_extra_bits d_base_value old = Some (b_d_decoder bs)))"

lemma next_lmd_ok:
  assumes fs: "freqs_fit fs" "tables_for fs (z_lzfse s)" and t: "codes_lmd fs (L, M, D)" and c: "tri_ok c" "56 \<le> snd (snd c)"
    and x: "stream_ok (x_in x)" "z_src_begin s \<le> x_src x" "x_src x + 8 \<le> length (z_mem s)" "x_lit x + L < 40064"
    and P: "lmd_state s x = push_lmd fs (L, M, D) c"
  shows "\<exists>x'. next_lmd s x = Some (Some x') \<and> lmd_state s x' = c \<and> stream_ok (x_in x') \<and> z_src_begin s \<le> x_src x' \<and> x_src x' \<le> x_src x \<and>
    x_L x' = L \<and> x_M x' = M \<and> x_D x' = (if D \<noteq> 0 then int D else x_D x) \<and> x_lit x' = x_lit x \<and> x_dst x' = x_dst x \<and> x_out x' = x_out x"
proof -
  obtain lf mf df where f0: "fs = (lf, mf, df)" by (metis prod.exhaust)
  obtain ul um ud st where cc: "c = ((ul, um, ud), st)" by (metis prod.exhaust)
  have f: "fits 6 lf" "fits 6 mf" "fits 8 df" "length lf = 20" "length mf = 20" "length df = 64" using fs(1) f0 by simp_all
  have ci: "codes lf (l_sym ! L)" "codes mf (m_sym ! M)" "codes df (d_base_from_value D)" "L \<le> 315" "M \<le> 2359" "D \<le> 262139"
    using t f0 by simp_all
  note cl = classes(1) [OF ci(4)] classes(2) [OF ci(5)] classes(3) [OF ci(6)]
  have u: "ul < 2 ^ 6" "um < 2 ^ 6" "ud < 2 ^ 8" "stack_ok st" using c(1) cc by simp_all
  obtain vl vm vd st1 st2 st3 where Q: "d_push df D (ud, st) = (vd, st1)" "m_push mf M (um, st1) = (vm, st2)" "l_push lf L (ul, st2) = (vl, st3)"
      "push_lmd (lf, mf, df) (L, M, D) ((ul, um, ud), st) = ((vl, vm, vd), st3)" "stack_ok st1" "stack_ok st2" "snd st \<le> snd st3"
    by (rule push_lmd_steps [OF fs(1) [unfolded f0] t [unfolded f0] c(1) [unfolded cc]], rule that) assumption+
  let ?mem = "z_mem s" and ?lo = "z_src_begin s" and ?bs = "z_lzfse s"
  have X: "x_l_state x = vl" "x_m_state x = vm" "x_d_state x = vd" "stack_of ?mem ?lo (x_src x) (x_in x) = st3"
    using P Q(4) f0 cc by (simp_all add: lmd_state_def)
  obtain tl tm td where T: "fse_init_value_decoder_table 0 (2 ^ 6) lf l_extra_bits l_base_value tl = Some (b_l_decoder ?bs)"
      "fse_init_value_decoder_table 0 (2 ^ 6) mf m_extra_bits m_base_value tm = Some (b_m_decoder ?bs)"
      "fse_init_value_decoder_table 0 (2 ^ 8) df d_extra_bits d_base_value td = Some (b_d_decoder ?bs)"
    using fs(2) f0 by (auto simp: tables_for_def)
  have h: "56 \<le> 8 * (x_src x - ?lo) + nat (accum_nbits (x_in x))" using X(4) Q(7) c(2) cc by (auto simp: stack_of_def)
  obtain i0 p0 where fl: "fse_in_checked_flush64 ?mem ?lo (x_in x) (x_src x) = Some (Some (i0, p0))" "stream_ok i0" "56 \<le> accum_nbits i0"
      "?lo \<le> p0" "p0 \<le> x_src x" "stack_of ?mem ?lo p0 i0 = st3"
    using in_flush [OF x(1-3) refl] h X(4) by auto
  obtain i1 where i1: "fse_value_decode vl (b_l_decoder ?bs) i0 = Some (int L, ul, i1)" "stream_ok i1" "accum_nbits i0 \<le> accum_nbits i1 + int (6 + 8)"
      "stack_of ?mem ?lo p0 i1 = st2"
  proof -
    have "\<exists>inp'. fse_value_decode vl (b_l_decoder ?bs) i0 = Some (int L, ul, inp') \<and> stream_ok inp' \<and> accum_nbits i0 \<le> accum_nbits inp' + int (6 + 8) \<and>
        stack_of ?mem ?lo p0 inp' = st2"
      by (rule decode_value_ok [OF f(1) ci(1) _ u(1) Q(6) _ _ _ _ T(1) _ fl(2)]) (use cl(1) f(4) extra_le(1) Q(3) fl(3,6) in simp_all)
    then show thesis using that by blast
  qed
  obtain i2 where i2: "fse_value_decode vm (b_m_decoder ?bs) i1 = Some (int M, um, i2)" "stream_ok i2" "accum_nbits i1 \<le> accum_nbits i2 + int (6 + 11)"
      "stack_of ?mem ?lo p0 i2 = st1"
  proof -
    have "\<exists>inp'. fse_value_decode vm (b_m_decoder ?bs) i1 = Some (int M, um, inp') \<and> stream_ok inp' \<and> accum_nbits i1 \<le> accum_nbits inp' + int (6 + 11) \<and>
        stack_of ?mem ?lo p0 inp' = st1"
      by (rule decode_value_ok [OF f(2) ci(2) _ u(2) Q(5) _ _ _ _ T(2) _ i1(2)]) (use cl(2) f(5) extra_le(2) Q(2) fl(3) i1(3,4) in simp_all)
    then show thesis using that by blast
  qed
  obtain i3 where i3: "fse_value_decode vd (b_d_decoder ?bs) i2 = Some (int D, ud, i3)" "stream_ok i3" "stack_of ?mem ?lo p0 i3 = st"
  proof -
    have "\<exists>inp'. fse_value_decode vd (b_d_decoder ?bs) i2 = Some (int D, ud, inp') \<and> stream_ok inp' \<and> accum_nbits i2 \<le> accum_nbits inp' + int (8 + 15) \<and>
        stack_of ?mem ?lo p0 inp' = st"
      by (rule decode_value_ok [OF f(3) ci(3) _ u(3,4) _ _ _ _ T(3) _ i2(2)]) (use cl(3) f(6) extra_le(3) Q(1) fl(3) i1(3) i2(3,4) in simp_all)
    then show thesis using that by blast
  qed
  let ?x = "x\<lparr>x_l_state := ul, x_m_state := um, x_d_state := ud, x_in := i3, x_src := p0, x_L := L, x_M := M,
      x_D := (if int D \<noteq> 0 then int D else x_D x)\<rparr>"
  have "next_lmd s x = Some (Some ?x)"
    using fl(1) i1(1) i2(1) i3(1) X(1-3) x(4) by (simp add: next_lmd_def Let_def)
  moreover have "lmd_state s ?x = c" using i3(3) cc by (simp add: lmd_state_def)
  ultimately show ?thesis using i3(2) fl(4,5) by auto
qed

end
