(* ===== verification/LZFSE_Block.thy ===== *)
theory LZFSE_Block
  imports LZFSE_Payload
begin

text \<open>
  An LZFSE block from encoder to decoder.  \<open>lmd_run\<close> says what triples and literals
  denote: literals are appended, a match repeats what was written \<open>D\<close> bytes before.
  Shown: the decoder's fast and careful paths both compute it, and a block written by
  \<open>encode_block\<close> is decoded to what its triples and literals denote.
\<close>

section \<open>The meaning of triples\<close>

type_synonym triple = "nat \<times> nat \<times> nat"

fun lmd_run :: "triple list \<Rightarrow> byte list \<Rightarrow> byte list \<Rightarrow> (byte list \<times> byte list) option" where
  "lmd_run [] lits out = Some (lits, out)"
| "lmd_run ((L, M, D) # ts) lits out =
     (if L \<le> length lits \<and> L \<le> LZFSE_ENCODE_MAX_L_VALUE \<and> M \<le> LZFSE_ENCODE_MAX_M_VALUE \<and> 1 \<le> D \<and> D \<le> LZFSE_ENCODE_MAX_D_VALUE \<and> D \<le> length out + L
      then lmd_run ts (drop L lits) (expand (out @ take L lits) D M) else None)"

lemma lmd_run_append:
  "lmd_run (ts @ ts') lits out = (case lmd_run ts lits out of None \<Rightarrow> None | Some (lits', out') \<Rightarrow> lmd_run ts' lits' out')"
  by (induction ts lits out rule: lmd_run.induct) simp_all

lemma lmd_run_more: "lmd_run ts lits out = Some (lits1, out') \<Longrightarrow> lmd_run ts (lits @ xs) out = Some (lits1 @ xs, out')"
  by (induction ts lits out rule: lmd_run.induct) (simp_all split: if_splits)

lemma lmd_run_bounds: "lmd_run ts lits out = Some (lits1, out') \<Longrightarrow> (L, M, D) \<in> set ts \<Longrightarrow> L \<le> 315 \<and> M \<le> 2359 \<and> 1 \<le> D \<and> D \<le> 262139"
  by (induction ts lits out rule: lmd_run.induct) (auto split: if_splits)

lemma lmd_run_length:
  "lmd_run ts lits out = Some (lits1, out') \<Longrightarrow> length out' = length out + sum_list (map fst ts) + sum_list (map (\<lambda>t. fst (snd t)) ts) \<and>
    length lits = length lits1 + sum_list (map fst ts)"
  by (induction ts lits out rule: lmd_run.induct) (auto split: if_splits)

section \<open>One triple\<close>

lemma slice_join: "a \<le> b \<Longrightarrow> b \<le> c \<Longrightarrow> slice xs a (b - a) @ slice xs b (c - b) = slice xs a (c - a)"
  using slice_add [of xs a "b - a" "c - b"] by simp

lemma execute_match_exact:
  assumes len: "length lits = 40080" and lit: "lit + L < 40064"
    and w: "lo \<le> d" "d + L + M \<le> hi" "hi \<le> length out" "hi - lo < 2 ^ 31" and D: "1 \<le> D" "D < 2 ^ 31" "lo + D \<le> d + L"
  shows "\<exists>b. execute_match lits lo hi L M (int D) lit d out = Some (Lmd_next (lit + L) (d + L + M) b) \<and> frame b out d hi \<and>
    slice b lo (d + L + M - lo) = expand (slice out lo (d - lo) @ slice lits lit L) D M"
proof -
  let ?ld = "\<lambda>w i. load lits 0 (length lits) (lit + i) w" and ?o = "slice out lo (d - lo)"
  have Dm: "\<not> int D mod 2 ^ 32 > int d + int L - int lo" using D by simp
  have lo: "length ?o = d - lo" using w by auto
  have copy: "\<exists>b. copy_loop v (?ld v) lo hi d n out = Some b \<and> frame b out d (d + v * n) \<and> slice b lo (d + L - lo) = ?o @ slice lits lit L"
    if n: "L \<le> v * n" "d + v * n \<le> hi" "lit + v * n \<le> 40080" for v n
  proof -
    have "?ld v (v * i) = Some (slice lits (lit + v * i) v)" if "i < n" for i
    proof -
      have "v * Suc i \<le> v * n" using that by (intro mult_le_mono2) simp
      then show ?thesis using n(3) len by (simp add: load_def)
    qed
    then obtain b where b: "copy_loop v (?ld v) lo hi d n out = Some b" "frame b out d (d + v * n)" "slice b d (v * n) = slice lits lit (v * n)"
      using copy_loop_ok [of n "?ld v" v lits lit lo d hi out] n w len by auto
    have "slice b d L = slice lits lit L"
      using slice_take [OF n(1) b(3)] slice_take [OF n(1) refl, of lits lit] by simp
    moreover have "slice b lo (d - lo) = ?o" by (rule frame_slice [OF b(2)]) (use w in auto)
    moreover have "slice b lo (d + L - lo) = slice b lo (d - lo) @ slice b d L"
      using slice_join [of lo d "d + L" b] w by simp
    ultimately show ?thesis using b by auto
  qed
  have mtch: "\<exists>b'. match_loop v lo hi (d + L) D n b = Some b' \<and> frame b' b (d + L) (d + L + v * n) \<and>
      slice b' lo (d + L + M - lo) = expand (?o @ slice lits lit L) D M"
    if b: "slice b lo (d + L - lo) = ?o @ slice lits lit L" "length b = length out" and n: "M \<le> v * n" "d + L + v * n \<le> hi"
      and v: "v \<le> D \<or> (n = 1 \<and> M \<le> D)" for b v n
  proof (cases "v \<le> D")
    case True
    obtain b' where b': "match_loop v lo hi (d + L) D n b = Some b'" "frame b' b (d + L) (d + L + v * n)"
        "slice b' lo (d + L - lo + v * n) = expand (slice b lo (d + L - lo)) D (v * n)"
      using match_loop_ok [OF True D(3) n(2), of b] b(2) w by auto
    have "slice b' lo (d + L - lo + M) = take (d + L - lo + M) (expand (?o @ slice lits lit L) D (M + (v * n - M)))"
      using slice_take [OF _ b'(3), of "d + L - lo + M"] n(1) b(1) by simp
    also have "\<dots> = expand (?o @ slice lits lit L) D M"
    proof -
      have "length (?o @ slice lits lit L) = d + L - lo" using lo lit len w by simp
      then show ?thesis using take_expand [of "?o @ slice lits lit L" M D "v * n - M"] by simp
    qed
    finally show ?thesis using b' w by auto
  next
    case False
    then have n1: "n = 1" "M \<le> D" "M \<le> v" using v n by auto
    have nv: "d + L + v \<le> hi" using n(2) n1(1) by simp
    then have pos: "lo \<le> d + L - D" "d + L - D + v \<le> hi" using D(3) by linarith+
    have ld: "load b lo hi (d + L - D) v = Some (slice b (d + L - D) v)" using pos by (simp add: load_def)
    have lv: "length (slice b (d + L - D) v) = v" using pos b(2) w(3) by simp
    obtain b' where b': "store b lo hi (d + L) (slice b (d + L - D) v) = Some b'"
      by (rule store_some [of lo "d + L" "slice b (d + L - D) v" hi b]) (use lv nv b w in auto)
    note S = storeD [OF b']
    have "slice b' (d + L) M = slice b (d + L - D) M"
      using slice_take [OF n1(3), of b' "d + L"] S(2) lv slice_take [OF n1(3) refl, of b "d + L - D"] by simp
    moreover have "slice b' lo (d + L - lo) = slice b lo (d + L - lo)" by (rule frame_slice [OF S(1)]) (use b w in auto)
    moreover have "slice b' lo (d + L + M - lo) = slice b' lo (d + L - lo) @ slice b' (d + L) M"
      using slice_join [of lo "d + L" "d + L + M" b'] w by simp
    moreover have "slice b (d + L - D) M = slice (?o @ slice lits lit L) (length (?o @ slice lits lit L) - D) M"
    proof -
      have "length (?o @ slice lits lit L) = d + L - lo" using lo lit len w by simp
      then show ?thesis using slice_slice [of "d + L - lo - D" M "d + L - lo" b lo] b(1) D(3) n1(2) by simp
    qed
    moreover have "D \<le> length (?o @ slice lits lit L)" using lo lit len w D(3) by simp
    ultimately have "slice b' lo (d + L + M - lo) = expand (?o @ slice lits lit L) D M"
      using expand_block [OF n1(2)] b(1) by simp
    then show ?thesis using b' ld n1(1) S(1) lv D(3) by simp
  qed
  show ?thesis
  proof (cases "int L + int M \<le> int hi - int d - 32")
    case True
    have k: "L \<le> 8 * copies L" "8 * copies L \<le> L + 8" "M \<le> 8 * copies M" "8 * copies M \<le> M + 8" using copies_bounds by simp_all
    have kl: "lit + 8 * copies L \<le> 40080" using k lit by simp
    obtain b where b: "copy_loop 8 (?ld 8) lo hi d (copies L) out = Some b" "frame b out d (d + 8 * copies L)" "slice b lo (d + L - lo) = ?o @ slice lits lit L"
      using copy [OF k(1) _ kl] k True by auto
    have lb: "length b = length out" by (rule frame_length [OF b(2)])
    obtain b' e where b': "(if int D \<ge> 8 \<or> int D \<ge> int M then match_loop 8 lo hi (d + L) (nat (int D)) (copies M) b
          else match_loop 1 lo hi (d + L) (nat (int D)) M b) = Some b'" "frame b' b (d + L) e" "e \<le> hi"
          "slice b' lo (d + L + M - lo) = expand (?o @ slice lits lit L) D M"
    proof (cases "int D \<ge> 8 \<or> int D \<ge> int M")
      case t: True
      have "8 \<le> D \<or> (copies M = 1 \<and> M \<le> D)" using t by (auto simp: copies_def)
      then obtain b' where "match_loop 8 lo hi (d + L) D (copies M) b = Some b'" "frame b' b (d + L) (d + L + 8 * copies M)"
          "slice b' lo (d + L + M - lo) = expand (?o @ slice lits lit L) D M"
        using mtch [OF b(3) lb k(3)] k True by auto
      then show thesis using that t k(4) True by auto
    next
      case f: False
      obtain b' where "match_loop 1 lo hi (d + L) D M b = Some b'" "frame b' b (d + L) (d + L + 1 * M)"
          "slice b' lo (d + L + M - lo) = expand (?o @ slice lits lit L) D M"
        using mtch [OF b(3) lb, of 1 M] w D by auto
      then show thesis using that f w by auto
    qed
    have "execute_match lits lo hi L M (int D) lit d out = Some (Lmd_next (lit + L) (d + L + M) b')"
      using Dm True b(1) b'(1) by (simp add: execute_match_def Let_def)
    moreover have "frame b' out d hi"
      by (rule frame_join [OF b'(2) b(2)]) (use k(2) b'(3) True in auto)
    ultimately show ?thesis using b'(4) by simp
  next
    case slow: False
    obtain b where b: "copy_loop 1 (?ld 1) lo hi d L out = Some b" "frame b out d (d + 1 * L)" "slice b lo (d + L - lo) = ?o @ slice lits lit L"
      using copy [of 1 L] w lit by auto
    have lb: "length b = length out" by (rule frame_length [OF b(2)])
    obtain b' where b': "match_loop 1 lo hi (d + L) D M b = Some b'" "frame b' b (d + L) (d + L + 1 * M)"
        "slice b' lo (d + L + M - lo) = expand (?o @ slice lits lit L) D M"
      using mtch [OF b(3) lb, of 1 M] w D by auto
    have r: "int L \<le> int hi - int d" "int M \<le> int hi - int d - int L" using w by simp_all
    have "execute_match lits lo hi L M (int D) lit d out = Some (Lmd_next (lit + L) (d + L + M) b')"
      using Dm slow r b(1) b'(1) by (simp add: execute_match_def Let_def)
    moreover have "frame b' out d hi"
      by (rule frame_join [OF b'(2) b(2)]) (use w in auto)
    ultimately show ?thesis using b'(3) by simp
  qed
qed

section \<open>All triples\<close>

text \<open>The triples as they are stored: a repeated distance is 0.\<close>

fun code_triples :: "nat \<Rightarrow> triple list \<Rightarrow> triple list" where
  "code_triples p [] = []"
| "code_triples p ((L, M, D) # ts) = (if D = p then (L, M, 0) # code_triples p ts else (L, M, D) # code_triples D ts)"

lemma length_code_triples [simp]: "length (code_triples p ts) = length ts"
  by (induction p ts rule: code_triples.induct) simp_all

lemma length_code_prev [simp]: "length (code_prev p ds) = length ds"
  by (induction p ds rule: code_prev.induct) simp_all

lemma code_triples_zip:
  "length ls = length ds \<Longrightarrow> length ms = length ds \<Longrightarrow> zip ls (zip ms (code_prev p ds)) = code_triples p (zip ls (zip ms ds))"
proof (induction p ds arbitrary: ls ms rule: code_prev.induct)
  case (2 p d ds)
  then obtain l ls' m ms' where "ls = l # ls'" "ms = m # ms'" by (metis length_Suc_conv)
  with 2 show ?case by auto
qed simp

definition out_of :: "lzfse_decoder_state \<Rightarrow> lmd_vars \<Rightarrow> byte list" where
  "out_of s x = slice (x_out x) (z_dst_begin s) (x_dst x - z_dst_begin s)"

lemma lmd_loop_exact:
  assumes fs: "freqs_fit fs" "tables_for fs (z_lzfse s)" and bl: "length (b_literals (z_lzfse s)) = 40080"
    and b: "z_dst_end s \<le> length (z_out s)" "z_dst_end s - z_dst_begin s < 2 ^ 31" and c: "tri_ok c" "56 \<le> snd (snd c)"
  shows "lmd_run ts (slice (b_literals (z_lzfse s)) (x_lit x) k) (out_of s x) = Some (r, out') \<Longrightarrow> list_all (codes_lmd fs) (code_triples p ts) \<Longrightarrow>
    lmd_state s x = lmd_pushes fs (code_triples p ts) c \<Longrightarrow> x_lit x + k \<le> 40000 \<Longrightarrow> (p \<noteq> 0 \<longrightarrow> x_D x = int p) \<Longrightarrow>
    stream_ok (x_in x) \<Longrightarrow> z_src_begin s \<le> x_src x \<Longrightarrow> x_src x + 8 \<le> length (z_mem s) \<Longrightarrow> length (x_out x) = length (z_out s) \<Longrightarrow>
    z_dst_begin s \<le> x_dst x \<Longrightarrow> length out' \<le> z_dst_end s - z_dst_begin s \<Longrightarrow> x_dst x \<le> z_dst_end s \<Longrightarrow>
    \<exists>x'. lmd_loop s (length ts) x = Some (Status_ok, 0, x') \<and> out_of s x' = out' \<and> x_dst x' = z_dst_begin s + length out' \<and>
      frame (x_out x') (x_out x) (x_dst x) (z_dst_end s)"
proof (induction ts arbitrary: x k p)
  case Nil
  have "length (out_of s x) = x_dst x - z_dst_begin s" using Nil.prems(9,10,12) b(1) by (simp add: out_of_def)
  then show ?case using Nil.prems(1,10) by auto
next
  case (Cons t ts)
  obtain L M D where t: "t = (L, M, D)" by (metis prod.exhaust)
  let ?bl = "b_literals (z_lzfse s)" and ?lo = "z_dst_begin s" and ?hi = "z_dst_end s" and ?o = "out_of s x"
  let ?lits = "slice ?bl (x_lit x) k"
  have lk: "length ?lits = k" using Cons.prems(4) bl by simp
  have lo: "length ?o = x_dst x - ?lo" using Cons.prems(9,10,12) b(1) by (simp add: out_of_def)
  have R: "L \<le> k" "L \<le> 315" "M \<le> 2359" "1 \<le> D" "D \<le> 262139" "D \<le> length ?o + L"
      "lmd_run ts (drop L ?lits) (expand (?o @ take L ?lits) D M) = Some (r, out')"
    using Cons.prems(1) t lk by (auto split: if_splits)
  have tl: "take L ?lits = slice ?bl (x_lit x) L" "drop L ?lits = slice ?bl (x_lit x + L) (k - L)"
    using R(1) by (simp_all add: slice_def min_def drop_take add.commute)
  have room: "x_dst x + L + M \<le> ?hi"
    using lmd_run_length [OF R(7)] lk R(1) lo Cons.prems(10-12) by simp
  define D' where "D' = (if D = p then 0 else D)"
  define p' where "p' = (if D = p then p else D)"
  have ct: "code_triples p (t # ts) = (L, M, D') # code_triples p' ts" by (simp add: t D'_def p'_def)
  have codes: "codes_lmd fs (L, M, D')" "list_all (codes_lmd fs) (code_triples p' ts)" using Cons.prems(2) ct by simp_all
  let ?c = "lmd_pushes fs (code_triples p' ts) c"
  have C: "tri_ok ?c" "56 \<le> snd (snd ?c)" using lmd_pushes_ok [OF fs(1) codes(2) c(1)] c(2) by simp_all
  have P: "lmd_state s x = push_lmd fs (L, M, D') ?c" using Cons.prems(3) ct by simp
  have lit: "x_lit x + L < 40064" using Cons.prems(4) R(1) by simp
  obtain y where y: "next_lmd s x = Some (Some y)" "lmd_state s y = ?c" "stream_ok (x_in y)" "z_src_begin s \<le> x_src y" "x_src y \<le> x_src x"
      "x_L y = L" "x_M y = M" "x_D y = (if D' \<noteq> 0 then int D' else x_D x)" "x_lit y = x_lit x" "x_dst y = x_dst x" "x_out y = x_out x"
    using next_lmd_ok [OF fs codes(1) C Cons.prems(6-8) lit P] by blast
  have yD: "x_D y = int D" using y(8) Cons.prems(5) R(4) by (auto simp: D'_def)
  have Dle: "?lo + D \<le> x_dst x + L" using R(6) lo Cons.prems(10) by simp
  obtain bb where e: "execute_match ?bl ?lo ?hi L M (int D) (x_lit x) (x_dst x) (x_out x) = Some (Lmd_next (x_lit x + L) (x_dst x + L + M) bb)"
      "frame bb (x_out x) (x_dst x) ?hi" "slice bb ?lo (x_dst x + L + M - ?lo) = expand (?o @ slice ?bl (x_lit x) L) D M"
    using execute_match_exact [OF bl lit Cons.prems(10) room _ b(2) R(4) _ Dle, of "x_out x"] b(1) Cons.prems(9) R(5) by (auto simp: out_of_def)
  let ?z = "y\<lparr>x_L := 0, x_M := 0, x_lit := x_lit x + L, x_dst := x_dst x + L + M, x_out := bb\<rparr>"
  have run: "run_match s (lmd_loop s (length ts)) (length ts) y = lmd_loop s (length ts) ?z"
    using e(1) y(6,7,9-11) yD by (simp add: run_match_def)
  have oz: "out_of s ?z = expand (?o @ take L ?lits) D M" using e(3) tl(1) by (simp add: out_of_def)
  have "\<exists>x'. lmd_loop s (length ts) ?z = Some (Status_ok, 0, x') \<and> out_of s x' = out' \<and> x_dst x' = ?lo + length out' \<and>
      frame (x_out x') (x_out ?z) (x_dst ?z) ?hi"
  proof (rule Cons.IH [where k = "k - L" and p = p'])
    show "lmd_run ts (slice ?bl (x_lit ?z) (k - L)) (out_of s ?z) = Some (r, out')"
      using R(7) unfolding oz by (simp add: tl(2))
    show "lmd_state s ?z = lmd_pushes fs (code_triples p' ts) c" using y(2) by (simp add: lmd_state_def)
    show "x_lit ?z + (k - L) \<le> 40000" using Cons.prems(4) R(1) by simp
    show "p' \<noteq> 0 \<longrightarrow> x_D ?z = int p'" using yD by (simp add: p'_def)
    show "length (x_out ?z) = length (z_out s)" using frame_length [OF e(2)] Cons.prems(9) by simp
  qed (use codes(2) y(3-5) Cons.prems(8,10,11) room in auto)
  then obtain x' where x': "lmd_loop s (length ts) ?z = Some (Status_ok, 0, x')" "out_of s x' = out'" "x_dst x' = ?lo + length out'"
      "frame (x_out x') bb (x_dst x + L + M) ?hi" by auto
  have "frame (x_out x') (x_out x) (x_dst x) ?hi" by (rule frame_join [OF x'(4) e(2)]) simp_all
  then show ?case using x'(1-3) y(1) run by auto
qed

section \<open>The header\<close>

lemma count_classes_ok:
  assumes "\<And>v. v \<in> set vs \<Longrightarrow> \<exists>b. base v = Some b \<and> b < n"
  shows "length occ = n \<Longrightarrow> \<exists>occ'. count_classes base occ vs = Some occ' \<and> length occ' = n \<and> sum_list occ' = sum_list occ + length vs \<and>
    (\<forall>i < n. occ ! i \<le> occ' ! i) \<and> (\<forall>v \<in> set vs. 0 < occ' ! the (base v))"
  using assms
proof (induction vs arbitrary: occ)
  case (Cons v vs)
  obtain b where b: "base v = Some b" "b < n" using Cons.prems(2) by auto
  let ?o = "occ[b := occ ! b + 1]"
  have "length ?o = n" using Cons.prems(1) by simp
  from Cons.IH [OF this] Cons.prems(2) obtain occ' where o: "count_classes base ?o vs = Some occ'" "length occ' = n"
      "sum_list occ' = sum_list ?o + length vs" "\<forall>i < n. ?o ! i \<le> occ' ! i" "\<forall>v \<in> set vs. 0 < occ' ! the (base v)" by auto
  have "sum_list ?o = sum_list occ + 1" using b(2) Cons.prems(1) elem_le_sum_list [of b occ] by (simp add: sum_list_update)
  moreover have "0 < occ' ! b" using o(4) b(2) Cons.prems(1) by (metis Suc_eq_plus1 Suc_le_lessD le_zero_eq neq0_conv nth_list_update_eq zero_less_Suc)
  moreover have "\<forall>i < n. occ ! i \<le> occ' ! i"
  proof (intro allI impI)
    fix i assume i: "i < n"
    have "occ ! i \<le> ?o ! i" using b(2) i Cons.prems(1) by (cases "i = b") simp_all
    then show "occ ! i \<le> occ' ! i" using o(4) i le_trans by blast
  qed
  ultimately show ?case using o b Cons.prems(1) by simp
qed simp

lemma used_le: "used t \<le> length t"
  by (simp add: used_def)

lemma normalize_classes:
  assumes "\<And>v. v \<in> set vs \<Longrightarrow> \<exists>b. base v = Some b \<and> b < n" and "0 < n" "n \<le> 2 ^ p" "p \<le> 14" "length vs < 2 ^ 32"
  shows "\<exists>occ freq. count_classes base (replicate n 0) vs = Some occ \<and> fse_normalize_freq (2 ^ p) occ = Some freq \<and> fits p freq \<and> sum_list freq = 2 ^ p \<and>
    length freq = n \<and> (\<forall>v \<in> set vs. codes freq (the (base v)))"
proof -
  obtain occ where o: "count_classes base (replicate n 0) vs = Some occ" "length occ = n" "sum_list occ = length vs"
      "\<forall>v \<in> set vs. 0 < occ ! the (base v)"
    using count_classes_ok [where vs = vs and base = base and n = n and occ = "replicate n 0"] assms(1) by (auto simp: sum_list_replicate)
  have "occ \<noteq> []" "sum_list occ < 2 ^ 32" "used occ \<le> 2 ^ p" using o(2,3) assms(2,3,5) used_le [of occ] by auto
  from normalize_exact [OF assms(4) this] obtain freq where f: "fse_normalize_freq (2 ^ p) occ = Some freq" "sum_list freq = 2 ^ p" "length freq = n"
      "\<forall>i < n. 0 < occ ! i \<longrightarrow> 0 < freq ! i"
    using o(2) by auto
  have "codes freq (the (base v))" if "v \<in> set vs" for v
    using o(4) f(3,4) assms(1) [OF that] that by (auto simp: codes_def)
  then show ?thesis using o(1) f assms(4) by (auto simp: fits_def)
qed

definition header_freqs :: "lzfse_header_v1 \<Rightarrow> freqs" where
  "header_freqs h = (h_l_freq h, h_m_freq h, h_d_freq h)"

text \<open>What is known of the header before the payloads are written.\<close>

definition block_header_ok :: "lzfse_header_v1 \<Rightarrow> bool" where
  "block_header_ok h \<longleftrightarrow>
     h_magic h = LZFSE_COMPRESSEDV1_BLOCK_MAGIC \<and> h_n_raw_bytes h < 2 ^ 32 \<and> h_n_literals h \<le> 40000 \<and> h_n_matches h \<le> 10000 \<and>
     freqs_fit (header_freqs h) \<and> fits 10 (h_literal_freq h) \<and> length (h_literal_freq h) = 256"

lemma codes_member: "codes f i \<Longrightarrow> i < length f" by (simp add: codes_def)

lemma zip3_member: "(L, M, D) \<in> set (zip ls (zip ms ds)) \<Longrightarrow> L \<in> set ls \<and> M \<in> set ms \<and> D \<in> set ds"
  by (meson set_zip_leftD set_zip_rightD)

lemma block_header_some:
  assumes len: "length ls = n" "length ms = n" "length ds = n" "n \<le> 10000" "length lits \<le> 40000"
    and v: "\<And>L. L \<in> set ls \<Longrightarrow> L \<le> 315" "\<And>M. M \<in> set ms \<Longrightarrow> M \<le> 2359" "\<And>D. D \<in> set ds \<Longrightarrow> D \<le> 262139"
  shows "\<exists>occ h. block_counts ls ms ds lits = Some occ \<and> block_header occ ls ms lits = Some h \<and> block_header_ok h \<and> header_ok h \<and> h_n_literals h = length lits \<and> h_n_matches h = n \<and>
    list_all (codes_lmd (header_freqs h)) (zip ls (zip ms ds)) \<and> (\<forall>x \<in> set lits. codes (h_literal_freq h) (unat x))"
proof -
  have bl: "\<exists>b. l_base_from_value x = Some b \<and> b < 20" if "x \<in> set ls" for x using classes(1) [OF v(1) [OF that]] by blast
  have bm: "\<exists>b. m_base_from_value x = Some b \<and> b < 20" if "x \<in> set ms" for x using classes(2) [OF v(2) [OF that]] by blast
  have bd: "\<exists>b. Some (d_base_from_value x) = Some b \<and> b < 64" if "x \<in> set ds" for x using classes(3) [OF v(3) [OF that]] by blast
  have bx: "\<exists>b. Some x = Some b \<and> b < 256" if "x \<in> set (map unat lits)" for x using that by auto
  obtain lo lf where L: "count_classes l_base_from_value (replicate 20 0) ls = Some lo" "fse_normalize_freq (2 ^ 6) lo = Some lf" "fits 6 lf"
      "sum_list lf = 2 ^ 6" "length lf = 20" "\<forall>v \<in> set ls. codes lf (the (l_base_from_value v))"
    using normalize_classes [of ls l_base_from_value 20 6, OF bl] len by auto
  obtain mo mf where M: "count_classes m_base_from_value (replicate 20 0) ms = Some mo" "fse_normalize_freq (2 ^ 6) mo = Some mf" "fits 6 mf"
      "sum_list mf = 2 ^ 6" "length mf = 20" "\<forall>v \<in> set ms. codes mf (the (m_base_from_value v))"
    using normalize_classes [of ms m_base_from_value 20 6, OF bm] len by auto
  obtain dor df where D: "count_classes (\<lambda>d. Some (d_base_from_value d)) (replicate 64 0) ds = Some dor" "fse_normalize_freq (2 ^ 8) dor = Some df" "fits 8 df"
      "sum_list df = 2 ^ 8" "length df = 64" "\<forall>v \<in> set ds. codes df (d_base_from_value v)"
    using normalize_classes [of ds "\<lambda>d. Some (d_base_from_value d)" 64 8, OF bd] len by auto
  obtain xo xf where X: "count_classes Some (replicate 256 0) (map unat lits) = Some xo" "fse_normalize_freq (2 ^ 10) xo = Some xf" "fits 10 xf"
      "sum_list xf = 2 ^ 10" "length xf = 256" "\<forall>v \<in> set (map unat lits). codes xf v"
    using normalize_classes [of "map unat lits" Some 256 10, OF bx] len by auto
  let ?h = "\<lparr>h_magic = LZFSE_COMPRESSEDV1_BLOCK_MAGIC, h_n_raw_bytes = (sum_list ms + sum_list ls) mod 2 ^ 32, h_n_payload_bytes = 0,
                h_n_literals = length lits, h_n_matches = length ls, h_n_literal_payload_bytes = 0, h_n_lmd_payload_bytes = 0,
                h_literal_bits = 0, h_literal_state = [0, 0, 0, 0], h_lmd_bits = 0, h_l_state = 0, h_m_state = 0, h_d_state = 0,
                h_l_freq = lf, h_m_freq = mf, h_d_freq = df, h_literal_freq = xf\<rparr>"
  have "block_counts ls ms ds lits = Some (lo, mo, dor, xo)" "block_header (lo, mo, dor, xo) ls ms lits = Some ?h"
    using L(1,2) M(1,2) D(1,2) X(1,2) by (simp_all add: block_counts_def block_header_def)
  moreover have "block_header_ok ?h"
    using len L(3,5) M(3,5) D(3,5) X(3,5) by (simp add: block_header_ok_def header_freqs_def)
  moreover have "header_ok ?h"
  proof -
    have le: "f \<le> 1047" if "f \<in> set xs" "sum_list xs \<le> 1024" for f :: nat and xs
      using member_le_sum_list [of f xs] that by simp
    have "list_all (\<lambda>f. f \<le> 1047) (freq_table ?h)"
      using le L(4) M(4) D(4) X(4) by (auto simp: freq_table_def list_all_iff)
    then show ?thesis using len L(5) M(5) D(5) X(5) by (simp add: header_ok_def)
  qed
  moreover have "list_all (codes_lmd (header_freqs ?h)) (zip ls (zip ms ds))"
  proof -
    have "codes_lmd (lf, mf, df) (a, b, c)" if "a \<in> set ls" "b \<in> set ms" "c \<in> set ds" for a b c
      using classes(1) [OF v(1) [OF that(1)]] classes(2) [OF v(2) [OF that(2)]] v(1) [OF that(1)] v(2) [OF that(2)] v(3) [OF that(3)] L(6) M(6) D(6) that by auto
    then show ?thesis by (auto simp: list_all_iff header_freqs_def dest!: zip3_member simp del: codes_lmd.simps)
  qed
  ultimately show ?thesis using len(1) X(6)
    by (intro exI [of _ "(lo, mo, dor, xo)"] exI [of _ ?h]) simp
qed

end
