(* ===== verification/LZFSE_Coded.thy ===== *)
theory LZFSE_Coded
  imports LZFSE_Block
begin

text \<open>
  Blocks as byte strings.  \<open>coded_block h lits ts bs\<close> says that \<open>bs\<close> is the block of the
  header \<open>h\<close>, the literals and the triples as they are stored: the packed header and two
  payloads whose bits are the pushes of the coders.  Shown: what \<open>encode_block\<close> writes is
  such a block, it returns for every input of block size and stays inside the destination;
  and the decoder turns such a block into what the triples and literals denote.
\<close>

section \<open>Coded blocks\<close>

definition literal_states :: "lzfse_header_v1 \<Rightarrow> nat \<times> nat \<times> nat \<times> nat" where
  "literal_states h = (h_literal_state h ! 0, h_literal_state h ! 1, h_literal_state h ! 2, h_literal_state h ! 3)"

definition lmd_states :: "lzfse_header_v1 \<Rightarrow> nat \<times> nat \<times> nat" where
  "lmd_states h = (h_l_state h, h_m_state h, h_d_state h)"

text \<open>The bits of a payload, without the padding.\<close>

definition payload_stack :: "byte list \<Rightarrow> int \<Rightarrow> stack" where
  "payload_stack bs bits = (le_val bs, nat (8 * int (length bs) + bits))"

definition coded_block :: "lzfse_header_v1 \<Rightarrow> byte list \<Rightarrow> triple list \<Rightarrow> byte list \<Rightarrow> bool" where
  "coded_block h lits ts bs \<longleftrightarrow>
     header_ok h \<and> block_header_ok h \<and> h_n_literals h = length lits \<and> 4 dvd length lits \<and> h_n_matches h = length ts \<and>
     list_all (codes_lmd (header_freqs h)) ts \<and> (\<forall>x \<in> set lits. codes (h_literal_freq h) (unat x)) \<and>
     (\<exists>ps qs. bs = header_bytes h @ ps @ qs \<and> length ps = h_n_literal_payload_bytes h \<and> length qs = h_n_lmd_payload_bytes h \<and>
        0 \<le> 8 * int (length ps) + h_literal_bits h \<and>
        (literal_states h, payload_stack ps (h_literal_bits h)) = lit_pushes (h_literal_freq h) lits ((0, 0, 0, 0), (0, 0)) \<and>
        (lmd_states h, payload_stack qs (h_lmd_bits h)) = lmd_pushes (header_freqs h) ts ((0, 0, 0), (0, 64)))"

section \<open>Encoding\<close>

lemma init_stack [simp]: "stack_of b p p fse_out_init64 = (0, 0)" "stream_ok fse_out_init64" "accum_nbits fse_out_init64 = 0"
  by (simp_all add: stack_of_def fse_out_init64_def stream_ok_def slice_def)

text \<open>Finishing a payload that starts at \<open>lo\<close>.\<close>

lemma finish_payload:
  assumes "stream_ok s" and "lo \<le> p" and "p + 8 \<le> hi" and "hi \<le> length buf"
  obtains s' b p' where "fse_out_finish64 hi s buf p = Some (s', b, p')" "p \<le> p'" "p' \<le> hi" "frame b buf p hi"
    "- 7 \<le> accum_nbits s'" "accum_nbits s' \<le> 0" "payload_stack (slice b lo (p' - lo)) (accum_nbits s') = stack_of buf lo p s"
    "8 * (p' - lo) \<le> snd (stack_of buf lo p s) + 7" "0 \<le> 8 * int (p' - lo) + accum_nbits s'"
proof -
  obtain V N where VN: "stack_of buf lo p s = (V, N)" by fastforce
  obtain s' b p' where f: "fse_out_finish64 hi s buf p = Some (s', b, p')" "p \<le> p'" "p' \<le> p + 8" "frame b buf p (p + 8)"
      "- 7 \<le> accum_nbits s'" "accum_nbits s' \<le> 0" "le_val (slice b lo (p' - lo)) = V" "int N = 8 * int (p' - lo) + accum_nbits s'"
    using out_finish [OF assms VN] by blast
  have "length (slice b lo (p' - lo)) = p' - lo" using frame_length [OF f(4)] f(2,3) assms by simp
  then have "payload_stack (slice b lo (p' - lo)) (accum_nbits s') = (V, N)" using f(7,8) by (simp add: payload_stack_def flip: f(8))
  moreover have "frame b buf p hi" by (rule frame_weaken [OF f(4)]) (use assms in simp_all)
  moreover have "0 \<le> 8 * int (p' - lo) + accum_nbits s'" by (simp flip: f(8))
  ultimately show thesis using that [OF f(1,2) _ _ f(5,6)] f(3,5,8) VN assms(3) by simp
qed

lemma literal_payload_ok:
  assumes h: "fits 10 (h_literal_freq h)" "length (h_literal_freq h) = 256" "h_n_literals h = length lits" "length lits = 4 * q" "length lits \<le> 40000"
    and c: "\<forall>x \<in> set lits. codes (h_literal_freq h) (unat x)" and b: "d0 + 8 \<le> hi" "hi \<le> length b"
  shows "\<exists>r. literal_payload ub hi lits h b d0 = Some r \<and> (\<forall>b'. r = Inl b' \<longrightarrow> frame b' b d0 hi) \<and> (d0 + 5 * q + 11 \<le> hi \<longrightarrow> \<not> isl r) \<and>
    (\<forall>h' b' p. r = Inr (h', b', p) \<longrightarrow> frame b' b d0 hi \<and> d0 \<le> p \<and> p \<le> hi \<and> p - d0 < 2 ^ 20 \<and> p \<le> d0 + 5 * q \<and>
      (\<exists>bits u0 u1 u2 u3. h' = h\<lparr>h_literal_bits := bits, h_n_literal_payload_bytes := p - d0, h_literal_state := [u0, u1, u2, u3]\<rparr> \<and>
         - 7 \<le> bits \<and> bits \<le> 0 \<and> 0 \<le> 8 * int (p - d0) + bits \<and> u0 < 1024 \<and> u1 < 1024 \<and> u2 < 1024 \<and> u3 < 1024 \<and>
         ((u0, u1, u2, u3), payload_stack (slice b' d0 (p - d0)) bits) = lit_pushes (h_literal_freq h) lits ((0, 0, 0, 0), (0, 0))))"
proof -
  let ?f = "h_literal_freq h" and ?c = "((0, 0, 0, 0), (0, 0)) :: quad_state"
  let ?t = "fse_init_encoder_table ub 1024 ?f"
  have q0: "quad_ok ?c" by (simp add: stack_ok_def)
  have room: "40 * q + 88 \<le> 8 * (hi - d0)" if "d0 + 5 * q + 11 \<le> hi" using that by linarith
  have div: "h_n_literals h div 4 = q" "take (4 * q) lits = lits" using h(3,4) by simp_all
  have cs: "\<And>x. x \<in> set (take (4 * q) lits) \<Longrightarrow> codes ?f (unat x)" "\<And>x. x \<in> set lits \<Longrightarrow> codes ?f (unat x)" using c div(2) by simp_all
  obtain r where r: "encode_literals hi lits ?t q (0, 0, 0, 0) fse_out_init64 b d0 = Some r" "\<forall>b'. r = Inl b' \<longrightarrow> frame b' b d0 hi"
      "40 * q + 88 \<le> 8 * (hi - d0) \<longrightarrow> \<not> isl r"
      "\<forall>us' out' b' buf'. r = Inr (us', out', b', buf') \<longrightarrow>
        stream_ok out' \<and> accum_nbits out' < 8 \<and> d0 \<le> buf' \<and> (0 < q \<longrightarrow> buf' + 8 \<le> hi) \<and> (q = 0 \<longrightarrow> buf' = d0) \<and> frame b' b d0 hi \<and>
        (us', stack_of b' d0 buf' out') = lit_pushes ?f (take (4 * q) lits) ((0, 0, 0, 0), stack_of b d0 d0 fse_out_init64)"
    using encode_literals_ok [OF h(1,2) refl, of q lits fse_out_init64 d0 d0 hi b "(0, 0, 0, 0)" ub] cs(1) h(4) b(2) q0 by auto
  show ?thesis
  proof (cases r)
    case (Inl b')
    then show ?thesis using r(1-3) div(1) room by (auto simp: literal_payload_def)
  next
    case (Inr x)
    obtain u0 u1 u2 u3 o1 b1 p1 where x: "x = ((u0, u1, u2, u3), o1, b1, p1)" by (metis prod.exhaust)
    have R: "stream_ok o1" "d0 \<le> p1" "p1 + 8 \<le> hi" "frame b1 b d0 hi" "((u0, u1, u2, u3), stack_of b1 d0 p1 o1) = lit_pushes ?f lits ?c"
      using r(4) Inr x b(1) div(2) by (cases "q = 0"; auto)+
    have lp: "quad_ok (lit_pushes ?f lits ?c)" "snd (snd (lit_pushes ?f lits ?c)) \<le> 40 * q"
      using lit_pushes_ok [OF h(1,4) cs(2) q0] by simp_all
    obtain o2 b2 p where fin: "fse_out_finish64 hi o1 b1 p1 = Some (o2, b2, p)" "p1 \<le> p" "p \<le> hi" "frame b2 b1 p1 hi"
        "- 7 \<le> accum_nbits o2" "accum_nbits o2 \<le> 0" "payload_stack (slice b2 d0 (p - d0)) (accum_nbits o2) = stack_of b1 d0 p1 o1"
        "8 * (p - d0) \<le> snd (stack_of b1 d0 p1 o1) + 7" "0 \<le> 8 * int (p - d0) + accum_nbits o2"
      using finish_payload [OF R(1-3)] frame_length [OF R(4)] b(2) by metis
    have "frame b2 b d0 hi" by (rule frame_join [OF fin(4) R(4)]) (use R(2) in simp_all)
    moreover have "p - d0 < 2 ^ 20" "p \<le> d0 + 5 * q"
    proof -
      have "snd (stack_of b1 d0 p1 o1) \<le> 40 * q" using lp(2) by (simp flip: R(5))
      then show "p - d0 < 2 ^ 20" "p \<le> d0 + 5 * q" using fin(8) h(4,5) by simp_all
    qed
    moreover have "u0 < 1024" "u1 < 1024" "u2 < 1024" "u3 < 1024" using lp(1) by (simp_all flip: R(5))
    moreover have "literal_payload ub hi lits h b d0 = Some (Inr (h\<lparr>h_literal_bits := accum_nbits o2, h_n_literal_payload_bytes := p - d0,
        h_literal_state := [u0, u1, u2, u3]\<rparr>, b2, p))"
      using r(1) Inr x fin(1) div(1) by (simp add: literal_payload_def)
    ultimately show ?thesis using fin(2,3,5-7,9) R(2,5) by simp (intro exI conjI, rule refl, simp_all)
  qed
qed

lemma lmd_payload_ok:
  assumes h: "freqs_fit (header_freqs h)" "h_n_matches h = n" "0 < n" "n \<le> 10000"
    and ts: "length ls = n" "length ms = n" "length ds = n" "ts = zip ls (zip ms ds)" "list_all (codes_lmd (header_freqs h)) ts"
    and b: "hi \<le> length b"
  shows "\<exists>r. lmd_payload ub hi (ls, ms, ds) h b d0 = Some r \<and> (\<forall>b'. r = Inl b' \<longrightarrow> frame b' b d0 hi) \<and> (d0 + 7 * n + 18 \<le> hi \<longrightarrow> \<not> isl r) \<and>
    (\<forall>h' b' p. r = Inr (h', b', p) \<longrightarrow> frame b' b d0 hi \<and> d0 + 8 \<le> p \<and> p \<le> hi \<and> p - d0 < 2 ^ 20 \<and> p \<le> d0 + 7 * n + 8 \<and>
      (\<exists>bits ul um ud. h' = h\<lparr>h_n_lmd_payload_bytes := p - d0, h_lmd_bits := bits, h_l_state := ul, h_m_state := um, h_d_state := ud\<rparr> \<and>
         - 7 \<le> bits \<and> bits \<le> 0 \<and> ul < 64 \<and> um < 64 \<and> ud < 256 \<and>
         ((ul, um, ud), payload_stack (slice b' d0 (p - d0)) bits) = lmd_pushes (header_freqs h) ts ((0, 0, 0), (0, 64))))"
proof (cases "d0 + 8 > hi")
  case True
  then show ?thesis by (simp add: lmd_payload_def)
next
  case False
  obtain lf mf df where f: "header_freqs h = (lf, mf, df)" "lf = h_l_freq h" "mf = h_m_freq h" "df = h_d_freq h" by (simp add: header_freqs_def)
  let ?c = "((0, 0, 0), (0, 64)) :: tri_state" and ?fs = "(lf, mf, df)"
  let ?tabs = "(fse_init_encoder_table ub 64 lf, fse_init_encoder_table ub 64 mf, fse_init_encoder_table ub 256 df)"
  have c: "tri_ok ?c" by (simp add: stack_ok_def)
  have room: "138 + 54 * n \<le> 8 * (hi - d0)" if "d0 + 7 * n + 18 \<le> hi" using that by linarith
  obtain b0 where b0: "store b 0 hi d0 (le_enc 8 (unat (0 :: u64))) = Some b0"
    using store_some [of 0 d0 "le_enc 8 (unat (0 :: u64))" hi b] False b by auto
  note S = storeD [OF b0]
  have l0: "length b0 = length b" using S(1) by (rule frame_length)
  have st0: "stack_of b0 d0 (d0 + 8) fse_out_init64 = (0, 64)"
  proof -
    have "slice b0 d0 8 = le_enc 8 (unat (0 :: u64))" using S(2) by simp
    then have "le_val (slice b0 d0 8) = 0" by (simp only: le_val_enc) simp
    then show ?thesis by (simp add: stack_of_def fse_out_init64_def)
  qed
  obtain r where r: "encode_lmds hi (ls, ms, ds) ?tabs n (0, 0, 0) fse_out_init64 b0 (d0 + 8) = Some r" "\<forall>b'. r = Inl b' \<longrightarrow> frame b' b0 (d0 + 8) hi"
      "138 + 54 * n \<le> 8 * (hi - d0) \<longrightarrow> \<not> isl r"
      "\<forall>us' out' b' buf'. r = Inr (us', out', b', buf') \<longrightarrow>
        stream_ok out' \<and> accum_nbits out' < 8 \<and> d0 + 8 \<le> buf' \<and> (0 < n \<longrightarrow> buf' + 8 \<le> hi) \<and> (n = 0 \<longrightarrow> buf' = d0 + 8) \<and> frame b' b0 (d0 + 8) hi \<and>
        (us', stack_of b' d0 buf' out') = lmd_pushes ?fs (take n ts) ((0, 0, 0), stack_of b0 d0 (d0 + 8) fse_out_init64)"
    using encode_lmds_ok [OF h(1) [unfolded f(1)] refl refl refl ts(1-4) ts(5) [unfolded f(1)], of n fse_out_init64 d0 "d0 + 8" hi b0 "(0, 0, 0)" ub]
      b l0 c st0 by auto
  have pay: "lmd_payload ub hi (ls, ms, ds) h b d0 = (case r of Inl b \<Rightarrow> Some (Inl b)
            | Inr ((l_state, m_state, d_state), out, b, buf) \<Rightarrow>
              do { (out, b, buf) \<leftarrow> fse_out_finish64 hi out b buf;
                   Some (Inr (h\<lparr>h_n_lmd_payload_bytes := buf - d0, h_lmd_bits := accum_nbits out,
                                 h_l_state := l_state, h_m_state := m_state, h_d_state := d_state\<rparr>, b, buf)) })"
    using b0 r(1) False h(2) f(2-4) by (simp add: lmd_payload_def store8_def)
  have S8: "frame b0 b d0 (d0 + 8)" using S(1) by simp
  show ?thesis
  proof (cases r)
    case (Inl b')
    have "frame b' b d0 hi" by (rule frame_join [OF r(2) [rule_format, OF Inl] S8]) (use False in simp_all)
    then show ?thesis using Inl pay r(3) room by auto
  next
    case (Inr x)
    obtain ul um ud o1 b1 p1 where x: "x = ((ul, um, ud), o1, b1, p1)" by (metis prod.exhaust)
    have tk: "take n ts = ts" using ts by simp
    have R: "stream_ok o1" "d0 \<le> p1" "d0 + 8 \<le> p1" "p1 + 8 \<le> hi" "frame b1 b0 (d0 + 8) hi" "((ul, um, ud), stack_of b1 d0 p1 o1) = lmd_pushes ?fs ts ?c"
      using r(4) Inr x h(3) tk st0 by auto
    have lp: "tri_ok (lmd_pushes ?fs ts ?c)" "snd (snd (lmd_pushes ?fs ts ?c)) \<le> 64 + 54 * length ts"
      using lmd_pushes_ok [OF h(1) [unfolded f(1)] ts(5) [unfolded f(1)] c] by simp_all
    obtain o2 b2 p where fin: "fse_out_finish64 hi o1 b1 p1 = Some (o2, b2, p)" "p1 \<le> p" "p \<le> hi" "frame b2 b1 p1 hi"
        "- 7 \<le> accum_nbits o2" "accum_nbits o2 \<le> 0" "payload_stack (slice b2 d0 (p - d0)) (accum_nbits o2) = stack_of b1 d0 p1 o1"
        "8 * (p - d0) \<le> snd (stack_of b1 d0 p1 o1) + 7" "0 \<le> 8 * int (p - d0) + accum_nbits o2"
      using finish_payload [OF R(1,2,4)] frame_length [OF R(5)] l0 b by metis
    have "frame b2 b0 d0 hi" by (rule frame_join [OF fin(4) R(5)]) (use R(3) in simp_all)
    then have "frame b2 b d0 hi" by (rule frame_join [OF _ S8]) (use False in simp_all)
    moreover have "p - d0 < 2 ^ 20" "p \<le> d0 + 7 * n + 8"
    proof -
      have "snd (stack_of b1 d0 p1 o1) \<le> 64 + 54 * length ts" using lp(2) by (simp flip: R(6))
      then show "p - d0 < 2 ^ 20" "p \<le> d0 + 7 * n + 8" using fin(8) h(3,4) ts by simp_all
    qed
    moreover have "ul < 64" "um < 64" "ud < 256" using lp(1) by (simp_all flip: R(6))
    moreover have "lmd_payload ub hi (ls, ms, ds) h b d0 = Some (Inr (h\<lparr>h_n_lmd_payload_bytes := p - d0, h_lmd_bits := accum_nbits o2,
        h_l_state := ul, h_m_state := um, h_d_state := ud\<rparr>, b2, p))"
      using pay Inr x fin(1) by simp
    ultimately show ?thesis using fin(2,3,5-7) R(3,6) f(1) by simp (intro exI conjI, rule refl, simp_all)
  qed
qed

text \<open>The whole block.\<close>

lemma block_header_length:
  assumes "header_ok h" and "header_ok h'" and "freq_table h' = freq_table h"
  shows "length (header_bytes h') = length (header_bytes h)"
  using assms by (simp add: length_header_bytes)

text \<open>More than a block of \<open>4 * q\<close> literals and \<open>n\<close> triples needs.\<close>

definition block_room :: "nat \<Rightarrow> nat \<Rightarrow> nat" where
  "block_room q n = 770 + 5 * q + 7 * n"

lemma encode_block_ok:
  assumes len: "length ls = n" "length ms = n" "length ds = n" "0 < n" "n \<le> 10000" "length lits = 4 * q" "length lits \<le> 40000"
    and v: "\<And>L. L \<in> set ls \<Longrightarrow> L \<le> 315" "\<And>M. M \<in> set ms \<Longrightarrow> M \<le> 2359" "\<And>D. D \<in> set ds \<Longrightarrow> D \<le> 262139"
    and b: "hi \<le> length b"
  shows "\<exists>b' r. encode_block ub hi (ls, ms, ds) lits b d0 = Some (b', r) \<and> frame b' b d0 hi \<and> (d0 + block_room q n \<le> hi \<longrightarrow> r \<noteq> None) \<and>
    (\<forall>e. r = Some e \<longrightarrow> d0 < e \<and> e \<le> hi \<and> e \<le> d0 + block_room q n \<and> (\<exists>h. coded_block h lits (zip ls (zip ms ds)) (slice b' d0 (e - d0))))"
proof -
  let ?ts = "zip ls (zip ms ds)"
  obtain occ h0 where occ: "block_counts ls ms ds lits = Some occ" and H: "block_header occ ls ms lits = Some h0" "block_header_ok h0" "header_ok h0" "h_n_literals h0 = length lits" "h_n_matches h0 = n"
      "list_all (codes_lmd (header_freqs h0)) ?ts" "\<forall>x \<in> set lits. codes (h_literal_freq h0) (unat x)"
    using block_header_some [OF len(1-3,5,7) v] by auto
  show ?thesis
  proof (cases "d0 + 752 > hi")
    case True
    then show ?thesis using occ by (simp add: encode_block_def block_room_def)
  next
    case False
    define hs where "hs = length (header_bytes h0)"
    have hsz: "32 \<le> hs" "hs \<le> 662" using freq_table_size(2) [OF H(3)] length_header_bytes [OF H(3)] by (simp_all add: hs_def)
    have F: "fits 10 (h_literal_freq h0)" "length (h_literal_freq h0) = 256" "freqs_fit (header_freqs h0)" using H(2) by (simp_all add: block_header_ok_def)
    obtain b1 where w: "lzfse_encode_v1_freq_table hi b d0 h0 = Some (b1, hs)" "frame b1 b (d0 + 8) (d0 + hs)"
        "slice b1 (d0 + 32) (hs - 32) = encode_freqs 0 0 (freq_table h0)" "load8 b1 0 hi (d0 + 24) = Some (setField hs 0)"
      using write_freq_table [OF H(3), of d0 hi b] False b unfolding hs_def by auto
    have lb1: "length b1 = length b" by (rule frame_length [OF w(2)])
    have w2: "frame b1 b d0 hi" by (rule frame_weaken [OF w(2)]) (use hsz False in simp_all)
    let ?p1 = "d0 + hs"
    obtain r1 where r1: "literal_payload ub hi lits h0 b1 ?p1 = Some r1" "\<forall>b'. r1 = Inl b' \<longrightarrow> frame b' b1 ?p1 hi"
        "\<forall>h' b' p. r1 = Inr (h', b', p) \<longrightarrow> frame b' b1 ?p1 hi \<and> ?p1 \<le> p \<and> p \<le> hi \<and> p - ?p1 < 2 ^ 20 \<and> p \<le> ?p1 + 5 * q \<and>
        (\<exists>bits u0 u1 u2 u3. h' = h0\<lparr>h_literal_bits := bits, h_n_literal_payload_bytes := p - ?p1, h_literal_state := [u0, u1, u2, u3]\<rparr> \<and>
           - 7 \<le> bits \<and> bits \<le> 0 \<and> 0 \<le> 8 * int (p - ?p1) + bits \<and> u0 < 1024 \<and> u1 < 1024 \<and> u2 < 1024 \<and> u3 < 1024 \<and>
           ((u0, u1, u2, u3), payload_stack (slice b' ?p1 (p - ?p1)) bits) = lit_pushes (h_literal_freq h0) lits ((0, 0, 0, 0), (0, 0)))"
        "?p1 + 5 * q + 11 \<le> hi \<longrightarrow> \<not> isl r1"
      using literal_payload_ok [OF F(1,2) H(4) len(6,7) H(7), of ?p1 hi b1 ub] False hsz b lb1 by auto
    show ?thesis
    proof (cases r1)
      case (Inl b2)
      have "frame b2 b d0 hi" by (rule frame_join [OF r1(2) [rule_format, OF Inl] w2]) simp_all
      then show ?thesis using occ H(1) w(1) r1(1,4) Inl False hsz by (simp add: encode_block_def block_room_def)
    next
      case (Inr x)
      obtain h1 b2 p2 where x: "x = (h1, b2, p2)" by (metis prod.exhaust)
      obtain b0 u0 u1 u2 u3 where L: "frame b2 b1 ?p1 hi" "?p1 \<le> p2" "p2 \<le> hi" "p2 - ?p1 < 2 ^ 20"
          "h1 = h0\<lparr>h_literal_bits := b0, h_n_literal_payload_bytes := p2 - ?p1, h_literal_state := [u0, u1, u2, u3]\<rparr>"
          "- 7 \<le> b0" "b0 \<le> 0" "0 \<le> 8 * int (p2 - ?p1) + b0" "u0 < 1024" "u1 < 1024" "u2 < 1024" "u3 < 1024"
          "((u0, u1, u2, u3), payload_stack (slice b2 ?p1 (p2 - ?p1)) b0) = lit_pushes (h_literal_freq h0) lits ((0, 0, 0, 0), (0, 0))"
          "p2 \<le> ?p1 + 5 * q"
        using r1(3) [rule_format, of h1 b2 p2] Inr x by blast
      have f1: "header_freqs h1 = header_freqs h0" using L(5) by (simp add: header_freqs_def)
      have lb2: "length b2 = length b" using frame_length [OF L(1)] lb1 by simp
      have l2: "frame b2 b d0 hi" by (rule frame_join [OF L(1) w2]) simp_all
      have F1: "freqs_fit (header_freqs h1)" "h_n_matches h1 = n" "list_all (codes_lmd (header_freqs h1)) ?ts" "hi \<le> length b2"
        using F(3) H(5,6) f1 L(5) lb2 b by simp_all
      obtain r2 where r2: "lmd_payload ub hi (ls, ms, ds) h1 b2 p2 = Some r2" "\<forall>b'. r2 = Inl b' \<longrightarrow> frame b' b2 p2 hi"
          "\<forall>h' b' p. r2 = Inr (h', b', p) \<longrightarrow> frame b' b2 p2 hi \<and> p2 + 8 \<le> p \<and> p \<le> hi \<and> p - p2 < 2 ^ 20 \<and> p \<le> p2 + 7 * n + 8 \<and>
          (\<exists>bits ul um ud. h' = h1\<lparr>h_n_lmd_payload_bytes := p - p2, h_lmd_bits := bits, h_l_state := ul, h_m_state := um, h_d_state := ud\<rparr> \<and>
             - 7 \<le> bits \<and> bits \<le> 0 \<and> ul < 64 \<and> um < 64 \<and> ud < 256 \<and>
             ((ul, um, ud), payload_stack (slice b' p2 (p - p2)) bits) = lmd_pushes (header_freqs h1) ?ts ((0, 0, 0), (0, 64)))"
          "p2 + 7 * n + 18 \<le> hi \<longrightarrow> \<not> isl r2"
        using lmd_payload_ok [OF F1(1,2) len(4,5,1-3) refl F1(3,4), of ub p2] by blast
      show ?thesis
      proof (cases r2)
        case (Inl b3)
        have "frame b3 b d0 hi" by (rule frame_join [OF r2(2) [rule_format, OF Inl] l2]) (use L(2) in simp_all)
        then show ?thesis using occ H(1) w(1) r1(1) \<open>r1 = Inr x\<close> x r2(1,4) Inl False hsz L(14) by (simp add: encode_block_def block_room_def)
      next
        case (Inr y)
        obtain h2 b3 e where y: "y = (h2, b3, e)" by (metis prod.exhaust)
        obtain b' ul um ud where M: "frame b3 b2 p2 hi" "p2 + 8 \<le> e" "e \<le> hi" "e - p2 < 2 ^ 20"
            "h2 = h1\<lparr>h_n_lmd_payload_bytes := e - p2, h_lmd_bits := b', h_l_state := ul, h_m_state := um, h_d_state := ud\<rparr>"
            "- 7 \<le> b'" "b' \<le> 0" "ul < 64" "um < 64" "ud < 256"
            "((ul, um, ud), payload_stack (slice b3 p2 (e - p2)) b') = lmd_pushes (header_freqs h1) ?ts ((0, 0, 0), (0, 64))"
            "e \<le> p2 + 7 * n + 8"
          using r2(3) [rule_format, of h2 b3 e] Inr y by blast
        define h where "h = h2\<lparr>h_n_payload_bytes := h_n_literal_payload_bytes h2 + h_n_lmd_payload_bytes h2\<rparr>"
        have sel: "h_n_literal_payload_bytes h = p2 - ?p1" "h_n_lmd_payload_bytes h = e - p2" "h_literal_bits h = b0" "h_lmd_bits h = b'"
            "literal_states h = (u0, u1, u2, u3)" "lmd_states h = (ul, um, ud)" "header_freqs h = header_freqs h0" "h_literal_freq h = h_literal_freq h0"
            "h_n_literals h = length lits" "h_n_matches h = n"
          using H(4,5) by (simp_all add: h_def M(5) L(5) literal_states_def lmd_states_def header_freqs_def)
        have ft: "freq_table h = freq_table h0" by (simp add: h_def M(5) L(5) freq_table_def)
        have ok: "header_ok h" "block_header_ok h"
        proof -
          show "header_ok h"
            using H(3) L(4,6,7,9-12) M(4,6-10) ft unfolding header_ok_def by (simp add: h_def M(5) L(5))
          show "block_header_ok h"
            using H(2) by (simp add: block_header_ok_def header_freqs_def h_def M(5) L(5))
        qed
        have hb: "length (header_bytes h) = hs" using block_header_length [OF H(3) ok(1) ft] by (simp add: hs_def)
        have lb3: "length b3 = length b" using frame_length [OF M(1)] lb2 by simp
        have f31: "frame b3 b1 ?p1 hi" by (rule frame_join [OF M(1) L(1)]) (use L(2) in simp_all)
        have "slice b3 (d0 + 32) (hs - 32) = slice b1 (d0 + 32) (hs - 32)" "slice b3 (d0 + 24) 8 = slice b1 (d0 + 24) 8"
          by (rule frame_slice [OF f31]; use hsz False b lb1 in auto)+
        then have "slice b3 (d0 + 32) (hs - 32) = encode_freqs 0 0 (freq_table h)" "load8 b3 0 hi (d0 + 24) = Some (setField hs 0)"
          using w(3,4) ft by (auto simp: load8_def load_def split: if_splits)
        then obtain b4 where b4: "lzfse_encode_v1_state hi b3 d0 h = Some b4" "frame b4 b3 d0 (d0 + 32)" "slice b4 d0 hs = header_bytes h"
          using write_state [OF ok(1), of d0 hi b3] hb hsz False b lb3 by auto
        have "encode_block ub hi (ls, ms, ds) lits b d0 = Some (b4, Some e)"
          using occ H(1) w(1) r1(1) \<open>r1 = Inr x\<close> x r2(1) Inr y False b4(1) by (simp add: encode_block_def h_def)
        moreover have "frame b4 b d0 hi"
        proof -
          have "frame b3 b d0 hi" by (rule frame_join [OF M(1) l2]) (use L(2) in simp_all)
          then show ?thesis by (rule frame_join [OF b4(2)]) (use False in simp_all)
        qed
        moreover have "d0 < e" "e \<le> hi" "e \<le> d0 + block_room q n" using M(2,3,12) L(2,14) hsz by (simp_all add: block_room_def)
        moreover have "coded_block h lits ?ts (slice b4 d0 (e - d0))"
        proof -
          let ?ps = "slice b4 ?p1 (p2 - ?p1)" and ?qs = "slice b4 p2 (e - p2)"
          have P: "?ps = slice b2 ?p1 (p2 - ?p1)"
          proof -
            have "?ps = slice b3 ?p1 (p2 - ?p1)" by (rule frame_slice [OF b4(2)]) (use hsz L(2,3) lb3 b in auto)
            also have "\<dots> = slice b2 ?p1 (p2 - ?p1)" by (rule frame_slice [OF M(1)]) (use L(2,3) lb2 b in auto)
            finally show ?thesis .
          qed
          have Q: "?qs = slice b3 p2 (e - p2)" by (rule frame_slice [OF b4(2)]) (use hsz L(2,3) M(2,3) lb3 b in auto)
          have "slice b4 d0 (e - d0) = header_bytes h @ ?ps @ ?qs"
            using slice_join [of d0 ?p1 p2 b4] slice_join [of d0 p2 e b4] b4(3) L(2) M(2) by (metis add_diff_cancel_left' append_assoc le_add1 le_trans)
          moreover have "length ?ps = p2 - ?p1" "length ?qs = e - p2" using frame_length [OF b4(2)] lb3 b L(2,3) M(2,3) by simp_all
          ultimately have "\<exists>ps qs. slice b4 d0 (e - d0) = header_bytes h @ ps @ qs \<and> length ps = h_n_literal_payload_bytes h \<and> length qs = h_n_lmd_payload_bytes h \<and>
              0 \<le> 8 * int (length ps) + h_literal_bits h \<and>
              (literal_states h, payload_stack ps (h_literal_bits h)) = lit_pushes (h_literal_freq h) lits ((0, 0, 0, 0), (0, 0)) \<and>
              (lmd_states h, payload_stack qs (h_lmd_bits h)) = lmd_pushes (header_freqs h) ?ts ((0, 0, 0), (0, 64))"
            by (intro exI [of _ ?ps] exI [of _ ?qs] conjI) (use sel L(8,13) M(11) P Q f1 in simp_all)
          then show ?thesis
            using ok sel H(6,7) len(1-3,6) by (simp add: coded_block_def)
        qed
        ultimately show ?thesis by blast
      qed
    qed
  qed
qed

section \<open>Decoding\<close>

text \<open>The decoder between two blocks, with the output \<open>out\<close> so far.\<close>

definition between_blocks :: "lzfse_decoder_state \<Rightarrow> byte list \<Rightarrow> bool" where
  "between_blocks s out \<longleftrightarrow>
     tables_ok (z_lzfse s) \<and> z_block_magic s = LZFSE_NO_BLOCK_MAGIC \<and> z_src_begin s \<le> z_src s \<and> z_src_end s \<le> length (z_mem s) \<and>
     z_dst_begin s \<le> z_dst s \<and> z_dst s \<le> z_dst_end s \<and> z_dst_end s \<le> length (z_out s) \<and> z_dst_end s - z_dst_begin s < 2 ^ 31 \<and>
     slice (z_out s) (z_dst_begin s) (z_dst s - z_dst_begin s) = out"

definition ahead :: "lzfse_decoder_state \<Rightarrow> byte list \<Rightarrow> bool" where
  "ahead s bs \<longleftrightarrow> z_src s + length bs < z_src_end s \<and> slice (z_mem s) (z_src s) (length bs) = bs"

definition same_buffers :: "lzfse_decoder_state \<Rightarrow> lzfse_decoder_state \<Rightarrow> bool" where
  "same_buffers s s' \<longleftrightarrow>
     z_mem s' = z_mem s \<and> z_src_begin s' = z_src_begin s \<and> z_src_end s' = z_src_end s \<and>
     z_dst_begin s' = z_dst_begin s \<and> z_dst_end s' = z_dst_end s \<and> length (z_out s') = length (z_out s)"

text \<open>With the bytes \<open>bs\<close> ahead (and at least one more), and room, the decoder comes from
  the output \<open>out\<close> to the output \<open>out'\<close> and behind \<open>bs\<close>.\<close>

definition decodes_to :: "byte list \<Rightarrow> byte list \<Rightarrow> byte list \<Rightarrow> bool" where
  "decodes_to bs out out' \<longleftrightarrow>
     length out \<le> length out' \<and>
     (\<forall>s. between_blocks s out \<and> ahead s bs \<and> length out' \<le> z_dst_end s - z_dst_begin s \<longrightarrow>
        (\<exists>s'. lzfse_decode s = lzfse_decode s' \<and> between_blocks s' out' \<and> z_src s' = z_src s + length bs \<and> same_buffers s s'))"

lemma decodes_to_Nil: "decodes_to [] out out"
  by (auto simp: decodes_to_def same_buffers_def)

lemma ahead_append: "ahead s (as @ bs) \<Longrightarrow> ahead s as \<and> z_src s + length as + length bs < z_src_end s \<and> slice (z_mem s) (z_src s + length as) (length bs) = bs"
  using slice_append [of "z_mem s" "z_src s" as "length bs" bs] by (auto simp: ahead_def)

lemma decodes_to_append:
  assumes 1: "decodes_to as o1 o2" and 2: "decodes_to bs o2 o3"
  shows "decodes_to (as @ bs) o1 o3"
proof -
  have le: "length o1 \<le> length o2" "length o2 \<le> length o3" using assms by (simp_all add: decodes_to_def)
  have "\<exists>s'. lzfse_decode s = lzfse_decode s' \<and> between_blocks s' o3 \<and> z_src s' = z_src s + length (as @ bs) \<and> same_buffers s s'"
    if s: "between_blocks s o1" "ahead s (as @ bs)" "length o3 \<le> z_dst_end s - z_dst_begin s" for s
  proof -
    obtain s1 where s1: "lzfse_decode s = lzfse_decode s1" "between_blocks s1 o2" "z_src s1 = z_src s + length as" "same_buffers s s1"
      using 1 s le ahead_append [OF s(2)] unfolding decodes_to_def by fastforce
    have "ahead s1 bs" "length o3 \<le> z_dst_end s1 - z_dst_begin s1"
      using ahead_append [OF s(2)] s(3) s1(3,4) by (simp_all add: ahead_def same_buffers_def)
    then obtain s2 where "lzfse_decode s1 = lzfse_decode s2" "between_blocks s2 o3" "z_src s2 = z_src s1 + length bs" "same_buffers s1 s2"
      using 2 s1(2) unfolding decodes_to_def by blast
    then show ?thesis using s1 by (auto simp: same_buffers_def)
  qed
  then show ?thesis using le unfolding decodes_to_def by auto
qed

lemma decode_next: "decode_step s = Some (None, s') \<Longrightarrow> lzfse_decode s = lzfse_decode s'"
  by (subst lzfse_decode.simps) simp

lemma stack_of_under:
  assumes "lo \<le> mid" and "mid \<le> p" and "p \<le> length buf"
  shows "stack_of buf lo p s = under (le_val (slice buf lo (mid - lo)), 8 * (mid - lo)) (stack_of buf mid p s)"
proof -
  have sp: "slice buf lo (p - lo) = slice buf lo (mid - lo) @ slice buf mid (p - mid)" using slice_join [of lo mid p buf] assms by simp
  have "length (slice buf lo (mid - lo)) = mid - lo" using assms by simp
  then have "le_val (slice buf lo (p - lo)) = le_val (slice buf lo (mid - lo)) + 256 ^ (mid - lo) * le_val (slice buf mid (p - mid))"
    unfolding sp le_val_append by simp
  moreover have "(256 :: nat) ^ (p - lo) = 256 ^ (mid - lo) * 256 ^ (p - mid)" using assms by (simp flip: power_add)
  ultimately show ?thesis using assms by (simp add: stack_of_def under_def pow_256 algebra_simps)
qed

lemma push_quad_under:
  "push_quad f t (us, under low st) = (fst (push_quad f t (us, st)), under low (snd (push_quad f t (us, st))))"
  by (cases t; cases us) (auto simp: fse_push_under Let_def split: prod.splits)

lemma lit_pushes_under:
  "lit_pushes f xs (us, under low st) = (fst (lit_pushes f xs (us, st)), under low (snd (lit_pushes f xs (us, st))))"
proof (induction f xs "(us, st)" rule: lit_pushes.induct)
  case (1 f a b c d xs)
  then show ?case using push_quad_under [of f _ "fst (lit_pushes f xs (us, st))" low "snd (lit_pushes f xs (us, st))"] by simp
qed simp_all

lemma push_value_under:
  "push_value p f extra base cls v (u, under low st) =
     (fst (push_value p f extra base cls v (u, st)), under low (snd (push_value p f extra base cls v (u, st))))"
  by (simp add: push_value_def value_push_def push_under fse_push_under)

lemma push_lmd_under:
  "push_lmd fs t (us, under low st) = (fst (push_lmd fs t (us, st)), under low (snd (push_lmd fs t (us, st))))"
  by (cases fs; cases t; cases us) (auto simp: push_value_under Let_def split: prod.splits)

lemma lmd_pushes_under:
  "lmd_pushes fs ts (us, under low st) = (fst (lmd_pushes fs ts (us, st)), under low (snd (lmd_pushes fs ts (us, st))))"
proof (induction ts)
  case (Cons t ts)
  then show ?case using push_lmd_under [of fs t "fst (lmd_pushes fs ts (us, st))" low "snd (lmd_pushes fs ts (us, st))"] by simp
qed simp

text \<open>Where the parts of a block lie in the source.\<close>

lemma coded_parts:
  assumes "ahead s bs" and "bs = header_bytes h @ ps @ qs" and "z_src_end s \<le> length (z_mem s)"
  shows "slice (z_mem s) (z_src s) (length (header_bytes h)) = header_bytes h"
    and "slice (z_mem s) (z_src s + length (header_bytes h)) (length ps) = ps"
    and "slice (z_mem s) (z_src s + length (header_bytes h) + length ps) (length qs) = qs"
    and "z_src s + length (header_bytes h) + length ps + length qs < z_src_end s"
  using slice_append [of "z_mem s" "z_src s" "header_bytes h" "length (ps @ qs)" "ps @ qs"]
    slice_append [of "z_mem s" "z_src s + length (header_bytes h)" ps "length qs" qs] assms
  by (auto simp: ahead_def add.assoc)

lemma init_tables_for:
  assumes "init_tables h bs = Some bs'"
  shows "tables_for (header_freqs h) bs'"
    and "b_literal_decoder bs' = snd (fse_init_decoder_table 0 1024 (h_literal_freq h) (b_literal_decoder bs))"
    and "b_n_matches bs' = h_n_matches h" and "b_n_lmd_payload_bytes bs' = h_n_lmd_payload_bytes h" and "b_literals bs' = b_literals bs"
  using assms by (auto simp: init_tables_def tables_for_def header_freqs_def split: Option.bind_splits)

text \<open>A payload between \<open>lo\<close> and \<open>p\<close>, initialised with the bytes from \<open>begin\<close> on below it.\<close>

lemma payload_init:
  assumes "lo \<le> mid" "mid \<le> p" "p \<le> length m" "slice m mid (p - mid) = ps" "length ps = p - mid" "- 7 \<le> bits" "bits \<le> 0" "lo + 8 \<le> p"
    and "0 \<le> 8 * int (length ps) + bits" "stack_ok (payload_stack ps bits)"
  shows "\<exists>i q. fse_in_checked_init64 m lo bits p = Some (Some (i, q)) \<and> stream_ok i \<and> lo \<le> q \<and> q + 7 \<le> p \<and>
    stack_of m lo q i = under (le_val (slice m lo (mid - lo)), 8 * (mid - lo)) (payload_stack ps bits)"
proof -
  let ?low = "(le_val (slice m lo (mid - lo)), 8 * (mid - lo))" and ?st = "(le_val (slice m lo (p - lo)), nat (8 * int (p - lo) + bits))"
  have st: "?st = under ?low (payload_stack ps bits)"
  proof -
    have "slice m lo (p - lo) = slice m lo (mid - lo) @ ps" using slice_join [of lo mid p m] assms by simp
    moreover have "length (slice m lo (mid - lo)) = mid - lo" using assms by simp
    ultimately have "le_val (slice m lo (p - lo)) = le_val (slice m lo (mid - lo)) + 256 ^ (mid - lo) * le_val ps" by (simp add: le_val_append)
    then show ?thesis using assms(1,2,5,9) by (simp add: under_def payload_stack_def pow_256)
  qed
  have "stack_ok ?low" using le_val_less [of "slice m lo (mid - lo)"] assms(1-3) by (simp add: stack_ok_def pow_256)
  then have ok: "stack_ok ?st" using under_ok assms(10) st by simp
  have le: "lo \<le> p" using assms(1,2) by simp
  from in_init [OF le assms(3,6,7) refl refl] ok assms(8) show ?thesis unfolding st by blast
qed

lemma start_coded:
  assumes bl: "between_blocks s out" "ahead s bs" and cb: "coded_block h lits cts bs" "cts \<noteq> []"
  obtains s1 low where "lzfse_decode s = lzfse_decode s1" "z_block_magic s1 = LZFSE_COMPRESSEDV2_BLOCK_MAGIC" "same_buffers s s1" "z_out s1 = z_out s" "z_dst s1 = z_dst s"
    "z_src s1 + b_n_lmd_payload_bytes (z_lzfse s1) = z_src s + length bs" "z_src s \<le> z_src s1" "tables_ok (z_lzfse s1)" "tables_for (header_freqs h) (z_lzfse s1)"
    "slice (b_literals (z_lzfse s1)) 0 (length lits) = lits" "b_n_matches (z_lzfse s1) = length cts" "x_L (lmd_start s1) = 0" "x_M (lmd_start s1) = 0"
    "lmd_state s1 (lmd_start s1) = lmd_pushes (header_freqs h) cts ((0, 0, 0), low)" "stack_ok low" "64 \<le> snd low"
    "stream_ok (x_in (lmd_start s1))" "z_src_begin s \<le> x_src (lmd_start s1)" "x_src (lmd_start s1) + 8 \<le> length (z_mem s)"
    "x_lit (lmd_start s1) = 0" "x_dst (lmd_start s1) = z_dst s" "x_out (lmd_start s1) = z_out s"
proof -
  obtain ps qs where hb: "header_ok h" "block_header_ok h" "h_n_literals h = length lits" "4 dvd length lits" "h_n_matches h = length cts"
      "list_all (codes_lmd (header_freqs h)) cts" "\<forall>x \<in> set lits. codes (h_literal_freq h) (unat x)"
    and bs: "bs = header_bytes h @ ps @ qs" "length ps = h_n_literal_payload_bytes h" "length qs = h_n_lmd_payload_bytes h"
      "(literal_states h, payload_stack ps (h_literal_bits h)) = lit_pushes (h_literal_freq h) lits ((0, 0, 0, 0), (0, 0))"
      "0 \<le> 8 * int (length ps) + h_literal_bits h"
      "(lmd_states h, payload_stack qs (h_lmd_bits h)) = lmd_pushes (header_freqs h) cts ((0, 0, 0), (0, 64))"
    using cb(1) by (auto simp: coded_block_def)
  have B: "z_src_begin s \<le> z_src s" "z_src_end s \<le> length (z_mem s)" "tables_ok (z_lzfse s)" using bl(1) by (simp_all add: between_blocks_def)
  note P = coded_parts [OF bl(2) bs(1) B(2)]
  let ?m = "z_mem s" and ?n = "length (header_bytes h)" and ?lo = "z_src_begin s"
  let ?p = "z_src s + ?n + length ps" and ?e = "z_src s + ?n + length ps + length qs"
  have n32: "32 \<le> ?n" by (simp add: length_header_bytes [OF hb(1)])
  have F: "fits 10 (h_literal_freq h)" "length (h_literal_freq h) = 256" "freqs_fit (header_freqs h)" using hb(2) by (simp_all add: block_header_ok_def)
  obtain k where k: "length lits = 4 * k" using hb(4) by blast
  have lits: "\<And>x. x \<in> set lits \<Longrightarrow> codes (h_literal_freq h) (unat x)" using hb(7) by blast
  have Q: "quad_ok (literal_states h, payload_stack ps (h_literal_bits h))" "snd (payload_stack ps (h_literal_bits h)) \<le> 40 * k"
    using lit_pushes_ok [OF F(1) k lits, of "((0, 0, 0, 0), (0, 0))"] by (simp_all add: stack_ok_def flip: bs(4))
  have T: "tri_ok (lmd_states h, payload_stack qs (h_lmd_bits h))" "64 \<le> snd (payload_stack qs (h_lmd_bits h))"
    using lmd_pushes_ok [OF F(3) hb(6), of "((0, 0, 0), (0, 64))"] by (simp_all add: stack_ok_def flip: bs(6))
  have bits: "- 7 \<le> h_literal_bits h" "h_literal_bits h \<le> 0" "- 7 \<le> h_lmd_bits h" "h_lmd_bits h \<le> 0" using hb(1) by (simp_all add: header_ok_def)
  have ck: "lzfse_check_block_header_v1 h = 0"
    using hb(2) Q(1) T(1) by (auto simp: check_block_header_ok block_header_ok_def literal_states_def lmd_states_def header_freqs_def fits_def)
  have hs: "header_shape h" using hb(1) by (simp add: header_ok_def header_shape_def)
  obtain bt where bt: "init_tables h (z_lzfse s) = Some bt" "tables_ok bt" using init_tables_safe [OF B(3) ck hs] by blast
  note I = init_tables_for [OF bt(1)]
  note D = decode_header_bytes [OF hb(1) P(1) _ order_refl]
  have e: "?e < z_src_end s" using P(4) by simp
  have hi: "z_src s + ?n \<le> length ?m" using e B(2) by simp
  have rh: "read_header s LZFSE_COMPRESSEDV2_BLOCK_MAGIC = Some (Header h ?n)"
    using D(1,2) [OF hi] e n32 by (simp add: read_header_def Let_def)
  let ?low = "(le_val (slice ?m ?lo (z_src s + ?n - ?lo)), 8 * (z_src s + ?n - ?lo))"
  obtain i q where i: "fse_in_checked_init64 ?m ?lo (h_literal_bits h) ?p = Some (Some (i, q))" "stream_ok i" "?lo \<le> q" "q + 7 \<le> ?p"
      "stack_of ?m ?lo q i = under ?low (payload_stack ps (h_literal_bits h))"
    using payload_init [of ?lo "z_src s + ?n" ?p ?m ps "h_literal_bits h"] B(1) e B(2) P(2) bits n32 bs(5) Q(1) by (auto simp: literal_states_def)
  have st: "stack_ok ?low" using le_val_less [of "slice ?m ?lo (z_src s + ?n - ?lo)"] B(1) hi by (simp add: stack_ok_def pow_256)
  have lits_ok: "block_literals s h bt ?p = Some (Some lits)"
  proof -
    have "(literal_states h, stack_of ?m ?lo q i) = lit_pushes (h_literal_freq h) lits ((0, 0, 0, 0), ?low)"
      using lit_pushes_under [of "h_literal_freq h" lits "(0, 0, 0, 0)" ?low "(0, 0)"] by (simp add: i(5) flip: bs(4))
    moreover have "q + 8 \<le> length ?m" using i(4) e B(2) by simp
    moreover have "quad_ok ((0, 0, 0, 0), ?low)" "56 \<le> snd (snd ((0 :: nat, 0 :: nat, 0 :: nat, 0 :: nat), ?low))"
      using st n32 B(1) by simp_all
    ultimately have "decode_literals ?m ?lo (b_literal_decoder bt) k (literal_states h) i q = Some (Some lits)"
      using decode_literals_ok [OF F(1,2) I(2) _ _ k lits i(2,3)] by blast
    moreover have "(h_n_literals h + 3) div 4 = k" using hb(3) k by simp
    ultimately show ?thesis using i(1) by (simp add: block_literals_def literal_states_def)
  qed
  let ?low2 = "(le_val (slice ?m ?lo (?p - ?lo)), 8 * (?p - ?lo))"
  obtain j r where j: "fse_in_checked_init64 ?m ?p (h_lmd_bits h) ?e = Some (Some (j, r))" "stream_ok j" "?p \<le> r" "r + 7 \<le> ?e"
      "stack_of ?m ?p r j = payload_stack qs (h_lmd_bits h)"
  proof -
    have l8: "8 \<le> length qs" using T(2) bits(4) by (simp add: payload_stack_def)
    then show thesis
      using that payload_init [of ?p ?p ?e ?m qs "h_lmd_bits h"] e B(2) P(3) bits T(1) by (auto simp: lmd_states_def under_def)
  qed
  have u2: "stack_of ?m ?lo r j = under ?low2 (payload_stack qs (h_lmd_bits h))"
    using stack_of_under [of ?lo ?p r ?m j] B(1,2) j(3-5) e by simp
  have st2: "stack_ok ?low2" using le_val_less [of "slice ?m ?lo (?p - ?lo)"] B(1,2) e by (simp add: stack_ok_def pow_256)
  let ?s1 = "s\<lparr>z_src := ?p, z_block_magic := LZFSE_COMPRESSEDV2_BLOCK_MAGIC,
      z_lzfse := bt\<lparr>b_literals := lits @ drop (length lits) (b_literals bt), b_current_literal := 0,
        b_l_state := h_l_state h, b_m_state := h_m_state h, b_d_state := h_d_state h,
        b_lmd_in_buf := r - ?p, b_l_value := 0, b_m_value := 0, b_d_value := - 1, b_lmd_in_stream := j\<rparr>\<rparr>"
  have "start_compressed s LZFSE_COMPRESSEDV2_BLOCK_MAGIC = Some (None, ?s1)"
    using rh e bs(2,3) ck bt(1) lits_ok j(1) by (simp add: start_compressed_def Let_def)
  then have step: "decode_step s = Some (None, ?s1)"
    using bl(1) D(3) [OF hi] e n32 by (simp add: decode_step_def between_blocks_def start_block_def)
  have len: "length lits \<le> 40000" using hb(2,3) by (simp add: block_header_ok_def)
  show thesis
  proof (rule that [OF decode_next [OF step], of "under ?low2 (0, 64)"])
    show "tables_ok (z_lzfse ?s1)" using bt(2) len by (simp add: tables_ok_def)
    show "lmd_state ?s1 (lmd_start ?s1) = lmd_pushes (header_freqs h) cts ((0, 0, 0), under ?low2 (0, 64))"
      using lmd_pushes_under [of "header_freqs h" cts "(0, 0, 0)" ?low2 "(0, 64)"] u2 j(3)
      by (simp add: lmd_state_def lmd_start_def lmd_states_def flip: bs(6))
    show "stack_ok (under ?low2 (0, 64))" by (rule under_ok [OF st2]) (simp add: stack_ok_def)
    show "tables_for (header_freqs h) (z_lzfse ?s1)" using I(1) by (simp add: tables_for_def)
  qed (use j B e I(3,4) hb(5) bs in \<open>simp_all add: same_buffers_def lmd_start_def slice_def under_def\<close>)
qed

text \<open>A coded block is decoded to what its triples and literals denote.\<close>

lemma coded_block_decodes:
  assumes cb: "coded_block h lits (code_triples 0 ts) bs" "ts \<noteq> []" and run: "lmd_run ts lits out = Some (r, out')"
  shows "decodes_to bs out out'"
proof -
  have hb: "block_header_ok h" "h_n_literals h = length lits" "list_all (codes_lmd (header_freqs h)) (code_triples 0 ts)"
    using cb(1) by (auto simp: coded_block_def)
  have F: "freqs_fit (header_freqs h)" and len: "length lits \<le> 40000" using hb(1,2) by (simp_all add: block_header_ok_def)
  have ne: "code_triples 0 ts \<noteq> []" using cb(2) by (metis length_0_conv length_code_triples)
  have "\<exists>s'. lzfse_decode s = lzfse_decode s' \<and> between_blocks s' out' \<and> z_src s' = z_src s + length bs \<and> same_buffers s s'"
    if s: "between_blocks s out" "ahead s bs" "length out' \<le> z_dst_end s - z_dst_begin s" for s
  proof -
    obtain s1 low where S: "lzfse_decode s = lzfse_decode s1" "z_block_magic s1 = LZFSE_COMPRESSEDV2_BLOCK_MAGIC" "same_buffers s s1" "z_out s1 = z_out s" "z_dst s1 = z_dst s"
      "z_src s1 + b_n_lmd_payload_bytes (z_lzfse s1) = z_src s + length bs" "z_src s \<le> z_src s1" "tables_ok (z_lzfse s1)" "tables_for (header_freqs h) (z_lzfse s1)"
      "slice (b_literals (z_lzfse s1)) 0 (length lits) = lits" "b_n_matches (z_lzfse s1) = length (code_triples 0 ts)" "x_L (lmd_start s1) = 0" "x_M (lmd_start s1) = 0"
      "lmd_state s1 (lmd_start s1) = lmd_pushes (header_freqs h) (code_triples 0 ts) ((0, 0, 0), low)" "stack_ok low" "64 \<le> snd low"
      "stream_ok (x_in (lmd_start s1))" "z_src_begin s \<le> x_src (lmd_start s1)" "x_src (lmd_start s1) + 8 \<le> length (z_mem s)"
      "x_lit (lmd_start s1) = 0" "x_dst (lmd_start s1) = z_dst s" "x_out (lmd_start s1) = z_out s"
      by (rule start_coded [OF s(1,2) cb(1) ne], rule that) assumption+
    let ?x = "lmd_start s1"
    have B: "z_src_begin s \<le> z_src s" "z_src_end s \<le> length (z_mem s)" "z_dst_begin s \<le> z_dst s" "z_dst s \<le> z_dst_end s" "z_dst_end s \<le> length (z_out s)"
        "z_dst_end s - z_dst_begin s < 2 ^ 31" "slice (z_out s) (z_dst_begin s) (z_dst s - z_dst_begin s) = out"
      using s(1) by (simp_all add: between_blocks_def)
    have E: "z_mem s1 = z_mem s" "z_src_begin s1 = z_src_begin s" "z_src_end s1 = z_src_end s" "z_dst_begin s1 = z_dst_begin s" "z_dst_end s1 = z_dst_end s"
      using S(3) by (simp_all add: same_buffers_def)
    have "\<exists>x'. lmd_loop s1 (length ts) ?x = Some (Status_ok, 0, x') \<and> out_of s1 x' = out' \<and> x_dst x' = z_dst_begin s1 + length out' \<and>
      frame (x_out x') (x_out ?x) (x_dst ?x) (z_dst_end s1)"
    proof (rule lmd_loop_exact [OF F S(9), where k = "length lits" and p = 0 and c = "((0, 0, 0), low)"])
      show "lmd_run ts (slice (b_literals (z_lzfse s1)) (x_lit ?x) (length lits)) (out_of s1 ?x) = Some (r, out')"
        using run S(10) by (simp add: S(20-22) out_of_def E B(7))
    qed (use S B E s(3) hb(3) len in \<open>simp_all add: tables_ok_def\<close>)
    then obtain x' where x: "lmd_loop s1 (length ts) ?x = Some (Status_ok, 0, x')" "out_of s1 x' = out'" "x_dst x' = z_dst_begin s + length out'"
        "frame (x_out x') (z_out s) (z_dst s) (z_dst_end s)" by (auto simp: E S(20-22))
    let ?s2 = "s1\<lparr>z_dst := x_dst x', z_out := x_out x', z_block_magic := LZFSE_NO_BLOCK_MAGIC, z_src := z_src s1 + b_n_lmd_payload_bytes (z_lzfse s1)\<rparr>"
    have lt: "z_src s1 + b_n_lmd_payload_bytes (z_lzfse s1) < z_src_end s1" using S(6) s(2) E by (simp add: ahead_def)
    have "lzfse_decode_lmd s1 = Some (Status_ok, s1\<lparr>z_dst := x_dst x', z_out := x_out x'\<rparr>)"
      using x(1) S(11-13) by (simp add: lzfse_decode_lmd_def Let_def)
    then have "compressed_block s1 = Some (None, ?s2)" using lt by (simp add: compressed_block_def)
    then have "decode_step s1 = Some (None, ?s2)" using S(2) by (simp add: decode_step_def)
    then have "lzfse_decode s = lzfse_decode ?s2" using decode_next S(1) by simp
    moreover have "between_blocks ?s2 out'"
      using x(2,3) frame_length [OF x(4)] S(6-8) B E s(3) by (simp add: between_blocks_def out_of_def)
    moreover have "same_buffers s ?s2" using S(3) frame_length [OF x(4)] by (simp add: same_buffers_def)
    moreover have "z_src ?s2 = z_src s + length bs" using S(6) by simp
    ultimately show ?thesis by blast
  qed
  moreover have "length out \<le> length out'" using lmd_run_length [OF run] by simp
  ultimately show ?thesis unfolding decodes_to_def by blast
qed

text \<open>Encoder and decoder of a block together.\<close>

lemma encode_block_decodes:
  assumes len: "length ls = n" "length ms = n" "length ds = n" "0 < n" "n \<le> 10000" "length lits = 4 * q" "length lits \<le> 40000"
    and run: "lmd_run (zip ls (zip ms ds)) lits out = Some (r, out')" and b: "hi \<le> length b"
  shows "\<exists>b' e. encode_block ub hi (ls, ms, code_prev 0 ds) lits b d0 = Some (b', e) \<and> frame b' b d0 hi \<and> (d0 + block_room q n \<le> hi \<longrightarrow> e \<noteq> None) \<and>
    (\<forall>p. e = Some p \<longrightarrow> d0 < p \<and> p \<le> hi \<and> p \<le> d0 + block_room q n \<and> decodes_to (slice b' d0 (p - d0)) out out')"
proof -
  have prev: "D \<in> set (code_prev p xs) \<Longrightarrow> D = 0 \<or> D \<in> set xs" for D p xs
    by (induction p xs rule: code_prev.induct) (auto split: if_splits)
  have mem: "x \<in> set ls \<Longrightarrow> x \<le> 315" "x \<in> set ms \<Longrightarrow> x \<le> 2359" "x \<in> set ds \<Longrightarrow> x \<le> 262139" for x
    using lmd_run_bounds [OF run] len(1-3) by (auto simp: in_set_conv_nth) (metis length_zip min.idem nth_zip)+
  obtain b' e where e: "encode_block ub hi (ls, ms, code_prev 0 ds) lits b d0 = Some (b', e)" "frame b' b d0 hi"
      "d0 + block_room q n \<le> hi \<longrightarrow> e \<noteq> None" "\<forall>p. e = Some p \<longrightarrow> d0 < p \<and> p \<le> hi \<and> p \<le> d0 + block_room q n \<and> (\<exists>h. coded_block h lits (zip ls (zip ms (code_prev 0 ds))) (slice b' d0 (p - d0)))"
    using encode_block_ok [OF len(1,2) _ len(4-7) mem(1,2) _ b, of "code_prev 0 ds" ub d0] len(3) prev mem(3) by fastforce
  have "zip ls (zip ms (code_prev 0 ds)) = code_triples 0 (zip ls (zip ms ds))" using code_triples_zip len by simp
  moreover have "zip ls (zip ms ds) \<noteq> []" using len by auto
  ultimately show ?thesis using e coded_block_decodes [OF _ _ run] by metis
qed

section \<open>Properties\<close>

text \<open>C3. A block means what its triples and literals denote.  Let the triples \<open>(L, M, D)\<close>, at least one and
  at most 10000, and literals in groups of four, at most 40000, denote the output \<open>out'\<close> behind
  the output \<open>out\<close>: copy \<open>L\<close> literals, then repeat \<open>M\<close> bytes from \<open>D\<close> places before.  Then
  \<open>encode_block\<close>, with the distances coded, returns without leaving the destination and writes the block
  whenever the destination has 770 bytes, 5 for each group of literals and 7 for each triple; and
  a decoder that stands before the bytes of a block written, with the output \<open>out\<close> and room for \<open>out'\<close>,
  comes to stand behind them with the output \<open>out'\<close>.\<close>

theorem lzfse_block_roundtrip:
  assumes "length ls = n" "length ms = n" "length ds = n" "0 < n" "n \<le> 10000" "length lits = 4 * q" "length lits \<le> 40000"
    and "lmd_run (zip ls (zip ms ds)) lits out = Some (left, out')" and "hi \<le> length b"
  shows "\<exists>b' e. encode_block ub hi (ls, ms, code_prev 0 ds) lits b d0 = Some (b', e) \<and> frame b' b d0 hi \<and> (d0 + block_room q n \<le> hi \<longrightarrow> e \<noteq> None) \<and>
    (\<forall>p. e = Some p \<longrightarrow> d0 < p \<and> p \<le> hi \<and> p \<le> d0 + block_room q n \<and> decodes_to (slice b' d0 (p - d0)) out out')"
  by (rule encode_block_decodes [OF assms])

theorem lzfse_block_roundtrip_witness:
  "\<exists>b' p. encode_block 0 900 ([3], [5], code_prev 0 [2]) [7, 8, 9, 0] (replicate 900 0) 4 = Some (b', Some p) \<and> 4 < p \<and> p \<le> 900 \<and>
    decodes_to (slice b' 4 (p - 4)) [1] [1, 7, 8, 9, 8, 9, 8, 9, 8]"
proof -
  have "expand [1, 7, 8, 9] 2 5 = [1, 7, 8, 9, 8, 9, 8, 9, 8 :: byte]" by code_simp
  then have "lmd_run (zip [3] (zip [5] [2])) [7, 8, 9, 0] [1] = Some ([0], [1, 7, 8, 9, 8, 9, 8, 9, 8])" by simp
  from lzfse_block_roundtrip [OF _ _ _ _ _ _ _ this, of 1 1 900 "replicate 900 0" 0 4] show ?thesis by (auto simp: block_room_def)
qed

end
