(* ===== verification/LZVN_Roundtrip.thy ===== *)
theory LZVN_Roundtrip
  imports LZVN_Encode LZVN_Decode
begin

text \<open>
  Encoder and decoder together.  \<open>decodes bs D out D' out'\<close> says that the decoder's
  instructions \<open>bs\<close>, read with previous distance \<open>D\<close> behind the output \<open>out\<close>, give \<open>out'\<close>
  and leave the distance \<open>D'\<close>.  Every emitter of the encoder is shown to write bytes
  with that property, the match finders to find true matches only, and so
  \<open>lzvn_decode\<close> of what \<open>lzvn_encode_buffer\<close> wrote is the source.
\<close>

section \<open>Instructions as byte strings\<close>

definition decodes :: "byte list \<Rightarrow> nat \<Rightarrow> byte list \<Rightarrow> nat \<Rightarrow> byte list \<Rightarrow> bool" where
  "decodes bs D out D' out' \<longleftrightarrow>
     (\<forall>tail. tail \<noteq> [] \<longrightarrow> lzvn_run_spec D (bs @ tail) out = lzvn_run_spec D' tail out')"

lemma decodes_Nil [simp]: "decodes [] D out D out"
  by (simp add: decodes_def)

lemma decodes_append: "decodes as D out D1 out1 \<Longrightarrow> decodes bs D1 out1 D2 out2 \<Longrightarrow> decodes (as @ bs) D out D2 out2"
  by (simp add: decodes_def)

lemma decodes_instr:
  assumes "\<And>tail. tail \<noteq> [] \<Longrightarrow> instr_of D (opc @ lits @ tail) = Instr (length opc) (length lits) M D'"
    and "apply_instr (length lits) M D' lits out = Some o1"
  shows "decodes (opc @ lits) D out D' o1"
  using assms by (simp add: decodes_def lzvn_run_spec.simps [of D] apply_instr_def)

lemma nat_bits:
  fixes x y :: nat
  shows "x AND 0xFF = x mod 256" "x AND 3 = x mod 4" "push_bit 2 x OR y mod 4 = x * 4 + y mod 4"
proof -
  show "x AND 0xFF = x mod 256"
    using take_bit_eq_mask [of 8 x] by (simp add: take_bit_eq_mod mask_eq_exp_minus_1)
  show "x AND 3 = x mod 4"
    using take_bit_eq_mask [of 2 x] by (simp add: take_bit_eq_mod mask_eq_exp_minus_1)
  have "push_bit 2 x + take_bit 2 y = push_bit 2 x OR take_bit 2 y"
    by (rule disjunctive_add) (auto simp: bit_simps)
  then show "push_bit 2 x OR y mod 4 = x * 4 + y mod 4"
    by (simp add: push_bit_eq_mult take_bit_eq_mod)
qed

lemma byte_of_nat: "v < 256 \<Longrightarrow> unat (of_nat v :: byte) = v"
  by (simp only: unat_of_nat_byte mod_less)

text \<open>The rows of the opcode table that the encoder uses.\<close>

lemma instr_rows:
  "224 < unat c \<Longrightarrow> unat c < 240 \<Longrightarrow> instr_of D (c # bs) = complete_instr (c # bs) 1 (unat c - 224) 0 D"
  "240 < unat c \<Longrightarrow> instr_of D (c # bs) = complete_instr (c # bs) 1 0 (unat c - 240) D"
  "unat c = 224 \<Longrightarrow> instr_of D (c # b # bs) = complete_instr (c # b # bs) 2 (unat b + 16) 0 D"
  "unat c = 240 \<Longrightarrow> instr_of D (c # b # bs) = complete_instr (c # b # bs) 2 0 (unat b + 16) D"
  by (simp_all add: instr_of_def Let_def)

lemma instr_literal:
  assumes "0 < length lits" "length lits \<le> 15"
  shows "decodes (of_nat (0xE0 + length lits) # lits) D out D (out @ lits)"
proof -
  have u: "unat (of_nat (0xE0 + length lits) :: byte) = 0xE0 + length lits"
    by (rule byte_of_nat) (use assms in simp)
  have "decodes ([of_nat (0xE0 + length lits)] @ lits) D out D (out @ lits)"
    by (rule decodes_instr [where M = 0])
      (use assms in \<open>simp_all add: instr_rows(1) u complete_instr_def apply_instr_def del: of_nat_add unat_of_nat_byte\<close>)
  then show ?thesis by simp
qed

lemma instr_long_literal:
  assumes "16 \<le> length lits" "length lits \<le> 271"
  shows "decodes (0xE0 # of_nat (length lits - 16) # lits) D out D (out @ lits)"
proof -
  have u: "unat (of_nat (length lits - 16) :: byte) = length lits - 16"
    by (rule byte_of_nat) (use assms in simp)
  have "decodes ([0xE0, of_nat (length lits - 16)] @ lits) D out D (out @ lits)"
    by (rule decodes_instr [where M = 0])
      (use assms in \<open>simp_all add: instr_rows(3) u complete_instr_def apply_instr_def del: of_nat_diff unat_of_nat_byte\<close>)
  then show ?thesis by simp
qed

lemma instr_match:
  assumes "0 < M" "M \<le> 15" "0 < D" "D \<le> length out"
  shows "decodes [of_nat (0xF0 + M)] D out D (expand out D M)"
proof -
  have u: "unat (of_nat (0xF0 + M) :: byte) = 0xF0 + M"
    by (rule byte_of_nat) (use assms in simp)
  have "decodes ([of_nat (0xF0 + M)] @ []) D out D (expand out D M)"
    by (rule decodes_instr [where M = M])
      (use assms in \<open>simp_all add: instr_rows(2) u complete_instr_def apply_instr_def del: of_nat_add unat_of_nat_byte\<close>)
  then show ?thesis by simp
qed

lemma instr_long_match:
  assumes "16 \<le> M" "M \<le> 271" "0 < D" "D \<le> length out"
  shows "decodes [0xF0, of_nat (M - 16)] D out D (expand out D M)"
proof -
  have u: "unat (of_nat (M - 16) :: byte) = M - 16"
    by (rule byte_of_nat) (use assms in simp)
  have "decodes ([0xF0, of_nat (M - 16)] @ []) D out D (expand out D M)"
    by (rule decodes_instr [where M = M])
      (use assms in \<open>simp_all add: instr_rows(4) u complete_instr_def apply_instr_def del: of_nat_diff unat_of_nat_byte\<close>)
  then show ?thesis by simp
qed

text \<open>The opcodes with literal and match, whose fields are \<open>L * 64 + x * 8 + r\<close>.\<close>

lemma op_fields:
  fixes L x r :: nat
  assumes "L \<le> 3" "x \<le> 7 - 2 * L" "r < 8"
  defines "op \<equiv> L * 64 + x * 8 + r"
  shows "op < 208" "\<not> (112 \<le> op \<and> op < 128)" "\<not> (160 \<le> op \<and> op < 192)" "op div 64 = L" "op div 8 mod 8 = x" "op mod 8 = r"
proof -
  have x: "x < 8" using assms(2) by linarith
  have "op div 8 = L * 8 + x" using assms(3) by (simp add: op_def)
  moreover have "op div 64 = op div 8 div 8" by (simp flip: div_mult2_eq)
  ultimately show "op div 64 = L" "op div 8 mod 8 = x" using x by simp_all
  show "op mod 8 = r" using assms(3) unfolding op_def by presburger
  have "L = 0 \<or> L = 1 \<or> L = 2 \<or> L = 3" using assms(1) by linarith
  then show "op < 208" "\<not> (112 \<le> op \<and> op < 128)" "\<not> (160 \<le> op \<and> op < 192)"
    using assms(2,3) unfolding op_def by auto
qed

lemma instr_op_rows:
  assumes "unat c = L * 64 + x * 8 + r" "L \<le> 3" "x \<le> 7 - 2 * L" "r < 8"
  shows "r \<le> 5 \<Longrightarrow> instr_of D (c # b # bs) = complete_instr (c # b # bs) 2 L (x + 3) (r * 256 + unat b)"
    and "r = 6 \<Longrightarrow> 0 < L \<Longrightarrow> instr_of D (c # bs) = complete_instr (c # bs) 1 L (x + 3) D"
    and "r = 7 \<Longrightarrow> instr_of D (c # b # b2 # bs) = complete_instr (c # b # b2 # bs) 3 L (x + 3) (unat b + 256 * unat b2)"
  using op_fields [OF assms(2-4)] assms(1,2) by (auto simp: instr_of_def Let_def)

lemma instr_med_row:
  assumes c: "unat c = 0xA0 + L * 8 + y" and L: "L \<le> 3" "y < 8"
  shows "instr_of D (c # b # b2 # bs) =
    complete_instr (c # b # b2 # bs) 3 L (y * 4 + (unat b + 256 * unat b2) mod 4 + 3) ((unat b + 256 * unat b2) div 4)"
proof -
  let ?bs = "c # b # b2 # bs"
  have f: "unat c div 8 = 20 + L" "unat c mod 8 = y" "(20 + L) mod 4 = L" using c L by presburger+
  have "unat c < 192" "160 \<le> unat c" using c L by linarith+
  then have cls: "class_of (unat c) = med_d" by (simp add: class_of_def)
  have n: "?bs ! 0 = c" "?bs ! 1 = b" "?bs ! 2 = b2" "?bs \<noteq> []" by simp_all
  show ?thesis
    using instr_of_class [OF n(4), of D] unfolding n(1-3) cls f by (simp only: label.case)
qed

lemma le_enc2: "le_enc 2 v = [of_nat v, of_nat (v div 256)]"
  by (simp add: numeral_2_eq_2)

lemma le_bytes: "v < 65536 \<Longrightarrow> unat (of_nat v :: byte) + 256 * unat (of_nat (v div 256) :: byte) = v"
  by simp

lemma u16_of_nat: "v < 65536 \<Longrightarrow> unat (of_nat v :: u16) = v"
  by (simp add: unat_of_nat)

lemma le_pair:
  assumes "c < 256" "k < 256"
  shows "le_enc 2 (unat (of_nat (c + push_bit 8 k) :: u16)) = [of_nat c, of_nat k]"
proof -
  have v: "c + push_bit 8 k = c + 256 * k" "c + 256 * k < 65536" using assms by (simp_all add: push_bit_eq_mult)
  have "(of_nat (c + 256 * k) :: byte) = of_nat c"
    by (rule word_unat_eq_iff [THEN iffD2]) (simp only: unat_of_nat_byte, simp)
  then show ?thesis
    using assms by (simp only: v u16_of_nat [OF v(2)] le_enc2) simp
qed

lemma apply_both: "M \<noteq> 0 \<Longrightarrow> 0 < D \<Longrightarrow> D \<le> length (out @ lits) \<Longrightarrow>
  apply_instr (length lits) M D lits out = Some (expand (out @ lits) D M)"
  by (simp add: apply_instr_def)

lemma match_opcode_decodes:
  assumes op: "match_opcode (length lits) x M D D_prev = (opc, M')"
    and L: "length lits \<le> 3" "x \<le> 7 - 2 * length lits"
    and D: "0 < D" "D \<le> 65535" "D \<le> length (out @ lits)"
  shows "decodes (opc @ lits) D_prev out D (expand (out @ lits) D (x + 3 + (M - M')))" and "M' \<le> M" and "length opc \<le> 3"
proof -
  let ?L = "length lits"
  have x: "x \<le> 7" using L(2) by linarith
  have fields: "unat (of_nat (?L * 64 + x * 8 + r) :: byte) = ?L * 64 + x * 8 + r" if "r < 8" for r
    by (rule byte_of_nat) (use op_fields(1) [OF L that] in linarith)
  note rows = instr_op_rows [OF fields L]
  note ap = apply_both [OF _ D(1,3)]
  consider "D = D_prev" "?L = 0" | "D = D_prev" "0 < ?L" | "D \<noteq> D_prev" "D < 1536"
    | "D \<noteq> D_prev" "\<not> D < 1536" "D \<ge> 2 ^ 14 \<or> M = 0 \<or> x + 3 + M > 34"
    | "D \<noteq> D_prev" "\<not> D < 1536" "D < 2 ^ 14" "0 < M" "x + 3 + M \<le> 34"
    by linarith
  then have "decodes (opc @ lits) D_prev out D (expand (out @ lits) D (x + 3 + (M - M'))) \<and> M' \<le> M \<and> length opc \<le> 3"
  proof cases
    case 1
    then have "opc = [of_nat (0xF0 + (x + 3))]" "M' = M" using op by (simp_all add: match_opcode_def)
    then show ?thesis using instr_match [of "x + 3" D out] 1 x D by (simp del: of_nat_add)
  next
    case 2
    then have opc: "opc = [of_nat (?L * 64 + x * 8 + 6)]" "M' = M"
      using op by (simp_all add: match_opcode_def push_bit_eq_mult)
    have "decodes (opc @ lits) D_prev out D (expand (out @ lits) D (x + 3))"
      unfolding opc by (rule decodes_instr [where M = "x + 3"])
        (use 2 ap in \<open>simp_all add: rows(2) complete_instr_def del: of_nat_add of_nat_mult\<close>)
    then show ?thesis using opc by simp
  next
    case 3
    let ?r = "D div 256"
    have r: "?r \<le> 5" "?r < 8" and d: "?r * 256 + D mod 256 = D" using 3 by auto
    have opc: "opc = [of_nat (?L * 64 + x * 8 + ?r), of_nat (D mod 256)]" "M' = M"
      using op 3 by (simp_all add: match_opcode_def push_bit_eq_mult drop_bit_eq_div nat_bits(1) add.commute add.left_commute)
    have "decodes (opc @ lits) D_prev out D (expand (out @ lits) D (x + 3))"
      unfolding opc by (rule decodes_instr [where M = "x + 3"])
        (use r d ap in \<open>simp_all add: rows(1) complete_instr_def del: of_nat_add of_nat_mult\<close>)
    then show ?thesis using opc by simp
  next
    case 4
    have opc: "opc = [of_nat (?L * 64 + x * 8 + 7), of_nat D, of_nat (D div 256)]" "M' = M"
      using op 4 D(2) by (simp_all add: match_opcode_def push_bit_eq_mult u16_of_nat le_enc2)
    have "decodes (opc @ lits) D_prev out D (expand (out @ lits) D (x + 3))"
      unfolding opc by (rule decodes_instr [where M = "x + 3"])
        (use le_bytes [of D] D ap in \<open>simp_all add: rows(3) complete_instr_def del: of_nat_add of_nat_mult unat_of_nat_byte\<close>)
    then show ?thesis using opc by simp
  next
    case 5
    let ?t = "x + M" and ?w = "D * 4 + (x + M) mod 4"
    have t: "?t div 4 < 8" "?t div 4 * 4 + ?t mod 4 = ?t" and w: "?w < 65536" "?w mod 4 = ?t mod 4" "?w div 4 = D"
      using 5 by auto
    have e: "push_bit 2 D OR (?t AND 3) = ?w" by (simp only: nat_bits)
    have u: "unat (of_nat ?w :: u16) = ?w" using w(1) by (rule u16_of_nat)
    have f: "0xA0 + drop_bit 2 ?t + push_bit 3 ?L = 0xA0 + ?L * 8 + ?t div 4"
      by (simp add: push_bit_eq_mult drop_bit_eq_div)
    have o: "opc = of_nat (0xA0 + drop_bit 2 ?t + push_bit 3 ?L) # le_enc 2 (unat (of_nat (push_bit 2 D OR (?t AND 3)) :: u16))" "M' = 0"
      using op 5 by (simp_all add: match_opcode_def)
    have opc: "opc = [of_nat (0xA0 + ?L * 8 + ?t div 4), of_nat ?w, of_nat (?w div 256)]" "M' = 0"
      using o unfolding e u f le_enc2 by blast+
    have c: "unat (of_nat (0xA0 + ?L * 8 + ?t div 4) :: byte) = 0xA0 + ?L * 8 + ?t div 4"
      by (rule byte_of_nat) (use L t in linarith)
    have "decodes (opc @ lits) D_prev out D (expand (out @ lits) D (x + 3 + M))"
      unfolding opc by (rule decodes_instr [where M = "x + 3 + M"])
        (use le_bytes [OF w(1)] w t ap L in \<open>simp_all add: instr_med_row [OF c] complete_instr_def del: of_nat_add of_nat_mult unat_of_nat_byte\<close>)
    then show ?thesis using opc by simp
  qed
  then show "decodes (opc @ lits) D_prev out D (expand (out @ lits) D (x + 3 + (M - M')))" "M' \<le> M" "length opc \<le> 3"
    by blast+
qed

section \<open>What the emitters write\<close>

text \<open>\<open>adds buf q b q' bs\<close>: block \<open>b\<close> is \<open>buf\<close> up to \<open>q\<close> followed by \<open>bs\<close> up to \<open>q'\<close>.\<close>

definition adds :: "byte list \<Rightarrow> nat \<Rightarrow> byte list \<Rightarrow> nat \<Rightarrow> byte list \<Rightarrow> bool" where
  "adds buf q b q' bs \<longleftrightarrow> q' = q + length bs \<and> take q' b = take q buf @ bs"

lemma adds_refl [simp]: "adds buf q buf q []"
  by (simp add: adds_def)

lemma adds_trans: "adds buf q b q' as \<Longrightarrow> adds b q' b' q'' bs \<Longrightarrow> adds buf q b' q'' (as @ bs)"
  by (auto simp: adds_def)

lemma adds_slice:
  assumes "frame b buf q e" "slice b q n = bs" "q + n \<le> length buf"
  shows "adds buf q b (q + n) bs"
proof -
  have l: "length b = length buf" using assms(1) by (rule frame_length)
  have "take (q + n) b = take q b @ slice b q n" by (simp add: slice_def take_add)
  moreover have "take q b = take q buf"
    using frame_slice [OF assms(1), of 0 q] assms(3) by (simp add: slice_def)
  moreover have "length (slice b q n) = n" using assms(3) l by simp
  ultimately show ?thesis using assms(2) by (auto simp: adds_def)
qed

lemma store_adds:
  assumes "q + length bs \<le> q1" "q1 \<le> length buf"
  shows "\<exists>b. store buf 0 q1 q bs = Some b \<and> frame b buf q q1 \<and> adds buf q b (q + length bs) bs"
proof -
  obtain b where b: "store buf 0 q1 q bs = Some b" by (rule store_some [of 0 q bs q1 buf]) (use assms in auto)
  have "frame b buf q q1" by (rule frame_weaken [OF storeD(1) [OF b]]) (use assms in auto)
  with b show ?thesis
    using adds_slice [OF storeD(1) [OF b] storeD(2) [OF b]] assms by auto
qed

lemma frame_split: "frame c b q' q1 \<Longrightarrow> frame b a q q1 \<Longrightarrow> q \<le> q' \<Longrightarrow> frame c a q q1"
  by (rule frame_join [of c b q' q1 a q q1]) auto

text \<open>The result of the loop over long literals: the buffer is full, or \<open>p' - p\<close> bytes of the
  source are encoded and at most 15 are left.\<close>

fun literals_ok :: "byte list \<Rightarrow> nat \<Rightarrow> nat \<Rightarrow> byte list \<Rightarrow> nat \<Rightarrow> nat \<Rightarrow> literals option \<Rightarrow> bool" where
  "literals_ok xs p L buf q q1 None = False"
| "literals_ok xs p L buf q q1 (Some (Out_full b)) = frame b buf q q1"
| "literals_ok xs p L buf q q1 (Some (Emitted b p' q' L')) =
     (frame b buf q q1 \<and> L' \<le> 15 \<and> p \<le> p' \<and> p' + L' = p + L \<and> q' \<le> q1 \<and>
      (\<exists>bs. adds buf q b q' bs \<and> (\<forall>D out. decodes bs D out D (out @ slice xs p (p' - p)))))"

lemma literals_ok_step:
  assumes r: "literals_ok xs (p + x) (L - x) b2 q2 q1 r" and f: "frame b2 buf q q1" and a: "adds buf q b2 q2 as"
    and d: "\<And>D out. decodes as D out D (out @ slice xs p x)" and x: "x \<le> L"
  shows "literals_ok xs p L buf q q1 r"
proof (cases r)
  case (Some s)
  have q: "q \<le> q2" using a by (simp add: adds_def)
  show ?thesis
  proof (cases s)
    case (Out_full b)
    then show ?thesis using r Some frame_split [OF _ f q] by simp
  next
    case (Emitted b p' q' L')
    then obtain bs where bs: "frame b b2 q2 q1" "L' \<le> 15" "p + x \<le> p'" "p' + L' = p + x + (L - x)" "q' \<le> q1" "adds b2 q2 b q' bs"
        "\<And>D out. decodes bs D out D (out @ slice xs (p + x) (p' - (p + x)))"
      using r Some by auto
    have "slice xs p (p' - p) = slice xs p x @ slice xs (p + x) (p' - (p + x))"
      using slice_add [of xs p x "p' - (p + x)"] bs(3) by simp
    then have "decodes (as @ bs) D out D (out @ slice xs p (p' - p))" for D out
      using decodes_append [OF d bs(7)] by simp
    then show ?thesis
      using Some Emitted frame_split [OF bs(1) f q] bs(2-5) adds_trans [OF a bs(6)] x by auto
  qed
qed (use r in simp)

text \<open>The contract of the two copiers, with the bytes they may touch behind the copy.\<close>

locale literal_copier =
  fixes cp :: copier and slack :: nat
  assumes cp_ok: "q + n + slack \<le> q1 \<Longrightarrow> p + n + slack \<le> length xs \<Longrightarrow> q1 \<le> length buf \<Longrightarrow>
      \<exists>b. cp buf q1 xs p q n = Some (b, q + n) \<and> frame b buf q q1 \<and> adds buf q b (q + n) (slice xs p n)"
    and slack_le: "slack \<le> 7"
begin

lemma long_literals_ok:
  assumes "p + L + slack \<le> length xs" "q \<le> q1" "q1 \<le> length buf"
  shows "literals_ok xs p L buf q q1 (long_literals cp xs p buf q q1 L)"
  using assms
proof (induction L arbitrary: p buf q rule: less_induct)
  case (less L)
  let ?x = "if L < 271 then L else 271"
  show ?case
  proof (cases "L > 15 \<and> \<not> q + ?x + 10 \<ge> q1")
    case False
    then show ?thesis using less.prems
      by (auto simp: long_literals.simps [of cp xs p buf q q1 L] intro!: exI [of _ "[]"])
  next
    case True
    let ?opc = "[0xE0, of_nat (?x - 16)] :: byte list" and ?lits = "slice xs p ?x"
    have x: "16 \<le> ?x" "?x \<le> 271" "?x \<le> L" using True by auto
    have "le_enc 2 (unat (of_nat (0xE0 + push_bit 8 (?x - 16)) :: u16)) = ?opc"
      using le_pair [of "0xE0" "?x - 16"] x by (simp del: of_nat_add)
    then obtain b1 where b1: "store2 buf 0 q1 q (of_nat (0xE0 + push_bit 8 (?x - 16))) = Some b1"
        "frame b1 buf q q1" "adds buf q b1 (q + 2) ?opc"
      using store_adds [of q ?opc q1 buf] True less.prems by (auto simp: store2_def)
    obtain b2 where b2: "cp b1 q1 xs p (q + 2) ?x = Some (b2, q + 2 + ?x)" "frame b2 b1 (q + 2) q1"
        "adds b1 (q + 2) b2 (q + 2 + ?x) ?lits"
      using cp_ok [of "q + 2" ?x q1 p xs b1] True less.prems x slack_le frame_length [OF b1(2)] by auto
    have f2: "frame b2 buf q q1" by (rule frame_split [OF b2(2) b1(2)]) simp
    have step: "long_literals cp xs p buf q q1 L = long_literals cp xs (p + ?x) b2 (q + 2 + ?x) q1 (L - ?x)"
      using True b1(1) b2(1) by (simp add: long_literals.simps [of cp xs p buf q q1 L])
    have "literals_ok xs (p + ?x) (L - ?x) b2 (q + 2 + ?x) q1 (long_literals cp xs p buf q q1 L)"
      unfolding step by (rule less.IH) (use x True less.prems frame_length [OF f2] in auto)
    moreover have "length ?lits = ?x" using less.prems x by simp
    then have "decodes (?opc @ ?lits) D out D (out @ ?lits)" for D out
      using instr_long_literal [of ?lits D out] x by simp
    ultimately show ?thesis
      by (rule literals_ok_step [OF _ f2 adds_trans [OF b1(3) b2(3)] _ x(3)])
  qed
qed

end

lemma src_load_some: "p + i + w \<le> length xs \<Longrightarrow> src_load xs p w i = Some (slice xs (p + i) w)"
  by (simp add: src_load_def load_def)

lemma copier_ok:
  fixes n w :: nat
  assumes "n \<le> w * k" "q + w * k \<le> q1" "p + w * k \<le> length xs" "q1 \<le> length buf"
  shows "\<exists>b. copy_loop w (src_load xs p w) 0 q1 q k buf = Some b \<and> frame b buf q q1 \<and> adds buf q b (q + n) (slice xs p n)"
proof -
  have ld: "src_load xs p w (w * i) = Some (slice xs (p + w * i) w)" if "i < k" for i
  proof (rule src_load_some)
    have "w * Suc i \<le> w * k" using that by (intro mult_le_mono2) simp
    then show "p + w * i + w \<le> length xs" using assms(3) by simp
  qed
  obtain b where b: "copy_loop w (src_load xs p w) 0 q1 q k buf = Some b" "frame b buf q (q + w * k)" "slice b q (w * k) = slice xs p (w * k)"
    using copy_loop_ok [of k "src_load xs p w" w xs p 0 q q1 buf] ld assms by auto
  have "slice b q n = slice xs p n"
    using slice_take [OF assms(1) b(3)] slice_take [OF assms(1) refl, of xs p] by simp
  moreover have "frame b buf q q1" by (rule frame_weaken [OF b(2)]) (use assms in auto)
  ultimately show ?thesis
    using b(1) adds_slice [OF b(2), of n] assms by auto
qed

interpretation copy64: literal_copier lzvn_copy64 7
proof
  fix q n q1 p and xs buf :: "byte list"
  assume a: "q + n + 7 \<le> q1" "p + n + 7 \<le> length xs" "q1 \<le> length buf"
  have k: "n \<le> 8 * ((n + 7) div 8)" "8 * ((n + 7) div 8) \<le> n + 7" by (rule div8_cover)+
  have "q + 8 * ((n + 7) div 8) \<le> q1" "p + 8 * ((n + 7) div 8) \<le> length xs" using a k by linarith+
  from copier_ok [OF k(1) this a(3)]
  show "\<exists>b. lzvn_copy64 buf q1 xs p q n = Some (b, q + n) \<and> frame b buf q q1 \<and> adds buf q b (q + n) (slice xs p n)"
    by (auto simp: lzvn_copy64_def)
qed simp

interpretation copy8: literal_copier lzvn_copy8 0
proof
  fix q n q1 p and xs buf :: "byte list"
  assume "q + n + 0 \<le> q1" "p + n + 0 \<le> length xs" "q1 \<le> length buf"
  then show "\<exists>b. lzvn_copy8 buf q1 xs p q n = Some (b, q + n) \<and> frame b buf q q1 \<and> adds buf q b (q + n) (slice xs p n)"
    using copier_ok [of n 1 n q q1 p xs buf] by (auto simp: lzvn_copy8_def)
qed simp

text \<open>\<open>emitted\<close>: the outcome of an emitter is the full buffer, or bytes with a meaning \<open>P\<close> were added.\<close>

fun emitted :: "byte list \<Rightarrow> nat \<Rightarrow> nat \<Rightarrow> (byte list \<Rightarrow> bool) \<Rightarrow> (byte list \<times> nat) option \<Rightarrow> bool" where
  "emitted buf q q1 P None = False"
| "emitted buf q q1 P (Some (b, q')) =
     (frame b buf q q1 \<and> q' \<le> q1 \<and> (q' < q1 \<longrightarrow> (\<exists>bs. adds buf q b q' bs \<and> P bs)))"

lemma emitted_after:
  assumes "emitted b q2 q1 Q r" "frame b buf q q1" "adds buf q b q2 as" "\<And>bs. Q bs \<Longrightarrow> P (as @ bs)"
  shows "emitted buf q q1 P r"
proof (cases r)
  case (Some x)
  then obtain b' q' where x: "r = Some (b', q')" by (cases x) auto
  have "q \<le> q2" using assms(3) by (simp add: adds_def)
  then have "frame b' buf q q1" using assms(1,2) x frame_split [of b' b q2 q1 buf q] by simp
  moreover have "\<exists>bs. adds buf q b' q' bs \<and> P bs" if "q' < q1"
  proof -
    obtain bs where "adds b q2 b' q' bs" "Q bs" using assms(1) x \<open>q' < q1\<close> by auto
    then show ?thesis using adds_trans [OF assms(3)] assms(4) by blast
  qed
  ultimately show ?thesis using assms(1) x by simp
qed (use assms in simp)

lemma emit_literal_ok:
  assumes "p + L \<le> length xs" "q \<le> q1" "q1 \<le> length buf"
  shows "emitted buf q q1 (\<lambda>bs. \<forall>D out. decodes bs D out D (out @ slice xs p L)) (emit_literal xs p buf q q1 L)"
proof -
  let ?P = "\<lambda>bs. \<forall>D out. decodes bs D out D (out @ slice xs p L)"
  have ok: "literals_ok xs p L buf q q1 (long_literals lzvn_copy8 xs p buf q q1 L)"
    by (rule copy8.long_literals_ok) (use assms in auto)
  then obtain r where r: "long_literals lzvn_copy8 xs p buf q q1 L = Some r"
    by (cases "long_literals lzvn_copy8 xs p buf q q1 L") auto
  show ?thesis
  proof (cases r)
    case (Out_full b)
    then show ?thesis using ok r by (simp add: emit_literal_def)
  next
    case (Emitted b p' q' L')
    then obtain as where as: "frame b buf q q1" "L' \<le> 15" "p \<le> p'" "p' + L' = p + L" "q' \<le> q1" "adds buf q b q' as"
        "\<And>D out. decodes as D out D (out @ slice xs p (p' - p))"
      using ok r by auto
    have lb: "length b = length buf" using as(1) by (rule frame_length)
    have sl: "slice xs p L = slice xs p (p' - p) @ slice xs p' L'"
      using slice_add [of xs p "p' - p" L'] as(3,4) by simp
    consider "L' = 0" | "0 < L'" "q' + L' + 10 \<ge> q1" | "0 < L'" "\<not> q' + L' + 10 \<ge> q1" by linarith
    then show ?thesis
    proof cases
      case 1
      then have "emit_literal xs p buf q q1 L = Some (b, q')" using r Emitted by (simp add: emit_literal_def)
      moreover have "?P as" using as(7) sl 1 by simp
      ultimately show ?thesis using as(1,5,6) by auto
    next
      case 2
      then have "emit_literal xs p buf q q1 L = Some (b, q1)" using r Emitted by (simp add: emit_literal_def)
      then show ?thesis using as(1) by simp
    next
      case 3
      let ?lits = "slice xs p' L'" and ?op = "[of_nat (0xE0 + L')] :: byte list"
      obtain b1 where b1: "store b 0 q1 q' ?op = Some b1" "frame b1 b q' q1" "adds b q' b1 (q' + 1) ?op"
        using store_adds [of q' ?op q1 b] 3 lb assms(3) by auto
      obtain b2 where b2: "lzvn_copy8 b1 q1 xs p' (q' + 1) L' = Some (b2, q' + 1 + L')" "frame b2 b1 (q' + 1) q1"
          "adds b1 (q' + 1) b2 (q' + 1 + L') ?lits"
        using copy8.cp_ok [of "q' + 1" L' q1 p' xs b1] 3 as(3,4) assms lb frame_length [OF b1(2)] by auto
      have e: "emit_literal xs p buf q q1 L = Some (b2, q' + 1 + L')"
        using r Emitted 3 b1(1) b2(1) by (simp add: emit_literal_def del: of_nat_add)
      have "length ?lits = L'" using as(3,4) assms(1) by simp
      then have d: "decodes (?op @ ?lits) D out D (out @ ?lits)" for D out
        using instr_literal [of ?lits D out] 3 as(2) by simp
      have "emitted b1 (q' + 1) q1 (\<lambda>bs. bs = ?lits) (emit_literal xs p buf q q1 L)"
        using b2 3 by (simp add: e)
      then have "emitted b q' q1 (\<lambda>bs. bs = ?op @ ?lits) (emit_literal xs p buf q q1 L)"
        by (rule emitted_after [OF _ b1(2,3)]) simp
      then show ?thesis
        by (rule emitted_after [OF _ as(1,6)]) (use decodes_append [OF as(7) d] sl in auto)
    qed
  qed
qed

lemma rest_of_match_ok:
  assumes "q \<le> q1" "q1 \<le> length buf" "0 < D"
  shows "emitted buf q q1 (\<lambda>bs. \<forall>out. D \<le> length out \<longrightarrow> decodes bs D out D (expand out D M)) (rest_of_match buf q q1 M)"
  using assms
proof (induction M arbitrary: buf q rule: less_induct)
  case (less M)
  note s = rest_of_match.simps [of buf q q1 M]
  consider "M = 0" | "0 < M" "M \<le> 15" "q + 1 \<ge> q1" | "0 < M" "M \<le> 15" "\<not> q + 1 \<ge> q1" | "15 < M" "q + 2 \<ge> q1" | "15 < M" "\<not> q + 2 \<ge> q1"
    by linarith
  then show ?case
  proof cases
    case 1
    then show ?thesis using less.prems by (auto simp: rest_of_match.simps [of buf q q1 0] intro!: exI [of _ "[]"])
  next
    case 3
    let ?op = "[of_nat (0xF0 + M)] :: byte list"
    obtain b1 where b1: "store buf 0 q1 q ?op = Some b1" "frame b1 buf q q1" "adds buf q b1 (q + 1) ?op"
      using store_adds [of q ?op q1 buf] 3 less.prems by auto
    have e: "rest_of_match buf q q1 M = Some (b1, q + 1)" using 3 b1(1) by (simp add: s del: of_nat_add)
    have "\<forall>out. D \<le> length out \<longrightarrow> decodes ?op D out D (expand out D M)"
      using instr_match [of M D] 3 less.prems by blast
    then show ?thesis unfolding e using b1 3 by (auto simp del: of_nat_add)
  next
    case 5
    let ?x = "if M < 271 then M else 271"
    let ?op = "[0xF0, of_nat (?x - 16)] :: byte list"
    have x: "16 \<le> ?x" "?x \<le> 271" "?x \<le> M" using 5 by auto
    have "le_enc 2 (unat (of_nat (0xf0 + push_bit 8 (?x - 16)) :: u16)) = ?op"
      using le_pair [of "0xF0" "?x - 16"] x by (simp del: of_nat_add)
    then obtain b1 where b1: "store2 buf 0 q1 q (of_nat (0xf0 + push_bit 8 (?x - 16))) = Some b1"
        "frame b1 buf q q1" "adds buf q b1 (q + 2) ?op"
      using store_adds [of q ?op q1 buf] 5 less.prems by (auto simp: store2_def)
    have e: "rest_of_match buf q q1 M = rest_of_match b1 (q + 2) q1 (M - ?x)"
      using 5 b1(1) by (simp add: s)
    have "emitted b1 (q + 2) q1 (\<lambda>bs. \<forall>out. D \<le> length out \<longrightarrow> decodes bs D out D (expand out D (M - ?x))) (rest_of_match buf q q1 M)"
      unfolding e by (rule less.IH) (use 5 x less.prems frame_length [OF b1(2)] in auto)
    then show ?thesis
    proof (rule emitted_after [OF _ b1(2,3)])
      fix bs assume bs: "\<forall>out. D \<le> length out \<longrightarrow> decodes bs D out D (expand out D (M - ?x))"
      show "\<forall>out. D \<le> length out \<longrightarrow> decodes (?op @ bs) D out D (expand out D M)"
      proof (intro allI impI)
        fix out :: "byte list" assume D: "D \<le> length out"
        have a: "decodes ?op D out D (expand out D ?x)" by (rule instr_long_match) (use x less.prems D in auto)
        have b: "decodes bs D (expand out D ?x) D (expand (expand out D ?x) D (M - ?x))"
          by (rule bs [rule_format]) (use D in simp)
        have "expand (expand out D ?x) D (M - ?x) = expand out D M"
          using expand_add [of out D ?x "M - ?x"] unfolding le_add_diff_inverse [OF x(3)] by (rule sym)
        with decodes_append [OF a b] show "decodes (?op @ bs) D out D (expand out D M)" by (simp only:)
      qed
    qed
  next
    case 2
    then have "rest_of_match buf q q1 M = Some (buf, q1)" by (simp add: s)
    then show ?thesis by simp
  next
    case 4
    then have "rest_of_match buf q q1 M = Some (buf, q1)" by (simp add: s)
    then show ?thesis by simp
  qed
qed

lemma adds_prefix: "adds buf q b (q + n) bs \<Longrightarrow> m \<le> n \<Longrightarrow> q \<le> length buf \<Longrightarrow> adds buf q b (q + m) (take m bs)"
proof -
  assume a: "adds buf q b (q + n) bs" and m: "m \<le> n" and q: "q \<le> length buf"
  have "take (q + m) b = take (q + m) (take (q + n) b)" using m by (simp add: min_def)
  also have "take (q + n) b = take q buf @ bs" using a by (auto simp: adds_def)
  also have "take (q + m) (take q buf @ bs) = take q buf @ take m bs" using q by simp
  finally show ?thesis using a m by (simp add: adds_def)
qed

lemma word_bytes: "length bs = 4 \<Longrightarrow> le_enc 4 (unat (of_nat (le_val bs) :: u32)) = bs"
  using le_val_less [of bs] le_enc_val [of bs] by (simp add: unat_of_nat del: le_enc_val)

lemma emit_short_ok:
  assumes L: "L \<le> 3" and M: "3 \<le> M" and D: "0 < D" "D \<le> 65535" and p: "p + 4 \<le> length xs"
    and q: "q \<le> q1" "q1 \<le> length buf"
  shows "emitted buf q q1 (\<lambda>bs. \<forall>out. D \<le> length out + L \<longrightarrow> decodes bs D_prev out D (expand (out @ slice xs p L) D M))
           (emit_short xs p buf q q1 L M D D_prev)"
proof -
  let ?lits = "slice xs p L" and ?four = "slice xs p 4"
  define first where "first = (if M \<le> 10 - 2 * L then M else 10 - 2 * L)"
  define x where "x = first - 3"
  define m where "m = M - first"
  obtain opc M' where op: "match_opcode L x m D D_prev = (opc, M')" by fastforce
  have "3 \<le> first" "first \<le> M" "first \<le> 10 - 2 * L" using L M by (auto simp: first_def)
  then have x: "x \<le> 7 - 2 * L" "x + 3 + m = M" by (simp_all add: x_def m_def)
  have ll: "length ?lits = L" and l4: "length ?four = 4" using p L by auto
  have ld: "load4 xs 0 (length xs) p = Some (of_nat (le_val ?four))" using p by (simp add: load4_def load_def)
  note dec = match_opcode_decodes [of ?lits x m D D_prev opc M', unfolded ll, OF op L x(1) D]
  show ?thesis
  proof (cases "q + 8 \<ge> q1")
    case True
    then have "emit_short xs p buf q q1 L M D D_prev = Some (buf, q1)" by (simp add: emit_short_def ld)
    then show ?thesis by simp
  next
    case False
    have len: "length opc \<le> 3" and M': "M' \<le> m"
      using dec(2,3) [of "replicate D 0"] by simp_all
    obtain b1 where b1: "store buf 0 q1 q opc = Some b1" "frame b1 buf q q1" "adds buf q b1 (q + length opc) opc"
      using store_adds [of q opc q1 buf] False len q by auto
    obtain b2 where b2: "store4 b1 0 q1 (q + length opc) (of_nat (le_val ?four)) = Some b2" "frame b2 b1 (q + length opc) q1"
        "adds b1 (q + length opc) b2 (q + length opc + 4) ?four"
      using store_adds [of "q + length opc" ?four q1 b1] False len q frame_length [OF b1(2)] l4
      by (auto simp: store4_def word_bytes)
    have f2: "frame b2 buf q q1" by (rule frame_split [OF b2(2) b1(2)]) simp
    have "take L ?four = ?lits" using L by (simp add: slice_def)
    then have "adds b1 (q + length opc) b2 (q + length opc + L) ?lits"
      using adds_prefix [OF b2(3), of L] L False len q frame_length [OF b1(2)] by simp
    then have a2: "adds buf q b2 (q + length opc + L) (opc @ ?lits)" by (rule adds_trans [OF b1(3)])
    have e: "emit_short xs p buf q q1 L M D D_prev = rest_of_match b2 (q + length opc + L) q1 M'"
      using False b1(1) b2(1) op by (simp add: emit_short_def ld Let_def flip: first_def x_def m_def)
    have "emitted b2 (q + length opc + L) q1 (\<lambda>bs. \<forall>out. D \<le> length out \<longrightarrow> decodes bs D out D (expand out D M'))
            (emit_short xs p buf q q1 L M D D_prev)"
      unfolding e by (rule rest_of_match_ok) (use False len L q D frame_length [OF f2] in auto)
    then show ?thesis
    proof (rule emitted_after [OF _ f2 a2])
      fix bs assume bs: "\<forall>out. D \<le> length out \<longrightarrow> decodes bs D out D (expand out D M')"
      show "\<forall>out. D \<le> length out + L \<longrightarrow> decodes ((opc @ ?lits) @ bs) D_prev out D (expand (out @ ?lits) D M)"
      proof (intro allI impI)
        fix out :: "byte list" assume out: "D \<le> length out + L"
        let ?o = "expand (out @ ?lits) D (x + 3 + (m - M'))"
        have "decodes (opc @ ?lits) D_prev out D ?o" by (rule dec(1)) (use out ll in simp)
        moreover have "decodes bs D ?o D (expand ?o D M')" using bs out ll by simp
        moreover have "expand ?o D M' = expand (out @ ?lits) D M"
          using expand_add [of "out @ ?lits" D "x + 3 + (m - M')" M'] x(2) M' by (simp add: add.assoc)
        ultimately show "decodes ((opc @ ?lits) @ bs) D_prev out D (expand (out @ ?lits) D M)"
          using decodes_append by metis
      qed
    qed
  qed
qed

lemma emit_ok:
  assumes M: "3 \<le> M" and D: "0 < D" "D \<le> 65535" and p: "p + L + 7 \<le> length xs" and q: "q \<le> q1" "q1 \<le> length buf"
  shows "emitted buf q q1 (\<lambda>bs. \<forall>out. D \<le> length out + L \<longrightarrow> decodes bs D_prev out D (expand (out @ slice xs p L) D M))
           (emit xs p buf q q1 L M D D_prev)"
proof -
  have ok: "literals_ok xs p L buf q q1 (long_literals lzvn_copy64 xs p buf q q1 L)"
    by (rule copy64.long_literals_ok) (use p q in auto)
  then obtain r where r: "long_literals lzvn_copy64 xs p buf q q1 L = Some r"
    by (cases "long_literals lzvn_copy64 xs p buf q q1 L") auto
  show ?thesis
  proof (cases r)
    case (Out_full b)
    then show ?thesis using ok r by (simp add: emit_def)
  next
    case (Emitted b p' q' L')
    then obtain as where as: "frame b buf q q1" "L' \<le> 15" "p \<le> p'" "p' + L' = p + L" "q' \<le> q1" "adds buf q b q' as"
        "\<And>D out. decodes as D out D (out @ slice xs p (p' - p))"
      using ok r by auto
    have lb: "length b = length buf" using as(1) by (rule frame_length)
    have sl: "slice xs p L = slice xs p (p' - p) @ slice xs p' L'"
      using slice_add [of xs p "p' - p" L'] as(3,4) by simp
    have n: "length (slice xs p (p' - p)) = p' - p" using as(3,4) p by simp
    let ?Q = "\<lambda>k l bs. \<forall>out. D \<le> length out + l \<longrightarrow> decodes bs D_prev out D (expand (out @ slice xs k l) D M)"
    have glue: "emitted buf q q1 (?Q p L) (emit xs p buf q q1 L M D D_prev)"
      if "emitted b q' q1 (?Q p' L') (emit xs p buf q q1 L M D D_prev)"
    proof (rule emitted_after [OF that as(1,6)])
      fix bs assume bs: "?Q p' L' bs"
      have "decodes (as @ bs) D_prev out D (expand (out @ slice xs p L) D M)" if "D \<le> length out + L" for out
        using decodes_append [OF as(7) bs [rule_format, of "out @ slice xs p (p' - p)"]] that n sl as(3,4) by simp
      then show "?Q p L (as @ bs)" by blast
    qed
    consider "L' \<le> 3" | "3 < L'" "q' + L' + 10 \<ge> q1" | "3 < L'" "\<not> q' + L' + 10 \<ge> q1" by linarith
    then show ?thesis
    proof cases
      case 1
      then have "emit xs p buf q q1 L M D D_prev = emit_short xs p' b q' q1 L' M D D_prev"
        using r Emitted by (simp add: emit_def)
      then show ?thesis
        using glue emit_short_ok [OF 1 M D, of p' xs q' q1 b D_prev] as p q lb by simp
    next
      case 2
      then have "emit xs p buf q q1 L M D D_prev = Some (b, q1)" using r Emitted by (simp add: emit_def)
      then show ?thesis using as(1) by simp
    next
      case 3
      let ?lits = "slice xs p' L'" and ?op = "[of_nat (0xE0 + L')] :: byte list"
      obtain b1 where b1: "store b 0 q1 q' ?op = Some b1" "frame b1 b q' q1" "adds b q' b1 (q' + 1) ?op"
        using store_adds [of q' ?op q1 b] 3 lb q by auto
      obtain b2 where b2: "lzvn_copy64 b1 q1 xs p' (q' + 1) L' = Some (b2, q' + 1 + L')" "frame b2 b1 (q' + 1) q1"
          "adds b1 (q' + 1) b2 (q' + 1 + L') ?lits"
        using copy64.cp_ok [of "q' + 1" L' q1 p' xs b1] 3 as(3,4) p q lb frame_length [OF b1(2)] by auto
      have f2: "frame b2 b q' q1" by (rule frame_split [OF b2(2) b1(2)]) simp
      have e: "emit xs p buf q q1 L M D D_prev = emit_short xs (p' + L') b2 (q' + 1 + L') q1 0 M D D_prev"
        using r Emitted 3 b1(1) b2(1) by (simp add: emit_def del: of_nat_add)
      have ll: "length ?lits = L'" using as(3,4) p by simp
      then have d: "decodes (?op @ ?lits) E out E (out @ ?lits)" for E out
        using instr_literal [of ?lits E out] 3 as(2) by simp
      have "emitted b2 (q' + 1 + L') q1 (?Q (p' + L') 0) (emit xs p buf q q1 L M D D_prev)"
        unfolding e by (rule emit_short_ok) (use M D p q 3 as(3,4) frame_length [OF f2] lb in auto)
      then have "emitted b q' q1 (?Q p' L') (emit xs p buf q q1 L M D D_prev)"
      proof (rule emitted_after [OF _ f2 adds_trans [OF b1(3) b2(3)]])
        fix bs assume bs: "?Q (p' + L') 0 bs"
        have "decodes ((?op @ ?lits) @ bs) D_prev out D (expand (out @ ?lits) D M)" if "D \<le> length out + L'" for out
          using decodes_append [OF d bs [rule_format, of "out @ ?lits"]] that ll by simp
        then show "?Q p' L' ((?op @ ?lits) @ bs)" by blast
      qed
      then show ?thesis by (rule glue)
    qed
  qed
qed

section \<open>True matches\<close>

lemma expand_true:
  assumes "\<And>k. k < M \<Longrightarrow> xs ! (b + k) = xs ! (b + k - D)" "0 < D" "D \<le> b" "b + M \<le> length xs"
  shows "expand (take b xs) D M = take (b + M) xs"
  using assms
proof (induction M)
  case (Suc M)
  then have IH: "expand (take b xs) D M = take (b + M) xs" by simp
  have "take (b + M) xs ! (b + M - D) = xs ! (b + M)"
    using Suc.prems(1) [of M] Suc.prems(2-4) by simp
  then show ?case
    using IH Suc.prems(4) take_Suc_conv_app_nth [of "b + M" xs] by (simp add: Let_def)
qed simp

lemma ctz_dvd: "2 ^ ctz x dvd x"
proof (induction x rule: ctz.induct)
  case (1 x)
  then show ?case
  proof (cases "x = 0 \<or> odd x")
    case False
    then obtain y where y: "x = 2 * y" by (auto elim: evenE)
    then show ?thesis using 1 False by (simp add: ctz.simps [of "2 * y"])
  qed (auto simp: ctz.simps [of x])
qed

lemma trailing_zero_le: "trailing_zero_bytes x \<le> 4"
proof (cases "x = 0")
  case False
  then have pos: "0 < unat x" by (simp add: unat_gt_0)
  have "2 ^ ctz (unat x) \<le> unat x" by (rule dvd_imp_le [OF ctz_dvd pos])
  also have "unat x < 2 ^ 32" using unsigned_less [of x] by simp
  finally have "ctz (unat x) < 32" by (rule power_less_imp_less_exp [rotated]) simp
  then have "ctz (unat x) div 8 \<le> 4" by simp
  then show ?thesis by (simp add: trailing_zero_bytes_def)
qed (simp add: trailing_zero_bytes_def)

lemma le_val_nth: "k < length bs \<Longrightarrow> unat (bs ! k) = le_val bs div 256 ^ k mod 256"
proof (induction bs arbitrary: k)
  case (Cons b bs)
  show ?case
  proof (cases k)
    case (Suc j)
    have "(unat b + 256 * le_val bs) div (256 * 256 ^ j) = (unat b + 256 * le_val bs) div 256 div 256 ^ j"
      by (rule div_mult2_eq)
    also have "(unat b + 256 * le_val bs) div 256 = le_val bs" by simp
    finally show ?thesis using Suc Cons by simp
  qed simp
qed simp

lemma xor_zero_eq: "(a XOR b = 0) = (a = (b :: 'a::len word))"
  by (auto simp: bit_eq_iff bit_simps)

lemma digit_mod: "(x :: nat) mod 256 ^ Suc k div 256 ^ k = x div 256 ^ k mod 256"
  by (simp add: mod_mult2_eq mult.commute [of 256])

lemma trailing_zero_match:
  fixes bs cs :: "byte list"
  assumes len: "length bs = 4" "length cs = 4"
    and k: "int k < trailing_zero_bytes (of_nat (le_val bs) XOR of_nat (le_val cs))"
  shows "bs ! k = cs ! k"
proof -
  let ?v = "of_nat (le_val bs) :: u32" and ?w = "of_nat (le_val cs) :: u32"
  have k4: "k < 4" using k trailing_zero_le [of "?v XOR ?w"] by linarith
  have uv: "unat ?v = le_val bs" "unat ?w = le_val cs"
    using le_val_less [of bs] le_val_less [of cs] len by (simp_all add: unat_of_nat)
  have "take_bit (8 * Suc k) (?v XOR ?w) = 0"
  proof (cases "?v XOR ?w = 0")
    case False
    then have "8 * Suc k \<le> ctz (unat (?v XOR ?w))" using k by (simp add: trailing_zero_bytes_def)
    then have "2 ^ (8 * Suc k) dvd unat (?v XOR ?w)"
      using ctz_dvd [of "unat (?v XOR ?w)"] by (meson dvd_trans le_imp_power_dvd)
    then have "unat (take_bit (8 * Suc k) (?v XOR ?w)) = 0" by (simp only: unat_take_bit dvd_imp_mod_0)
    then show ?thesis by (simp only: unat_eq_0)
  qed simp
  then have "take_bit (8 * Suc k) ?v = take_bit (8 * Suc k) ?w"
    by (simp only: take_bit_xor xor_zero_eq)
  then have "unat (take_bit (8 * Suc k) ?v) = unat (take_bit (8 * Suc k) ?w)" by (rule arg_cong)
  then have "le_val bs mod 256 ^ Suc k = le_val cs mod 256 ^ Suc k"
    unfolding unat_take_bit uv by (simp only: power_mult) simp
  then have "le_val bs div 256 ^ k mod 256 = le_val cs div 256 ^ k mod 256"
    by (metis digit_mod)
  then show ?thesis
    using le_val_nth [of k bs] le_val_nth [of k cs] k4 len by (simp add: word_unat_eq_iff)
qed

text \<open>\<open>repeats xs D a e\<close>: from \<open>a\<close> to \<open>e\<close> every byte equals the one \<open>D\<close> places before.\<close>

definition repeats :: "byte list \<Rightarrow> int \<Rightarrow> int \<Rightarrow> int \<Rightarrow> bool" where
  "repeats xs D a e \<longleftrightarrow> (\<forall>k. a \<le> k \<and> k < e \<longrightarrow> xs ! nat k = xs ! nat (k - D))"

lemma repeats_join: "repeats xs D a b \<Longrightarrow> repeats xs D b c \<Longrightarrow> repeats xs D a c"
  unfolding repeats_def by (meson not_le)

lemma nmatch4_ok:
  assumes "0 \<le> i" "i + 4 \<le> int (length xs)" "0 \<le> j" "j + 4 \<le> int (length xs)"
  shows "\<exists>n. nmatch4 xs i j = Some n \<and> 0 \<le> n \<and> n \<le> 4 \<and> repeats xs (i - j) i (i + n)"
proof -
  let ?bs = "slice xs (nat i) 4" and ?cs = "slice xs (nat j) 4"
  let ?n = "trailing_zero_bytes (of_nat (le_val ?bs) XOR of_nat (le_val ?cs))"
  have i: "nat i + 4 \<le> length xs" and j: "nat j + 4 \<le> length xs" using assms by linarith+
  then have e: "nmatch4 xs i j = Some ?n"
    using assms by (simp add: nmatch4_def src4_def load4_def load_def)
  have n: "?n \<le> 4" by (rule trailing_zero_le)
  have "xs ! nat k = xs ! nat (k - (i - j))" if "i \<le> k" "k < i + ?n" for k
  proof -
    have m: "nat (k - i) < 4" using that n by linarith
    have "?bs ! nat (k - i) = ?cs ! nat (k - i)"
      by (rule trailing_zero_match) (use that i j in simp_all)
    then have "xs ! (nat i + nat (k - i)) = xs ! (nat j + nat (k - i))"
      using nth_slice [OF m i] nth_slice [OF m j] by simp
    moreover have "nat i + nat (k - i) = nat k" "nat j + nat (k - i) = nat (k - (i - j))"
      using that assms by linarith+
    ultimately show ?thesis by simp
  qed
  then show ?thesis using e n trailing_zero_nonneg by (auto simp: repeats_def)
qed

lemma expand_forward_ok:
  assumes "0 < D" "D \<le> a" "a \<le> m" "m \<le> int (length xs)" "repeats xs D a m"
  shows "\<exists>e. expand_forward xs (int (length xs)) D n m = Some e \<and> m \<le> e \<and> e \<le> int (length xs) \<and> repeats xs D a e"
  using assms
proof (induction xs "int (length xs)" D n m rule: expand_forward.induct)
  case (1 xs D n m)
  show ?case
  proof (cases "n = 4 \<and> m + 4 < int (length xs)")
    case True
    obtain n' where n': "nmatch4 xs m (m - D) = Some n'" "0 \<le> n'" "n' \<le> 4" "repeats xs (m - (m - D)) m (m + n')"
      using nmatch4_ok [of m xs "m - D"] True 1 by auto
    have "repeats xs D a (m + n')" using repeats_join [OF \<open>repeats xs D a m\<close>] n'(4) by simp
    then obtain e where "expand_forward xs (int (length xs)) D n' (m + n') = Some e" "m + n' \<le> e"
        "e \<le> int (length xs)" "repeats xs D a e"
      using 1(1) [OF True n'(1)] 1 True n' by auto
    moreover have "expand_forward xs (int (length xs)) D n m = expand_forward xs (int (length xs)) D n' (m + n')"
      using True n'(1) by (subst expand_forward.simps) simp
    ultimately show ?thesis using n'(2) by auto
  next
    case False
    then have "expand_forward xs (int (length xs)) D n m = Some m" by (auto simp: expand_forward.simps [of xs _ D n m])
    then show ?thesis using 1 by simp
  qed
qed

lemma expand_backwards_ok:
  assumes "0 < D" "m0 = m - D" "0 \<le> m0" "l \<le> m" "m \<le> int (length xs)" "repeats xs D m e"
  shows "\<exists>b. expand_backwards xs 0 l m0 m = Some b \<and> l \<le> b \<and> b \<le> m \<and> D \<le> b \<and> repeats xs D b e"
  using assms
proof (induction xs "0 :: int" l m0 m rule: expand_backwards.induct)
  case (1 xs l m0 m)
  show ?case
  proof (cases "m0 > 0 \<and> m > l")
    case True
    have a: "src1 xs (m - 1) = Some (xs ! nat (m - 1))" "src1 xs (m0 - 1) = Some (xs ! nat (m0 - 1))"
      using True 1(2-6) by (simp_all add: src1_def load1_def nat_less_iff)
    show ?thesis
    proof (cases "xs ! nat (m - 1) = xs ! nat (m0 - 1)")
      case eq: True
      have "k = m - 1" if "m - 1 \<le> k" "k < m" for k using that by linarith
      then have "repeats xs D (m - 1) m" using eq 1(3) unfolding repeats_def by (metis diff_right_commute)
      then have "repeats xs D (m - 1) e" by (rule repeats_join) (rule 1(7))
      then obtain b where "expand_backwards xs 0 l (m0 - 1) (m - 1) = Some b" "l \<le> b" "b \<le> m - 1" "D \<le> b" "repeats xs D b e"
        using 1(1) [OF True a] eq True 1(2-6) by auto
      then show ?thesis using True a eq by (auto simp: expand_backwards.simps [of xs 0 l m0 m])
    next
      case False
      then have "expand_backwards xs 0 l m0 m = Some m" using True a by (simp add: expand_backwards.simps [of xs 0 l m0 m])
      then show ?thesis using 1(2-7) by simp
    qed
  next
    case False
    then have "expand_backwards xs 0 l m0 m = Some m" by (auto simp: expand_backwards.simps [of xs 0 l m0 m])
    then show ?thesis using 1(2-7) by simp
  qed
qed

text \<open>A match the encoder may emit behind the position \<open>l\<close>.\<close>

definition valid_match :: "byte list \<Rightarrow> int \<Rightarrow> int \<Rightarrow> lzvn_match_info \<Rightarrow> bool" where
  "valid_match xs l c m \<longleftrightarrow>
     match_M m = match_end m - match_begin m \<and> 3 \<le> match_M m \<and> 0 < match_D m \<and> match_D m \<le> LZVN_ENCODE_MAX_DISTANCE \<and>
     match_D m \<le> match_begin m \<and> l \<le> match_begin m \<and> match_begin m \<le> c \<and> match_end m \<le> int (length xs) \<and>
     repeats xs (match_D m) (match_begin m) (match_end m)"

lemma find_matchN_ok:
  assumes "n \<le> 4" "0 \<le> l" "l \<le> m" "m + 4 \<le> int (length xs)"
    and "3 \<le> n \<Longrightarrow> 0 < m - m0 \<Longrightarrow> m - m0 \<le> LZVN_ENCODE_MAX_DISTANCE \<Longrightarrow> 0 \<le> m0 \<and> repeats xs (m - m0) m (m + n)"
  shows "\<exists>r. lzvn_find_matchN xs 0 (int (length xs)) l m0 m n = Some r \<and> (\<forall>i. r = Some i \<longrightarrow> valid_match xs l m i)"
proof (cases "3 \<le> n \<and> 0 < m - m0 \<and> m - m0 \<le> LZVN_ENCODE_MAX_DISTANCE")
  case False
  then show ?thesis by (auto simp: lzvn_find_matchN_def Let_def not_less)
next
  case True
  let ?D = "m - m0"
  have m0: "0 \<le> m0" "repeats xs ?D m (m + n)" using True assms(5) by auto
  obtain e where e: "expand_forward xs (int (length xs)) ?D n (m + n) = Some e" "m + n \<le> e" "e \<le> int (length xs)" "repeats xs ?D m e"
    using expand_forward_ok [of ?D m "m + n" xs n] True assms m0 by auto
  obtain b where b: "expand_backwards xs 0 l m0 m = Some b" "l \<le> b" "b \<le> m" "?D \<le> b" "repeats xs ?D b e"
    using expand_backwards_ok [of ?D m0 m l xs e] True assms m0 e(4) by auto
  show ?thesis
    using True e b by (auto simp: lzvn_find_matchN_def Let_def valid_match_def not_less)
qed

lemma find_match_ok:
  assumes "0 \<le> l" "l \<le> m" "m + 4 \<le> int (length xs)" "0 \<le> m0" "m0 \<le> m"
  shows "\<exists>r. lzvn_find_match xs 0 (int (length xs)) l m0 m = Some r \<and> (\<forall>i. r = Some i \<longrightarrow> valid_match xs l m i)"
proof -
  obtain n where n: "nmatch4 xs m m0 = Some n" "0 \<le> n" "n \<le> 4" "repeats xs (m - m0) m (m + n)"
    using nmatch4_ok [of m xs m0] assms by auto
  have "lzvn_find_match xs 0 (int (length xs)) l m0 m = lzvn_find_matchN xs 0 (int (length xs)) l m0 m n"
    using n(1) by (simp add: lzvn_find_match_def lzvn_find_matchN_def)
  then show ?thesis using find_matchN_ok [of n l m xs m0] n assms by simp
qed

section \<open>The encoder's invariant\<close>

text \<open>What is in the destination decodes to the source before \<open>src_literal\<close>.\<close>

definition enc_ok :: "lzvn_encoder_state \<Rightarrow> bool" where
  "enc_ok st \<longleftrightarrow>
     en_src_begin st = 0 \<and> en_src_end st = int (length (en_src st)) \<and> length (en_src st) < 2 ^ 32 \<and>
     0 \<le> en_src_literal st \<and> en_src_literal st \<le> int (length (en_src st)) \<and>
     en_dst st \<le> en_dst_end st \<and> en_dst_end st \<le> length (en_buf st) \<and>
     0 \<le> en_d_prev st \<and> en_d_prev st \<le> en_src_literal st \<and>
     decodes (take (en_dst st) (en_buf st)) 0 [] (nat (en_d_prev st)) (take (nat (en_src_literal st)) (en_src st))"

definition same_input :: "lzvn_encoder_state \<Rightarrow> lzvn_encoder_state \<Rightarrow> bool" where
  "same_input st st' \<longleftrightarrow>
     en_src st' = en_src st \<and> en_src_current st' = en_src_current st \<and> en_src_current_end st' = en_src_current_end st \<and>
     en_dst_end st' = en_dst_end st \<and> length (en_buf st') = length (en_buf st) \<and> en_table st' = en_table st"

lemma take_slice: "take l xs @ slice xs l n = take (l + n) xs"
  by (simp add: slice_def take_add)

lemma frame_take: "frame b buf q e \<Longrightarrow> q \<le> length buf \<Longrightarrow> take q b = take q buf"
  using frame_slice [of b buf q e 0 q] by (simp add: slice_def)

lemma valid_match_expand:
  assumes "valid_match xs l c m"
  shows "expand (take (nat (match_begin m)) xs) (nat (match_D m)) (nat (match_M m)) = take (nat (match_end m)) xs"
proof -
  have v: "match_M m = match_end m - match_begin m" "0 < match_D m" "match_D m \<le> match_begin m" "0 \<le> match_M m"
      "match_end m \<le> int (length xs)" "repeats xs (match_D m) (match_begin m) (match_end m)"
    using assms by (auto simp: valid_match_def)
  have "xs ! (nat (match_begin m) + k) = xs ! (nat (match_begin m) + k - nat (match_D m))" if "k < nat (match_M m)" for k
  proof -
    have "match_begin m \<le> match_begin m + int k" "match_begin m + int k < match_end m" using that v(1) by linarith+
    then have "xs ! nat (match_begin m + int k) = xs ! nat (match_begin m + int k - match_D m)"
      using v(6) unfolding repeats_def by blast
    moreover have "nat (match_begin m + int k) = nat (match_begin m) + k"
        "nat (match_begin m + int k - match_D m) = nat (match_begin m) + k - nat (match_D m)"
      using v(2,3) by linarith+
    ultimately show ?thesis by simp
  qed
  then have "expand (take (nat (match_begin m)) xs) (nat (match_D m)) (nat (match_M m)) = take (nat (match_begin m) + nat (match_M m)) xs"
    by (rule expand_true) (use v in linarith)+
  moreover have "nat (match_begin m) + nat (match_M m) = nat (match_end m)" using v by linarith
  ultimately show ?thesis by simp
qed

lemma emit_match_ok:
  assumes ok: "enc_ok st" and m: "valid_match (en_src st) (en_src_literal st) (int (length (en_src st)) - 7) m"
  shows "\<exists>st' b. lzvn_emit_match st m = Some (st', b) \<and> enc_ok st' \<and> same_input st st' \<and> en_pending st' = en_pending st \<and>
           en_src_literal st' = (if b then match_end m else en_src_literal st)"
proof -
  let ?xs = "en_src st" and ?p = "nat (en_src_literal st)" and ?L = "nat (match_begin m - en_src_literal st)"
  let ?M = "nat (match_M m)" and ?D = "nat (match_D m)" and ?q = "en_dst st" and ?q1 = "en_dst_end st" and ?buf = "en_buf st"
  have v: "3 \<le> match_M m" "0 < match_D m" "match_D m \<le> 65535" "match_D m \<le> match_begin m" "en_src_literal st \<le> match_begin m"
      "match_begin m \<le> int (length ?xs) - 7" "match_end m \<le> int (length ?xs)" "match_begin m \<le> match_end m"
    using m by (auto simp: valid_match_def LZVN_ENCODE_MAX_DISTANCE_def)
  have st: "0 \<le> en_src_literal st" "?q \<le> ?q1" "?q1 \<le> length ?buf" using ok by (auto simp: enc_ok_def)
  have pL: "?p + ?L = nat (match_begin m)" using v st by linarith
  have em: "emitted ?buf ?q ?q1 (\<lambda>bs. \<forall>out. ?D \<le> length out + ?L \<longrightarrow>
      decodes bs (nat (en_d_prev st)) out ?D (expand (out @ slice ?xs ?p ?L) ?D ?M))
      (emit ?xs ?p ?buf ?q ?q1 ?L ?M ?D (nat (en_d_prev st)))"
    by (rule emit_ok) (use v st pL in linarith)+
  then obtain b q' where e: "emit ?xs ?p ?buf ?q ?q1 ?L ?M ?D (nat (en_d_prev st)) = Some (b, q')"
      and f: "frame b ?buf ?q ?q1" and q': "q' \<le> ?q1"
    by (cases "emit ?xs ?p ?buf ?q ?q1 ?L ?M ?D (nat (en_d_prev st))") auto
  have lb: "length b = length ?buf" using f by (rule frame_length)
  show ?thesis
  proof (cases "q' \<ge> ?q1")
    case True
    have "take ?q b = take ?q ?buf" by (rule frame_take [OF f]) (use st in simp)
    then show ?thesis
      using True ok e lb by (auto simp: lzvn_emit_match_def enc_ok_def same_input_def)
  next
    case False
    then obtain bs where a: "adds ?buf ?q b q' bs"
        and d: "\<And>out. ?D \<le> length out + ?L \<Longrightarrow> decodes bs (nat (en_d_prev st)) out ?D (expand (out @ slice ?xs ?p ?L) ?D ?M)"
      using em e by auto
    have len: "length (take ?p ?xs) = ?p" using v st by simp
    have "take ?p ?xs @ slice ?xs ?p ?L = take (nat (match_begin m)) ?xs"
      by (simp only: take_slice pL)
    then have "decodes bs (nat (en_d_prev st)) (take ?p ?xs) ?D (take (nat (match_end m)) ?xs)"
      using d [of "take ?p ?xs"] len pL v valid_match_expand [OF m] by simp
    moreover have "take q' b = take ?q ?buf @ bs" using a by (auto simp: adds_def)
    ultimately have "decodes (take q' b) 0 [] ?D (take (nat (match_end m)) ?xs)"
      using decodes_append ok by (auto simp: enc_ok_def)
    then show ?thesis
      using False ok e lb v st by (auto simp: lzvn_emit_match_def enc_ok_def same_input_def)
  qed
qed

lemma emit_literals_ok:
  assumes ok: "enc_ok st" and n: "0 \<le> n" "en_src_literal st + n \<le> int (length (en_src st))"
  shows "\<exists>st' b. lzvn_emit_literal st n = Some (st', b) \<and> enc_ok st' \<and> same_input st st' \<and> en_pending st' = en_pending st \<and>
           en_src_literal st' = (if b then en_src_literal st + n else en_src_literal st)"
proof -
  let ?xs = "en_src st" and ?p = "nat (en_src_literal st)" and ?q = "en_dst st" and ?q1 = "en_dst_end st" and ?buf = "en_buf st"
  have st: "0 \<le> en_src_literal st" "?q \<le> ?q1" "?q1 \<le> length ?buf" using ok by (auto simp: enc_ok_def)
  have em: "emitted ?buf ?q ?q1 (\<lambda>bs. \<forall>D out. decodes bs D out D (out @ slice ?xs ?p (nat n))) (emit_literal ?xs ?p ?buf ?q ?q1 (nat n))"
    by (rule emit_literal_ok) (use n st in linarith)+
  then obtain b q' where e: "emit_literal ?xs ?p ?buf ?q ?q1 (nat n) = Some (b, q')"
      and f: "frame b ?buf ?q ?q1" and q': "q' \<le> ?q1"
    by (cases "emit_literal ?xs ?p ?buf ?q ?q1 (nat n)") auto
  have lb: "length b = length ?buf" using f by (rule frame_length)
  show ?thesis
  proof (cases "q' \<ge> ?q1")
    case True
    have "take ?q b = take ?q ?buf" by (rule frame_take [OF f]) (use st in simp)
    then show ?thesis
      using True ok e lb by (auto simp: lzvn_emit_literal_def enc_ok_def same_input_def)
  next
    case False
    then obtain bs where a: "adds ?buf ?q b q' bs" and d: "\<And>D out. decodes bs D out D (out @ slice ?xs ?p (nat n))"
      using em e by auto
    have "take ?p ?xs @ slice ?xs ?p (nat n) = take (nat (en_src_literal st + n)) ?xs"
      using n st by (simp add: take_slice nat_add_distrib)
    moreover have "take q' b = take ?q ?buf @ bs" using a by (auto simp: adds_def)
    ultimately have "decodes (take q' b) 0 [] (nat (en_d_prev st)) (take (nat (en_src_literal st + n)) ?xs)"
      using decodes_append [OF _ d] ok by (metis enc_ok_def)
    then show ?thesis
      using False ok e lb n by (auto simp: lzvn_emit_literal_def enc_ok_def same_input_def)
  qed
qed

text \<open>A table entry names four places of the source and the bytes found there.  Places from
  \<open>2^31\<close> on are stored as negative indices, whose distance is never accepted.\<close>

definition entry_ok :: "byte list \<Rightarrow> int \<Rightarrow> lzvn_encode_entry_type \<Rightarrow> bool" where
  "entry_ok xs c e \<longleftrightarrow> length (indices e) = 4 \<and> length (entry_values e) = 4 \<and>
     (\<forall>k<4. \<exists>i. 0 \<le> i \<and> i \<le> c \<and> i + 4 \<le> int (length xs) \<and> indices e ! k = offset_to_s32 i \<and> src4 xs i = Some (entry_values e ! k))"

definition found :: "byte list \<Rightarrow> int \<Rightarrow> int \<Rightarrow> lzvn_match_info \<Rightarrow> bool" where
  "found xs l c m \<longleftrightarrow> match_M m = 0 \<or> valid_match xs l c m"

lemma s32_place:
  assumes "0 \<le> i" "i < 2 ^ 32" "i \<le> c" "c - offset_from_s32 (offset_to_s32 i) \<le> LZVN_ENCODE_MAX_DISTANCE"
  shows "offset_from_s32 (offset_to_s32 i) = i"
proof (cases "i < 2 ^ 31")
  case True
  then show ?thesis using assms(1)
    by (simp add: offset_from_s32_def offset_to_s32_def signed_of_int signed_take_bit_int_eq_self)
next
  case False
  have "signed_take_bit 31 i = signed_take_bit 31 (i - 2 ^ 32)"
    by (rule signed_take_bit_eq_iff_take_bit_eq [THEN iffD2]) (simp add: take_bit_eq_mod)
  also have "\<dots> = i - 2 ^ 32" by (rule signed_take_bit_int_eq_self) (use False assms(2) in auto)
  finally have "offset_from_s32 (offset_to_s32 i) = i - 2 ^ 32"
    by (simp add: offset_from_s32_def offset_to_s32_def signed_of_int)
  with assms show ?thesis by (simp add: LZVN_ENCODE_MAX_DISTANCE_def)
qed

lemma src4_some: "0 \<le> i \<Longrightarrow> i + 4 \<le> int (length xs) \<Longrightarrow> \<exists>v. src4 xs i = Some v"
  by (simp add: src4_def load4_def load_def)

lemma UPDATE_found: "found xs l c a \<Longrightarrow> found xs l c b \<Longrightarrow> found xs l c (UPDATE a b)"
  by (simp add: UPDATE_def)

lemma valid_match_K: "valid_match xs l c (m\<lparr>match_K := k\<rparr>) = valid_match xs l c m"
  by (simp add: valid_match_def)

lemma entry_candidate_ok:
  assumes ok: "enc_ok st" and e: "entry_ok (en_src st) (en_src_current st) e" and k: "k < 4"
    and c: "en_src_literal st \<le> en_src_current st" "en_src_current st + 4 \<le> int (length (en_src st))"
    and vi: "src4 (en_src st) (en_src_current st) = Some vi"
    and m: "found (en_src st) (en_src_literal st) (en_src_current st) m"
  shows "\<exists>m'. entry_candidate st e vi k m = Some m' \<and> found (en_src st) (en_src_literal st) (en_src_current st) m'"
proof -
  let ?xs = "en_src st" and ?l = "en_src_literal st" and ?c = "en_src_current st"
  have st: "en_src_begin st = 0" "en_src_end st = int (length ?xs)" "length ?xs < 2 ^ 32" "0 \<le> ?l"
    using ok by (auto simp: enc_ok_def)
  obtain i where i: "0 \<le> i" "i \<le> ?c" "i + 4 \<le> int (length ?xs)" "indices e ! k = offset_to_s32 i" "src4 ?xs i = Some (entry_values e ! k)"
    using e k by (auto simp: entry_ok_def)
  let ?n = "trailing_zero_bytes (entry_values e ! k XOR vi)" and ?i = "offset_from_s32 (offset_to_s32 i)"
  have nm: "nmatch4 ?xs ?c i = Some ?n" using vi i(5) by (simp add: nmatch4_def xor.commute)
  have "0 \<le> ?i \<and> repeats ?xs (?c - ?i) ?c (?c + ?n)" if "?c - ?i \<le> LZVN_ENCODE_MAX_DISTANCE"
  proof -
    have "i < 2 ^ 32" using i(3) st(3) by simp
    from s32_place [OF i(1) this i(2) that] show ?thesis
      using nmatch4_ok [of ?c ?xs i] nm i c st(4) by auto
  qed
  then obtain r where r: "lzvn_find_matchN ?xs 0 (int (length ?xs)) ?l ?i ?c ?n = Some r" "\<forall>m. r = Some m \<longrightarrow> valid_match ?xs ?l ?c m"
    using find_matchN_ok [of ?n ?l ?c ?xs ?i] trailing_zero_le c st(4) by blast
  then show ?thesis
    using m st UPDATE_found [OF m]
    by (cases r) (auto simp: entry_candidate_def CHECK_CANDIDATE_def i(4) found_def)
qed

lemma best_candidate_ok:
  assumes ok: "enc_ok st" and e: "entry_ok (en_src st) (en_src_current st) e"
    and c: "en_src_literal st \<le> en_src_current st" "en_src_current st + 4 \<le> int (length (en_src st))"
    and vi: "src4 (en_src st) (en_src_current st) = Some vi"
  shows "\<exists>m. best_candidate st e vi = Some m \<and> found (en_src st) (en_src_literal st) (en_src_current st) m"
proof -
  let ?found = "found (en_src st) (en_src_literal st) (en_src_current st)"
  note step = entry_candidate_ok [OF ok e _ c vi]
  have "?found NO_MATCH" by (simp add: found_def NO_MATCH_def)
  then obtain m0 where m0: "entry_candidate st e vi 0 NO_MATCH = Some m0" "?found m0" using step [of 0] by auto
  obtain m1 where m1: "entry_candidate st e vi 1 m0 = Some m1" "?found m1" using step [OF _ m0(2), of 1] by auto
  obtain m2 where m2: "entry_candidate st e vi 2 m1 = Some m2" "?found m2" using step [OF _ m1(2), of 2] by auto
  obtain m3 where m3: "entry_candidate st e vi 3 m2 = Some m3" "?found m3" using step [OF _ m2(2), of 3] by auto
  have st: "en_src_begin st = 0" "en_src_end st = int (length (en_src st))" "0 \<le> en_src_literal st"
      "0 \<le> en_d_prev st" "en_d_prev st \<le> en_src_literal st"
    using ok by (auto simp: enc_ok_def)
  obtain r where r: "lzvn_find_match (en_src st) 0 (int (length (en_src st))) (en_src_literal st)
      (en_src_current st - en_d_prev st) (en_src_current st) = Some r"
      "\<forall>m. r = Some m \<longrightarrow> valid_match (en_src st) (en_src_literal st) (en_src_current st) m"
    using find_match_ok [of "en_src_literal st" "en_src_current st" "en_src st" "en_src_current st - en_d_prev st"] c st by auto
  have "\<exists>m. previous_candidate st m3 = Some m \<and> ?found m"
    using r m3(2) st UPDATE_found [OF m3(2)]
    by (cases r) (auto simp: previous_candidate_def found_def valid_match_K)
  then show ?thesis using m0 m1 m2 m3 by (auto simp: best_candidate_def)
qed

definition step_inv :: "lzvn_encoder_state \<Rightarrow> bool" where
  "step_inv st \<longleftrightarrow> enc_ok st \<and> 0 \<le> en_src_current st \<and> en_src_current_end st + 8 \<le> int (length (en_src st)) \<and>
     found (en_src st) (en_src_literal st) (int (length (en_src st)) - 7) (en_pending st) \<and>
     (\<forall>h. entry_ok (en_src st) (en_src_current st) (en_table st h))"

lemma found_mono: "found xs l c m \<Longrightarrow> c \<le> c' \<Longrightarrow> l' \<le> l \<Longrightarrow> found xs l' c' m"
  by (auto simp: found_def valid_match_def)

lemma emit_pending_ok:
  assumes ok: "enc_ok st" and m: "valid_match (en_src st) (en_src_literal st) (int (length (en_src st)) - 7) (en_pending st)"
  shows "\<exists>st' b. emit_pending st nxt = Some (st', b) \<and> enc_ok st' \<and> same_input st st' \<and>
           (b \<longrightarrow> en_src_literal st' = match_end (en_pending st) \<and> en_pending st' = nxt)"
proof -
  obtain st' b where st': "lzvn_emit_match st (en_pending st) = Some (st', b)" "enc_ok st'" "same_input st st'"
      "en_src_literal st' = (if b then match_end (en_pending st) else en_src_literal st)"
    using emit_match_ok [OF ok m] by blast
  have "enc_ok (st'\<lparr>en_pending := nxt\<rparr>)" using st'(2) by (simp add: enc_ok_def)
  then show ?thesis using st' by (auto simp: emit_pending_def same_input_def)
qed

lemma emit_at_ok:
  assumes inv: "step_inv st" and c: "en_src_literal st \<le> en_src_current st" "en_src_current st + 8 \<le> int (length (en_src st))"
    and m: "found (en_src st) (en_src_literal st) (en_src_current st) m"
  shows "\<exists>st' b. emit_at st m = Some (st', b) \<and> enc_ok st' \<and> same_input st st' \<and>
           (b \<longrightarrow> found (en_src st') (en_src_literal st') (int (length (en_src st')) - 7) (en_pending st'))"
proof -
  let ?lim = "int (length (en_src st)) - 7"
  have ok: "enc_ok st" and p: "found (en_src st) (en_src_literal st) ?lim (en_pending st)"
    using inv by (auto simp: step_inv_def)
  have m': "found (en_src st) (en_src_literal st) ?lim m" by (rule found_mono [OF m]) (use c in auto)
  have none: "found xs l c' NO_MATCH" for xs l c' by (simp add: found_def NO_MATCH_def)
  have ok_pend: "enc_ok (st\<lparr>en_pending := x\<rparr>)" for x using ok by (simp add: enc_ok_def)
  consider (none) "match_M m = 0" "\<not> en_src_current st - en_src_literal st \<ge> LZVN_ENCODE_MAX_LITERAL_BACKLOG"
    | (pending) "match_M m = 0" "en_src_current st - en_src_literal st \<ge> LZVN_ENCODE_MAX_LITERAL_BACKLOG" "match_M (en_pending st) \<noteq> 0"
    | (lits) "match_M m = 0" "en_src_current st - en_src_literal st \<ge> LZVN_ENCODE_MAX_LITERAL_BACKLOG" "match_M (en_pending st) = 0"
    | (keep) "match_M m \<noteq> 0" "match_M (en_pending st) = 0"
    | (apart) "match_M m \<noteq> 0" "match_M (en_pending st) \<noteq> 0" "match_end (en_pending st) \<le> match_begin m"
    | (overlap) "match_M m \<noteq> 0" "match_M (en_pending st) \<noteq> 0" "\<not> match_end (en_pending st) \<le> match_begin m"
    by blast
  then show ?thesis
  proof cases
    case none
    then show ?thesis using ok p by (auto simp: emit_at_def same_input_def)
  next
    case pending
    then obtain st' b where "emit_pending st NO_MATCH = Some (st', b)" "enc_ok st'" "same_input st st'" "b \<longrightarrow> en_pending st' = NO_MATCH"
      using emit_pending_ok [OF ok, of NO_MATCH] p by (auto simp: found_def)
    then show ?thesis using pending none by (auto simp: emit_at_def)
  next
    case lits
    then obtain st' b where "lzvn_emit_literal st 271 = Some (st', b)" "enc_ok st'" "same_input st st'" "en_pending st' = en_pending st"
      using emit_literals_ok [OF ok, of 271] c by (auto simp: LZVN_ENCODE_MAX_LITERAL_BACKLOG_def)
    then show ?thesis using lits by (auto simp: emit_at_def found_def)
  next
    case keep
    then show ?thesis using ok_pend m' by (auto simp: emit_at_def same_input_def)
  next
    case apart
    obtain st' b where st': "emit_pending st m = Some (st', b)" "enc_ok st'" "same_input st st'"
        "b \<longrightarrow> en_src_literal st' = match_end (en_pending st) \<and> en_pending st' = m"
      using emit_pending_ok [OF ok, of m] p apart by (auto simp: found_def)
    have "valid_match (en_src st) (match_end (en_pending st)) ?lim m"
      using m' apart by (auto simp: found_def valid_match_def)
    then show ?thesis using st' apart by (auto simp: emit_at_def found_def same_input_def)
  next
    case overlap
    let ?st = "if match_K m > match_K (en_pending st) then st\<lparr>en_pending := m\<rparr> else st"
    have "enc_ok ?st" "valid_match (en_src ?st) (en_src_literal ?st) (int (length (en_src ?st)) - 7) (en_pending ?st)"
      using ok ok_pend m' p overlap by (auto simp: found_def)
    then obtain st' b where "emit_pending ?st NO_MATCH = Some (st', b)" "enc_ok st'" "same_input ?st st'" "b \<longrightarrow> en_pending st' = NO_MATCH"
      using emit_pending_ok [of ?st NO_MATCH] by blast
    moreover have "same_input ?st st' = same_input st st'" for st' by (simp add: same_input_def)
    moreover have "emit_at st m = emit_pending ?st NO_MATCH" using overlap by (simp add: emit_at_def)
    ultimately show ?thesis using none by auto
  qed
qed

lemma entry_ok_push:
  assumes e: "entry_ok xs c e" and c: "0 \<le> c" "c + 4 \<le> int (length xs)" "src4 xs c = Some v"
  shows "entry_ok xs (c + 1) (push_entry e (offset_to_s32 c) v)"
  unfolding entry_ok_def
proof (intro conjI allI impI)
  let ?e = "push_entry e (offset_to_s32 c) v"
  show "length (indices ?e) = 4" "length (entry_values ?e) = 4" using e by (auto simp: push_entry_def entry_ok_def)
  fix k :: nat assume k: "k < 4"
  show "\<exists>i. 0 \<le> i \<and> i \<le> c + 1 \<and> i + 4 \<le> int (length xs) \<and> indices ?e ! k = offset_to_s32 i \<and> src4 xs i = Some (entry_values ?e ! k)"
  proof (cases k)
    case 0
    then show ?thesis using c by (auto simp: push_entry_def)
  next
    case (Suc j)
    then have "j < 4" using k by simp
    then obtain i where "0 \<le> i" "i \<le> c" "i + 4 \<le> int (length xs)" "indices e ! j = offset_to_s32 i" "src4 xs i = Some (entry_values e ! j)"
      using e unfolding entry_ok_def by blast
    then show ?thesis using Suc k by (intro exI [of _ i]) (simp add: push_entry_def)
  qed
qed

lemma entry_ok_mono: "entry_ok xs c e \<Longrightarrow> c \<le> c' \<Longrightarrow> entry_ok xs c' e"
  by (fastforce simp: entry_ok_def)

lemma encode_step_ok:
  assumes inv: "step_inv st" and c: "en_src_current st < en_src_current_end st"
  shows "\<exists>st' b. encode_step st = Some (st', b) \<and> enc_ok st' \<and> en_src st' = en_src st \<and> en_dst_end st' = en_dst_end st \<and>
           length (en_buf st') = length (en_buf st) \<and> (b \<longrightarrow> step_inv st')"
proof -
  let ?xs = "en_src st" and ?c = "en_src_current st"
  have c8: "0 \<le> ?c" "?c + 8 \<le> int (length ?xs)" using inv c by (auto simp: step_inv_def)
  obtain vi where vi: "src4 ?xs ?c = Some vi" using src4_some [of ?c ?xs] c8 by auto
  let ?h = "unat (hash3i vi)"
  let ?e = "en_table st ?h"
  have e: "entry_ok ?xs ?c (en_table st h)" for h using inv by (auto simp: step_inv_def)
  define r where "r = (if ?c < en_src_literal st then Some (st, True)
      else do { incoming \<leftarrow> best_candidate st ?e vi; emit_at st incoming })"
  have "\<exists>st1 b. r = Some (st1, b) \<and> enc_ok st1 \<and> same_input st st1 \<and>
      (b \<longrightarrow> found (en_src st1) (en_src_literal st1) (int (length (en_src st1)) - 7) (en_pending st1))"
  proof (cases "?c < en_src_literal st")
    case True
    then show ?thesis using inv by (auto simp: r_def step_inv_def same_input_def)
  next
    case False
    then obtain m where "best_candidate st ?e vi = Some m" "found ?xs (en_src_literal st) ?c m"
      using best_candidate_ok [of st ?e vi] inv e [of ?h] vi c8 by (auto simp: step_inv_def)
    then show ?thesis using emit_at_ok [OF inv, of m] False c8 by (simp add: r_def)
  qed
  then obtain st1 b where st1: "r = Some (st1, b)" "enc_ok st1" "same_input st st1"
      "b \<longrightarrow> found (en_src st1) (en_src_literal st1) (int (length (en_src st1)) - 7) (en_pending st1)"
    by blast
  let ?st' = "st1\<lparr>en_table := (en_table st1)(?h := push_entry ?e (offset_to_s32 ?c) vi), en_src_current := en_src_current st1 + 1\<rparr>"
  have s: "encode_step st = Some (if b then (?st', True) else (st1, False))"
    using st1(1) by (simp add: encode_step_def vi Let_def r_def)
  have "step_inv ?st'" if b
    using that st1 inv c e entry_ok_push [OF e c8(1) _ vi, of ?h] c8 entry_ok_mono [OF e, of "?c + 1"]
    by (auto simp: step_inv_def same_input_def enc_ok_def)
  then show ?thesis
    using s st1 by (cases b) (auto simp: same_input_def enc_ok_def)
qed

lemma lzvn_encode_ok:
  "step_inv st \<Longrightarrow> \<exists>st'. lzvn_encode st = Some st' \<and> enc_ok st' \<and> en_src st' = en_src st \<and> en_dst_end st' = en_dst_end st \<and>
     length (en_buf st') = length (en_buf st)"
proof (induction st rule: lzvn_encode.induct)
  case (1 st)
  show ?case
  proof (cases "en_src_current st < en_src_current_end st")
    case True
    then obtain st' b where s: "encode_step st = Some (st', b)" "enc_ok st'" "en_src st' = en_src st" "en_dst_end st' = en_dst_end st"
        "length (en_buf st') = length (en_buf st)" "b \<longrightarrow> step_inv st'"
      using encode_step_ok [OF 1(2)] by blast
    then show ?thesis
      using 1(1) [OF True s(1) refl] True by (cases b) (auto simp: lzvn_encode.simps [of st])
  next
    case False
    then show ?thesis using 1(2) by (auto simp: lzvn_encode.simps [of st] step_inv_def)
  qed
qed

lemma init_table_ok:
  assumes "enc_ok st" "en_src_current st = 0" "8 \<le> length (en_src st)" "match_M (en_pending st) = 0"
    "en_src_current_end st = int (length (en_src st)) - 8"
  shows "\<exists>st'. lzvn_init_table st = Some st' \<and> step_inv st' \<and> en_src st' = en_src st \<and> en_dst_end st' = en_dst_end st \<and>
     length (en_buf st') = length (en_buf st)"
proof -
  obtain v where v: "src4 (en_src st) 0 = Some v" using src4_some [of 0 "en_src st"] assms(3) by auto
  let ?e = "\<lparr>indices = replicate 4 (offset_to_s32 0), entry_values = replicate 4 v\<rparr>"
  have "entry_ok (en_src st) 0 ?e" using v assms(3) by (auto simp: entry_ok_def)
  moreover have "lzvn_init_table st = Some (st\<lparr>en_table := (\<lambda>u. ?e)\<rparr>)"
    using v assms(1) by (simp add: lzvn_init_table_def enc_ok_def LZVN_ENCODE_MAX_DISTANCE_def)
  ultimately show ?thesis using assms by (simp add: step_inv_def enc_ok_def found_def)
qed

text \<open>The end-of-stream marker stops the decoder.\<close>

lemma end_marker: "lzvn_run_spec D (le_enc 8 6) out = (out, Finished)"
proof -
  have "le_enc 8 6 = [6, 0, 0, 0, 0, 0, 0, 0]" by code_simp
  then show ?thesis by (simp add: lzvn_run_spec.simps [of D] instr_of_def Let_def)
qed

lemma lzvn_encode_partial_stream:
  "\<exists>b n k. lzvn_encode_partial buf xs = Some (b, n, k) \<and> length b = length buf \<and> n \<le> length buf \<and> k \<le> length xs \<and>
     (8 \<le> length buf \<longrightarrow> (\<exists>bs D. take n b = bs @ le_enc 8 6 \<and> decodes bs 0 [] D (take k xs)))"
proof (cases "length buf < 8")
  case True
  then show ?thesis by (simp add: lzvn_encode_partial_def)
next
  case False
  let ?xs = "take LZVN_ENCODE_MAX_SRC_SIZE xs"
  let ?st0 = "encoder_start buf ?xs"
  have len: "length ?xs < 2 ^ 32" by (simp add: LZVN_ENCODE_MAX_SRC_SIZE_def min_def)
  have ok0: "enc_ok (?st0\<lparr>en_src_current_end := e\<rparr>)" "enc_ok ?st0" for e
    using len False by (simp_all add: enc_ok_def encoder_start_def)
  define st1' where "st1' = (if length ?xs \<ge> 8 then
      do { st \<leftarrow> lzvn_init_table (?st0\<lparr>en_src_current_end := int (length ?xs) - 8\<rparr>); lzvn_encode st } else Some ?st0)"
  have "\<exists>st1. st1' = Some st1 \<and> enc_ok st1 \<and> en_src st1 = ?xs \<and> en_dst_end st1 = length buf - 8 \<and> length (en_buf st1) = length buf"
  proof (cases "length ?xs \<ge> 8")
    case True
    let ?st = "?st0\<lparr>en_src_current_end := int (length ?xs) - 8\<rparr>"
    obtain st where "lzvn_init_table ?st = Some st" "step_inv st" "en_src st = en_src ?st" "en_dst_end st = en_dst_end ?st"
        "length (en_buf st) = length (en_buf ?st)"
      using init_table_ok [OF ok0(1), of "int (length ?xs) - 8"] True by (auto simp: encoder_start_def NO_MATCH_def)
    with lzvn_encode_ok [of st] True show ?thesis by (auto simp: st1'_def encoder_start_def)
  next
    case False
    then show ?thesis using ok0(2) by (auto simp: st1'_def encoder_start_def)
  qed
  then obtain st1 where st1: "st1' = Some st1" "enc_ok st1" "en_src st1 = ?xs" "en_dst_end st1 = length buf - 8" "length (en_buf st1) = length buf"
    by blast
  obtain st2 ok where st2: "lzvn_emit_literal st1 (en_src_end st1 - en_src_literal st1) = Some (st2, ok)" "enc_ok st2" "same_input st1 st2"
    using emit_literals_ok [OF st1(2), of "en_src_end st1 - en_src_literal st1"] st1(2) by (auto simp: enc_ok_def)
  have d2: "en_dst st2 + 8 \<le> length buf" "length (en_buf st2) = length buf" "en_src st2 = ?xs" "0 \<le> en_src_literal st2"
      "en_src_literal st2 \<le> int (length ?xs)"
      "decodes (take (en_dst st2) (en_buf st2)) 0 [] (nat (en_d_prev st2)) (take (nat (en_src_literal st2)) ?xs)"
    using st2 st1 False by (auto simp: enc_ok_def same_input_def)
  obtain b where b: "store (en_buf st2) 0 (length buf) (en_dst st2) (le_enc 8 6) = Some b" "frame b (en_buf st2) (en_dst st2) (length buf)"
      "adds (en_buf st2) (en_dst st2) b (en_dst st2 + 8) (le_enc 8 6)"
    using store_adds [of "en_dst st2" "le_enc 8 6" "length buf" "en_buf st2"] d2 by auto
  have p: "lzvn_encode_partial buf xs = Some (b, en_dst st2 + 8, nat (en_src_literal st2))"
    using False st1(1) st2(1) b(1) d2(1) unfolding lzvn_encode_partial_def Let_def st1'_def [symmetric]
    by (simp add: lzvn_emit_end_of_stream_def store8_def)
  have "take (en_dst st2 + 8) b = take (en_dst st2) (en_buf st2) @ le_enc 8 6" using b(3) by (simp add: adds_def)
  moreover have "take (nat (en_src_literal st2)) ?xs = take (nat (en_src_literal st2)) xs" "nat (en_src_literal st2) \<le> length xs"
    using d2(4,5) by (simp_all add: min_def nat_le_iff split: if_splits)
  ultimately show ?thesis using p frame_length [OF b(2)] d2(1,2,6) by auto
qed

lemma decodes_finished: "decodes bs D out D' out' \<Longrightarrow> lzvn_run_spec D (bs @ le_enc 8 6) out = (out', Finished)"
  using end_marker [of D' out'] length_le_enc [of 8 6] unfolding decodes_def by (metis list.size(3) zero_neq_numeral)

lemma lzvn_encode_partial_ok:
  "\<exists>b n k. lzvn_encode_partial buf xs = Some (b, n, k) \<and> length b = length buf \<and> n \<le> length buf \<and> k \<le> length xs \<and>
     (8 \<le> length buf \<longrightarrow> lzvn_run_spec 0 (take n b) [] = (take k xs, Finished))"
  using lzvn_encode_partial_stream [of buf xs] decodes_finished by fastforce

section \<open>Properties\<close>

text \<open>C10. LZVN round trip.  \<open>lzvn_encode_buffer\<close> never leaves its buffers; and whenever it
  reports a size, \<open>lzvn_decode\<close> of that many bytes, into any destination with room for the
  source, gives back the source, and reaches the end marker when there is a byte to spare.\<close>

theorem lzvn_roundtrip:
  "\<exists>b n. lzvn_encode_buffer buf xs = Some (b, n) \<and> length b = length buf \<and> n \<le> length buf \<and>
     (n \<noteq> 0 \<and> length xs \<le> length out \<longrightarrow>
       (\<exists>st. lzvn_decode (decoder_start (take n b) out) = Some st \<and> written st = xs \<and>
             (length xs < length out \<longrightarrow> end_of_stream st)))"
proof -
  obtain b n k where p: "lzvn_encode_partial buf xs = Some (b, n, k)" "length b = length buf" "n \<le> length buf" "k \<le> length xs"
      "8 \<le> length buf \<longrightarrow> lzvn_run_spec 0 (take n b) [] = (take k xs, Finished)"
    using lzvn_encode_partial_ok by blast
  have "\<exists>st. lzvn_decode (decoder_start (take n b) out) = Some st \<and> written st = xs \<and> (length xs < length out \<longrightarrow> end_of_stream st)"
    if "n \<noteq> 0" "k = length xs" "length xs \<le> length out"
  proof -
    have "8 \<le> length buf" using p(1) that(1) by (auto simp: lzvn_encode_partial_def split: if_splits)
    then have spec: "denote (decoder_start (take n b) out) = (xs, Finished)"
      using p(5) that(2) decoder_start_ok(3) by simp
    obtain st where st: "lzvn_decode (decoder_start (take n b) out) = Some st" "lzvn_ok st" "writes (decoder_start (take n b) out) 0 st"
      using lzvn_decode_ok [OF decoder_start_ok(1), of "take n b" out] by (auto simp: decoder_start_def)
    have d: "delivered xs Finished st"
      using lzvn_decode_denotes [OF decoder_start_ok(1,2) spec] st(1) by auto
    have room: "dst_end st = length out" "dst_begin st = 0" using st(3) by (simp_all add: writes_def decoder_start_def)
    have w: "written st = xs" using delivered_fits [OF st(2) d] room that(3) by simp
    have "end_of_stream st" if "length xs < length out"
    proof (rule ccontr)
      assume "\<not> end_of_stream st"
      then have "dst st = length out" using d room by (simp add: delivered_def)
      moreover have "length (written st) = dst st - dst_begin st"
        unfolding written_def by (rule length_hist) (use st(2) in \<open>auto simp: lzvn_ok_def\<close>)
      ultimately show False using w room that by simp
    qed
    with st(1) w show ?thesis by blast
  qed
  then show ?thesis using p by (auto simp: lzvn_encode_buffer_def)
qed

text \<open>What \<open>lzvn_encode_partial\<close> wrote is a finished stream for exactly the prefix of the
  source it reports as used, whatever the sizes of source and destination.\<close>

lemma lzvn_encode_partial_prefix:
  assumes "8 \<le> length buf"
  shows "\<exists>b n k. lzvn_encode_partial buf xs = Some (b, n, k) \<and> n \<le> length buf \<and> k \<le> length xs \<and>
     lzvn_run_spec 0 (take n b) [] = (take k xs, Finished)"
  using lzvn_encode_partial_ok [of buf xs] assms by auto

text \<open>The emitter reads further than its comment says (\<open>L + 4\<close> bytes): with 13 source bytes
  and a literal of 9 it reads up to byte 16.\<close>

lemma emit_reads_beyond: "emit (replicate 13 0) 0 (replicate 100 0) 0 100 9 3 1 0 = None"
  by code_simp

section \<open>Witnesses\<close>

lemma lzvn_encode_partial_prefix_witness:
  "\<exists>b n k. lzvn_encode_partial (replicate 8 0) [1, 2, 3] = Some (b, n, k) \<and> n \<le> length (replicate 8 (0 :: byte)) \<and> k \<le> length [1, 2, 3 :: byte] \<and>
     lzvn_run_spec 0 (take n b) [] = (take k [1, 2, 3], Finished)"
  by (rule lzvn_encode_partial_prefix) simp

lemma sample_encoded:
  "lzvn_encode_buffer (replicate 30 0) [7, 8, 9] = Some ([0xE3, 7, 8, 9, 6, 0, 0, 0, 0, 0, 0, 0] @ replicate 18 0, 12)"
  by (simp add: lzvn_encode_buffer_def lzvn_encode_partial_def LZVN_ENCODE_MAX_SRC_SIZE_def) code_simp

theorem lzvn_roundtrip_witness:
  "\<exists>st. lzvn_decode (decoder_start [0xE3, 7, 8, 9, 6, 0, 0, 0, 0, 0, 0, 0] (replicate 4 0)) = Some st \<and>
     written st = [7, 8, 9] \<and> end_of_stream st"
  using lzvn_roundtrip [of "replicate 30 0" "[7, 8, 9]" "replicate 4 0"] unfolding sample_encoded by auto

end
