(* ===== verification/LZFSE_Backend.thy ===== *)
theory LZFSE_Backend
  imports LZFSE_Coded LZVN_Roundtrip
begin

text \<open>
  The backend of the LZFSE encoder: collecting triples and writing blocks.  The invariant
  \<open>backend_inv\<close> says that the destination decodes to a prefix of the source and that the
  collected triples and literals extend that prefix up to \<open>src_literal\<close>.  Shown: every
  operation of the backend returns, inside its arrays and buffers, and keeps the invariant;
  emitting a true match moves \<open>src_literal\<close> behind it.
\<close>

section \<open>The invariant\<close>

lemma some_bool [simp]: "\<exists>ok. ok" "\<exists>ok. \<not> ok" "\<exists>ok. \<not> ok \<and> (ok \<longrightarrow> P)"
  by auto

definition triples :: "lzfse_encoder_state \<Rightarrow> triple list" where
  "triples s = zip (take (e_n_matches s) (e_l_values s)) (zip (take (e_n_matches s) (e_m_values s)) (take (e_n_matches s) (e_d_values s)))"

definition pending_literals :: "lzfse_encoder_state \<Rightarrow> byte list" where
  "pending_literals s = take (e_n_literals s) (e_literals s)"

definition arrays_ok :: "lzfse_encoder_state \<Rightarrow> bool" where
  "arrays_ok s \<longleftrightarrow>
     length (e_l_values s) = 10000 \<and> length (e_m_values s) = 10000 \<and> length (e_d_values s) = 10000 \<and> length (e_literals s) = 40000 \<and>
     e_n_matches s + 8 \<le> 10000 \<and> e_n_literals s + 16 \<le> 40000 \<and> (e_n_matches s = 0 \<longrightarrow> e_n_literals s = 0)"

definition text_ok :: "lzfse_encoder_state \<Rightarrow> bool" where
  "text_ok s \<longleftrightarrow>
     e_src s = 0 \<and> 0 \<le> e_src_literal s \<and> e_src_literal s \<le> e_src_end s \<and> e_src_end s \<le> int (length (e_text s)) \<and> e_src_end s < 2 ^ 31 \<and>
     e_dst s \<le> e_dst_end s \<and> e_dst_end s \<le> length (e_out s)"

definition backend_inv :: "lzfse_encoder_state \<Rightarrow> bool" where
  "backend_inv s \<longleftrightarrow>
     arrays_ok s \<and> text_ok s \<and>
     (\<exists>q. decodes_to (take (e_dst s) (e_out s)) [] (take q (e_text s)) \<and>
        lmd_run (triples s) (pending_literals s) (take q (e_text s)) = Some ([], take (nat (e_src_literal s)) (e_text s)))"

text \<open>What the backend leaves alone, and what collecting leaves alone.\<close>

definition same_search :: "lzfse_encoder_state \<Rightarrow> lzfse_encoder_state \<Rightarrow> bool" where
  "same_search s s' \<longleftrightarrow>
     e_text s' = e_text s \<and> e_src s' = e_src s \<and> e_src_end s' = e_src_end s \<and> e_src_encode_i s' = e_src_encode_i s \<and>
     e_src_encode_end s' = e_src_encode_end s \<and> e_dst_end s' = e_dst_end s \<and> e_pending s' = e_pending s \<and> e_history s' = e_history s \<and>
     length (e_out s') = length (e_out s)"

definition extends :: "lzfse_encoder_state \<Rightarrow> lzfse_encoder_state \<Rightarrow> bool" where
  "extends s s' \<longleftrightarrow>
     same_search s s' \<and> e_out s' = e_out s \<and> e_dst s' = e_dst s \<and> e_n_matches s \<le> e_n_matches s' \<and> e_n_literals s \<le> e_n_literals s' \<and>
     length (e_l_values s') = length (e_l_values s) \<and> length (e_m_values s') = length (e_m_values s) \<and> length (e_d_values s') = length (e_d_values s) \<and>
     length (e_literals s') = length (e_literals s) \<and>
     take (e_n_matches s) (e_l_values s') = take (e_n_matches s) (e_l_values s) \<and> take (e_n_matches s) (e_m_values s') = take (e_n_matches s) (e_m_values s) \<and>
     take (e_n_matches s) (e_d_values s') = take (e_n_matches s) (e_d_values s) \<and> take (e_n_literals s) (e_literals s') = take (e_n_literals s) (e_literals s)"

lemma same_search_refl [simp]: "same_search s s"
  by (simp add: same_search_def)

lemma same_search_trans: "same_search s s' \<Longrightarrow> same_search s' s'' \<Longrightarrow> same_search s s''"
  by (simp add: same_search_def)

lemma extends_refl [simp]: "extends s s"
  by (simp add: extends_def)

lemma take_le: "take n xs = take n ys \<Longrightarrow> m \<le> n \<Longrightarrow> take m xs = take m ys"
  by (metis min.absorb1 take_take)

lemma extends_trans: "extends s s' \<Longrightarrow> extends s' s'' \<Longrightarrow> extends s s''"
  unfolding extends_def by (auto elim: same_search_trans dest: take_le [where m = "e_n_matches s"] take_le [where m = "e_n_literals s"])

lemma extends_search: "extends s s' \<Longrightarrow> same_search s s'"
  by (simp add: extends_def)

text \<open>Going back to what was collected before.\<close>

definition reverted :: "lzfse_encoder_state \<Rightarrow> lzfse_encoder_state \<Rightarrow> lzfse_encoder_state" where
  "reverted s s' = s'\<lparr>e_n_matches := e_n_matches s, e_n_literals := e_n_literals s, e_src_literal := e_src_literal s\<rparr>"

lemma reverted_ok:
  assumes "extends s s'" and "backend_inv s"
  shows "backend_inv (reverted s s') \<and> same_search s (reverted s s') \<and> e_src_literal (reverted s s') = e_src_literal s"
  using assms
  by (auto simp: backend_inv_def extends_def same_search_def reverted_def arrays_ok_def text_ok_def triples_def pending_literals_def)

section \<open>Literals\<close>

lemma text_load_some: "e_src s = 0 \<Longrightarrow> 0 \<le> p \<Longrightarrow> p + int k \<le> int (length (e_text s)) \<Longrightarrow> text_load s p k = Some (slice (e_text s) (nat p) k)"
  by (simp add: text_load_def load_def)

lemma poke_frame:
  assumes "poke b off bs = Some b'"
  shows "frame b' b off (off + length bs)" and "slice b' off (length bs) = bs"
  using frame_poke [OF assms] slice_poke [OF assms] by simp_all

lemma copy_literals_ok:
  assumes t: "text_ok s" and L: "e_src_literal s + int L \<le> e_src_end s" and n: "e_n_literals s + L + 16 \<le> 40000" "length (e_literals s) = 40000"
  shows "\<exists>b. copy_literals s L = Some b \<and> length b = 40000 \<and>
    take (e_n_literals s + L) b = take (e_n_literals s) (e_literals s) @ slice (e_text s) (nat (e_src_literal s)) L \<and>
    take (e_n_literals s) b = take (e_n_literals s) (e_literals s)"
proof -
  let ?p = "e_src_literal s" and ?n = "e_n_literals s" and ?T = "e_text s"
  have T: "e_src s = 0" "0 \<le> ?p" "e_src_end s \<le> int (length ?T)" using t by (simp_all add: text_ok_def)
  have fin: "length b = 40000 \<and> take (?n + L) b = take ?n (e_literals s) @ slice ?T (nat ?p) L \<and> take ?n b = take ?n (e_literals s)"
    if "frame b (e_literals s) ?n e" "slice b ?n L = slice ?T (nat ?p) L" for b e
    using frame_take [OF that(1)] frame_length [OF that(1)] that(2) n take_slice [of ?n b L] by simp
  show ?thesis
  proof (cases "?p + int L + 16 > e_src_end s")
    case True
    show ?thesis
    proof (cases "L > 0")
      case False
      then show ?thesis using True n by (simp add: copy_literals_def)
    next
      case pos: True
      let ?bs = "slice ?T (nat ?p) L"
      have ld: "text_load s ?p L = Some ?bs" by (rule text_load_some) (use T L in simp_all)
      have len: "length ?bs = L" using T L by simp
      obtain b where b: "poke (e_literals s) ?n ?bs = Some b" using poke_in [of ?n ?bs "e_literals s"] len n by auto
      have "length b = 40000 \<and> take (?n + L) b = take ?n (e_literals s) @ slice ?T (nat ?p) L \<and> take ?n b = take ?n (e_literals s)"
        using fin [OF poke_frame(1) [OF b]] poke_frame(2) [OF b] len by simp
      then show ?thesis using True pos ld b by (simp add: copy_literals_def)
    qed
  next
    case False
    let ?k = "max 1 ((L + 15) div 16)"
    have k: "L \<le> 16 * ?k" "16 * ?k \<le> L + 16" by (auto simp: max_def)
    have ld: "text_load s (?p + int (16 * i)) 16 = Some (slice ?T (nat ?p + 16 * i) 16)" if "i < ?k" for i
    proof -
      have "16 * Suc i \<le> 16 * ?k" using that by (intro mult_le_mono2) simp
      then have "16 * i + 16 \<le> L + 16" using k(2) by simp
      then have "text_load s (?p + int (16 * i)) 16 = Some (slice ?T (nat (?p + int (16 * i))) 16)"
        by (intro text_load_some) (use T False in simp_all)
      moreover have "nat (?p + int (16 * i)) = nat ?p + 16 * i" using T(2) by linarith
      ultimately show ?thesis by simp
    qed
    have kT: "nat ?p + 16 * ?k \<le> length ?T" using k(2) T False by linarith
    obtain b where b: "copy_loop 16 (\<lambda>i. text_load s (?p + int i) 16) 0 (length (e_literals s)) ?n ?k (e_literals s) = Some b"
        "frame b (e_literals s) ?n (?n + 16 * ?k)" "slice b ?n (16 * ?k) = slice ?T (nat ?p) (16 * ?k)"
      using copy_loop_ok [of ?k "\<lambda>i. text_load s (?p + int i) 16" 16 ?T "nat ?p" 0 ?n "length (e_literals s)" "e_literals s", OF ld kT] k n by auto
    have "slice b ?n L = slice ?T (nat ?p) L" using slice_take [OF k(1) b(3)] slice_take [OF k(1) refl, of ?T "nat ?p"] by simp
    then show ?thesis using fin [OF b(2)] b(1) False by (simp add: copy_literals_def)
  qed
qed

section \<open>Triples\<close>

lemma zip_take_Suc:
  assumes "n < length ls" "n < length ms" "n < length ds"
  shows "zip (take (n + 1) (ls[n := L])) (zip (take (n + 1) (ms[n := M])) (take (n + 1) (ds[n := D]))) =
    zip (take n ls) (zip (take n ms) (take n ds)) @ [(L, M, D)]"
  using assms by (simp add: take_Suc_conv_app_nth)

lemma repeats_expand:
  assumes "repeats xs (int D) (int p) (int (p + M))" "0 < D" "D \<le> p" "p + M \<le> length xs"
  shows "expand (take p xs) D M = take (p + M) xs"
proof (rule expand_true [OF _ assms(2-4)])
  fix k assume "k < M"
  then have "xs ! nat (int (p + k)) = xs ! nat (int (p + k) - int D)" using assms(1) by (simp add: repeats_def)
  moreover have "nat (int (p + k) - int D) = p + k - D" "nat (int (p + k)) = p + k" by linarith+
  ultimately show "xs ! (p + k) = xs ! (p + k - D)" by (simp only:)
qed

text \<open>A triple that may follow: its match is true.\<close>

definition true_triple :: "lzfse_encoder_state \<Rightarrow> nat \<Rightarrow> nat \<Rightarrow> nat \<Rightarrow> bool" where
  "true_triple s L M D \<longleftrightarrow>
     0 < D \<and> D \<le> LZFSE_ENCODE_MAX_D_VALUE \<and> int D \<le> e_src_literal s + int L \<and> e_src_literal s + int (L + M) \<le> e_src_end s \<and>
     repeats (e_text s) (int D) (e_src_literal s + int L) (e_src_literal s + int (L + M))"

lemma lzfse_push_lmd_ok:
  assumes inv: "backend_inv s" and t: "true_triple s L M D" and b: "L \<le> 315" "M \<le> 2359"
  shows "\<exists>ok s'. lzfse_push_lmd s L M D = Some (ok, s') \<and> extends s s' \<and>
    (ok \<longrightarrow> backend_inv s' \<and> e_src_literal s' = e_src_literal s + int (L + M))"
proof (cases "e_n_matches s + 1 + 8 > 10000 \<or> e_n_literals s + L + 16 > 40000")
  case True
  then show ?thesis by (auto simp: lzfse_push_lmd_def Let_def)
next
  case False
  let ?n = "e_n_matches s" and ?T = "e_text s" and ?lit = "nat (e_src_literal s)"
  have A: "length (e_l_values s) = 10000" "length (e_m_values s) = 10000" "length (e_d_values s) = 10000" "length (e_literals s) = 40000"
    and T: "text_ok s" using inv by (simp_all add: backend_inv_def arrays_ok_def)
  obtain q where q: "decodes_to (take (e_dst s) (e_out s)) [] (take q ?T)"
      "lmd_run (triples s) (pending_literals s) (take q ?T) = Some ([], take ?lit ?T)" using inv by (auto simp: backend_inv_def)
  have D: "0 < D" "D \<le> 262139" "int D \<le> e_src_literal s + int L" "e_src_literal s + int (L + M) \<le> e_src_end s"
      "repeats ?T (int D) (e_src_literal s + int L) (e_src_literal s + int (L + M))" using t by (simp_all add: true_triple_def)
  have lit: "int ?lit = e_src_literal s" "0 \<le> e_src_literal s" "e_src_end s \<le> int (length ?T)" using T by (simp_all add: text_ok_def)
  have Dn: "D \<le> ?lit + L" "?lit + L + M \<le> length ?T" using D(3,4) lit by linarith+
  obtain b where b: "copy_literals s L = Some b" "length b = 40000" "take (e_n_literals s + L) b = pending_literals s @ slice ?T ?lit L"
      "take (e_n_literals s) b = take (e_n_literals s) (e_literals s)"
    using copy_literals_ok [OF T, of L] D(4) False A unfolding pending_literals_def by auto
  let ?s = "s\<lparr>e_n_matches := ?n + 1, e_l_values := (e_l_values s)[?n := L], e_m_values := (e_m_values s)[?n := M],
                           e_d_values := (e_d_values s)[?n := D], e_literals := b, e_n_literals := e_n_literals s + L,
                           e_src_literal := e_src_literal s + int (L + M)\<rparr>"
  have "lzfse_push_lmd s L M D = Some (True, ?s)" using False A b(1) by (simp add: lzfse_push_lmd_def Let_def)
  moreover have "extends s ?s" using A b(2,4) by (simp add: extends_def same_search_def)
  moreover have "backend_inv ?s"
  proof -
    have tr: "triples ?s = triples s @ [(L, M, D)]" using zip_take_Suc [of ?n "e_l_values s" "e_m_values s" "e_d_values s"] False A by (simp add: triples_def)
    have "expand (take (?lit + L) ?T) D M = take (?lit + L + M) ?T"
      by (rule repeats_expand) (use D(1,5) Dn lit in \<open>simp_all add: add.assoc\<close>)
    moreover have "nat (e_src_literal s + int (L + M)) = ?lit + L + M" using lit by linarith
    moreover have "lmd_run (triples s) (pending_literals s @ slice ?T ?lit L) (take q ?T) = Some (slice ?T ?lit L, take ?lit ?T)"
      using lmd_run_more [OF q(2)] by simp
    moreover have "length (slice ?T ?lit L) = L" "length (take ?lit ?T) = ?lit" using Dn by simp_all
    ultimately have "lmd_run (triples ?s) (pending_literals ?s) (take q ?T) = Some ([], take (nat (e_src_literal ?s)) ?T)"
      using assms(3,4) D(1,2) Dn(1) b(3) take_slice [of ?lit ?T L] unfolding tr lmd_run_append by (simp add: pending_literals_def)
    then show ?thesis using q(1) A b(2) False T D(4) lit by (auto simp: backend_inv_def arrays_ok_def text_ok_def)
  qed
  ultimately show ?thesis by (intro exI [of _ True] exI [of _ ?s]) simp
qed

lemma split_literals_ok:
  assumes "backend_inv s" and "e_src_literal s + int L \<le> e_src_end s"
  shows "\<exists>ok s' L'. split_literals s L = Some (ok, s', L') \<and> extends s s' \<and>
    (ok \<longrightarrow> backend_inv s' \<and> L' \<le> 315 \<and> e_src_literal s' + int L' = e_src_literal s + int L)"
  using assms
proof (induction s L rule: split_literals.induct)
  case (1 s L)
  show ?case
  proof (cases "L > 315")
    case False
    then show ?thesis using 1 by (intro exI [of _ True]) (simp add: split_literals.simps [of s L])
  next
    case True
    have T: "0 \<le> e_src_literal s" using 1(2) by (simp add: backend_inv_def text_ok_def)
    have "true_triple s 315 0 1" using True 1(3) T by (simp add: true_triple_def repeats_def)
    then obtain ok s1 where s1: "lzfse_push_lmd s 315 0 1 = Some (ok, s1)" "extends s s1" "ok \<longrightarrow> backend_inv s1 \<and> e_src_literal s1 = e_src_literal s + 315"
      using lzfse_push_lmd_ok [OF 1(2), of 315 0 1] by auto
    show ?thesis
    proof (cases ok)
      case False
      then show ?thesis using True s1 by (intro exI [of _ False]) (simp add: split_literals.simps [of s L])
    next
      case t: True
      have "e_src_end s1 = e_src_end s" using s1(2) by (simp add: extends_def same_search_def)
      then obtain ok' s' L' where r: "split_literals s1 (L - 315) = Some (ok', s', L')" "extends s1 s'"
          "ok' \<longrightarrow> backend_inv s' \<and> L' \<le> 315 \<and> e_src_literal s' + int L' = e_src_literal s1 + int (L - 315)"
        using 1(1) [OF True s1(1) refl] t s1(3) 1(3) True by auto
      have "split_literals s L = Some (ok', s', L')" using True s1(1) t r(1) by (simp add: split_literals.simps [of s L])
      then show ?thesis using r(3) s1(3) t True extends_trans [OF s1(2) r(2)] by auto
    qed
  qed
qed

lemma repeats_sub: "repeats xs D a e \<Longrightarrow> a \<le> a' \<Longrightarrow> e' \<le> e \<Longrightarrow> repeats xs D a' e'"
  by (simp add: repeats_def)

lemma split_match_ok:
  assumes "backend_inv s" and "true_triple s L M D" and "L \<le> 315"
  shows "\<exists>ok s' L' M'. split_match s L M D = Some (ok, s', L', M') \<and> extends s s' \<and>
    (ok \<longrightarrow> backend_inv s' \<and> L' \<le> 315 \<and> M' \<le> 2359 \<and> true_triple s' L' M' D \<and>
      e_src_literal s' + int (L' + M') = e_src_literal s + int (L + M))"
  using assms
proof (induction s L M D rule: split_match.induct)
  case (1 s L M D)
  show ?case
  proof (cases "M > 2359")
    case False
    then show ?thesis using 1 by (intro exI [of _ True]) (simp add: split_match.simps [of s L M])
  next
    case True
    have T: "true_triple s L 2359 D" using 1(3) True by (auto simp: true_triple_def elim: repeats_sub)
    obtain ok s1 where s1: "lzfse_push_lmd s L 2359 D = Some (ok, s1)" "extends s s1" "ok \<longrightarrow> backend_inv s1 \<and> e_src_literal s1 = e_src_literal s + int (L + 2359)"
      using lzfse_push_lmd_ok [OF 1(2) T 1(4)] by auto
    show ?thesis
    proof (cases ok)
      case False
      then show ?thesis using True s1 by (intro exI [of _ False]) (simp add: split_match.simps [of s L M])
    next
      case t: True
      have "e_src_end s1 = e_src_end s" "e_text s1 = e_text s" using s1(2) by (simp_all add: extends_def same_search_def)
      then have "true_triple s1 0 (M - 2359) D" using 1(3) s1(3) t True by (auto simp: true_triple_def elim: repeats_sub)
      then obtain ok' s' L' M' where r: "split_match s1 0 (M - 2359) D = Some (ok', s', L', M')" "extends s1 s'"
          "ok' \<longrightarrow> backend_inv s' \<and> L' \<le> 315 \<and> M' \<le> 2359 \<and> true_triple s' L' M' D \<and> e_src_literal s' + int (L' + M') = e_src_literal s1 + int (0 + (M - 2359))"
        using 1(1) [OF True s1(1) refl] t s1(3) by auto
      have "split_match s L M D = Some (ok', s', L', M')" using True s1(1) t r(1) by (simp add: split_match.simps [of s L M])
      then show ?thesis using r(3) s1(3) t True extends_trans [OF s1(2) r(2)] by auto
    qed
  qed
qed

section \<open>Matches\<close>

text \<open>A match of the source behind \<open>src_literal\<close>.\<close>

definition true_match :: "lzfse_encoder_state \<Rightarrow> lzfse_match \<Rightarrow> bool" where
  "true_match s m \<longleftrightarrow>
     e_src_literal s \<le> mt_pos m \<and> 0 \<le> mt_ref m \<and> mt_ref m < mt_pos m \<and> mt_pos m - mt_ref m \<le> int LZFSE_ENCODE_MAX_D_VALUE \<and>
     mt_pos m + int (mt_length m) \<le> e_src_end s \<and>
     repeats (e_text s) (mt_pos m - mt_ref m) (mt_pos m) (mt_pos m + int (mt_length m))"

text \<open>What an operation of the backend promises that is to reach the position \<open>e\<close>.\<close>

definition reaches :: "lzfse_encoder_state \<Rightarrow> int \<Rightarrow> encoder_result \<Rightarrow> bool" where
  "reaches s e r \<longleftrightarrow> (\<exists>ok s'. r = Some (ok, s') \<and> length (e_out s') = length (e_out s) \<and>
     (ok \<longrightarrow> backend_inv s' \<and> same_search s s' \<and> e_src_literal s' = e))"

lemma reaches_full: "r = Some (False, s') \<Longrightarrow> length (e_out s') = length (e_out s) \<Longrightarrow> reaches s e r"
  unfolding reaches_def by blast

lemma lzfse_push_match_ok:
  assumes inv: "backend_inv s" and m: "true_match s m"
  shows "\<exists>ok s'. lzfse_push_match s m = Some (ok, s') \<and> backend_inv s' \<and> same_search s s' \<and>
    e_src_literal s' = (if ok then mt_pos m + int (mt_length m) else e_src_literal s)"
proof -
  let ?l = "e_src_literal s" and ?L = "nat (mt_pos m - e_src_literal s)" and ?D = "nat (mt_pos m - mt_ref m)" and ?M = "mt_length m"
  have T: "text_ok s" using inv by (simp add: backend_inv_def)
  have M: "?l \<le> mt_pos m" "0 \<le> mt_ref m" "mt_ref m < mt_pos m" "mt_pos m - mt_ref m \<le> 262139" "mt_pos m + int ?M \<le> e_src_end s"
      "repeats (e_text s) (mt_pos m - mt_ref m) (mt_pos m) (mt_pos m + int ?M)" using m by (simp_all add: true_match_def)
  have wrap: "(mt_pos m - ?l) mod 2 ^ 32 = mt_pos m - ?l" "(mt_pos m - mt_ref m) mod 2 ^ 32 = mt_pos m - mt_ref m"
    using M T by (simp_all add: text_ok_def)
  have L: "?l + int ?L = mt_pos m" "int ?D = mt_pos m - mt_ref m" using M by simp_all
  note rev = reverted_ok [OF _ inv, unfolded reverted_def]
  obtain ok1 s1 L1 where 1: "split_literals s ?L = Some (ok1, s1, L1)" "extends s s1" "ok1 \<longrightarrow> backend_inv s1 \<and> L1 \<le> 315 \<and> e_src_literal s1 + int L1 = mt_pos m"
    using split_literals_ok [OF inv, of ?L] M L by auto
  show ?thesis
  proof (cases ok1)
    case False
    then show ?thesis using 1 rev [OF 1(2)] wrap by (simp add: lzfse_push_match_def Let_def)
  next
    case ok1: True
    have T1: "e_text s1 = e_text s" "e_src_end s1 = e_src_end s" using 1(2) by (simp_all add: extends_def same_search_def)
    have i1: "backend_inv s1" "L1 \<le> 315" "e_src_literal s1 + int L1 = mt_pos m" using 1(3) ok1 by simp_all
    have "true_triple s1 L1 ?M ?D" using M L i1(3) T1 by (simp add: true_triple_def flip: add.assoc)
    then obtain ok2 s2 L2 M2 where 2: "split_match s1 L1 ?M ?D = Some (ok2, s2, L2, M2)" "extends s1 s2"
        "ok2 \<longrightarrow> backend_inv s2 \<and> L2 \<le> 315 \<and> M2 \<le> 2359 \<and> true_triple s2 L2 M2 ?D \<and> e_src_literal s2 + int (L2 + M2) = e_src_literal s1 + int (L1 + ?M)"
      using split_match_ok [OF i1(1) _ i1(2)] by blast
    note e2 = extends_trans [OF 1(2) 2(2)]
    show ?thesis
    proof (cases ok2)
      case False
      then show ?thesis using 1(1) 2(1) ok1 rev [OF e2] wrap by (simp add: lzfse_push_match_def Let_def)
    next
      case ok2: True
      have i2: "backend_inv s2" "L2 \<le> 315" "M2 \<le> 2359" "true_triple s2 L2 M2 ?D" "e_src_literal s2 + int (L2 + M2) = mt_pos m + int ?M"
        using 2(3) ok2 i1(3) by simp_all
      show ?thesis
      proof (cases "L2 > 0 \<or> M2 > 0")
        case False
        then show ?thesis using 1(1) 2(1) ok1 ok2 wrap i2 extends_search [OF e2] by (simp add: lzfse_push_match_def Let_def)
      next
        case True
        obtain ok3 s3 where 3: "lzfse_push_lmd s2 L2 M2 ?D = Some (ok3, s3)" "extends s2 s3"
            "ok3 \<longrightarrow> backend_inv s3 \<and> e_src_literal s3 = e_src_literal s2 + int (L2 + M2)"
          using lzfse_push_lmd_ok [OF i2(1,4,2,3)] by blast
        note e3 = extends_trans [OF e2 3(2)]
        show ?thesis
          using 1(1) 2(1) 3 ok1 ok2 True wrap i2(5) rev [OF e3] extends_search [OF e3]
          by (cases ok3) (simp_all add: lzfse_push_match_def Let_def)
      qed
    qed
  qed
qed

section \<open>Blocks\<close>

lemma pad_literals_ok:
  assumes "n \<le> length lits" and "4 dvd length lits"
  shows "\<exists>lits' n'. pad_literals lits n = Some (lits', n') \<and> n \<le> n' \<and> n' \<le> length lits \<and> n' div 4 = (n + 3) div 4 \<and> 4 dvd n' \<and> length lits' = length lits \<and>
    take n lits' = take n lits"
  using assms
proof (induction lits n rule: pad_literals.induct)
  case (1 lits n)
  show ?case
  proof (cases "n mod 4 = 0")
    case True
    moreover have "(n + 3) div 4 = n div 4" using True by presburger
    ultimately show ?thesis using 1(2) by (simp add: pad_literals.simps [of lits n] mod_eq_0_iff_dvd)
  next
    case False
    then have "n \<noteq> length lits" using 1(3) by auto
    then have lt: "n < length lits" using 1(2) by simp
    obtain lits' n' where r: "pad_literals (lits[n := 0]) (Suc n) = Some (lits', n')" "Suc n \<le> n'" "n' \<le> length lits" "n' div 4 = (Suc n + 3) div 4" "4 dvd n'" "length lits' = length lits"
        "take (Suc n) lits' = take (Suc n) (lits[n := 0])"
      using 1(1) [OF False lt] lt 1(3) by auto
    have "take n lits' = take n lits" using take_le [OF r(7), of n] by simp
    moreover have "(Suc n + 3) div 4 = (n + 3) div 4" using False by presburger
    ultimately show ?thesis using False lt r by (simp add: pad_literals.simps [of lits n])
  qed
qed

text \<open>The room that writing what is collected takes at most.\<close>

definition block_need :: "lzfse_encoder_state \<Rightarrow> nat" where
  "block_need s = (if e_n_matches s = 0 then 0 else block_room ((e_n_literals s + 3) div 4) (e_n_matches s))"

lemma lzfse_encode_matches_ok:
  assumes inv: "backend_inv s"
  shows "reaches s (e_src_literal s) (lzfse_encode_matches ub s)"
    and "lzfse_encode_matches ub s = Some (True, s') \<Longrightarrow>
      decodes_to (take (e_dst s') (e_out s')) [] (take (nat (e_src_literal s)) (e_text s)) \<and> e_n_matches s' = 0 \<and>
      e_dst s' \<le> e_dst s + block_need s"
    and "e_dst s + block_need s \<le> e_dst_end s \<Longrightarrow> \<exists>s'. lzfse_encode_matches ub s = Some (True, s')"
proof -
  let ?T = "e_text s" and ?n = "e_n_matches s" and ?lit = "nat (e_src_literal s)"
  obtain q where q: "decodes_to (take (e_dst s) (e_out s)) [] (take q ?T)"
      "lmd_run (triples s) (pending_literals s) (take q ?T) = Some ([], take ?lit ?T)" using inv by (auto simp: backend_inv_def)
  have A: "arrays_ok s" "text_ok s" using inv by (simp_all add: backend_inv_def)
  have *: "reaches s (e_src_literal s) (lzfse_encode_matches ub s) \<and> (\<forall>s'. lzfse_encode_matches ub s = Some (True, s') \<longrightarrow>
      decodes_to (take (e_dst s') (e_out s')) [] (take ?lit ?T) \<and> e_n_matches s' = 0 \<and> e_dst s' \<le> e_dst s + block_need s) \<and>
      (e_dst s + block_need s \<le> e_dst_end s \<longrightarrow> (\<exists>s'. lzfse_encode_matches ub s = Some (True, s')))"
  proof (cases "?n = 0")
    case True
    then have 0: "e_n_literals s = 0" using A(1) by (simp add: arrays_ok_def)
    have "take q ?T = take ?lit ?T" using q(2) True by (simp add: triples_def)
    then show ?thesis using True 0 inv q(1) by (auto simp: lzfse_encode_matches_def reaches_def)
  next
    case False
    let ?ls = "take ?n (e_l_values s)" and ?ms = "take ?n (e_m_values s)" and ?ds = "take ?n (e_d_values s)"
    obtain lits n' where p: "pad_literals (e_literals s) (e_n_literals s) = Some (lits, n')" "e_n_literals s \<le> n'" "n' \<le> 40000" "4 dvd n'"
        "n' div 4 = (e_n_literals s + 3) div 4"
        "take (e_n_literals s) lits = pending_literals s" "length lits = 40000"
      using pad_literals_ok [of "e_n_literals s" "e_literals s"] A(1) unfolding pending_literals_def by (auto simp: arrays_ok_def)
    obtain k where k: "n' = 4 * k" using p(4) by blast
    have bn: "block_need s = block_room k ?n" using False p(5) k by (simp add: block_need_def)
    have "take n' lits = pending_literals s @ slice lits (e_n_literals s) (n' - e_n_literals s)"
      using p(2) take_slice [of "e_n_literals s" lits "n' - e_n_literals s"] by (simp add: p(6))
    then have run: "lmd_run (zip ?ls (zip ?ms ?ds)) (take n' lits) (take q ?T) = Some (slice lits (e_n_literals s) (n' - e_n_literals s), take ?lit ?T)"
      using lmd_run_more [OF q(2)] by (simp add: triples_def)
    have len: "length ?ls = ?n" "length ?ms = ?n" "length ?ds = ?n" "0 < ?n" "?n \<le> 10000" "length (take n' lits) = 4 * k" "length (take n' lits) \<le> 40000"
      using A(1) False p(3,7) k by (simp_all add: arrays_ok_def)
    have O: "e_dst_end s \<le> length (e_out s)" "e_dst s \<le> e_dst_end s" using A(2) by (simp_all add: text_ok_def)
    obtain b r where e: "encode_block ub (e_dst_end s) (?ls, ?ms, code_prev 0 ?ds) (take n' lits) (e_out s) (e_dst s) = Some (b, r)"
        "frame b (e_out s) (e_dst s) (e_dst_end s)"
        "e_dst s + block_need s \<le> e_dst_end s \<longrightarrow> r \<noteq> None"
        "\<forall>d. r = Some d \<longrightarrow> e_dst s < d \<and> d \<le> e_dst_end s \<and> d \<le> e_dst s + block_need s \<and> decodes_to (slice b (e_dst s) (d - e_dst s)) (take q ?T) (take ?lit ?T)"
      using encode_block_decodes [OF len run O(1), of ub "e_dst s"] unfolding bn by blast
    have lb: "length b = length (e_out s)" by (rule frame_length [OF e(2)])
    show ?thesis
    proof (cases r)
      case None
      then have r: "lzfse_encode_matches ub s = Some (False, s\<lparr>e_out := b, e_literals := lits,
          e_d_values := restore_prev 0 (code_prev 0 ?ds) @ drop ?n (e_d_values s)\<rparr>)"
        using False p(1) e(1) by (simp add: lzfse_encode_matches_def Let_def)
      show ?thesis using reaches_full [OF r] lb r e(3) None by simp
    next
      case (Some d)
      let ?s = "s\<lparr>e_out := b, e_literals := lits, e_d_values := code_prev 0 ?ds @ drop ?n (e_d_values s), e_dst := d, e_n_literals := 0, e_n_matches := 0\<rparr>"
      have r: "lzfse_encode_matches ub s = Some (True, ?s)" using False p(1) e(1) Some by (simp add: lzfse_encode_matches_def Let_def)
      have d: "e_dst s < d" "d \<le> e_dst_end s" "decodes_to (slice b (e_dst s) (d - e_dst s)) (take q ?T) (take ?lit ?T)"
          "d \<le> e_dst s + block_need s" using e(4) Some by simp_all
      have "take d b = take (e_dst s) (e_out s) @ slice b (e_dst s) (d - e_dst s)"
        using take_slice [of "e_dst s" b "d - e_dst s"] frame_take [OF e(2)] O d(1) by simp
      then have dec: "decodes_to (take d b) [] (take ?lit ?T)" using decodes_to_append [OF q(1) d(3)] by simp
      then have "backend_inv ?s" using A p(7) len(3) d(2) lb by (auto simp: backend_inv_def arrays_ok_def text_ok_def triples_def pending_literals_def)
      then show ?thesis using r dec lb d(4) by (simp add: reaches_def same_search_def)
    qed
  qed
  show "reaches s (e_src_literal s) (lzfse_encode_matches ub s)" using * by blast
  show "lzfse_encode_matches ub s = Some (True, s') \<Longrightarrow>
      decodes_to (take (e_dst s') (e_out s')) [] (take (nat (e_src_literal s)) (e_text s)) \<and> e_n_matches s' = 0 \<and>
      e_dst s' \<le> e_dst s + block_need s" using * by blast
  show "e_dst s + block_need s \<le> e_dst_end s \<Longrightarrow> \<exists>s'. lzfse_encode_matches ub s = Some (True, s')" using * by blast
qed

section \<open>The operations of the backend\<close>

lemma true_match_same: "true_match s m \<Longrightarrow> same_search s s' \<Longrightarrow> e_src_literal s' \<le> mt_pos m \<Longrightarrow> true_match s' m"
  by (simp add: true_match_def same_search_def)

lemma lzfse_backend_match_ok:
  assumes inv: "backend_inv s" and m: "true_match s m"
  shows "reaches s (mt_pos m + int (mt_length m)) (lzfse_backend_match ub s m)"
proof -
  obtain ok s1 where 1: "lzfse_push_match s m = Some (ok, s1)" "backend_inv s1" "same_search s s1"
      "e_src_literal s1 = (if ok then mt_pos m + int (mt_length m) else e_src_literal s)"
    using lzfse_push_match_ok [OF inv m] by blast
  have l1: "length (e_out s1) = length (e_out s)" using 1(3) by (simp add: same_search_def)
  show ?thesis
  proof (cases ok)
    case True
    then show ?thesis using 1 l1 by (simp add: lzfse_backend_match_def reaches_def)
  next
    case False
    obtain ok2 s2 where 2: "lzfse_encode_matches ub s1 = Some (ok2, s2)" "length (e_out s2) = length (e_out s1)"
        "ok2 \<longrightarrow> backend_inv s2 \<and> same_search s1 s2 \<and> e_src_literal s2 = e_src_literal s1"
      using lzfse_encode_matches_ok(1) [OF 1(2), of ub] by (auto simp: reaches_def)
    show ?thesis
    proof (cases ok2)
      case False
      then show ?thesis using 1(1) 2 l1 \<open>\<not> ok\<close> by (intro reaches_full [of _ s2]) (simp_all add: lzfse_backend_match_def)
    next
      case True
      have s2: "backend_inv s2" "same_search s s2" "true_match s2 m"
        using 2(3) True same_search_trans [OF 1(3)] true_match_same [OF m, of s2] 1(4) \<open>\<not> ok\<close> m by (auto simp: true_match_def)
      obtain ok3 s3 where 3: "lzfse_push_match s2 m = Some (ok3, s3)" "backend_inv s3" "same_search s2 s3"
          "e_src_literal s3 = (if ok3 then mt_pos m + int (mt_length m) else e_src_literal s2)"
        using lzfse_push_match_ok [OF s2(1,3)] by blast
      have "length (e_out s3) = length (e_out s)" using s2(2) 3(3) by (simp add: same_search_def)
      then show ?thesis
        using 1(1) 2(1) 3 \<open>\<not> ok\<close> True same_search_trans [OF s2(2) 3(3)] by (simp add: lzfse_backend_match_def reaches_def)
    qed
  qed
qed

lemma lzfse_backend_literals_ok:
  assumes inv: "backend_inv s" and L: "0 < L" "e_src_literal s + L \<le> e_src_end s"
  shows "reaches s (e_src_literal s + L) (lzfse_backend_literals ub s L)"
proof -
  have "true_match s \<lparr>mt_pos = e_src_literal s + L, mt_ref = e_src_literal s + L - 1, mt_length = 0\<rparr>"
    using assms by (simp add: true_match_def backend_inv_def text_ok_def repeats_def)
  from lzfse_backend_match_ok [OF inv this, of ub] show ?thesis by (simp add: lzfse_backend_literals_def Let_def)
qed

lemma lzfse_backend_end_of_stream_ok:
  assumes inv: "backend_inv s"
  shows "\<exists>ok s'. lzfse_backend_end_of_stream ub s = Some (ok, s') \<and> length (e_out s') = length (e_out s) \<and>
    (ok \<longrightarrow> e_dst s' \<le> length (e_out s') \<and> (\<exists>bs. take (e_dst s') (e_out s') = bs @ le_enc 4 (unat LZFSE_ENDOFSTREAM_BLOCK_MAGIC) \<and>
       decodes_to bs [] (take (nat (e_src_literal s)) (e_text s))))"
proof -
  obtain ok s1 where 1: "lzfse_encode_matches ub s = Some (ok, s1)" "length (e_out s1) = length (e_out s)"
      "ok \<longrightarrow> backend_inv s1 \<and> same_search s s1"
    using lzfse_encode_matches_ok(1) [OF inv, of ub] by (auto simp: reaches_def)
  show ?thesis
  proof (cases "ok \<and> e_dst s1 + 4 \<le> e_dst_end s1")
    case False
    then show ?thesis using 1 by (cases ok) (auto simp: lzfse_backend_end_of_stream_def)
  next
    case True
    have T: "e_dst_end s1 \<le> length (e_out s1)" using 1(3) True by (simp add: backend_inv_def text_ok_def)
    have d: "decodes_to (take (e_dst s1) (e_out s1)) [] (take (nat (e_src_literal s)) (e_text s))"
      using lzfse_encode_matches_ok(2) [OF inv, of ub s1] 1(1) True by simp
    let ?eos = "le_enc 4 (unat LZFSE_ENDOFSTREAM_BLOCK_MAGIC)"
    obtain b where b: "store (e_out s1) 0 (e_dst_end s1) (e_dst s1) ?eos = Some b"
      using store_some [of 0 "e_dst s1" ?eos "e_dst_end s1" "e_out s1"] True T by auto
    note S = storeD [OF b]
    have "take (e_dst s1 + 4) b = take (e_dst s1) (e_out s1) @ ?eos"
      using take_slice [of "e_dst s1" b 4] S(2) frame_take [OF S(1)] True T by simp
    then show ?thesis using 1(1,2) True b d T frame_length [OF S(1)] by (simp add: lzfse_backend_end_of_stream_def store4_def)
  qed
qed

end
