(* ===== verification/LZFSE_Search.thy ===== *)
theory LZFSE_Search
  imports LZFSE_Backend
begin

text \<open>
  The match search of the LZFSE encoder.  The invariant \<open>search_inv\<close> says that the history
  holds positions before the current one with the four bytes found there (or positions too
  far away to be used), and that the pending match is a match of the source.  Shown: every
  step of the search returns and keeps it, and what \<open>lzfse_encode_finish\<close> leaves in the
  destination decodes to the source.
\<close>

section \<open>Comparing eight bytes at a time\<close>

lemma equal_digits:
  fixes bs cs :: "byte list"
  assumes len: "length bs = 8" "length cs = 8" and k: "k < 8"
    and d: "2 ^ (8 * Suc k) dvd unat (of_nat (le_val bs) XOR of_nat (le_val cs) :: u64)"
  shows "bs ! k = cs ! k"
proof -
  let ?v = "of_nat (le_val bs) :: u64" and ?w = "of_nat (le_val cs) :: u64"
  have uv: "unat ?v = le_val bs" "unat ?w = le_val cs" using unat_le_val8 len by simp_all
  have "unat (take_bit (8 * Suc k) (?v XOR ?w)) = 0" using d by (simp only: unat_take_bit dvd_imp_mod_0)
  then have "take_bit (8 * Suc k) (?v XOR ?w) = 0" by (simp only: unat_eq_0)
  then have "take_bit (8 * Suc k) ?v = take_bit (8 * Suc k) ?w" by (simp only: take_bit_xor xor_zero_eq)
  then have "unat (take_bit (8 * Suc k) ?v) = unat (take_bit (8 * Suc k) ?w)" by (rule arg_cong)
  then have "le_val bs mod 256 ^ Suc k = le_val cs mod 256 ^ Suc k"
    unfolding unat_take_bit uv by (simp only: power_mult) simp
  then have "le_val bs div 256 ^ k mod 256 = le_val cs div 256 ^ k mod 256" by (metis digit_mod)
  then show ?thesis using le_val_nth [of k bs] le_val_nth [of k cs] k len by (simp add: word_unat_eq_iff)
qed

text \<open>The number of equal bytes.\<close>

lemma equal_prefix:
  fixes bs cs :: "byte list"
  defines "d \<equiv> of_nat (le_val bs) XOR of_nat (le_val cs) :: u64"
  assumes len: "length bs = 8" "length cs = 8"
  shows "d = 0 \<Longrightarrow> k < 8 \<Longrightarrow> bs ! k = cs ! k"
    and "d \<noteq> 0 \<Longrightarrow> ctz (unat d) div 8 < 8" and "d \<noteq> 0 \<Longrightarrow> k < ctz (unat d) div 8 \<Longrightarrow> bs ! k = cs ! k"
proof -
  show "d = 0 \<Longrightarrow> k < 8 \<Longrightarrow> bs ! k = cs ! k" using equal_digits [OF len, of k] by (simp add: d_def)
  assume nz: "d \<noteq> 0"
  then have "2 ^ ctz (unat d) \<le> unat d" by (intro dvd_imp_le [OF ctz_dvd]) (simp add: unat_gt_0)
  also have "unat d < 2 ^ 64" using unsigned_less [of d] by simp
  finally have "ctz (unat d) < 64" by (rule power_less_imp_less_exp [rotated]) simp
  then show lt: "ctz (unat d) div 8 < 8" by simp
  assume k: "k < ctz (unat d) div 8"
  then have "8 * Suc k \<le> ctz (unat d)" by simp
  then have "2 ^ (8 * Suc k) dvd unat d" using ctz_dvd [of "unat d"] by (meson dvd_trans le_imp_power_dvd)
  then show "bs ! k = cs ! k" using equal_digits [OF len, of k] k lt by (simp add: d_def)
qed

lemma slices_repeat:
  assumes "0 \<le> ref" "ref < pos" "pos + int k \<le> int (length xs)"
    and "\<And>i. i < k \<Longrightarrow> slice xs (nat ref) k ! i = slice xs (nat pos) k ! i"
  shows "repeats xs (pos - ref) pos (pos + int k)"
proof -
  have "xs ! nat j = xs ! nat (j - (pos - ref))" if "pos \<le> j" "j < pos + int k" for j
  proof -
    define i where "i = nat (j - pos)"
    have i: "i < k" "nat j = nat pos + i" "nat (j - (pos - ref)) = nat ref + i" using that assms(1,2) by (auto simp: i_def)
    have "nat ref + k \<le> length xs" "nat pos + k \<le> length xs" using assms(1-3) by linarith+
    then show ?thesis using assms(4) [OF i(1)] i by (simp add: nth_slice)
  qed
  then show ?thesis by (simp add: repeats_def)
qed

lemma text8_some: "e_src s = 0 \<Longrightarrow> 0 \<le> p \<Longrightarrow> p + 8 \<le> int (length (e_text s)) \<Longrightarrow> text8 s p = Some (of_nat (le_val (slice (e_text s) (nat p) 8)))"
  using text_load_some [of s p 8] by (simp add: text8_def)

lemma match_length_ok:
  assumes "e_src s = 0" and "0 \<le> ref" "ref < pos" and "pos + int maxLength + 8 \<le> int (length (e_text s))"
    and "repeats (e_text s) (pos - ref) pos (pos + int len)"
  shows "\<exists>n. match_length s ref pos maxLength len = Some n \<and> len \<le> n \<and> n \<le> max len (maxLength + 7) \<and> repeats (e_text s) (pos - ref) pos (pos + int n)"
  using assms
proof (induction s ref pos maxLength len rule: match_length.induct)
  case (1 s ref pos maxLength len)
  let ?T = "e_text s"
  show ?case
  proof (cases "len < maxLength")
    case False
    then show ?thesis using 1 by (simp add: match_length.simps [of s ref pos maxLength len])
  next
    case True
    let ?bs = "slice ?T (nat (ref + int len)) 8" and ?cs = "slice ?T (nat (pos + int len)) 8"
    let ?d = "of_nat (le_val ?bs) XOR of_nat (le_val ?cs) :: u64"
    have t: "text8 s (ref + int len) = Some (of_nat (le_val ?bs))" "text8 s (pos + int len) = Some (of_nat (le_val ?cs))"
      using 1(2-5) True by (intro text8_some; simp)+
    have len8: "length ?bs = 8" "length ?cs = 8" using 1(2-5) True by simp_all
    have ext: "repeats ?T (pos - ref) pos (pos + int (len + k))"
      if "k \<le> 8" "\<And>i. i < k \<Longrightarrow> ?bs ! i = ?cs ! i" for k
    proof -
      have "slice ?T (nat (ref + int len)) k ! i = slice ?T (nat (pos + int len)) k ! i" if i: "i < k" for i
        using that(1) that i \<open>\<And>i. i < k \<Longrightarrow> ?bs ! i = ?cs ! i\<close> \<open>k \<le> 8\<close> by (simp add: slice_def)
      then have "repeats ?T (pos + int len - (ref + int len)) (pos + int len) (pos + int len + int k)"
        by (intro slices_repeat) (use 1(2-5) True \<open>k \<le> 8\<close> in simp_all)
      then show ?thesis using repeats_join [OF 1(6)] by (simp add: add.assoc)
    qed
    show ?thesis
    proof (cases "?d = 0")
      case z: True
      have "repeats ?T (pos - ref) pos (pos + int (len + 8))" by (rule ext) (use equal_prefix(1) [OF len8] z in simp_all)
      then obtain n where "match_length s ref pos maxLength (len + 8) = Some n" "len + 8 \<le> n" "n \<le> max (len + 8) (maxLength + 7)" "repeats ?T (pos - ref) pos (pos + int n)"
        using 1(1) [OF True t(1) t(2) refl z] 1(2-5) by auto
      then show ?thesis using True z t by (auto simp: match_length.simps [of s ref pos maxLength len] Let_def)
    next
      case False
      let ?k = "ctz (unat ?d) div 8"
      have k: "?k < 8" by (rule equal_prefix(2) [OF len8 False])
      have "repeats ?T (pos - ref) pos (pos + int (len + ?k))" by (rule ext) (use equal_prefix(3) [OF len8 False] k in simp_all)
      then show ?thesis using True False t k by (simp add: match_length.simps [of s ref pos maxLength len] Let_def)
    qed
  qed
qed

section \<open>The history\<close>

text \<open>An entry is too far from every position, or a position before \<open>i\<close> with its four bytes.\<close>

definition value_at :: "byte list \<Rightarrow> int \<Rightarrow> u32" where
  "value_at T p = of_nat (le_val (slice T (nat p) 4))"

fun entry_known :: "byte list \<Rightarrow> int \<Rightarrow> int \<times> u32 \<Rightarrow> bool" where
  "entry_known T i (p, v) \<longleftrightarrow> p + int LZFSE_ENCODE_MAX_D_VALUE < 0 \<or> 0 \<le> p \<and> p < i \<and> p + 4 \<le> int (length T) \<and> v = value_at T p"

definition line_known :: "byte list \<Rightarrow> int \<Rightarrow> lzfse_history_set \<Rightarrow> bool" where
  "line_known T i h \<longleftrightarrow> length (hs_pos h) = 4 \<and> length (hs_value h) = 4 \<and> (\<forall>e \<in> set (zip (hs_pos h) (hs_value h)). entry_known T i e)"

definition history_known :: "byte list \<Rightarrow> int \<Rightarrow> lzfse_history_set list \<Rightarrow> bool" where
  "history_known T i hs \<longleftrightarrow> length hs = LZFSE_ENCODE_HASH_VALUES \<and> (\<forall>h \<in> set hs. line_known T i h)"

lemma entry_known_mono: "entry_known T i e \<Longrightarrow> i \<le> i' \<Longrightarrow> entry_known T i' e"
  by (cases e) auto

lemma line_known_mono: "line_known T i h \<Longrightarrow> i \<le> i' \<Longrightarrow> line_known T i' h"
  using entry_known_mono by (auto simp: line_known_def)

lemma hashX_less: "hashX x < LZFSE_ENCODE_HASH_VALUES"
proof -
  have "unat (x * 2654435761) < 2 ^ 32" using unsigned_less [of "x * 2654435761"] by simp
  then have "unat (x * 2654435761) div 2 ^ 18 < 2 ^ 14" by (simp add: less_mult_imp_div_less)
  then show ?thesis by (simp add: hashX_def LZFSE_ENCODE_HASH_VALUES_def unat_drop_bit)
qed

lemma next_line_known:
  assumes "line_known T i h" and "0 \<le> i" "i < 2 ^ 31" "i + 4 \<le> int (length T)"
  shows "line_known T (i + 1) (next_line i (value_at T i) h)"
proof -
  have i: "int32 i = i" using assms(2,3) by (simp add: int32_def)
  have z: "zip (hs_pos (next_line i (value_at T i) h)) (hs_value (next_line i (value_at T i) h)) = (i, value_at T i) # take 3 (zip (hs_pos h) (hs_value h))"
    by (simp add: next_line_def i take_zip)
  have "entry_known T (i + 1) e" if "e \<in> set (take 3 (zip (hs_pos h) (hs_value h)))" for e
    using assms(1) entry_known_mono [of T i e "i + 1"] in_set_takeD [OF that] by (auto simp: line_known_def)
  then have "\<forall>e \<in> set (zip (hs_pos (next_line i (value_at T i) h)) (hs_value (next_line i (value_at T i) h))). entry_known T (i + 1) e"
    unfolding z using assms(2,4) by auto
  then show ?thesis using assms(1) by (simp add: line_known_def next_line_def)
qed

section \<open>Finding a match\<close>

text \<open>The best match so far at the position \<open>pos\<close>; length 0 is none.\<close>

definition candidate_at :: "lzfse_encoder_state \<Rightarrow> int \<Rightarrow> lzfse_match \<Rightarrow> bool" where
  "candidate_at s pos m \<longleftrightarrow> mt_pos m = pos \<and> (mt_length m \<noteq> 0 \<longrightarrow> true_match s m \<and> 4 \<le> mt_length m)"

definition room_at :: "lzfse_encoder_state \<Rightarrow> int \<Rightarrow> bool" where
  "room_at s pos \<longleftrightarrow> text_ok s \<and> 0 \<le> pos \<and> e_src_literal s \<le> pos \<and> pos + 8 < e_src_end s \<and> e_src_end s + int LZFSE_ENCODE_MAX_D_VALUE \<le> 2 ^ 31"

lemma value_eq_slices: "length bs = 4 \<Longrightarrow> length cs = 4 \<Longrightarrow> (of_nat (le_val bs) :: u32) = of_nat (le_val cs) \<Longrightarrow> bs = cs"
  by (metis word_bytes)

lemma check_candidate_ok:
  assumes r: "room_at s pos" and e: "entry_known (e_text s) pos e" and m: "candidate_at s pos m"
  shows "\<exists>m'. check_candidate s pos (value_at (e_text s) pos) e m = Some m' \<and> candidate_at s pos m'"
proof -
  obtain p v where pv: "e = (p, v)" by (cases e)
  let ?T = "e_text s"
  have R: "e_src s = 0" "0 \<le> pos" "e_src_literal s \<le> pos" "pos + 8 < e_src_end s" "e_src_end s \<le> int (length ?T)" "e_src_end s + 262139 \<le> 2 ^ 31"
    using r by (simp_all add: room_at_def text_ok_def)
  consider "v \<noteq> value_at ?T pos" | "v = value_at ?T pos" "p + 262139 < pos" "p < pos" | "v = value_at ?T pos" "\<not> p + 262139 < pos" "0 \<le> p" "p < pos" "v = value_at ?T p"
    using e pv R(2) by fastforce
  then show ?thesis
  proof cases
    case 1
    then have "v XOR value_at ?T pos \<noteq> 0" by (simp add: xor_zero_eq)
    then show ?thesis using m pv by (simp add: check_candidate_def)
  next
    case 2
    then have "v XOR value_at ?T pos = 0" by simp
    then show ?thesis using m pv 2 R by (simp add: check_candidate_def)
  next
    case 3
    let ?max = "nat (e_src_end s - pos - 8)"
    have wrap: "(e_src_end s - pos - 8) mod 2 ^ 32 = e_src_end s - pos - 8" using R by simp
    have "slice ?T (nat p) 4 = slice ?T (nat pos) 4"
      by (rule value_eq_slices) (use 3 R in \<open>simp_all add: value_at_def\<close>)
    then have "repeats ?T (pos - p) pos (pos + int 4)" by (intro slices_repeat) (use 3 R in simp_all)
    then obtain n where n: "match_length s p pos ?max 4 = Some n" "4 \<le> n" "n \<le> max 4 (?max + 7)" "repeats ?T (pos - p) pos (pos + int n)"
      using match_length_ok [of s p pos ?max 4] R 3 by auto
    have "pos + int n \<le> e_src_end s" using n(3) R(4) by linarith
    then have "true_match s (m\<lparr>mt_length := n, mt_ref := p\<rparr>)" using m 3 R n(4) by (simp add: true_match_def candidate_at_def)
    moreover have "v XOR value_at ?T pos = 0" "\<not> p + 262139 \<ge> 2 ^ 31" using 3 R by simp_all
    ultimately show ?thesis using m pv 3(2) n(1,2) wrap by (simp add: check_candidate_def candidate_at_def)
  qed
qed

lemma check_candidates_ok:
  assumes "room_at s pos" and "\<forall>e \<in> set es. entry_known (e_text s) pos e" and "candidate_at s pos m"
  shows "\<exists>m'. check_candidates s pos (value_at (e_text s) pos) es m = Some m' \<and> candidate_at s pos m'"
  using assms(2,3)
proof (induction es arbitrary: m)
  case (Cons e es)
  obtain m1 where "check_candidate s pos (value_at (e_text s) pos) e m = Some m1" "candidate_at s pos m1"
    using check_candidate_ok [OF assms(1) _ Cons.prems(2), of e] Cons.prems(1) by auto
  then show ?case using Cons.IH [of m1] Cons.prems(1) by simp
qed simp

lemma text1_some: "e_src s = 0 \<Longrightarrow> 0 \<le> p \<Longrightarrow> p < int (length (e_text s)) \<Longrightarrow> text1 s p = Some (e_text s ! nat p)"
  using text_load_some [of s p 1] by (simp add: text1_def slice_def hd_drop_conv_nth)

lemma expand_back_ok:
  assumes "text_ok s" and "e_src_literal s \<le> mt_pos m" "0 \<le> mt_ref m" "mt_ref m < mt_pos m" "mt_pos m \<le> int (length (e_text s))"
    and "repeats (e_text s) (mt_pos m - mt_ref m) (mt_pos m) e"
  shows "\<exists>m'. expand_back s m = Some m' \<and> mt_length m' = mt_length m \<and> e_src_literal s \<le> mt_pos m' \<and> mt_pos m' \<le> mt_pos m \<and> 0 \<le> mt_ref m' \<and>
    mt_pos m' - mt_ref m' = mt_pos m - mt_ref m \<and> repeats (e_text s) (mt_pos m - mt_ref m) (mt_pos m') e"
  using assms
proof (induction s m rule: expand_back.induct)
  case (1 s m)
  show ?case
  proof (cases "e_src_literal s < mt_pos m \<and> 0 < mt_ref m")
    case False
    then show ?thesis using 1(2-7) by (auto simp: expand_back.simps [of s m])
  next
    case True
    have t: "text1 s (mt_ref m - 1) = Some (e_text s ! nat (mt_ref m - 1))" "text1 s (mt_pos m - 1) = Some (e_text s ! nat (mt_pos m - 1))"
      using 1(2-6) True by (intro text1_some; simp add: text_ok_def)+
    show ?thesis
    proof (cases "e_text s ! nat (mt_ref m - 1) = e_text s ! nat (mt_pos m - 1)")
      case False
      then show ?thesis using 1(2-7) True t by (simp add: expand_back.simps [of s m])
    next
      case eq: True
      have "k = mt_pos m - 1" if "mt_pos m - 1 \<le> k" "k < mt_pos m" for k using that by linarith
      then have "repeats (e_text s) (mt_pos m - mt_ref m) (mt_pos m - 1) (mt_pos m)" using eq unfolding repeats_def by (metis diff_diff_eq2 diff_add_cancel add_diff_cancel_right' add.commute diff_diff_eq)
      then have "repeats (e_text s) (mt_pos m - mt_ref m) (mt_pos m - 1) e" using 1(7) by (rule repeats_join)
      then show ?thesis using 1(1) [OF True t eq] 1(2-6) True t eq by (auto simp: expand_back.simps [of s m])
    qed
  qed
qed

lemma extend_match_ok:
  assumes t: "text_ok s" and m: "true_match s m" "mt_pos m = pos" "mt_length m \<noteq> 0"
  shows "\<exists>m'. extend_match s pos m = Some m' \<and> true_match s m' \<and> mt_length m' \<noteq> 0 \<and>
    mt_pos m' \<le> pos \<and> mt_pos m' + int (mt_length m') = pos + int (min (mt_length m) LZFSE_ENCODE_MAX_MATCH_LENGTH)"
proof -
  let ?n = "min (mt_length m) LZFSE_ENCODE_MAX_MATCH_LENGTH" and ?D = "mt_pos m - mt_ref m"
  have M: "e_src_literal s \<le> pos" "0 \<le> mt_ref m" "mt_ref m < pos" "?D \<le> 262139" "pos + int (mt_length m) \<le> e_src_end s"
      "repeats (e_text s) ?D pos (pos + int (mt_length m))" using m(1,2) by (auto simp: true_match_def)
  have n: "?n \<le> mt_length m" "0 < ?n" using m(3) by simp_all
  have "repeats (e_text s) ?D pos (pos + int ?n)" by (rule repeats_sub [OF M(6)]) (use n in simp_all)
  moreover have "pos \<le> int (length (e_text s))" using M(5) t by (simp add: text_ok_def)
  ultimately obtain m' where m': "expand_back s (m\<lparr>mt_length := ?n\<rparr>) = Some m'" "mt_length m' = ?n" "e_src_literal s \<le> mt_pos m'" "mt_pos m' \<le> pos" "0 \<le> mt_ref m'"
      "mt_pos m' - mt_ref m' = ?D" "repeats (e_text s) ?D (mt_pos m') (pos + int ?n)"
    using expand_back_ok [OF t, of "m\<lparr>mt_length := ?n\<rparr>" "pos + int ?n"] M m(2) by auto
  let ?m = "m'\<lparr>mt_length := mt_length m' + nat (pos - mt_pos m')\<rparr>"
  have e: "mt_pos ?m + int (mt_length ?m) = pos + int ?n" using m'(2,4) by simp
  have "pos + int ?n \<le> e_src_end s" using M(5) n(1) by linarith
  then have "true_match s ?m"
    unfolding true_match_def e using m'(3,5-7) M(3,4) m(2) by simp
  moreover have "mt_length ?m \<noteq> 0" "mt_pos ?m \<le> pos" using m'(2,4) n(2) by simp_all
  moreover have "extend_match s pos m = Some ?m" using m'(1) by (simp add: extend_match_def)
  ultimately show ?thesis using e by blast
qed

section \<open>The loop\<close>

definition search_inv :: "lzfse_encoder_state \<Rightarrow> bool" where
  "search_inv s \<longleftrightarrow>
     backend_inv s \<and> 0 \<le> e_src_encode_i s \<and> e_src_end s + int LZFSE_ENCODE_MAX_D_VALUE \<le> 2 ^ 31 \<and>
     (mt_length (e_pending s) \<noteq> 0 \<longrightarrow> true_match s (e_pending s)) \<and> history_known (e_text s) (e_src_encode_i s) (e_history s)"

text \<open>What a step of the search promises: the pending match may change.\<close>

definition keeps :: "lzfse_encoder_state \<Rightarrow> lzfse_encoder_state \<Rightarrow> bool" where
  "keeps s s' \<longleftrightarrow> same_search (s\<lparr>e_pending := e_pending s'\<rparr>) s'"

definition searches :: "lzfse_encoder_state \<Rightarrow> encoder_result \<Rightarrow> bool" where
  "searches s r \<longleftrightarrow> (\<exists>ok s'. r = Some (ok, s') \<and> length (e_out s') = length (e_out s) \<and> (ok \<longrightarrow> search_inv s' \<and> keeps s s'))"

lemma no_match_length [simp]: "mt_length NO_MATCH_LZFSE = 0"
  by (simp add: NO_MATCH_LZFSE_def)

lemma search_invI:
  assumes "search_inv s" and "backend_inv s'" and "same_search s s'" and "mt_length m \<noteq> 0 \<Longrightarrow> true_match s' m"
  shows "search_inv (s'\<lparr>e_pending := m\<rparr>)" and "keeps s (s'\<lparr>e_pending := m\<rparr>)"
  using assms
  by (auto simp: search_inv_def same_search_def keeps_def backend_inv_def arrays_ok_def text_ok_def triples_def pending_literals_def true_match_def)

text \<open>A match is emitted, and the one to keep lies behind it.\<close>

lemma emit_and_keep_ok:
  assumes inv: "search_inv s" and m: "true_match s m"
    and k: "mt_length k \<noteq> 0 \<Longrightarrow> true_match s k \<and> mt_pos m + int (mt_length m) \<le> mt_pos k"
  shows "searches s (emit_and_keep ub s m k)"
proof -
  have b: "backend_inv s" using inv by (simp add: search_inv_def)
  obtain ok s1 where 1: "lzfse_backend_match ub s m = Some (ok, s1)" "length (e_out s1) = length (e_out s)"
      "ok \<longrightarrow> backend_inv s1 \<and> same_search s s1 \<and> e_src_literal s1 = mt_pos m + int (mt_length m)"
    using lzfse_backend_match_ok [OF b m, of ub] by (auto simp: reaches_def)
  have "search_inv (s1\<lparr>e_pending := k\<rparr>) \<and> keeps s (s1\<lparr>e_pending := k\<rparr>)" if ok
    using search_invI [OF inv, of s1 k] 1(3) that k true_match_same [of s k s1] by auto
  then show ?thesis using 1(1,2) by (auto simp: searches_def emit_and_keep_def)
qed

lemma no_incoming_ok:
  assumes inv: "search_inv s" and pos: "pos \<le> e_src_end s"
  shows "searches s (no_incoming ub s pos)"
proof -
  have b: "backend_inv s" and p: "mt_length (e_pending s) \<noteq> 0 \<longrightarrow> true_match s (e_pending s)" using inv by (simp_all add: search_inv_def)
  consider "\<not> pos - e_src_literal s > 8 * 315" | "pos - e_src_literal s > 8 * 315" "mt_length (e_pending s) \<noteq> 0"
    | "pos - e_src_literal s > 8 * 315" "mt_length (e_pending s) = 0" by blast
  then show ?thesis
  proof cases
    case 1
    then show ?thesis using inv by (simp add: no_incoming_def searches_def keeps_def)
  next
    case 2
    then show ?thesis using emit_and_keep_ok [OF inv, of "e_pending s" NO_MATCH_LZFSE ub] p by (simp add: no_incoming_def)
  next
    case 3
    obtain ok s1 where 1: "lzfse_backend_literals ub s 315 = Some (ok, s1)" "length (e_out s1) = length (e_out s)"
        "ok \<longrightarrow> backend_inv s1 \<and> same_search s s1"
      using lzfse_backend_literals_ok [OF b, of 315 ub] 3(1) pos by (auto simp: reaches_def)
    have "search_inv s1 \<and> keeps s s1" if ok
    proof -
      have s1: "backend_inv s1" "same_search s s1" using 1(3) that by simp_all
      have "s1\<lparr>e_pending := e_pending s1\<rparr> = s1" "mt_length (e_pending s1) = 0" using 3(2) s1(2) by (simp_all add: same_search_def)
      then show ?thesis using search_invI [OF inv s1, of "e_pending s1"] by simp
    qed
    then show ?thesis using 1(1,2) 3 by (auto simp: searches_def no_incoming_def)
  qed
qed

lemma keep_or_emit_ok:
  assumes inv: "search_inv s" and m: "true_match s m" "mt_length m \<noteq> 0"
  shows "searches s (keep_or_emit ub s m)"
proof -
  have b: "backend_inv s" and p: "mt_length (e_pending s) \<noteq> 0 \<Longrightarrow> true_match s (e_pending s)" using inv by (simp_all add: search_inv_def)
  have none: "searches s (emit_and_keep ub s x NO_MATCH_LZFSE)" if "true_match s x" for x
    by (rule emit_and_keep_ok [OF inv that]) simp
  have keep: "searches s (Some (True, s\<lparr>e_pending := m\<rparr>))"
    using search_invI [OF inv b same_search_refl] m by (simp add: searches_def)
  have both: "searches s (emit_and_keep ub s (e_pending s) m)"
    if "mt_length (e_pending s) \<noteq> 0" "mt_pos (e_pending s) + int (mt_length (e_pending s)) \<le> mt_pos m"
    by (rule emit_and_keep_ok [OF inv p]) (use that m in simp_all)
  show ?thesis using none keep both m(1) p by (simp add: keep_or_emit_def Let_def)
qed

lemma encode_pos_ok:
  assumes inv: "search_inv s" and pos: "e_src_encode_i s + 8 < e_src_end s" and h: "line_known (e_text s) (e_src_encode_i s) h"
  shows "searches s (encode_pos ub s (value_at (e_text s) (e_src_encode_i s)) h)"
proof (cases "e_src_encode_i s < e_src_literal s")
  case True
  then show ?thesis using inv by (simp add: encode_pos_def searches_def keeps_def)
next
  case False
  let ?pos = "e_src_encode_i s"
  have r: "room_at s ?pos" "text_ok s" using inv pos False by (simp_all add: search_inv_def room_at_def backend_inv_def)
  obtain m where m: "check_candidates s ?pos (value_at (e_text s) ?pos) (zip (hs_pos h) (hs_value h)) \<lparr>mt_pos = ?pos, mt_ref = 0, mt_length = 0\<rparr> = Some m"
      "candidate_at s ?pos m"
  proof -
    have "candidate_at s ?pos \<lparr>mt_pos = ?pos, mt_ref = 0, mt_length = 0\<rparr>" by (simp add: candidate_at_def)
    then show thesis using check_candidates_ok [OF r(1), of "zip (hs_pos h) (hs_value h)"] h that by (auto simp: line_known_def)
  qed
  show ?thesis
  proof (cases "mt_length m = 0")
    case True
    then show ?thesis using m(1) no_incoming_ok [OF inv, of ?pos ub] False pos by (simp add: encode_pos_def)
  next
    case nz: False
    obtain m' where "extend_match s ?pos m = Some m'" "true_match s m'" "mt_length m' \<noteq> 0"
      using extend_match_ok [OF r(2), of m ?pos] m(2) nz by (auto simp: candidate_at_def)
    then show ?thesis using m(1) nz keep_or_emit_ok [OF inv, of m' ub] False by (simp add: encode_pos_def)
  qed
qed

text \<open>The loop moves on in the source and fills the history.\<close>

definition moves :: "lzfse_encoder_state \<Rightarrow> lzfse_encoder_state \<Rightarrow> bool" where
  "moves s s' \<longleftrightarrow> e_text s' = e_text s \<and> e_src_end s' = e_src_end s \<and> length (e_out s') = length (e_out s)"

text \<open>The new line of the history and the next position.\<close>

lemma search_next:
  assumes inv: "search_inv s" and pos: "e_src_encode_i s + 8 < e_src_end s" and s1: "search_inv s1" "keeps s s1"
  defines "i \<equiv> e_src_encode_i s" and "x \<equiv> value_at (e_text s) (e_src_encode_i s)"
  shows "search_inv (s1\<lparr>e_history := (e_history s1)[hashX x := next_line i x (e_history s ! hashX x)], e_src_encode_i := e_src_encode_i s1 + 1\<rparr>)"
proof -
  let ?T = "e_text s" and ?l = "next_line i x (e_history s ! hashX x)"
  have I: "text_ok s" "0 \<le> i" "e_src_end s + 262139 \<le> 2 ^ 31" "history_known ?T i (e_history s)"
    using inv by (simp_all add: search_inv_def backend_inv_def i_def)
  have K: "e_text s1 = ?T" "e_src_end s1 = e_src_end s" "e_src_encode_i s1 = i" "e_history s1 = e_history s"
    using s1(2) by (simp_all add: keeps_def same_search_def i_def)
  have h: "line_known ?T i (e_history s ! hashX x)" using hashX_less [of x] I(4) by (simp add: history_known_def)
  have "line_known ?T (i + 1) ?l"
    using next_line_known [OF h I(2)] I(1,3) pos by (simp add: text_ok_def i_def x_def)
  moreover have "line_known ?T (i + 1) g" if "g \<in> set (e_history s)" for g
    using I(4) that line_known_mono [of ?T i g "i + 1"] by (simp add: history_known_def)
  ultimately have "history_known ?T (i + 1) ((e_history s)[hashX x := ?l])"
    using I(4) set_update_subset_insert [of "e_history s" "hashX x" ?l] by (auto simp: history_known_def)
  then show ?thesis
    using K s1(1) I(2) by (simp add: search_inv_def backend_inv_def arrays_ok_def text_ok_def triples_def pending_literals_def true_match_def)
qed

lemma encode_loop_ok:
  assumes "search_inv s" and "e_src_encode_i s + int n + 8 \<le> e_src_end s \<or> n = 0"
  shows "\<exists>ok s'. encode_loop ub n s = Some (ok, s') \<and> length (e_out s') = length (e_out s) \<and> (ok \<longrightarrow> search_inv s' \<and> moves s s')"
  using assms
proof (induction n arbitrary: s)
  case 0
  then show ?case by (simp add: moves_def)
next
  case (Suc n)
  let ?i = "e_src_encode_i s" and ?T = "e_text s"
  let ?x = "value_at ?T ?i" and ?h = "e_history s ! hashX (value_at ?T ?i)"
  have I: "text_ok s" "0 \<le> ?i" "e_src_end s + 262139 \<le> 2 ^ 31" "history_known ?T ?i (e_history s)" "?i + 8 < e_src_end s"
    using Suc.prems by (auto simp: search_inv_def backend_inv_def)
  then have x: "text4 s ?i = Some ?x" using text_load_some [of s ?i 4] by (simp add: text4_def text_ok_def value_at_def)
  have hl: "hashX ?x < length (e_history s)" using hashX_less I(4) by (simp add: history_known_def)
  then have h: "line_known ?T ?i ?h" using I(4) by (simp add: history_known_def)
  obtain ok s1 where 1: "encode_pos ub s ?x ?h = Some (ok, s1)" "length (e_out s1) = length (e_out s)" "ok \<longrightarrow> search_inv s1 \<and> keeps s s1"
    using encode_pos_ok [OF Suc.prems(1) I(5) h, of ub] by (auto simp: searches_def)
  show ?case
  proof (cases ok)
    case False
    then show ?thesis using x hl 1 by simp
  next
    case True
    let ?s = "s1\<lparr>e_history := (e_history s1)[hashX ?x := next_line ?i ?x ?h], e_src_encode_i := e_src_encode_i s1 + 1\<rparr>"
    have K: "search_inv s1" "e_text s1 = ?T" "e_src_end s1 = e_src_end s" "e_src_encode_i s1 = ?i" "e_history s1 = e_history s" "length (e_out s1) = length (e_out s)"
      using 1(3) True by (simp_all add: keeps_def same_search_def)
    have s: "search_inv ?s" using search_next [OF Suc.prems(1) I(5) K(1)] 1(3) True by simp
    have "e_src_encode_i ?s + int n + 8 \<le> e_src_end ?s \<or> n = 0" using Suc.prems(2) K by simp
    from Suc.IH [OF s this] show ?thesis using x hl 1(1) True K by (simp add: moves_def)
  qed
qed

section \<open>The whole source\<close>

lemma lzfse_encode_base_ok:
  assumes "search_inv s"
  shows "\<exists>ok s'. lzfse_encode_base ub s = Some (ok, s') \<and> length (e_out s') = length (e_out s) \<and> (ok \<longrightarrow> search_inv s' \<and> moves s s')"
proof -
  let ?s = "s\<lparr>e_src_encode_end := e_src_end s - 8\<rparr>"
  have inv: "search_inv ?s"
    using assms by (simp add: search_inv_def backend_inv_def arrays_ok_def text_ok_def triples_def pending_literals_def true_match_def)
  have "e_src_encode_i ?s + int (nat (e_src_end s - 8 - e_src_encode_i s)) + 8 \<le> e_src_end ?s \<or> nat (e_src_end s - 8 - e_src_encode_i s) = 0" by auto
  from encode_loop_ok [OF inv this, of ub] show ?thesis by (simp add: lzfse_encode_base_def Let_def moves_def)
qed

lemma lzfse_encode_finish_ok:
  assumes inv: "search_inv s"
  shows "\<exists>ok s'. lzfse_encode_finish ub s = Some (ok, s') \<and> length (e_out s') = length (e_out s) \<and>
    (ok \<longrightarrow> e_dst s' \<le> length (e_out s') \<and> (\<exists>bs. take (e_dst s') (e_out s') = bs @ le_enc 4 (unat LZFSE_ENDOFSTREAM_BLOCK_MAGIC) \<and>
       decodes_to bs [] (take (nat (e_src_end s)) (e_text s))))"
proof -
  have p: "mt_length (e_pending s) \<noteq> 0 \<Longrightarrow> true_match s (e_pending s)" using inv by (simp add: search_inv_def)
  let ?r1 = "if mt_length (e_pending s) > 0 then emit_and_keep ub s (e_pending s) NO_MATCH_LZFSE else Some (True, s)"
  have "searches s ?r1"
  proof (cases "mt_length (e_pending s) > 0")
    case True
    then show ?thesis using emit_and_keep_ok [OF inv p, of NO_MATCH_LZFSE ub] by simp
  next
    case False
    then show ?thesis using inv by (simp add: searches_def keeps_def)
  qed
  then obtain ok1 s1 where 1: "?r1 = Some (ok1, s1)" "length (e_out s1) = length (e_out s)" "ok1 \<longrightarrow> search_inv s1 \<and> keeps s s1"
    by (auto simp only: searches_def)
  show ?thesis
  proof (cases ok1)
    case False
    then show ?thesis using 1(1,2) by (simp add: lzfse_encode_finish_def)
  next
    case True
    have b1: "backend_inv s1" "e_src_end s1 = e_src_end s" "e_text s1 = e_text s" using 1(3) True by (simp_all add: search_inv_def keeps_def same_search_def)
    let ?L = "e_src_end s1 - e_src_literal s1"
    let ?r2 = "if ?L > 0 then lzfse_backend_literals ub s1 ?L else Some (True, s1)"
    have "reaches s1 (e_src_end s1) ?r2"
    proof (cases "?L > 0")
      case True
      then show ?thesis using lzfse_backend_literals_ok [OF b1(1), of ?L ub] by simp
    next
      case False
      then have "e_src_literal s1 = e_src_end s1" using b1(1) by (simp add: backend_inv_def text_ok_def)
      then show ?thesis using b1(1) by (simp add: reaches_def)
    qed
    then obtain ok2 s2 where 2: "?r2 = Some (ok2, s2)" "length (e_out s2) = length (e_out s1)"
        "ok2 \<longrightarrow> backend_inv s2 \<and> same_search s1 s2 \<and> e_src_literal s2 = e_src_end s1"
      by (auto simp only: reaches_def)
    show ?thesis
    proof (cases ok2)
      case False
      then show ?thesis using 1(1,2) 2(1,2) True by (simp add: lzfse_encode_finish_def Let_def)
    next
      case ok2: True
      have b2: "backend_inv s2" "e_src_literal s2 = e_src_end s" "e_text s2 = e_text s" "length (e_out s2) = length (e_out s)"
        using 1(2) 2(2,3) ok2 b1 by (simp_all add: same_search_def)
      show ?thesis
        using 1(1) 2(1) True ok2 lzfse_backend_end_of_stream_ok [OF b2(1), of ub] unfolding b2(2-4)
        by (simp add: lzfse_encode_finish_def Let_def)
    qed
  qed
qed

lemma encode_start_ok:
  assumes "length src_buffer + LZFSE_ENCODE_MAX_D_VALUE \<le> 2 ^ 31"
  shows "search_inv (encode_start dst_buffer src_buffer\<lparr>e_src_end := int (length src_buffer)\<rparr>)"
proof -
  have "line_known src_buffer 0 \<lparr>hs_pos = replicate 4 invalid_pos, hs_value = replicate 4 0\<rparr>"
    by (auto simp: line_known_def invalid_pos_def dest: set_zip_leftD)
  then have "history_known src_buffer 0 (replicate LZFSE_ENCODE_HASH_VALUES \<lparr>hs_pos = replicate 4 invalid_pos, hs_value = replicate 4 0\<rparr>)"
    by (simp add: history_known_def)
  moreover have "int (length src_buffer) + 262139 \<le> 2 ^ 31" using assms by simp
  moreover have "decodes_to [] [] []" by (rule decodes_to_Nil)
  ultimately show ?thesis
    by (auto simp: search_inv_def backend_inv_def arrays_ok_def text_ok_def encode_start_def lzfse_encode_init_def Let_def triples_def pending_literals_def
        intro!: exI [of _ 0])
qed

lemma encode_lzfse_ok:
  assumes "length src_buffer + LZFSE_ENCODE_MAX_D_VALUE \<le> 2 ^ 31"
  shows "\<exists>b r. encode_lzfse ub dst_buffer src_buffer = Some (b, r) \<and> length b = length dst_buffer \<and>
    (\<forall>n. r = Some n \<longrightarrow> n \<le> length b \<and> (\<exists>bs. take n b = bs @ le_enc 4 (unat LZFSE_ENDOFSTREAM_BLOCK_MAGIC) \<and> decodes_to bs [] src_buffer))"
proof -
  let ?s = "encode_start dst_buffer src_buffer\<lparr>e_src_end := int (length src_buffer)\<rparr>"
  have h: "encode_huge ub (encode_start dst_buffer src_buffer) (length src_buffer) = Some (True, ?s)"
    using assms by (simp add: encode_huge_def)
  have o: "length (e_out ?s) = length dst_buffer" "e_text ?s = src_buffer" by (simp_all add: encode_start_def lzfse_encode_init_def Let_def)
  obtain ok s1 where 1: "lzfse_encode_base ub ?s = Some (ok, s1)" "length (e_out s1) = length dst_buffer" "ok \<longrightarrow> search_inv s1 \<and> moves ?s s1"
    using lzfse_encode_base_ok [OF encode_start_ok [OF assms], of ub dst_buffer] o by auto
  show ?thesis
  proof (cases ok)
    case False
    then show ?thesis using h 1(1,2) by (simp add: encode_lzfse_def)
  next
    case True
    have s1: "search_inv s1" "e_src_end s1 = int (length src_buffer)" "e_text s1 = src_buffer" using 1(3) True o by (simp_all add: moves_def)
    obtain ok2 s2 where 2: "lzfse_encode_finish ub s1 = Some (ok2, s2)" "length (e_out s2) = length (e_out s1)"
        "ok2 \<longrightarrow> e_dst s2 \<le> length (e_out s2) \<and> (\<exists>bs. take (e_dst s2) (e_out s2) = bs @ le_enc 4 (unat LZFSE_ENDOFSTREAM_BLOCK_MAGIC) \<and> decodes_to bs [] src_buffer)"
      using lzfse_encode_finish_ok [OF s1(1), of ub] s1(2,3) by auto
    have "encode_lzfse ub dst_buffer src_buffer = Some (e_out s2, if ok2 then Some (e_dst s2) else None)"
      using h 1(1) True 2(1) by (simp add: encode_lzfse_def)
    then show ?thesis using 1(2) 2(2,3) by simp
  qed
qed

section \<open>Large sources\<close>

text \<open>Only sources of 4 GiB and more are processed in chunks, although the comment in the code
  says that it changes over well before 2 GiB: everything below is one chunk, and the
  32-bit sum of a history position and the largest distance overflows from
  \<open>2^31 - 262139\<close> on.\<close>

lemma one_chunk_below_4_GiB:
  assumes "n < 2 ^ 32 - 1"
  shows "encode_huge ub s n = Some (True, s\<lparr>e_src_end := int n\<rparr>)"
    and "2 ^ 31 - int LZFSE_ENCODE_MAX_D_VALUE \<le> p \<Longrightarrow> check_candidate s pos x (p, x) m = None"
  using assms by (simp_all add: encode_huge_def check_candidate_def)

section \<open>Properties\<close>

text \<open>C4. The invariant of the encoder.  From a state in which the destination decodes to a prefix of the
  source, the collected triples and literals extend it up to \<open>src_literal\<close>, the history holds true
  positions and the pending match is a match, \<open>lzfse_encode_base\<close> returns and either reports a full destination
  or is again in such a state; and \<open>lzfse_encode_finish\<close> returns and, unless it reports a
  full destination, leaves blocks that decode to the whole source, and the end mark.\<close>

theorem lzfse_encoder_invariant:
  assumes "search_inv s"
  shows "(\<exists>ok s'. lzfse_encode_base ub s = Some (ok, s') \<and> (ok \<longrightarrow> search_inv s')) \<and>
    (\<exists>ok s'. lzfse_encode_finish ub s = Some (ok, s') \<and>
       (ok \<longrightarrow> (\<exists>bs. take (e_dst s') (e_out s') = bs @ le_enc 4 (unat LZFSE_ENDOFSTREAM_BLOCK_MAGIC) \<and>
          decodes_to bs [] (take (nat (e_src_end s)) (e_text s)))))"
  using lzfse_encode_base_ok [OF assms, of ub] lzfse_encode_finish_ok [OF assms, of ub] by blast

theorem lzfse_encoder_invariant_witness:
  "\<exists>s. e_text s = [1, 2, 3] \<and> e_src_end s = 3 \<and> search_inv s \<and> (\<exists>ok s'. lzfse_encode_base 0 s = Some (ok, s') \<and> (ok \<longrightarrow> search_inv s')) \<and>
    (\<exists>ok s'. lzfse_encode_finish 0 s = Some (ok, s') \<and>
       (ok \<longrightarrow> (\<exists>bs. take (e_dst s') (e_out s') = bs @ le_enc 4 (unat LZFSE_ENDOFSTREAM_BLOCK_MAGIC) \<and> decodes_to bs [] [1, 2, 3])))"
proof -
  let ?s = "encode_start (replicate 9 0) [1, 2, 3]\<lparr>e_src_end := int (length [1, 2, 3 :: byte])\<rparr>"
  have "search_inv ?s" by (rule encode_start_ok) simp
  moreover have e: "e_text ?s = [1, 2, 3]" "e_src_end ?s = 3" "take (nat 3) [1, 2, 3] = [1, 2, 3 :: byte]"
    by (simp_all add: encode_start_def lzfse_encode_init_def Let_def)
  moreover note lzfse_encoder_invariant [OF \<open>search_inv ?s\<close>, of 0, unfolded e]
  ultimately show ?thesis by blast
qed

end
