(* ===== verification/LZFSE_Wrapped.thy ===== *)
theory LZFSE_Wrapped
  imports LZFSE_Search
begin

text \<open>
  The other blocks of an LZFSE stream: uncompressed bytes and a wrapped LZVN stream.  The
  LZFSE decoder gives the LZVN decoder exactly the payload and exactly the room of the
  block and insists on both being used up and on the end marker; shown here is that a
  stream of \<open>lzvn_encode_buffer\<close> meets this.
\<close>

section \<open>What is left behind the end marker\<close>

function lzvn_left :: "nat \<Rightarrow> byte list \<Rightarrow> byte list \<Rightarrow> nat option" where
  "lzvn_left D bs out =
     (case instr_of D bs of
        End_op \<Rightarrow> Some (length bs - 8)
      | Instr n L M D' \<Rightarrow>
          (case apply_instr L M D' (drop n bs) out of None \<Rightarrow> None | Some o1 \<Rightarrow> lzvn_left D' (drop (n + L) bs) o1)
      | _ \<Rightarrow> None)"
  by pat_completeness auto

termination lzvn_left
  by (relation "measure (\<lambda>(D, bs, out). length bs)") (auto dest!: instr_of_length)

declare lzvn_left.simps [simp del]

lemma instr_of_butlast:
  assumes "9 \<le> length bs"
  shows "instr_of D bs = End_op \<Longrightarrow> instr_of D (butlast bs) = End_op"
    and "instr_of D bs = Instr n L M D' \<Longrightarrow> n + L + 1 < length bs \<Longrightarrow> instr_of D (butlast bs) = Instr n L M D'"
proof -
  have b: "butlast bs ! 0 = bs ! 0" "butlast bs ! 1 = bs ! 1" "butlast bs ! 2 = bs ! 2" "butlast bs \<noteq> []" "bs \<noteq> []" "length (butlast bs) = length bs - 1"
    using assms by (auto simp: nth_butlast butlast_conv_take)
  note cls = instr_of_class [OF b(4), of D, unfolded b(1-3)] instr_of_class [OF b(5), of D]
  have len: "\<not> length bs < 8" "\<not> length (butlast bs) < 8" using assms b(6) by simp_all
  show "instr_of D bs = End_op \<Longrightarrow> instr_of D (butlast bs) = End_op"
    using len unfolding cls by (cases "class_of (unat (bs ! 0))") (simp_all add: complete_instr_def split: if_splits)
  have c: "complete_instr bs n' L' M' D'' = Instr n L M D' \<Longrightarrow> n + L + 1 < length bs \<Longrightarrow> complete_instr (butlast bs) n' L' M' D'' = Instr n L M D'" for n' L' M' D''
    by (auto simp: complete_instr_def b(6) split: if_splits)
  show "instr_of D bs = Instr n L M D' \<Longrightarrow> n + L + 1 < length bs \<Longrightarrow> instr_of D (butlast bs) = Instr n L M D'"
    using len c unfolding cls by (cases "class_of (unat (bs ! 0))") simp_all
qed

lemma lzvn_left_finished:
  "snd (lzvn_run_spec D bs out) = Finished \<Longrightarrow>
    \<exists>r. lzvn_left D bs out = Some r \<and> r + 8 \<le> length bs \<and> (0 < r \<longrightarrow> snd (lzvn_run_spec D (butlast bs) out) = Finished)"
proof (induction D bs out rule: lzvn_run_spec.induct)
  case (1 D bs out)
  show ?case
  proof (cases "instr_of D bs")
    case (Instr n L M D')
    obtain o1 where o1: "apply_instr L M D' (drop n bs) out = Some o1"
      using 1(2) Instr by (auto simp: lzvn_run_spec.simps [of D bs] split: option.splits)
    have "snd (lzvn_run_spec D' (drop (n + L) bs) o1) = Finished" using 1(2) Instr o1 by (simp add: lzvn_run_spec.simps [of D bs])
    then obtain r where r: "lzvn_left D' (drop (n + L) bs) o1 = Some r" "r + 8 \<le> length (drop (n + L) bs)"
        "0 < r \<longrightarrow> snd (lzvn_run_spec D' (butlast (drop (n + L) bs)) o1) = Finished"
      using 1(1) [OF Instr o1] by blast
    have "snd (lzvn_run_spec D (butlast bs) out) = Finished" if "0 < r"
    proof -
      have len: "n + L + 9 \<le> length bs" using r(2) that by simp
      then have i: "instr_of D (butlast bs) = Instr n L M D'" by (intro instr_of_butlast(2)) (use Instr in simp_all)
      have "take L (drop n (butlast bs)) = take L (drop n bs)" using len by (simp add: butlast_conv_take take_drop min_def)
      then have "apply_instr L M D' (drop n (butlast bs)) out = Some o1" using o1 by (simp add: apply_instr_def)
      then show ?thesis using r(3) that i by (simp add: lzvn_run_spec.simps [of D "butlast bs"] butlast_drop)
    qed
    then show ?thesis using r(1,2) Instr o1 by (simp add: lzvn_left.simps [of D bs])
  next
    case End_op
    then have l: "8 \<le> length bs" by (auto simp: instr_of_def complete_instr_def Let_def split: if_splits)
    have "snd (lzvn_run_spec D (butlast bs) out) = Finished" if "0 < length bs - 8"
      using instr_of_butlast(1) [OF _ End_op] that by (simp add: lzvn_run_spec.simps [of D "butlast bs"])
    then show ?thesis using End_op l by (simp add: lzvn_left.simps [of D bs])
  qed (use 1(2) in \<open>auto simp: lzvn_run_spec.simps [of D bs]\<close>)
qed

text \<open>Nothing is left behind the marker that ends an encoded stream.\<close>

lemma nothing_left:
  assumes "decodes as 0 [] D out"
  shows "lzvn_run_spec 0 (as @ le_enc 8 6) [] = (out, Finished)" and "lzvn_left 0 (as @ le_enc 8 6) [] = Some 0"
proof -
  have m: "le_enc 8 6 = [6, 0, 0, 0, 0, 0, 0, 0]" by code_simp
  show f: "lzvn_run_spec 0 (as @ le_enc 8 6) [] = (out, Finished)"
    by (rule decodes_finished [OF assms])
  obtain r where r: "lzvn_left 0 (as @ le_enc 8 6) [] = Some r" "0 < r \<longrightarrow> snd (lzvn_run_spec 0 (butlast (as @ le_enc 8 6)) []) = Finished"
    using lzvn_left_finished [of 0 "as @ le_enc 8 6" "[]"] f by auto
  have "lzvn_run_spec 0 (as @ [6, 0, 0, 0, 0, 0, 0]) [] = lzvn_run_spec D [6, 0, 0, 0, 0, 0, 0] out" using assms by (simp add: decodes_def)
  also have "snd \<dots> = Cut_marker" by (simp add: lzvn_run_spec.simps [of D] instr_of_def Let_def)
  finally show "lzvn_left 0 (as @ le_enc 8 6) [] = Some 0" using r unfolding m by (cases "r = 0") (simp_all add: butlast_append)
qed

section \<open>The decoder reaches the end\<close>

lemma pending_grows:
  assumes ok: "lzvn_ok st" "lzvn_pending st" and d: "denote st = (out, Finished)"
  shows "length (written st) < length out"
proof -
  obtain o1 where o1: "apply_instr (st_L st) (st_M st) (st_D st) (rest st (src st)) (written st) = Some o1"
      "lzvn_run_spec (st_D st) (drop (st_L st) (rest st (src st))) o1 = (out, Finished)"
    using ok(2) d by (auto simp: denote_def split: option.splits)
  have "length (rest st (src st)) = src_end st - src st" using ok(1) by (intro length_rest) (simp add: lzvn_ok_def)
  then have "length o1 = length (written st) + st_L st + st_M st"
    using o1(1) ok by (auto simp: apply_instr_def Let_def lzvn_ok_def pending_ok_def split: if_splits)
  moreover have "length o1 \<le> length out" using run_spec_prefix [of o1 "st_D st" "drop (st_L st) (rest st (src st))"] o1(2)
    by (metis fst_conv length_take min.cobounded2 min.commute)
  ultimately show ?thesis using ok(2) by (auto simp: lzvn_pending_def)
qed

lemma lzvn_run_finishes:
  assumes "loc_ok st s d D" "\<not> end_of_stream st" "lzvn_run_spec D (rest st s) (hist st d) = (out, Finished)"
    "lzvn_left D (rest st s) (hist st d) = Some r" "length out \<le> dst_end st - dst_begin st"
  shows "\<exists>st'. lzvn_run st s d D = Some st' \<and> end_of_stream st' \<and> written st' = out \<and> src st' + r = src_end st'"
  using assms
proof (induction st s d D rule: lzvn_run.induct)
  case (1 st s d D)
  note ok = 1(2) and spec = 1(4) and left = 1(5)
  show ?case
  proof (cases "instr_of D (rest st s)")
    case (Instr n L M D')
    then obtain o1 where ap: "apply_instr L M D' (drop n (rest st s)) (hist st d) = Some o1"
        and f: "lzvn_run_spec D' (drop (n + L) (rest st s)) o1 = (out, Finished)"
      using spec by (auto simp: lzvn_run_spec.simps [of D] split: option.splits)
    have l: "lzvn_left D' (drop (n + L) (rest st s)) o1 = Some r" using left Instr ap by (simp add: lzvn_left.simps [of D])
    have sr: "drop (n + L) (rest st s) = rest st (s + n + L)"
      using drop_rest [of st "n + L" s] ok by (simp add: ok_defs add.assoc)
    have c: "carries st (s + n + L) D' o1 (decode_op st s d D)" by (rule decode_op_carries [OF ok Instr ap])
    have safe: "outcome_ok st d (decode_op st s d D)" by (rule decode_op_safe [OF ok])
    show ?thesis
    proof (cases "decode_op st s d D")
      case (Some x)
      show ?thesis
      proof (cases x)
        case (Stop st')
        have S: "lzvn_ok st'" "dst st' = dst_end st'" "lzvn_pending st'" "denote st' = (out, Finished)" "writes st d st'"
          using safe c Some Stop f sr by simp_all
        have "length (written st') = dst st' - dst_begin st'"
          unfolding written_def by (rule length_hist) (use S(1) in \<open>auto simp: lzvn_ok_def\<close>)
        then have "dst_end st - dst_begin st < length out" using pending_grows [OF S(1,3,4)] S(2,5) by (simp add: writes_def)
        with 1(6) show ?thesis by simp
      next
        case (Jump st' s' d' E)
        have w: "rest st' s' = rest st (s + n + L)" "dst_end st' = dst_end st" "dst_begin st' = dst_begin st"
          using safe c Some Jump by (simp_all add: writes_def rest_def)
        then show ?thesis
          using 1(1) [OF Some Jump] safe c Some Jump 1(3,6) f l sr
          by (simp add: lzvn_run.simps [of st s d D])
      qed
    qed (use c in simp)
  next
    case End_op
    have "length (rest st s) = src_end st - s" using ok by (intro length_rest) (simp add: ok_defs)
    moreover have "8 \<le> length (rest st s)" using End_op by (auto simp: instr_of_def complete_instr_def Let_def split: if_splits)
    ultimately show ?thesis
      using decode_op_stops(2) [OF ok End_op] spec left End_op
      by (simp add: lzvn_run.simps [of st s d D] lzvn_run_spec.simps [of D] lzvn_left.simps [of D] written_def hist_def update_good_def)
  qed (use spec in \<open>auto simp: lzvn_run_spec.simps [of D]\<close>)
qed

section \<open>Blocks\<close>

lemma slice_of_append:
  assumes "slice m i (length (as @ bs)) = as @ bs"
  shows "slice m i (length as) = as" and "slice m (i + length as) (length bs) = bs"
  using slice_append [of m i as "length bs" bs] assms by simp_all

lemma load4_le:
  assumes "slice m i 4 = le_enc 4 v" and "i + 4 \<le> length m" and "v < 2 ^ 32"
  shows "load4 m 0 (length m) i = Some (of_nat v)"
  using assms by (simp add: load4_def load_def)

lemma unat_magic: "(of_nat (unat w) :: u32) = w" "unat (w :: u32) < 2 ^ 32"
  using unsigned_less [of w] by simp_all

definition raw_block :: "byte list \<Rightarrow> byte list" where
  "raw_block xs = le_enc 4 (unat LZFSE_UNCOMPRESSED_BLOCK_MAGIC) @ le_enc 4 (length xs) @ xs"

lemma raw_block_decodes:
  assumes len: "length xs < 2 ^ 31"
  shows "decodes_to (raw_block xs) [] xs"
proof -
  have "\<exists>s'. lzfse_decode s = lzfse_decode s' \<and> between_blocks s' xs \<and> z_src s' = z_src s + length (raw_block xs) \<and> same_buffers s s'"
    if s: "between_blocks s []" "ahead s (raw_block xs)" "length xs \<le> z_dst_end s - z_dst_begin s" for s
  proof -
    let ?m = "z_mem s" and ?p = "z_src s" and ?n = "length xs"
    have B: "tables_ok (z_lzfse s)" "z_block_magic s = LZFSE_NO_BLOCK_MAGIC" "z_src_begin s \<le> ?p" "z_src_end s \<le> length ?m" "z_dst_begin s \<le> z_dst s"
        "z_dst s \<le> z_dst_end s" "z_dst_end s \<le> length (z_out s)" "z_dst_end s - z_dst_begin s < 2 ^ 31" "slice (z_out s) (z_dst_begin s) (z_dst s - z_dst_begin s) = []"
      using s(1) by (simp_all add: between_blocks_def)
    then have d0: "z_dst s = z_dst_begin s" by (auto simp: slice_def)
    have room: "z_dst s + length xs \<le> z_dst_end s" using s(3) B(6) d0 by linarith
    have A: "?p + 8 + ?n < z_src_end s" "slice ?m ?p (length (raw_block xs)) = raw_block xs" using s(2) by (simp_all add: ahead_def raw_block_def)
    have S1: "slice ?m ?p 4 = le_enc 4 (unat LZFSE_UNCOMPRESSED_BLOCK_MAGIC)" "slice ?m (?p + 4) (length (le_enc 4 ?n @ xs)) = le_enc 4 ?n @ xs"
      using slice_of_append [of ?m ?p "le_enc 4 (unat LZFSE_UNCOMPRESSED_BLOCK_MAGIC)" "le_enc 4 ?n @ xs"] A(2) by (simp_all add: raw_block_def)
    have S2: "slice ?m (?p + 4) 4 = le_enc 4 ?n" "slice ?m (?p + 8) ?n = xs" using slice_of_append [OF S1(2)] by (simp_all add: add.commute)
    have L: "load4 ?m 0 (length ?m) ?p = Some LZFSE_UNCOMPRESSED_BLOCK_MAGIC" "load4 ?m 0 (length ?m) (?p + 4) = Some (of_nat ?n)"
      using load4_le [OF S1(1)] load4_le [OF S2(1)] A(1) B(4) unat_magic(2) len by simp_all
    have n: "unat (of_nat ?n :: u32) = ?n" using len by (simp add: unat_of_nat)
    let ?s1 = "s\<lparr>z_n_raw_bytes := ?n, z_src := ?p + 8, z_block_magic := LZFSE_UNCOMPRESSED_BLOCK_MAGIC\<rparr>"
    have 1: "decode_step s = Some (None, ?s1)"
      using L A(1) B(2) n by (simp add: decode_step_def start_block_def start_uncompressed_def magic_distinct(11))
    obtain b where b: "store (z_out s) (z_dst_begin s) (z_dst_end s) (z_dst s) xs = Some b"
      using store_some [of "z_dst_begin s" "z_dst s" xs "z_dst_end s" "z_out s"] d0 room B(7) by auto
    note St = storeD [OF b]
    have lb: "length b = length (z_out s)" using St(1) by (rule frame_length)
    let ?s2 = "?s1\<lparr>z_out := b, z_src := ?p + 8 + ?n, z_dst := z_dst s + ?n, z_n_raw_bytes := 0\<rparr>"
    let ?s3 = "\<lambda>s. s\<lparr>z_block_magic := LZFSE_NO_BLOCK_MAGIC\<rparr>"
    have fin: "decode_step t = Some (None, ?s3 t)" if "z_n_raw_bytes t = 0" "z_block_magic t = LZFSE_UNCOMPRESSED_BLOCK_MAGIC" for t
      using that by (simp add: decode_step_def uncompressed_block_def)
    have "lzfse_decode ?s1 = lzfse_decode (?s3 ?s2)"
    proof (cases "?n = 0")
      case True
      then have "b = z_out s" using b by (simp add: store_def poke_def split: if_splits)
      then have "?s3 ?s1 = ?s3 ?s2" using True by simp
      then show ?thesis using decode_next [OF fin [of ?s1]] True by simp
    next
      case False
      have pos: "z_dst s < z_dst_end s" using False room by linarith
      have mins: "min ?n (z_src_end s - (?p + 8)) = ?n" "min ?n (z_dst_end s - z_dst s) = ?n" using A(1) room by simp_all
      have "load ?m 0 (length ?m) (?p + 8) ?n = Some xs" using S2(2) A(1) B(4) by (simp add: load_def)
      then have "decode_step ?s1 = Some (None, ?s2)"
        using False A(1) b pos mins by (simp add: decode_step_def uncompressed_block_def Let_def)
      then show ?thesis using decode_next [OF fin [of ?s2]] decode_next [of ?s1 ?s2] by simp
    qed
    then have "lzfse_decode s = lzfse_decode (?s3 ?s2)" using decode_next [OF 1] by simp
    moreover have "between_blocks (?s3 ?s2) xs" using B d0 s(3) lb St(2) by (simp add: between_blocks_def)
    moreover have "same_buffers s (?s3 ?s2)" using lb by (simp add: same_buffers_def)
    moreover have "z_src (?s3 ?s2) = ?p + length (raw_block xs)" by (simp add: raw_block_def)
    ultimately show ?thesis by blast
  qed
  then show ?thesis by (simp add: decodes_to_def)
qed

definition lzvn_wrapped :: "byte list \<Rightarrow> nat \<Rightarrow> byte list" where
  "lzvn_wrapped bs n = le_enc 4 (unat LZFSE_COMPRESSEDLZVN_BLOCK_MAGIC) @ le_enc 4 n @ le_enc 4 (length bs) @ bs"

lemma lzvn_wrapped_decodes:
  assumes d: "decodes as 0 [] D xs" and len: "0 < length xs" "length xs < 2 ^ 31" "length as + 8 < 2 ^ 31"
  shows "decodes_to (lzvn_wrapped (as @ le_enc 8 6) (length xs)) [] xs"
proof -
  let ?bs = "as @ le_enc 8 6"
  note spec = nothing_left [OF d]
  have lb: "0 < length ?bs" "length ?bs < 2 ^ 31" using len(3) by simp_all
  have "\<exists>s'. lzfse_decode s = lzfse_decode s' \<and> between_blocks s' xs \<and> z_src s' = z_src s + length (lzvn_wrapped ?bs (length xs)) \<and> same_buffers s s'"
    if s: "between_blocks s []" "ahead s (lzvn_wrapped ?bs (length xs))" "length xs \<le> z_dst_end s - z_dst_begin s" for s
  proof -
    let ?m = "z_mem s" and ?p = "z_src s" and ?n = "length xs" and ?k = "length ?bs"
    have B: "tables_ok (z_lzfse s)" "z_block_magic s = LZFSE_NO_BLOCK_MAGIC" "z_src_begin s \<le> ?p" "z_src_end s \<le> length ?m" "z_dst_begin s \<le> z_dst s"
        "z_dst s \<le> z_dst_end s" "z_dst_end s \<le> length (z_out s)" "z_dst_end s - z_dst_begin s < 2 ^ 31" "slice (z_out s) (z_dst_begin s) (z_dst s - z_dst_begin s) = []"
      using s(1) by (simp_all add: between_blocks_def)
    then have d0: "z_dst s = z_dst_begin s" by (auto simp: slice_def)
    have room: "z_dst s + length xs \<le> z_dst_end s" using s(3) B(6) d0 by linarith
    let ?c1 = "le_enc 4 (unat LZFSE_COMPRESSEDLZVN_BLOCK_MAGIC)"
    have A: "?p + 12 + ?k < z_src_end s" "slice ?m ?p (length (?c1 @ le_enc 4 ?n @ le_enc 4 ?k @ ?bs)) = ?c1 @ le_enc 4 ?n @ le_enc 4 ?k @ ?bs"
      using s(2) by (simp_all add: ahead_def lzvn_wrapped_def)
    note S1 = slice_of_append [OF A(2)]
    note S2 = slice_of_append [OF S1(2)]
    note S3 = slice_of_append [OF S2(2)]
    have S: "slice ?m ?p 4 = ?c1" "slice ?m (?p + 4) 4 = le_enc 4 ?n" "slice ?m (?p + 8) 4 = le_enc 4 ?k" "slice ?m (?p + 12) ?k = ?bs"
      using S1(1) S2(1) S3 by (simp_all add: add.commute)
    have L: "load4 ?m 0 (length ?m) ?p = Some LZFSE_COMPRESSEDLZVN_BLOCK_MAGIC" "load4 ?m 0 (length ?m) (?p + 4) = Some (of_nat ?n)"
        "load4 ?m 0 (length ?m) (?p + 8) = Some (of_nat ?k)"
      using load4_le [OF S(1)] load4_le [OF S(2)] load4_le [OF S(3)] A(1) B(4) unat_magic(2) len(2) lb(2) by simp_all
    have n: "unat (of_nat ?n :: u32) = ?n" "unat (of_nat ?k :: u32) = ?k" using len(2) lb(2) by (simp_all add: unat_of_nat del: length_append)
    let ?s1 = "s\<lparr>z_lzvn := \<lparr>v_n_raw_bytes = ?n, v_n_payload_bytes = ?k, v_d_prev = 0\<rparr>, z_src := ?p + 12, z_block_magic := LZFSE_COMPRESSEDLZVN_BLOCK_MAGIC\<rparr>"
    have 1: "decode_step s = Some (None, ?s1)"
      using L A(1) B(2) n by (simp add: decode_step_def start_block_def start_lzvn_def magic_distinct(13) del: length_append)
    let ?t = "lzvn_start ?s1"
    have T: "src_buf ?t = ?m" "src ?t = ?p + 12" "src_end ?t = ?p + 12 + ?k" "dst_buf ?t = z_out s" "dst ?t = z_dst s" "dst_begin ?t = z_dst s"
        "dst_end ?t = z_dst s + ?n" "st_L ?t = 0" "st_M ?t = 0" "d_prev ?t = 0" "\<not> end_of_stream ?t"
      using A(1) room d0 by (auto simp: lzvn_start_def Let_def)
    have ok: "loc_ok ?t (src ?t) (dst ?t) (d_prev ?t)"
      using T A(1) B d0 s(3) lb(1) by (simp add: ok_defs)
    have "src_end ?t - src ?t = ?k" using T(2,3) by simp
    then have r: "rest ?t (src ?t) = ?bs" unfolding rest_def T(1,2) using S(4) by simp
    have h: "hist ?t (dst ?t) = []" using T(5,6) by (simp add: hist_def)
    obtain t where t: "lzvn_run ?t (src ?t) (dst ?t) (d_prev ?t) = Some t" "end_of_stream t" "written t = xs" "src t + 0 = src_end t"
      using lzvn_run_finishes [OF ok T(11), of xs 0] spec T(6,7,10) r h by auto
    obtain t' where t': "lzvn_run ?t (src ?t) (dst ?t) (d_prev ?t) = Some t'" "lzvn_ok t'" "writes ?t (dst ?t) t'" using lzvn_run_safe [OF ok] by blast
    have tt: "lzvn_ok t" "writes ?t (dst ?t) t" using t(1) t'(1-3) by simp_all
    have W: "src_end t = ?p + 12 + ?k" "dst_begin t = z_dst s" "frame (dst_buf t) (z_out s) (z_dst s) (z_dst s + ?n)" using tt(2) T by (simp_all add: writes_def)
    have "length (written t) = dst t - dst_begin t"
      unfolding written_def by (rule length_hist) (use tt(1) in \<open>auto simp: lzvn_ok_def\<close>)
    then have dt: "dst t = z_dst s + ?n" using t(3) W(2) tt(1) len(1) by (simp add: lzvn_ok_def)
    have dec: "lzvn_decode ?t = Some t" using t(1) T(2,3,5,7-9) len(1) lb(1) by (simp add: lzvn_decode_def)
    let ?s2 = "?s1\<lparr>z_out := dst_buf t, z_src := ?p + 12 + ?k, z_dst := z_dst s + ?n,
        z_lzvn := \<lparr>v_n_raw_bytes = 0, v_n_payload_bytes = 0, v_d_prev = d_prev t mod 2 ^ 32\<rparr>, z_block_magic := LZFSE_NO_BLOCK_MAGIC\<rparr>"
    have "lzvn_block ?s1 = Some (None, ?s2)"
      using dec t(2,4) W(1) dt A(1) by (simp add: lzvn_block_def Let_def)
    then have "decode_step ?s1 = Some (None, ?s2)" by (simp add: decode_step_def)
    then have "lzfse_decode s = lzfse_decode ?s2" using decode_next [OF 1] decode_next by simp
    moreover have "between_blocks ?s2 xs"
      using B d0 s(3) frame_length [OF W(3)] t(3) W(2) dt by (simp add: between_blocks_def written_def hist_def)
    moreover have "same_buffers s ?s2" using frame_length [OF W(3)] by (simp add: same_buffers_def)
    moreover have "z_src ?s2 = ?p + length (lzvn_wrapped ?bs ?n)" by (simp add: lzvn_wrapped_def)
    ultimately show ?thesis by blast
  qed
  then show ?thesis by (simp add: decodes_to_def)
qed

end
