(* ===== verification/LZFSE_Progress.thy ===== *)
theory LZFSE_Progress
  imports LZFSE_Search
begin

text \<open>
  The LZFSE encoder completes when the destination is large enough.  The room needed is
  counted with a potential: 8 bytes for each collected triple, 2 for each collected
  literal and 10 for each byte of the source still to come (\<open>plenty\<close>).  No push raises it,
  and a block is written only when so much is collected that the credit pays for
  the next header, because a single match needs few triples: the search never falls
  further behind than 2522 bytes (\<open>lags\<close>) and limits the length of matches.
\<close>

section \<open>Collecting\<close>

definition cost :: "lzfse_encoder_state \<Rightarrow> int" where
  "cost s = 8 * int (e_n_matches s) + 2 * int (e_n_literals s) - 10 * e_src_literal s"

lemma push_lmd_count:
  assumes "lzfse_push_lmd s L M D = Some (ok, s')"
  shows "ok \<longleftrightarrow> e_n_matches s + 9 \<le> 10000 \<and> e_n_literals s + L + 16 \<le> 40000"
    and "ok \<Longrightarrow> e_n_matches s' = e_n_matches s + 1 \<and> e_n_literals s' = e_n_literals s + L \<and> e_src_literal s' = e_src_literal s + int (L + M)"
    and "e_dst s' = e_dst s"
  using assms by (auto simp: lzfse_push_lmd_def Let_def split: if_splits Option.bind_splits)

lemma push_lmd_cost: "lzfse_push_lmd s L M D = Some (True, s') \<Longrightarrow> 0 < L + M \<Longrightarrow> cost s' \<le> cost s"
  using push_lmd_count(2) [of s L M D True s'] by (cases "L = 0") (auto simp: cost_def)

lemma split_literals_count:
  "split_literals s L = Some (ok, s', L') \<Longrightarrow> e_dst s' = e_dst s \<and>
    (e_n_matches s + L div 315 + 8 \<le> 10000 \<and> e_n_literals s + L + 16 \<le> 40000 \<longrightarrow> ok) \<and>
    (ok \<longrightarrow> e_n_literals s' + L' = e_n_literals s + L \<and> e_n_matches s' + L' div 315 = e_n_matches s + L div 315 \<and> cost s' \<le> cost s)"
proof (induction s L rule: split_literals.induct)
  case (1 s L)
  show ?case
  proof (cases "L > 315")
    case False
    then show ?thesis using 1(2) by (simp add: split_literals.simps [of s L])
  next
    case True
    then have d: "L div 315 = Suc ((L - 315) div 315)" by (simp add: le_div_geq)
    obtain ok1 s1 where p: "lzfse_push_lmd s 315 0 1 = Some (ok1, s1)"
      using 1(2) True by (auto simp: split_literals.simps [of s L] split: Option.bind_splits)
    note c = push_lmd_count [OF p]
    show ?thesis
    proof (cases ok1)
      case False
      then show ?thesis using 1(2) True p c(1,3) d by (auto simp: split_literals.simps [of s L])
    next
      case t: True
      have "split_literals s1 (L - 315) = Some (ok, s', L')" using 1(2) True p t by (simp add: split_literals.simps [of s L])
      from 1(1) [OF True p refl t this] show ?thesis
        using c(2,3) t push_lmd_cost [of s 315 0 1 s1] p True d by auto
    qed
  qed
qed

lemma split_match_count:
  "split_match s L M D = Some (ok, s', L', M') \<Longrightarrow> e_dst s' = e_dst s \<and>
    (e_n_matches s + M div 2359 + 8 \<le> 10000 \<and> e_n_literals s + L + 16 \<le> 40000 \<longrightarrow> ok) \<and>
    (ok \<longrightarrow> e_n_literals s' + L' = e_n_literals s + L \<and> e_n_matches s' + M' div 2359 = e_n_matches s + M div 2359 \<and> cost s' \<le> cost s)"
proof (induction s L M D rule: split_match.induct)
  case (1 s L M D)
  show ?case
  proof (cases "M > 2359")
    case False
    then show ?thesis using 1(2) by (simp add: split_match.simps [of s L M])
  next
    case True
    then have d: "M div 2359 = Suc ((M - 2359) div 2359)" by (simp add: le_div_geq)
    obtain ok1 s1 where p: "lzfse_push_lmd s L 2359 D = Some (ok1, s1)"
      using 1(2) True by (auto simp: split_match.simps [of s L M] split: Option.bind_splits)
    note c = push_lmd_count [OF p]
    show ?thesis
    proof (cases ok1)
      case False
      then show ?thesis using 1(2) True p c(1,3) d by (auto simp: split_match.simps [of s L M])
    next
      case t: True
      have "split_match s1 0 (M - 2359) D = Some (ok, s', L', M')" using 1(2) True p t by (simp add: split_match.simps [of s L M])
      from 1(1) [OF True p refl t this] show ?thesis
        using c(2,3) t push_lmd_cost [of s L 2359 D s1] p True d by auto
    qed
  qed
qed

lemma push_match_count:
  assumes "lzfse_push_match s m = Some (ok, s')" and "0 \<le> mt_pos m - e_src_literal s" "mt_pos m - e_src_literal s \<le> 2600" "mt_length m \<le> 240000"
  shows "e_dst s' = e_dst s" and "e_n_matches s \<le> 9882 \<Longrightarrow> e_n_literals s \<le> 37384 \<Longrightarrow> ok"
    and "cost s' \<le> cost s" and "\<not> ok \<Longrightarrow> e_n_matches s' = e_n_matches s \<and> e_n_literals s' = e_n_literals s"
proof -
  let ?L = "nat (mt_pos m - e_src_literal s)" and ?M = "mt_length m" and ?D = "nat ((mt_pos m - mt_ref m) mod 2 ^ 32)"
  have L: "nat ((mt_pos m - e_src_literal s) mod 2 ^ 32) = ?L" "?L \<le> 2600" using assms(2,3) by simp_all
  have q: "?L div 315 \<le> 8" "?M div 2359 \<le> 101" using div_le_mono [OF L(2), of 315] div_le_mono [OF assms(4), of 2359] by simp_all
  obtain ok1 s1 L1 where 1: "split_literals s ?L = Some (ok1, s1, L1)"
    using assms(1) unfolding lzfse_push_match_def Let_def L by (auto split: Option.bind_splits)
  note c1 = split_literals_count [OF 1]
  have *: "e_dst s' = e_dst s \<and> (e_n_matches s \<le> 9882 \<and> e_n_literals s \<le> 37384 \<longrightarrow> ok) \<and> cost s' \<le> cost s \<and>
      (\<not> ok \<longrightarrow> e_n_matches s' = e_n_matches s \<and> e_n_literals s' = e_n_literals s)"
  proof (cases ok1)
    case False
    then show ?thesis using assms(1) 1 c1 q L(2) unfolding lzfse_push_match_def Let_def L by (auto simp: cost_def)
  next
    case True
    obtain ok2 s2 L2 M2 where 2: "split_match s1 L1 ?M ?D = Some (ok2, s2, L2, M2)"
      using assms(1) 1 True unfolding lzfse_push_match_def Let_def L by (auto split: Option.bind_splits)
    note c2 = split_match_count [OF 2]
    show ?thesis
    proof (cases ok2)
      case False
      then show ?thesis using assms(1) 1 2 True c1 c2 q L(2) unfolding lzfse_push_match_def Let_def L by (auto simp: cost_def)
    next
      case ok2: True
      show ?thesis
      proof (cases "L2 > 0 \<or> M2 > 0")
        case False
        then show ?thesis using assms(1) 1 2 True ok2 c1 c2 unfolding lzfse_push_match_def Let_def L by auto
      next
        case pos: True
        obtain ok3 s3 where 3: "lzfse_push_lmd s2 L2 M2 ?D = Some (ok3, s3)"
          using assms(1) 1 2 True ok2 pos unfolding lzfse_push_match_def Let_def L by (auto split: Option.bind_splits)
        note c3 = push_lmd_count [OF 3]
        have r: "ok = ok3" "s' = (if ok3 then s3 else s3\<lparr>e_n_matches := e_n_matches s, e_n_literals := e_n_literals s, e_src_literal := e_src_literal s\<rparr>)"
          using assms(1) 1 2 3 True ok2 pos unfolding lzfse_push_match_def Let_def L by (auto split: if_splits)
        have "e_n_literals s2 + L2 = e_n_literals s + ?L" "e_n_matches s2 \<le> e_n_matches s + ?L div 315 + ?M div 2359" "cost s2 \<le> cost s" "e_dst s3 = e_dst s"
          using c1 c2 c3(3) True ok2 by linarith+
        moreover have "ok3 \<Longrightarrow> cost s3 \<le> cost s2" using push_lmd_cost [of s2 L2 M2 ?D s3] 3 pos by auto
        ultimately show ?thesis using c3(1) r q L(2) by (auto simp: cost_def)
      qed
    qed
  qed
  show "e_dst s' = e_dst s" "e_n_matches s \<le> 9882 \<Longrightarrow> e_n_literals s \<le> 37384 \<Longrightarrow> ok" "cost s' \<le> cost s"
    "\<not> ok \<Longrightarrow> e_n_matches s' = e_n_matches s \<and> e_n_literals s' = e_n_literals s" using * by simp_all
qed

section \<open>The backend\<close>

text \<open>Room for what is collected and for the rest of the source.\<close>

definition plenty :: "lzfse_encoder_state \<Rightarrow> bool" where
  "plenty s \<longleftrightarrow> int (e_dst s) + 779 + cost s + 10 * e_src_end s \<le> int (e_dst_end s)"

lemma block_need_le: "block_need s \<le> 774 + 2 * e_n_literals s + 7 * e_n_matches s"
proof -
  have "4 * ((e_n_literals s + 3) div 4) \<le> e_n_literals s + 3" by simp
  then have "5 * ((e_n_literals s + 3) div 4) \<le> 2 * e_n_literals s + 4" by linarith
  then show ?thesis by (simp add: block_need_def block_room_def)
qed

lemma plenty_block:
  assumes "plenty s" and "e_src_literal s \<le> e_src_end s"
  shows "e_dst s + block_need s + 4 \<le> e_dst_end s"
  using assms block_need_le [of s] by (simp add: plenty_def cost_def)

text \<open>When much is collected, its credit pays for the next block.\<close>

lemma plenty_after_block:
  assumes "plenty s" and "9882 < e_n_matches s \<or> 37384 < e_n_literals s" and "e_dst s' \<le> e_dst s + block_need s"
    and "e_n_matches s' = 0" "e_n_literals s' = 0" "e_src_literal s' = e_src_literal s" "e_src_end s' = e_src_end s" "e_dst_end s' = e_dst_end s"
  shows "plenty s'"
proof -
  have "4 * ((e_n_literals s + 3) div 4) \<le> e_n_literals s + 3" by simp
  then have "770 + 5 * ((e_n_literals s + 3) div 4) \<le> e_n_matches s + 2 * e_n_literals s" using assms(2) by linarith
  then have "block_need s \<le> 8 * e_n_matches s + 2 * e_n_literals s" by (simp add: block_need_def block_room_def)
  then show ?thesis using assms by (simp add: plenty_def cost_def)
qed

text \<open>What an operation of the backend promises that cannot fail for lack of room.\<close>

definition completes :: "lzfse_encoder_state \<Rightarrow> int \<Rightarrow> encoder_result \<Rightarrow> bool" where
  "completes s e r \<longleftrightarrow> (\<exists>s'. r = Some (True, s') \<and> backend_inv s' \<and> same_search s s' \<and> e_src_literal s' = e \<and> plenty s')"

lemma same_search_room: "same_search s s' \<Longrightarrow> e_src_end s' = e_src_end s \<and> e_dst_end s' = e_dst_end s"
  by (simp add: same_search_def)

lemma lzfse_backend_match_completes:
  assumes inv: "backend_inv s" and m: "true_match s m" "mt_pos m - e_src_literal s \<le> 2600" "mt_length m \<le> 240000" and p: "plenty s"
  shows "completes s (mt_pos m + int (mt_length m)) (lzfse_backend_match ub s m)"
proof -
  have L: "0 \<le> mt_pos m - e_src_literal s" using m(1) by (simp add: true_match_def)
  obtain ok s1 where 1: "lzfse_push_match s m = Some (ok, s1)" "backend_inv s1" "same_search s s1"
      "e_src_literal s1 = (if ok then mt_pos m + int (mt_length m) else e_src_literal s)"
    using lzfse_push_match_ok [OF inv m(1)] by blast
  note c1 = push_match_count [OF 1(1) L m(2,3)]
  have p1: "plenty s1" using p c1(1,3) same_search_room [OF 1(3)] by (simp add: plenty_def)
  show ?thesis
  proof (cases ok)
    case True
    then show ?thesis using 1 p1 by (simp add: completes_def lzfse_backend_match_def)
  next
    case False
    have le: "e_src_literal s1 \<le> e_src_end s1" using 1(2) by (simp add: backend_inv_def text_ok_def)
    obtain s2 where 2: "lzfse_encode_matches ub s1 = Some (True, s2)"
      using lzfse_encode_matches_ok(3) [OF 1(2), of ub] plenty_block [OF p1 le] by auto
    have s2: "backend_inv s2" "same_search s1 s2" "e_src_literal s2 = e_src_literal s1" "e_n_matches s2 = 0" "e_n_literals s2 = 0" "e_dst s2 \<le> e_dst s1 + block_need s1"
      using lzfse_encode_matches_ok(1) [OF 1(2), of ub] lzfse_encode_matches_ok(2) [OF 1(2) 2] 2 by (auto simp: reaches_def backend_inv_def arrays_ok_def)
    have ss: "same_search s s2" by (rule same_search_trans [OF 1(3) s2(2)])
    have "\<not> (e_n_matches s \<le> 9882 \<and> e_n_literals s \<le> 37384)" using c1(2) False by blast
    then have p2: "plenty s2"
      by (intro plenty_after_block [OF p1]) (use c1(4) False s2 same_search_room [OF s2(2)] in auto)
    have m2: "true_match s2 m" by (rule true_match_same [OF m(1) ss]) (use L s2(3) 1(4) False in simp)
    obtain ok3 s3 where 3: "lzfse_push_match s2 m = Some (ok3, s3)" "backend_inv s3" "same_search s2 s3"
        "e_src_literal s3 = (if ok3 then mt_pos m + int (mt_length m) else e_src_literal s2)"
      using lzfse_push_match_ok [OF s2(1) m2] by blast
    have e: "e_src_literal s2 = e_src_literal s" using s2(3) 1(4) False by simp
    note c3 = push_match_count [OF 3(1) L [folded e] m(2) [folded e] m(3)]
    have "plenty s3" using p2 c3(1,3) same_search_room [OF 3(3)] by (simp add: plenty_def)
    moreover have "ok3" using c3(2) s2(4,5) by simp
    ultimately show ?thesis
      using 1(1) 2 3 False same_search_trans [OF ss 3(3)] by (simp add: completes_def lzfse_backend_match_def)
  qed
qed

lemma lzfse_backend_literals_completes:
  assumes inv: "backend_inv s" and L: "0 < L" "L \<le> 2600" "e_src_literal s + L \<le> e_src_end s" and p: "plenty s"
  shows "completes s (e_src_literal s + L) (lzfse_backend_literals ub s L)"
proof -
  have "true_match s \<lparr>mt_pos = e_src_literal s + L, mt_ref = e_src_literal s + L - 1, mt_length = 0\<rparr>"
    using assms by (simp add: true_match_def backend_inv_def text_ok_def repeats_def)
  from lzfse_backend_match_completes [OF inv this _ _ p, of ub] L(2) show ?thesis by (simp add: lzfse_backend_literals_def Let_def)
qed

lemma lzfse_backend_end_of_stream_completes:
  assumes inv: "backend_inv s" and p: "plenty s"
  shows "\<exists>s'. lzfse_backend_end_of_stream ub s = Some (True, s')"
proof -
  have room: "e_dst s + block_need s + 4 \<le> e_dst_end s" by (rule plenty_block [OF p]) (use inv in \<open>simp add: backend_inv_def text_ok_def\<close>)
  then obtain s1 where 1: "lzfse_encode_matches ub s = Some (True, s1)" using lzfse_encode_matches_ok(3) [OF inv, of ub] by auto
  have "backend_inv s1" "same_search s s1" "e_dst s1 \<le> e_dst s + block_need s"
    using lzfse_encode_matches_ok(1) [OF inv, of ub] lzfse_encode_matches_ok(2) [OF inv 1] 1 by (auto simp: reaches_def)
  then have "e_dst s1 + 4 \<le> e_dst_end s1" using room same_search_room by fastforce
  then show ?thesis using lzfse_backend_end_of_stream_ok [OF inv, of ub] 1
    by (auto simp: lzfse_backend_end_of_stream_def split: Option.bind_splits)
qed

section \<open>The search\<close>

text \<open>The search at the position \<open>i\<close> is not far behind, and the pending match is short.\<close>

definition lags :: "lzfse_encoder_state \<Rightarrow> int \<Rightarrow> bool" where
  "lags s i \<longleftrightarrow>
     i - e_src_literal s \<le> (if mt_length (e_pending s) = 0 then 2521 else 2522) \<and>
     (mt_length (e_pending s) \<noteq> 0 \<longrightarrow> mt_pos (e_pending s) \<le> i \<and> 4 \<le> mt_length (e_pending s) \<and> mt_length (e_pending s) \<le> 240000)"

text \<open>What a step at the position \<open>i\<close> promises.\<close>

definition advances :: "lzfse_encoder_state \<Rightarrow> int \<Rightarrow> encoder_result \<Rightarrow> bool" where
  "advances s i r \<longleftrightarrow> (\<exists>s'. r = Some (True, s') \<and> search_inv s' \<and> keeps s s' \<and> plenty s' \<and> lags s' (i + 1))"

lemma plenty_pending [simp]: "plenty (s\<lparr>e_pending := m\<rparr>) = plenty s"
  by (simp add: plenty_def cost_def)

lemma emit_and_keep_completes:
  assumes inv: "search_inv s" and p: "plenty s" and m: "true_match s m" "mt_pos m - e_src_literal s \<le> 2600" "mt_length m \<le> 240000"
    and k: "mt_length k \<noteq> 0 \<Longrightarrow> true_match s k \<and> mt_pos m + int (mt_length m) \<le> mt_pos k"
  shows "\<exists>s'. emit_and_keep ub s m k = Some (True, s') \<and> search_inv s' \<and> keeps s s' \<and> plenty s' \<and>
    e_src_literal s' = mt_pos m + int (mt_length m) \<and> e_pending s' = k"
proof -
  have b: "backend_inv s" using inv by (simp add: search_inv_def)
  obtain s1 where 1: "lzfse_backend_match ub s m = Some (True, s1)" "backend_inv s1" "same_search s s1" "e_src_literal s1 = mt_pos m + int (mt_length m)" "plenty s1"
    using lzfse_backend_match_completes [OF b m p, of ub] by (auto simp: completes_def)
  then have "search_inv (s1\<lparr>e_pending := k\<rparr>) \<and> keeps s (s1\<lparr>e_pending := k\<rparr>)"
    using search_invI [OF inv, of s1 k] k true_match_same [of s k s1] by auto
  then show ?thesis using 1 by (simp add: emit_and_keep_def)
qed

lemma no_incoming_advances:
  assumes inv: "search_inv s" and p: "plenty s" and l: "lags s i" and i: "i \<le> e_src_end s"
  shows "advances s i (no_incoming ub s i)"
proof -
  have b: "backend_inv s" and t: "mt_length (e_pending s) \<noteq> 0 \<Longrightarrow> true_match s (e_pending s)" using inv by (simp_all add: search_inv_def)
  consider "i - e_src_literal s \<le> 2520" | "i - e_src_literal s > 2520" "mt_length (e_pending s) \<noteq> 0"
    | "i - e_src_literal s > 2520" "mt_length (e_pending s) = 0" by linarith
  then show ?thesis
  proof cases
    case 1
    then have "lags s (i + 1)" using l by (auto simp: lags_def split: if_splits)
    then show ?thesis using 1 inv p by (simp add: no_incoming_def advances_def keeps_def)
  next
    case 2
    let ?m = "e_pending s"
    have m: "mt_pos ?m \<le> i" "4 \<le> mt_length ?m" "mt_length ?m \<le> 240000" "i - e_src_literal s \<le> 2522" using l 2(2) by (simp_all add: lags_def)
    have lit: "e_src_literal s \<le> mt_pos ?m" using t [OF 2(2)] by (simp add: true_match_def)
    obtain s' where "emit_and_keep ub s ?m NO_MATCH_LZFSE = Some (True, s')" "search_inv s'" "keeps s s'" "plenty s'"
        "e_src_literal s' = mt_pos ?m + int (mt_length ?m)" "e_pending s' = NO_MATCH_LZFSE"
      using emit_and_keep_completes [OF inv p t [OF 2(2)] _ m(3), of NO_MATCH_LZFSE ub] m by auto
    moreover have "int (mt_length ?m) \<ge> 4" using m(2) by simp
    ultimately show ?thesis using 2 m lit by (simp add: no_incoming_def advances_def lags_def)
  next
    case 3
    have "315 \<le> (2600 :: int)" "e_src_literal s + 315 \<le> e_src_end s" using 3(1) i by simp_all
    then obtain s1 where 1: "lzfse_backend_literals ub s 315 = Some (True, s1)" "backend_inv s1" "same_search s s1" "e_src_literal s1 = e_src_literal s + 315" "plenty s1"
      using lzfse_backend_literals_completes [OF b, of 315 ub] p by (auto simp: completes_def)
    have k: "s1\<lparr>e_pending := e_pending s1\<rparr> = s1" "mt_length (e_pending s1) = 0" using 3(2) 1(3) by (simp_all add: same_search_def)
    then have "search_inv s1" "keeps s s1" using search_invI [OF inv 1(2,3), of "e_pending s1"] by simp_all
    then show ?thesis using 1 3 k(2) l by (simp add: no_incoming_def advances_def lags_def)
  qed
qed

lemma keep_or_emit_advances:
  assumes inv: "search_inv s" and p: "plenty s" and l: "lags s i"
    and m: "true_match s m" "mt_pos m \<le> i" "i + 4 \<le> mt_pos m + int (mt_length m)" "mt_length m \<le> 240000"
  shows "advances s i (keep_or_emit ub s m)"
proof -
  let ?p = "e_pending s"
  have t: "mt_length ?p \<noteq> 0 \<Longrightarrow> true_match s ?p" using inv by (simp add: search_inv_def)
  have lag: "i - e_src_literal s \<le> 2522" and lit: "e_src_literal s \<le> mt_pos m" using l m(1) by (auto simp: lags_def true_match_def split: if_splits)
  have len: "4 \<le> mt_length m" using m(2,3) by linarith
  have emit: "advances s i (emit_and_keep ub s m NO_MATCH_LZFSE)"
    using emit_and_keep_completes [OF inv p m(1) _ m(4), of NO_MATCH_LZFSE ub] m(2,3) lag by (auto simp: advances_def lags_def)
  have pend: "advances s i (emit_and_keep ub s ?p k)"
    if n: "mt_length ?p \<noteq> 0" and k: "k = NO_MATCH_LZFSE \<or> k = m \<and> mt_pos ?p + int (mt_length ?p) \<le> mt_pos m" for k
  proof -
    have P: "mt_pos ?p \<le> i" "4 \<le> mt_length ?p" "mt_length ?p \<le> 240000" "e_src_literal s \<le> mt_pos ?p" using l n t [OF n] by (simp_all add: lags_def true_match_def)
    have "mt_pos ?p - e_src_literal s \<le> 2600" using P(1) lag by linarith
    moreover have "mt_length k \<noteq> 0 \<Longrightarrow> true_match s k \<and> mt_pos ?p + int (mt_length ?p) \<le> mt_pos k" using k m(1) by auto
    ultimately obtain s' where s': "emit_and_keep ub s ?p k = Some (True, s')" "search_inv s'" "keeps s s'" "plenty s'"
        "e_src_literal s' = mt_pos ?p + int (mt_length ?p)" "e_pending s' = k"
      using emit_and_keep_completes [OF inv p t [OF n] _ P(3), of k ub] by blast
    moreover have "int (mt_length ?p) \<ge> 4" using P(2) by simp
    ultimately show ?thesis using k m(2,4) len P(4) lag by (auto simp: advances_def lags_def)
  qed
  have keep: "advances s i (Some (True, s\<lparr>e_pending := m\<rparr>))" if "mt_length ?p = 0"
  proof -
    have "search_inv (s\<lparr>e_pending := m\<rparr>)" "keeps s (s\<lparr>e_pending := m\<rparr>)"
      using search_invI [OF inv _ same_search_refl, of m] inv m(1) by (simp_all add: search_inv_def)
    then show ?thesis using that p l m(2,4) len by (simp add: advances_def lags_def)
  qed
  show ?thesis using emit pend keep by (simp add: keep_or_emit_def Let_def)
qed

lemma encode_pos_advances:
  assumes inv: "search_inv s" and p: "plenty s" and l: "lags s (e_src_encode_i s)"
    and pos: "e_src_encode_i s + 8 < e_src_end s" and h: "line_known (e_text s) (e_src_encode_i s) h"
  shows "advances s (e_src_encode_i s) (encode_pos ub s (value_at (e_text s) (e_src_encode_i s)) h)"
proof (cases "e_src_encode_i s < e_src_literal s")
  case True
  then have "lags s (e_src_encode_i s + 1)" using l by (auto simp: lags_def split: if_splits)
  then show ?thesis using True inv p by (simp add: encode_pos_def advances_def keeps_def)
next
  case False
  let ?pos = "e_src_encode_i s"
  have r: "room_at s ?pos" "text_ok s" using inv pos False by (simp_all add: search_inv_def room_at_def backend_inv_def)
  obtain m where m: "check_candidates s ?pos (value_at (e_text s) ?pos) (zip (hs_pos h) (hs_value h)) \<lparr>mt_pos = ?pos, mt_ref = 0, mt_length = 0\<rparr> = Some m"
      "candidate_at s ?pos m"
  proof -
    have "candidate_at s ?pos \<lparr>mt_pos = ?pos, mt_ref = 0, mt_length = 0\<rparr>" by (simp add: candidate_at_def)
    then show thesis using check_candidates_ok [OF r(1), of "zip (hs_pos h) (hs_value h)"] h that by (auto simp: line_known_def)
  qed
  show ?thesis
  proof (cases "mt_length m = 0")
    case True
    then show ?thesis using m(1) no_incoming_advances [OF inv p l, of ub] False pos by (simp add: encode_pos_def)
  next
    case nz: False
    have c: "true_match s m" "mt_pos m = ?pos" "4 \<le> mt_length m" using m(2) nz by (simp_all add: candidate_at_def)
    obtain m' where m': "extend_match s ?pos m = Some m'" "true_match s m'" "mt_pos m' \<le> ?pos"
        "mt_pos m' + int (mt_length m') = ?pos + int (min (mt_length m) LZFSE_ENCODE_MAX_MATCH_LENGTH)"
      using extend_match_ok [OF r(2) c(1,2) nz] by blast
    have "?pos - e_src_literal s \<le> 2522" "e_src_literal s \<le> mt_pos m'" using l m'(2) by (auto simp: lags_def true_match_def split: if_splits)
    then have "?pos + 4 \<le> mt_pos m' + int (mt_length m')" "mt_length m' \<le> 240000" using m'(3,4) c(3) by linarith+
    then show ?thesis using m(1) nz m' keep_or_emit_advances [OF inv p l m'(2,3), of ub] False by (simp add: encode_pos_def)
  qed
qed

text \<open>The whole loop, and the end.\<close>

definition on_track :: "lzfse_encoder_state \<Rightarrow> bool" where
  "on_track s \<longleftrightarrow> search_inv s \<and> plenty s \<and> lags s (e_src_encode_i s)"

lemma encode_loop_completes:
  assumes "on_track s" and "e_src_encode_i s + int n + 8 \<le> e_src_end s \<or> n = 0"
  shows "\<exists>s'. encode_loop ub n s = Some (True, s') \<and> on_track s' \<and> e_src_encode_i s' = e_src_encode_i s + int n"
  using assms
proof (induction n arbitrary: s)
  case (Suc n)
  let ?i = "e_src_encode_i s" and ?T = "e_text s"
  let ?x = "value_at ?T ?i" and ?h = "e_history s ! hashX (value_at ?T ?i)"
  have O: "search_inv s" "plenty s" "lags s ?i" using Suc.prems(1) by (simp_all add: on_track_def)
  have I: "text_ok s" "0 \<le> ?i" "history_known ?T ?i (e_history s)" "?i + 8 < e_src_end s"
    using Suc.prems(2) O(1) by (auto simp: search_inv_def backend_inv_def)
  then have x: "text4 s ?i = Some ?x" using text_load_some [of s ?i 4] by (simp add: text4_def text_ok_def value_at_def)
  have hl: "hashX ?x < length (e_history s)" using hashX_less I(3) by (simp add: history_known_def)
  then have h: "line_known ?T ?i ?h" using I(3) by (simp add: history_known_def)
  obtain s1 where 1: "encode_pos ub s ?x ?h = Some (True, s1)" "search_inv s1" "keeps s s1" "plenty s1" "lags s1 (?i + 1)"
    using encode_pos_advances [OF O I(4) h, of ub] by (auto simp: advances_def)
  let ?s = "s1\<lparr>e_history := (e_history s1)[hashX ?x := next_line ?i ?x ?h], e_src_encode_i := e_src_encode_i s1 + 1\<rparr>"
  have K: "e_text s1 = ?T" "e_src_end s1 = e_src_end s" "e_src_encode_i s1 = ?i" "e_history s1 = e_history s"
    using 1(3) by (simp_all add: keeps_def same_search_def)
  have "search_inv ?s" using search_next [OF O(1) I(4) 1(2,3)] by simp
  moreover have "plenty ?s" "lags ?s (?i + 1)" using 1(4,5) by (simp_all add: plenty_def cost_def lags_def)
  ultimately have "on_track ?s" using K(3) by (simp add: on_track_def)
  moreover have "e_src_encode_i ?s + int n + 8 \<le> e_src_end ?s \<or> n = 0" using Suc.prems(2) K by simp
  ultimately show ?case using Suc.IH [of ?s] x hl 1(1) K by auto
qed simp

lemma lzfse_encode_base_completes:
  assumes "on_track s"
  shows "\<exists>s'. lzfse_encode_base ub s = Some (True, s') \<and> on_track s' \<and> e_src_end s' - 8 \<le> e_src_encode_i s'"
proof -
  let ?s = "s\<lparr>e_src_encode_end := e_src_end s - 8\<rparr>" and ?n = "nat (e_src_end s - 8 - e_src_encode_i s)"
  have tr: "on_track ?s"
    using assms by (simp add: on_track_def search_inv_def backend_inv_def arrays_ok_def text_ok_def triples_def pending_literals_def true_match_def
        plenty_def cost_def lags_def)
  have n: "e_src_encode_i ?s + int ?n + 8 \<le> e_src_end ?s \<or> ?n = 0" by auto
  obtain s' where s': "encode_loop ub ?n ?s = Some (True, s')" "on_track s'" "e_src_encode_i s' = e_src_encode_i s + int ?n"
    using encode_loop_completes [OF tr n, of ub] by auto
  have "e_src_end s' = e_src_end s"
    using s'(1) encode_loop_ok [OF _ n, of ub] tr by (auto simp: on_track_def moves_def)
  then show ?thesis using s' by (simp add: lzfse_encode_base_def Let_def)
qed

lemma lzfse_encode_finish_completes:
  assumes o: "on_track s" and i: "e_src_end s - 8 \<le> e_src_encode_i s"
  shows "\<exists>s'. lzfse_encode_finish ub s = Some (True, s')"
proof -
  let ?m = "e_pending s"
  have O: "search_inv s" "plenty s" "lags s (e_src_encode_i s)" using o by (simp_all add: on_track_def)
  have t: "mt_length ?m \<noteq> 0 \<Longrightarrow> true_match s ?m" using O(1) by (simp add: search_inv_def)
  have lag: "e_src_encode_i s - e_src_literal s \<le> 2522" using O(3) by (auto simp: lags_def split: if_splits)
  obtain s1 where 1: "(if mt_length ?m > 0 then emit_and_keep ub s ?m NO_MATCH_LZFSE else Some (True, s)) = Some (True, s1)"
      "search_inv s1" "plenty s1" "e_src_end s1 = e_src_end s" "e_src_literal s \<le> e_src_literal s1"
  proof (cases "mt_length ?m = 0")
    case True
    then show thesis using that [of s] O by simp
  next
    case False
    have "mt_pos ?m - e_src_literal s \<le> 2600" "mt_length ?m \<le> 240000" using O(3) lag False by (auto simp: lags_def)
    then obtain s1 where "emit_and_keep ub s ?m NO_MATCH_LZFSE = Some (True, s1)" "search_inv s1" "keeps s s1" "plenty s1"
        "e_src_literal s1 = mt_pos ?m + int (mt_length ?m)"
      using emit_and_keep_completes [OF O(1,2) t [OF False], of NO_MATCH_LZFSE ub] by auto
    then show thesis using that [of s1] False t [OF False] by (simp add: keeps_def same_search_def true_match_def)
  qed
  have b1: "backend_inv s1" using 1(2) by (simp add: search_inv_def)
  let ?L = "e_src_end s1 - e_src_literal s1"
  obtain s2 where 2: "(if ?L > 0 then lzfse_backend_literals ub s1 ?L else Some (True, s1)) = Some (True, s2)" "backend_inv s2" "plenty s2"
    using lzfse_backend_literals_completes [OF b1, of ?L ub] 1(3-5) b1 lag i by (cases "?L > 0") (auto simp: completes_def)
  obtain s3 where "lzfse_backend_end_of_stream ub s2 = Some (True, s3)"
    using lzfse_backend_end_of_stream_completes [OF 2(2,3), of ub] by blast
  then show ?thesis using 1(1) 2(1) by (simp add: lzfse_encode_finish_def Let_def)
qed

lemma encode_lzfse_completes:
  assumes "length src_buffer + LZFSE_ENCODE_MAX_D_VALUE \<le> 2 ^ 31" and "10 * length src_buffer + 779 \<le> length dst_buffer"
  shows "\<exists>b n. encode_lzfse ub dst_buffer src_buffer = Some (b, Some n) \<and> length b = length dst_buffer \<and> n \<le> length b \<and>
    (\<exists>bs. take n b = bs @ le_enc 4 (unat LZFSE_ENDOFSTREAM_BLOCK_MAGIC) \<and> decodes_to bs [] src_buffer)"
proof -
  let ?s = "encode_start dst_buffer src_buffer\<lparr>e_src_end := int (length src_buffer)\<rparr>"
  have "plenty ?s" "lags ?s (e_src_encode_i ?s)"
    using assms(2) by (simp_all add: plenty_def cost_def lags_def encode_start_def lzfse_encode_init_def Let_def)
  then have "on_track ?s" using encode_start_ok [OF assms(1)] by (simp add: on_track_def)
  then obtain s1 where 1: "lzfse_encode_base ub ?s = Some (True, s1)" "on_track s1" "e_src_end s1 - 8 \<le> e_src_encode_i s1"
    using lzfse_encode_base_completes by blast
  obtain s2 where 2: "lzfse_encode_finish ub s1 = Some (True, s2)" using lzfse_encode_finish_completes [OF 1(2,3)] by blast
  have "encode_lzfse ub dst_buffer src_buffer = Some (e_out s2, Some (e_dst s2))"
    using 1(1) 2 assms(1) by (simp add: encode_lzfse_def encode_huge_def)
  then show ?thesis using encode_lzfse_ok [OF assms(1), of ub dst_buffer] by auto
qed

end
