(* ===== verification/LZFSE_Roundtrip.thy ===== *)
theory LZFSE_Roundtrip
  imports LZFSE_Wrapped LZFSE_Progress
begin

text \<open>
  The round trip of the buffer functions of LZFSE.  \<open>lzfse_encode_buffer\<close> writes a wrapped
  LZVN stream (short sources), LZFSE blocks (long sources), or the bytes as they are (when
  the others do not fit, or for sources under 8 bytes); in each case the destination holds
  blocks that decode to the source and the end-of-stream mark.
\<close>

section \<open>Streams\<close>

abbreviation end_of_blocks :: "byte list" where
  "end_of_blocks \<equiv> le_enc 4 (unat LZFSE_ENDOFSTREAM_BLOCK_MAGIC)"

text \<open>The first \<open>n\<close> bytes of \<open>b\<close> are a stream for \<open>xs\<close>.\<close>

definition stream_for :: "byte list \<Rightarrow> byte list \<Rightarrow> nat \<Rightarrow> bool" where
  "stream_for xs b n \<longleftrightarrow> n \<le> length b \<and> (\<exists>bs. take n b = bs @ end_of_blocks \<and> decodes_to bs [] xs)"

lemma stream_decodes:
  assumes st: "stream_for xs b n" and out: "length xs \<le> length out" "length out < 2 ^ 31" and m: "scratch \<or> malloc_ok"
  shows "\<exists>out'. lzfse_decode_buffer out (take n b) pad scratch malloc_ok = Some (out', length xs) \<and> length out' = length out \<and> take (length xs) out' = xs"
proof -
  obtain bs where bs: "take n b = bs @ end_of_blocks" "decodes_to bs [] xs" using st by (auto simp: stream_for_def)
  let ?s = "decode_start out (bs @ end_of_blocks) pad"
  have "between_blocks ?s []" using cleared_tables out(2) by (simp add: between_blocks_def decode_start_def slice_def)
  moreover have "ahead ?s bs" by (simp add: ahead_def decode_start_def slice_def)
  moreover have "length xs \<le> z_dst_end ?s - z_dst_begin ?s" using out(1) by (simp add: decode_start_def)
  ultimately obtain s where s: "lzfse_decode ?s = lzfse_decode s" "between_blocks s xs" "z_src s = length bs" "same_buffers ?s s"
    using bs(2) unfolding decodes_to_def by (fastforce simp: decode_start_def)
  have E: "z_mem s = (bs @ end_of_blocks) @ pad" "z_src_end s = length bs + 4" "z_dst_begin s = 0" "length (z_out s) = length out"
    using s(4) by (simp_all add: same_buffers_def decode_start_def)
  have "slice (z_mem s) (z_src s) 4 = end_of_blocks" by (simp add: E(1) s(3) slice_def)
  then have "load4 (z_mem s) 0 (length (z_mem s)) (z_src s) = Some LZFSE_ENDOFSTREAM_BLOCK_MAGIC"
    using load4_le [of "z_mem s" "z_src s" "unat LZFSE_ENDOFSTREAM_BLOCK_MAGIC"] E(1) s(3) unat_magic by simp
  then have "lzfse_decode s = Some (Status_ok, s\<lparr>z_src := z_src s + 4, z_end_of_stream := True\<rparr>)"
    using s(2,3) E(2) by (subst lzfse_decode.simps) (simp add: decode_step_def between_blocks_def start_block_def)
  then have d: "lzfse_decode_buffer out (take n b) pad scratch malloc_ok = Some (z_out s, z_dst s)"
    using m s(1) bs(1) by (auto simp: lzfse_decode_buffer_def lzfse_decode_buffer_with_scratch_def)
  have o: "take (z_dst s) (z_out s) = xs" "z_dst s \<le> length (z_out s)" using s(2) E(3) by (auto simp: between_blocks_def slice_def)
  then have "z_dst s = length xs" by auto
  then show ?thesis using d o(1) E(4) by simp
qed

section \<open>The three ways to encode\<close>

lemma stores_ok:
  assumes "p + length bs \<le> length b"
  shows "\<exists>b'. store b 0 (length b) p bs = Some b' \<and> length b' = length b \<and> take (p + length bs) b' = take p b @ bs \<and> (\<forall>q n. p + length bs \<le> q \<and> q + n \<le> length b \<longrightarrow> slice b' q n = slice b q n)"
proof -
  obtain b' where b': "store b 0 (length b) p bs = Some b'" using store_some [of 0 p bs "length b" b] assms by auto
  note S = storeD [OF b']
  have "take (p + length bs) b' = take p b @ bs" using take_slice [of p b' "length bs"] S(2) frame_take [OF S(1)] assms by simp
  then show ?thesis using b' frame_length [OF S(1)] frame_slice [OF S(1)] by auto
qed

lemma encode_uncompressed_ok:
  assumes "length xs < 2 ^ 31 - 1"
  shows "\<exists>b n. encode_uncompressed buf xs = Some (b, n) \<and> length b = length buf \<and> (if length xs + 12 \<le> length buf then 0 < n \<and> stream_for xs b n else n = 0)"
proof (cases "length xs + 12 \<le> length buf")
  case False
  then show ?thesis by (simp add: encode_uncompressed_def)
next
  case True
  let ?h = "le_enc 4 (unat LZFSE_UNCOMPRESSED_BLOCK_MAGIC) @ le_enc 4 (length xs)"
  obtain b1 where b1: "store buf 0 (length buf) 0 ?h = Some b1" "length b1 = length buf" "take 8 b1 = ?h"
    using stores_ok [of 0 ?h buf] True by auto
  obtain b2 where b2: "store b1 0 (length buf) 8 xs = Some b2" "length b2 = length buf" "take (8 + length xs) b2 = ?h @ xs"
    using stores_ok [of 8 xs b1] b1 True by auto
  obtain b3 where b3: "store b2 0 (length buf) (8 + length xs) end_of_blocks = Some b3" "length b3 = length buf"
      "take (8 + length xs + 4) b3 = ?h @ xs @ end_of_blocks"
    using stores_ok [of "8 + length xs" end_of_blocks b2] b2 True by auto
  have "encode_uncompressed buf xs = Some (b3, 8 + length xs + 4)"
    using assms True b1(1) b2(1) b3(1) by (simp add: encode_uncompressed_def Let_def store4_def)
  moreover have "stream_for xs b3 (8 + length xs + 4)"
    using raw_block_decodes [of xs] assms b3(2,3) True by (auto simp: stream_for_def raw_block_def)
  ultimately show ?thesis using b3(2) True by simp
qed

lemma encode_lzvn_ok:
  assumes len: "8 \<le> length xs" "length xs < 4096"
  shows "\<exists>b r. encode_lzvn buf xs = Some (b, r) \<and> length b = length buf \<and> (\<forall>n. r = Some n \<longrightarrow> 0 < n \<and> stream_for xs b n)"
proof (cases "length buf \<le> 16")
  case True
  then show ?thesis by (simp add: encode_lzvn_def)
next
  case False
  let ?inner = "slice buf 12 (length buf - 16)"
  have li: "length ?inner = length buf - 16" using False by simp
  obtain c k n where p: "lzvn_encode_partial ?inner xs = Some (c, n, k)" "length c = length buf - 16" "n \<le> length buf - 16"
      "8 \<le> length buf - 16 \<longrightarrow> (\<exists>bs D. take n c = bs @ le_enc 8 6 \<and> decodes bs 0 [] D (take k xs))"
    using lzvn_encode_partial_stream [of ?inner xs] unfolding li by blast
  have e: "lzvn_encode_buffer ?inner xs = Some (c, if k = length xs then n else 0)"
    using p(1) by (simp add: lzvn_encode_buffer_def)
  obtain b0 where b0: "poke buf 12 c = Some b0" using poke_in [of 12 c buf] p(2) False by auto
  note P = poke_frame [OF b0]
  have l0: "length b0 = length buf" using P(1) by (rule frame_length)
  let ?sz = "if k = length xs then n else 0"
  show ?thesis
  proof (cases "?sz = 0 \<or> ?sz \<ge> length xs")
    case True
    then have "encode_lzvn buf xs = Some (b0, None)" using False e b0 by (auto simp: encode_lzvn_def Let_def)
    then show ?thesis using l0 by simp
  next
    case go: False
    then have k: "k = length xs" "0 < n" "n < length xs" "xs \<noteq> []" by (auto split: if_splits)
    have big: "8 \<le> length buf - 16" using p(1) k(2) li by (auto simp: lzvn_encode_partial_def split: if_splits)
    obtain bs D where bs: "take n c = bs @ le_enc 8 6" "decodes bs 0 [] D xs" using p(4) big k(1) by auto
    have n: "n = length bs + 8" using arg_cong [OF bs(1), of length] p(2,3) by simp
    have payload: "slice b0 12 n = bs @ le_enc 8 6" using slice_take [OF _ P(2), of n] p(2,3) bs(1) by simp
    let ?h = "le_enc 4 (unat LZFSE_COMPRESSEDLZVN_BLOCK_MAGIC) @ le_enc 4 (length xs mod 2 ^ 32) @ le_enc 4 (n mod 2 ^ 32)"
    obtain b1 where b1: "store b0 0 (length buf) 0 ?h = Some b1" "length b1 = length buf" "take 12 b1 = ?h" "slice b1 12 n = slice b0 12 n"
      using stores_ok [of 0 ?h b0] l0 p(3) False by auto
    have t1: "take (12 + n) b1 = lzvn_wrapped (bs @ le_enc 8 6) (length xs)"
      using take_slice [of 12 b1 n] b1(3,4) payload len k n by (simp add: lzvn_wrapped_def)
    have room: "12 + n + length end_of_blocks \<le> length b1" using b1(2) p(3) False by simp
    obtain b2 where b2: "store b1 0 (length buf) (12 + n) end_of_blocks = Some b2" "length b2 = length buf"
        "take (12 + n + 4) b2 = lzvn_wrapped (bs @ le_enc 8 6) (length xs) @ end_of_blocks"
      using stores_ok [OF room] unfolding t1 b1(2) by auto
    have r: "encode_lzvn buf xs = Some (b2, Some (n + 16))"
      using False e b0 k b1(1) b2(1) by (simp add: encode_lzvn_def Let_def store4_def)
    have "stream_for xs b2 (n + 16)"
    proof -
      have "decodes_to (lzvn_wrapped (bs @ le_enc 8 6) (length xs)) [] xs" by (rule lzvn_wrapped_decodes [OF bs(2)]) (use len k n in simp_all)
      moreover have "take (n + 16) b2 = lzvn_wrapped (bs @ le_enc 8 6) (length xs) @ end_of_blocks" using b2(3) by (simp add: add.commute)
      moreover have "n + 16 \<le> length b2" using b2(2) p(3) False by simp
      ultimately show ?thesis unfolding stream_for_def by blast
    qed
    then show ?thesis using r b2(2) by simp
  qed
qed

lemma lzfse_encode_buffer_stream:
  assumes len: "length xs + LZFSE_ENCODE_MAX_D_VALUE \<le> 2 ^ 31" and m: "scratch \<or> malloc_ok"
  shows "\<exists>b n. lzfse_encode_buffer ub buf xs scratch malloc_ok = Some (b, n) \<and> length b = length buf \<and>
    (if n = 0 then length buf < length xs + 12 else stream_for xs b n)"
proof -
  let ?r = "if length xs < 8 then Some (buf, None) else if length xs < 4096 then encode_lzvn buf xs else encode_lzfse ub buf xs"
  have "\<exists>b r. ?r = Some (b, r) \<and> length b = length buf \<and> (\<forall>n. r = Some n \<longrightarrow> 0 < n \<and> stream_for xs b n)"
  proof -
    consider "length xs < 8" | "\<not> length xs < 8" "length xs < 4096" | "\<not> length xs < 8" "\<not> length xs < 4096" by blast
    then show ?thesis
    proof cases
      case 1
      then show ?thesis by simp
    next
      case 2
      then show ?thesis using encode_lzvn_ok [of xs buf] by simp
    next
      case 3
      obtain b r where r: "encode_lzfse ub buf xs = Some (b, r)" "length b = length buf"
          "\<forall>n. r = Some n \<longrightarrow> n \<le> length b \<and> (\<exists>bs. take n b = bs @ end_of_blocks \<and> decodes_to bs [] xs)"
        using encode_lzfse_ok [OF len, of ub buf] by blast
      have "0 < n" if "take n b = bs @ end_of_blocks" for n bs using arg_cong [OF that, of length] by (cases n) simp_all
      then have "\<forall>n. r = Some n \<longrightarrow> 0 < n \<and> stream_for xs b n" using r(3) unfolding stream_for_def by blast
      then show ?thesis using 3 r(1,2) by simp
    qed
  qed
  then obtain b r where r: "?r = Some (b, r)" "length b = length buf" "\<forall>n. r = Some n \<longrightarrow> 0 < n \<and> stream_for xs b n" by blast
  have e: "lzfse_encode_buffer ub buf xs scratch malloc_ok = (case r of Some n \<Rightarrow> Some (b, n) | None \<Rightarrow> encode_uncompressed b xs)"
    using r(1) m by (auto simp: lzfse_encode_buffer_def lzfse_encode_buffer_with_scratch_def)
  show ?thesis
  proof (cases r)
    case None
    have "length xs < 2 ^ 31 - 1" using len by simp
    from encode_uncompressed_ok [OF this, of b] obtain b2 n where u: "encode_uncompressed b xs = Some (b2, n)" "length b2 = length b"
        "if length xs + 12 \<le> length b then 0 < n \<and> stream_for xs b2 n else n = 0" by blast
    have "lzfse_encode_buffer ub buf xs scratch malloc_ok = Some (b2, n)" using e None u(1) by simp
    then show ?thesis using u(2,3) r(2) by (cases "length xs + 12 \<le> length b") simp_all
  next
    case (Some n)
    then show ?thesis using e r(2,3) by simp
  qed
qed

section \<open>The public interface\<close>

lemma compression_decodes_back:
  assumes "length src_buffer + 262139 \<le> 2 ^ 31"
  shows "\<exists>b n. compression_encode_buffer ub dst_buffer src_buffer scratch malloc_ok COMPRESSION_LZFSE = Some (b, n) \<and>
    length b = length dst_buffer \<and> n \<le> length dst_buffer \<and>
    ((scratch \<or> malloc_ok) \<and> length src_buffer + 12 \<le> length dst_buffer \<longrightarrow> 0 < n) \<and>
    (0 < n \<and> length src_buffer \<le> length out \<and> length out < 2 ^ 31 \<and> (scratch' \<or> malloc_ok') \<longrightarrow>
       (\<exists>out'. compression_decode_buffer out (take n b) pad scratch' malloc_ok' COMPRESSION_LZFSE = Some (out', length src_buffer) \<and>
          length out' = length out \<and> take (length src_buffer) out' = src_buffer))"
proof (cases "scratch \<or> malloc_ok")
  case False
  then show ?thesis by (simp add: compression_encode_buffer_def lzfse_encode_buffer_def)
next
  case True
  obtain b n where e: "lzfse_encode_buffer ub dst_buffer src_buffer scratch malloc_ok = Some (b, n)" "length b = length dst_buffer"
      "if n = 0 then length dst_buffer < length src_buffer + 12 else stream_for src_buffer b n"
    using lzfse_encode_buffer_stream [OF assms True, of ub dst_buffer] by blast
  have s: "0 < n \<Longrightarrow> stream_for src_buffer b n" "length src_buffer + 12 \<le> length dst_buffer \<Longrightarrow> 0 < n" using e(3) by (simp_all split: if_splits)
  have "n \<le> length dst_buffer" using s(1) e(2) by (cases "n = 0") (auto simp: stream_for_def)
  then show ?thesis
    using e(1,2) s stream_decodes [of src_buffer b n out scratch' malloc_ok' pad]
    by (auto simp: compression_encode_buffer_def compression_decode_buffer_def)
qed

section \<open>A codec\<close>

text \<open>As functions of byte strings, with buffers of given sizes.\<close>

definition lzfse_enc :: "int \<Rightarrow> nat \<Rightarrow> nat \<Rightarrow> byte list \<Rightarrow> byte list option" where
  "lzfse_enc ub room most xs =
     (if length xs \<le> most \<and> most + 262139 \<le> 2 ^ 31 then
        do { (b, n) \<leftarrow> compression_encode_buffer ub (replicate room 0) xs False True COMPRESSION_LZFSE; if n = 0 then None else Some (take n b) }
      else None)"

definition lzfse_dec :: "nat \<Rightarrow> byte list \<Rightarrow> byte list option" where
  "lzfse_dec most ys = do { (b, n) \<leftarrow> compression_decode_buffer (replicate most 0) ys [] False True COMPRESSION_LZFSE; Some (take n b) }"

interpretation lzfse_codec: codec "lzfse_enc ub room most" "lzfse_dec most" for ub room most
proof
  fix xs ys assume e: "lzfse_enc ub room most xs = Some ys"
  then have len: "length xs \<le> most" "most + 262139 \<le> 2 ^ 31" by (simp_all add: lzfse_enc_def split: if_splits)
  have "length xs + 262139 \<le> 2 ^ 31" using len by linarith
  from compression_decodes_back [OF this, of ub "replicate room 0" False True "replicate most 0" False True "[]"] e len
  show "lzfse_dec most ys = Some xs" by (auto simp: lzfse_enc_def lzfse_dec_def split: if_splits)
qed

text \<open>Two sources never have the same stream.\<close>

lemma lzfse_streams_distinct:
  "lzfse_enc ub room most xs = Some ys \<Longrightarrow> lzfse_enc ub room most xs' = Some ys \<Longrightarrow> xs = xs'"
  by (rule lzfse_codec.enc_inj)

section \<open>Properties\<close>

text \<open>C1. LZFSE round trip through the public interface.  For every source of at most
  \<open>2^31 - 262139\<close> bytes and every destination, \<open>compression_encode_buffer\<close> returns without
  an access outside its buffers and reports at most the size of the destination; it reports
  a size whenever memory for its state is available and the destination has 12 bytes more than the source.
  Whenever it reports a size, \<open>compression_decode_buffer\<close> of that many bytes, into any
  destination with room for the source, reports the size of the source and has written it.\<close>

theorem compression_lzfse_roundtrip:
  assumes "length src_buffer + 262139 \<le> 2 ^ 31"
  shows "\<exists>b n. compression_encode_buffer ub dst_buffer src_buffer scratch malloc_ok COMPRESSION_LZFSE = Some (b, n) \<and>
    length b = length dst_buffer \<and> n \<le> length dst_buffer \<and>
    ((scratch \<or> malloc_ok) \<and> length src_buffer + 12 \<le> length dst_buffer \<longrightarrow> 0 < n) \<and>
    (0 < n \<and> length src_buffer \<le> length out \<and> length out < 2 ^ 31 \<and> (scratch' \<or> malloc_ok') \<longrightarrow>
       (\<exists>out'. compression_decode_buffer out (take n b) pad scratch' malloc_ok' COMPRESSION_LZFSE = Some (out', length src_buffer) \<and>
          length out' = length out \<and> take (length src_buffer) out' = src_buffer))"
  by (rule compression_decodes_back [OF assms])

theorem compression_lzfse_roundtrip_witness:
  "\<exists>b n out'. compression_encode_buffer 0 (replicate 20 0) [1, 2, 3] True False COMPRESSION_LZFSE = Some (b, n) \<and> 0 < n \<and>
    compression_decode_buffer (replicate 5 0) (take n b) [] False True COMPRESSION_LZFSE = Some (out', 3) \<and> take 3 out' = [1, 2, 3]"
  using compression_lzfse_roundtrip [of "[1, 2, 3]" 0 "replicate 20 0" True False "replicate 5 0" False True "[]"] by (auto simp: numeral_3_eq_3)

text \<open>C2. The encoder compresses when it has room.  For a source of at least 4096 bytes and a destination of
  ten times its size and 779 bytes more, \<open>compression_encode_buffer\<close> does not fall back to an uncompressed block: it returns what
  the LZFSE encoder wrote, and \<open>compression_decode_buffer\<close> gives back the source.\<close>

theorem compression_lzfse_completes:
  assumes "4096 \<le> length src_buffer" and "length src_buffer + 262139 \<le> 2 ^ 31" and "10 * length src_buffer + 779 \<le> length dst_buffer"
    and "scratch \<or> malloc_ok" and "length src_buffer \<le> length out" "length out < 2 ^ 31" and "scratch' \<or> malloc_ok'"
  shows "\<exists>b n out'. encode_lzfse ub dst_buffer src_buffer = Some (b, Some n) \<and>
    compression_encode_buffer ub dst_buffer src_buffer scratch malloc_ok COMPRESSION_LZFSE = Some (b, n) \<and> 0 < n \<and>
    compression_decode_buffer out (take n b) pad scratch' malloc_ok' COMPRESSION_LZFSE = Some (out', length src_buffer) \<and>
    take (length src_buffer) out' = src_buffer"
proof -
  obtain b n bs where e: "encode_lzfse ub dst_buffer src_buffer = Some (b, Some n)" "take n b = bs @ le_enc 4 (unat LZFSE_ENDOFSTREAM_BLOCK_MAGIC)"
    using encode_lzfse_completes [OF _ assms(3), of ub] assms(2) by auto
  have "0 < length (take n b)" unfolding e(2) by simp
  then have "0 < n" by simp
  moreover have "compression_encode_buffer ub dst_buffer src_buffer scratch malloc_ok COMPRESSION_LZFSE = Some (b, n)"
    using e(1) assms(1,4) by (auto simp: compression_encode_buffer_def lzfse_encode_buffer_def lzfse_encode_buffer_with_scratch_def)
  ultimately show ?thesis
    using e(1) compression_decodes_back [OF assms(2), of ub dst_buffer scratch malloc_ok out scratch' malloc_ok' pad] assms(5-7) by auto
qed

theorem compression_lzfse_completes_witness:
  "\<exists>b n out'. compression_encode_buffer 0 (replicate 60000 0) (replicate 5000 65) False True COMPRESSION_LZFSE = Some (b, n) \<and> 0 < n \<and>
    compression_decode_buffer (replicate 6000 0) (take n b) [] True False COMPRESSION_LZFSE = Some (out', 5000) \<and> take 5000 out' = replicate 5000 65"
  using compression_lzfse_completes [of "replicate 5000 65" "replicate 60000 0" False True "replicate 6000 0" True False 0 "[]"] by auto

end
