(* ===== verification/Shell_Commands.thy ===== *)
theory Shell_Commands
  imports Cider_Prelude
begin

text \<open>
  The command stream of \<open>src/src/darwin/shellspawn/shellspawn.c\<close>: the commands
  a launcher sends to the daemon over its control socket (\<open>shellspawn.h\<close>), the
  reader \<open>read_commands\<close> that collects them into a \<open>struct spawn_cfg\<close>,
  \<open>free_cfg\<close>, what the forked child does with the configuration, and the signal
  numbers of \<open>duct_signals.c\<close>.

  The \<open>argv\<close> array is a list of cells with the state of each pointer, so that
  reading a cell that was never stored to, or freeing one twice, is visible.
  What \<open>recvmsg\<close> and \<open>read\<close> deliver is the input.  Blocks that the code loses
  track of without touching them again (the payload of \<open>SETUIDGID\<close>, a replaced
  \<open>CHDIR\<close> path) have no effect in the model.

  Shown: a stream that reaches \<open>GO\<close> yields exactly the request that the commands
  describe, with an array that \<open>free_cfg\<close> and \<open>execv\<close> can walk; every other
  stream makes \<open>read_commands\<close> fail and leaves an array that \<open>free_cfg\<close> cannot
  walk.
\<close>

section \<open>Commands on the wire\<close>

definition SHELLSPAWN_ADDARG :: u16 where "SHELLSPAWN_ADDARG = 1"
definition SHELLSPAWN_SETENV :: u16 where "SHELLSPAWN_SETENV = 2"
definition SHELLSPAWN_CHDIR :: u16 where "SHELLSPAWN_CHDIR = 3"
definition SHELLSPAWN_GO :: u16 where "SHELLSPAWN_GO = 4"
definition SHELLSPAWN_SIGNAL :: u16 where "SHELLSPAWN_SIGNAL = 5"
definition SHELLSPAWN_SETUIDGID :: u16 where "SHELLSPAWN_SETUIDGID = 6"
definition SHELLSPAWN_SETEXEC :: u16 where "SHELLSPAWN_SETEXEC = 7"

lemmas shellspawn_cmds =
  SHELLSPAWN_ADDARG_def SHELLSPAWN_SETENV_def SHELLSPAWN_CHDIR_def SHELLSPAWN_GO_def
  SHELLSPAWN_SIGNAL_def SHELLSPAWN_SETUIDGID_def SHELLSPAWN_SETEXEC_def

type_synonym fd = int

text \<open>The first control message that came with a command, when there was one.\<close>

datatype control = Rights "fd list" | Other_control

text \<open>One round of the reading loop: \<open>recvmsg\<close> does not deliver a whole
  \<open>struct shellspawn_cmd\<close>, or it does; then \<open>data\<close> is what \<open>read\<close> returns when the
  command announces data.  The end of the list is the end of the stream.\<close>

record shellspawn_cmd =
  cmd :: u16
  data_length :: u16
  data :: "byte list"
  ctl :: "control option"

datatype received = Short | Received shellspawn_cmd

section \<open>The configuration\<close>

datatype cell = Uninit | Ptr "byte list" | Freed | Null

record spawn_cfg =
  argv :: "cell list"
  alloc_exec :: "byte list option"
  shellfd :: "fd list"
  envs :: "byte list list"
  chdir_path :: "byte list option"
  uid :: int
  gid :: int

definition MAX_ENVS :: nat where "MAX_ENVS = 1024"

definition str :: "string \<Rightarrow> byte list" where
  "str s = map asc s"

definition realloc_cells :: "nat \<Rightarrow> cell list \<Rightarrow> cell list" where
  "realloc_cells n cs = take n cs @ replicate (n - length cs) Uninit"

definition cfg_start :: spawn_cfg where
  "cfg_start =
     \<lparr>argv = [Ptr (str ''/bin/bash''), Ptr (str ''--login''), Uninit], alloc_exec = None,
      shellfd = [0, 0, 0], envs = [], chdir_path = None, uid = -1, gid = -1\<rparr>"

text \<open>\<open>((int*) param)[i]\<close>.\<close>

definition int_at :: "byte list \<Rightarrow> nat \<Rightarrow> int" where
  "int_at p i = sint (of_nat (le_val (slice p (4 * i) 4)) :: u32)"

text \<open>\<open>param\<close>: no data, or \<open>data_length\<close> bytes; \<open>None\<close> outside is a short \<open>read\<close>.\<close>

definition param_of :: "shellspawn_cmd \<Rightarrow> byte list option option" where
  "param_of c =
     (if data_length c = 0 then Some None
      else if length (data c) = unat (data_length c) then Some (Some (data c))
      else None)"

text \<open>The commands other than \<open>GO\<close>, on the configuration and \<open>argc\<close>.\<close>

definition apply_cmd :: "u16 \<Rightarrow> byte list option \<Rightarrow> spawn_cfg \<times> nat \<Rightarrow> spawn_cfg \<times> nat" where
  "apply_cmd k param st =
     (let (cfg, argc) = st in
      if k = SHELLSPAWN_ADDARG then
        (case param of None \<Rightarrow> (cfg, argc)
         | Some p \<Rightarrow> (cfg\<lparr>argv := (realloc_cells (argc + 1) (argv cfg))[argc := Ptr p]\<rparr>, argc + 1))
      else if k = SHELLSPAWN_SETENV then
        (case param of None \<Rightarrow> (cfg, argc)
         | Some p \<Rightarrow> (if length (envs cfg) < MAX_ENVS then (cfg\<lparr>envs := envs cfg @ [p]\<rparr>, argc) else (cfg, argc)))
      else if k = SHELLSPAWN_CHDIR then
        (case param of None \<Rightarrow> (cfg, argc) | Some p \<Rightarrow> (cfg\<lparr>chdir_path := Some p\<rparr>, argc))
      else if k = SHELLSPAWN_SETUIDGID then
        (case param of None \<Rightarrow> (cfg, argc)
         | Some p \<Rightarrow> (if length p \<ge> 8 then (cfg\<lparr>uid := int_at p 0, gid := int_at p 1\<rparr>, argc) else (cfg, argc)))
      else if k = SHELLSPAWN_SETEXEC then
        (cfg\<lparr>argv := realloc_cells 1 (replicate argc Freed @ drop argc (argv cfg)), alloc_exec := param\<rparr>, 0)
      else (cfg, argc))"

text \<open>The loop.  \<open>Inl\<close> is a \<open>return -1\<close> with the configuration as it stands.\<close>

fun read_loop :: "received list \<Rightarrow> spawn_cfg \<times> nat \<Rightarrow> spawn_cfg + (spawn_cfg \<times> nat)" where
  "read_loop [] st = Inl (fst st)"
| "read_loop (Short # ms) st = Inl (fst st)"
| "read_loop (Received c # ms) st =
     (case param_of c of
        None \<Rightarrow> Inl (fst st)
      | Some param \<Rightarrow>
          if cmd c = SHELLSPAWN_GO then
            (case ctl c of
               Some (Rights fds) \<Rightarrow>
                 if length fds = 3 then Inr ((fst st)\<lparr>shellfd := fds\<rparr>, snd st) else Inl (fst st)
             | _ \<Rightarrow> Inl (fst st))
          else read_loop ms (apply_cmd (cmd c) param st))"

definition read_commands :: "received list \<Rightarrow> int \<times> spawn_cfg" where
  "read_commands ms =
     (case read_loop ms (cfg_start, 2) of
        Inl cfg \<Rightarrow> (-1, cfg)
      | Inr (cfg, argc) \<Rightarrow> (0, cfg\<lparr>argv := (realloc_cells (argc + 1) (argv cfg))[argc := Null]\<rparr>))"

text \<open>The walk over \<open>argv\<close> up to the terminating \<open>NULL\<close>.  \<open>None\<close>: a cell is read
  that holds no value or lies behind the array, or a block is freed twice.  The
  other frees are of blocks stored once.\<close>

fun free_argv :: "cell list \<Rightarrow> unit option" where
  "free_argv [] = None"
| "free_argv (Null # cs) = Some ()"
| "free_argv (Ptr p # cs) = free_argv cs"
| "free_argv (Uninit # cs) = None"
| "free_argv (Freed # cs) = None"

definition free_cfg :: "spawn_cfg \<Rightarrow> unit option" where
  "free_cfg cfg = free_argv (argv cfg)"

section \<open>The child\<close>

text \<open>A \<open>char*\<close> as the system calls read it, and an \<open>argv\<close> as \<open>execv\<close> does.\<close>

definition c_str :: "byte list \<Rightarrow> byte list" where
  "c_str p = takeWhile (\<lambda>b. b \<noteq> 0) p"

fun exec_args :: "cell list \<Rightarrow> byte list list option" where
  "exec_args (Null # cs) = Some []"
| "exec_args (Ptr p # cs) = map_option (Cons (c_str p)) (exec_args cs)"
| "exec_args _ = None"

datatype child_call =
    Close fd
  | Chdir "byte list"
  | Putenv "byte list"
  | Setgid int
  | Setuid int
  | Setsid
  | Setpgrp
  | Dup2 fd nat
  | Tiocsctty
  | Cloexec fd
  | Execv "byte list" "byte list list option"
  | Write_byte fd
  | Exit_child nat

text \<open>The calls of the branch \<open>pid == 0\<close> of \<open>start_spawn\<close>; the two after \<open>execv\<close>
  run only when it returns.\<close>

definition child_calls :: "fd \<Rightarrow> fd \<Rightarrow> spawn_cfg \<Rightarrow> child_call list" where
  "child_calls rfd wfd cfg =
     [Close rfd] @
     (case chdir_path cfg of None \<Rightarrow> [] | Some p \<Rightarrow> [Chdir (c_str p)]) @
     map (\<lambda>e. Putenv (c_str e)) (envs cfg) @
     (if gid cfg \<noteq> -1 then [Setgid (gid cfg)] else []) @
     (if uid cfg \<noteq> -1 then [Setuid (uid cfg)] else []) @
     [Setsid, Setpgrp,
      Dup2 (shellfd cfg ! 0) 0, Dup2 (shellfd cfg ! 1) 1, Dup2 (shellfd cfg ! 2) 2,
      Tiocsctty, Cloexec wfd,
      Execv (case alloc_exec cfg of None \<Rightarrow> str ''/bin/bash'' | Some p \<Rightarrow> c_str p) (exec_args (argv cfg)),
      Write_byte wfd, Exit_child 127]"

section \<open>Signal numbers\<close>

text \<open>\<open>signum_linux_to_bsd\<close>: the cases of the \<open>switch\<close>, Linux number to Darwin number.\<close>

definition signal_cases :: "(int \<times> int) list" where
  "signal_cases =
     [(1, 1), (2, 2), (3, 3), (4, 4), (5, 5), (6, 6), (8, 8), (9, 9), (7, 10), (11, 11), (31, 12),
      (13, 13), (14, 14), (15, 15), (23, 16), (19, 17), (20, 18), (18, 19), (17, 20), (21, 21),
      (22, 22), (29, 23), (24, 24), (25, 25), (26, 26), (27, 27), (28, 28), (10, 30), (12, 31)]"

definition signum_linux_to_bsd :: "int \<Rightarrow> int" where
  "signum_linux_to_bsd signum = (case map_of signal_cases signum of None \<Rightarrow> 0 | Some n \<Rightarrow> n)"

lemma signum_range: "0 \<le> signum_linux_to_bsd n \<and> signum_linux_to_bsd n < 32"
proof (cases "map_of signal_cases n")
  case (Some m)
  then have "m \<in> snd ` set signal_cases"
    by (force dest: map_of_SomeD)
  then show ?thesis
    using Some by (auto simp: signum_linux_to_bsd_def signal_cases_def)
qed (simp add: signum_linux_to_bsd_def)

lemma signum_inj: "signum_linux_to_bsd m = signum_linux_to_bsd n \<Longrightarrow> signum_linux_to_bsd m \<noteq> 0 \<Longrightarrow> m = n"
  by (auto simp: signum_linux_to_bsd_def signal_cases_def split: if_splits)

section \<open>What the commands ask for\<close>

text \<open>The request read off the list of commands before \<open>GO\<close>, without the array:
  the payloads of one kind of command, and those after the last \<open>SETEXEC\<close>.\<close>

type_synonym command = "u16 \<times> byte list option"

definition payloads :: "u16 \<Rightarrow> command list \<Rightarrow> byte list list" where
  "payloads k cs = List.map_filter (\<lambda>(c, p). if c = k then p else None) cs"

definition since_exec :: "command list \<Rightarrow> command list" where
  "since_exec cs = rev (takeWhile (\<lambda>c. fst c \<noteq> SHELLSPAWN_SETEXEC) (rev cs))"

definition last_exec :: "command list \<Rightarrow> command option" where
  "last_exec cs = find (\<lambda>c. fst c = SHELLSPAWN_SETEXEC) (rev cs)"

definition req_args :: "command list \<Rightarrow> byte list list" where
  "req_args cs =
     (if last_exec cs = None then [str ''/bin/bash'', str ''--login''] else []) @
     payloads SHELLSPAWN_ADDARG (since_exec cs)"

definition req_exec :: "command list \<Rightarrow> byte list option" where
  "req_exec cs = (case last_exec cs of None \<Rightarrow> None | Some c \<Rightarrow> snd c)"

definition req_envs :: "command list \<Rightarrow> byte list list" where
  "req_envs cs = take MAX_ENVS (payloads SHELLSPAWN_SETENV cs)"

definition req_dir :: "command list \<Rightarrow> byte list option" where
  "req_dir cs = (case rev (payloads SHELLSPAWN_CHDIR cs) of [] \<Rightarrow> None | p # _ \<Rightarrow> Some p)"

definition req_ids :: "command list \<Rightarrow> int \<times> int" where
  "req_ids cs =
     (case rev (filter (\<lambda>p. length p \<ge> 8) (payloads SHELLSPAWN_SETUIDGID cs)) of
        [] \<Rightarrow> (-1, -1) | p # _ \<Rightarrow> (int_at p 0, int_at p 1))"

text \<open>A configuration and \<open>argc\<close> that represent the commands read so far.  The
  array always has room for \<open>argc\<close> pointers, all of them live.\<close>

definition collects :: "command list \<Rightarrow> spawn_cfg \<times> nat \<Rightarrow> bool" where
  "collects cs st \<longleftrightarrow>
     (let (cfg, argc) = st in
      argc = length (req_args cs) \<and> take argc (argv cfg) = map Ptr (req_args cs) \<and>
      (\<forall>x \<in> set (drop argc (argv cfg)). x = Uninit \<or> x = Freed) \<and>
      alloc_exec cfg = req_exec cs \<and> envs cfg = req_envs cs \<and> chdir_path cfg = req_dir cs \<and>
      (uid cfg, gid cfg) = req_ids cs)"

lemmas req_defs =
  req_args_def req_exec_def req_envs_def req_dir_def req_ids_def last_exec_def since_exec_def

lemma payloads_snoc:
  "payloads k (cs @ [(c, p)]) = payloads k cs @ (if c = k then (case p of None \<Rightarrow> [] | Some x \<Rightarrow> [x]) else [])"
  by (auto simp: payloads_def map_filter_def split: option.splits)

lemma last_exec_snoc [simp]:
  "last_exec (cs @ [c]) = (if fst c = SHELLSPAWN_SETEXEC then Some c else last_exec cs)"
  by (simp add: last_exec_def)

lemma since_exec_snoc [simp]:
  "since_exec (cs @ [c]) = (if fst c = SHELLSPAWN_SETEXEC then [] else since_exec cs @ [c])"
  by (simp add: since_exec_def)

lemma payloads_Nil [simp]: "payloads k [] = []"
  by (simp add: payloads_def map_filter_def)

text \<open>The effect of one more command on each part of the request.\<close>

lemma req_args_snoc:
  "req_args (cs @ [(k, p)]) =
     (if k = SHELLSPAWN_SETEXEC then []
      else req_args cs @ (if k = SHELLSPAWN_ADDARG then (case p of None \<Rightarrow> [] | Some x \<Rightarrow> [x]) else []))"
  by (simp add: req_args_def payloads_snoc shellspawn_cmds)

lemma req_exec_snoc: "req_exec (cs @ [(k, p)]) = (if k = SHELLSPAWN_SETEXEC then p else req_exec cs)"
  by (simp add: req_exec_def)

lemma req_envs_snoc:
  "req_envs (cs @ [(k, p)]) =
     (case p of
        Some x \<Rightarrow> if k = SHELLSPAWN_SETENV \<and> length (req_envs cs) < MAX_ENVS then req_envs cs @ [x] else req_envs cs
      | None \<Rightarrow> req_envs cs)"
  by (auto simp: req_envs_def payloads_snoc split: option.split)

lemma req_dir_snoc:
  "req_dir (cs @ [(k, p)]) =
     (case p of Some x \<Rightarrow> if k = SHELLSPAWN_CHDIR then Some x else req_dir cs | None \<Rightarrow> req_dir cs)"
  by (auto simp: req_dir_def payloads_snoc split: option.split)

lemma req_ids_snoc:
  "req_ids (cs @ [(k, p)]) =
     (case p of
        Some x \<Rightarrow> if k = SHELLSPAWN_SETUIDGID \<and> length x \<ge> 8 then (int_at x 0, int_at x 1) else req_ids cs
      | None \<Rightarrow> req_ids cs)"
proof (cases p)
  case (Some x)
  then show ?thesis
    by (cases "k = SHELLSPAWN_SETUIDGID") (auto simp: req_ids_def payloads_snoc)
next
  case None
  have "payloads j (cs @ [(k, None)]) = payloads j cs" for j
    by (simp add: payloads_snoc)
  then show ?thesis
    by (simp only: None req_ids_def option.case)
qed

lemmas req_snoc = req_args_snoc req_exec_snoc req_envs_snoc req_dir_snoc req_ids_snoc

section \<open>The reader collects the request\<close>

lemma store_behind:
  assumes "take n cs = xs" and "length xs = n"
  shows "(realloc_cells (Suc n) cs)[n := x] = xs @ [x]"
proof -
  have "n \<le> length cs"
    using assms by auto
  then have "take n (realloc_cells (Suc n) cs) = xs" "length (realloc_cells (Suc n) cs) = Suc n"
    using assms by (auto simp: realloc_cells_def)
  then show ?thesis
    by (simp add: upd_conv_take_nth_drop)
qed

lemma collectsD:
  assumes "collects cs (cfg, argc)"
  shows "argc = length (req_args cs)" "take argc (argv cfg) = map Ptr (req_args cs)"
    "x \<in> set (drop argc (argv cfg)) \<Longrightarrow> x = Uninit \<or> x = Freed"
    "alloc_exec cfg = req_exec cs" "envs cfg = req_envs cs" "chdir_path cfg = req_dir cs"
    "(uid cfg, gid cfg) = req_ids cs"
  using assms by (auto simp: collects_def)

lemma collects_store:
  assumes "collects cs (cfg, argc)"
  shows "(realloc_cells (Suc argc) (argv cfg))[argc := x] = map Ptr (req_args cs) @ [x]"
  using collectsD(1,2) [OF assms] by (simp add: store_behind)

lemma collects_start: "collects [] (cfg_start, 2)"
  by (simp add: collects_def cfg_start_def req_defs)

lemma collects_addarg:
  assumes "collects cs (cfg, argc)"
  shows "collects (cs @ [(SHELLSPAWN_ADDARG, p)]) (apply_cmd SHELLSPAWN_ADDARG p (cfg, argc))"
proof (cases p)
  case (Some x)
  then have "apply_cmd SHELLSPAWN_ADDARG p (cfg, argc) = (cfg\<lparr>argv := map Ptr (req_args cs) @ [Ptr x]\<rparr>, Suc argc)"
    by (simp add: apply_cmd_def collects_store [OF assms])
  then show ?thesis
    using Some collectsD [OF assms] by (simp add: collects_def req_snoc shellspawn_cmds)
qed (use assms in \<open>auto simp: collects_def apply_cmd_def req_snoc shellspawn_cmds\<close>)

lemma collects_setexec:
  assumes "collects cs (cfg, argc)"
  shows "collects (cs @ [(SHELLSPAWN_SETEXEC, p)]) (apply_cmd SHELLSPAWN_SETEXEC p (cfg, argc))"
proof -
  have "x = Uninit \<or> x = Freed" if "x \<in> set (realloc_cells 1 (replicate argc Freed @ drop argc (argv cfg)))" for x
    using that assms by (auto simp: realloc_cells_def collects_def dest!: in_set_takeD split: if_splits)
  then show ?thesis
    using assms by (simp add: collects_def apply_cmd_def req_snoc shellspawn_cmds split: option.split)
qed

lemma collects_other:
  assumes "collects cs (cfg, argc)" and "k \<noteq> SHELLSPAWN_ADDARG" and "k \<noteq> SHELLSPAWN_SETEXEC"
  shows "collects (cs @ [(k, p)]) (apply_cmd k p (cfg, argc))"
  using assms by (auto simp: collects_def apply_cmd_def req_snoc shellspawn_cmds split: option.split)

lemma collects_snoc:
  assumes "collects cs st"
  shows "collects (cs @ [(k, p)]) (apply_cmd k p st)"
proof -
  obtain cfg argc where st: "st = (cfg, argc)" by force
  with assms show ?thesis
    by (cases "k = SHELLSPAWN_ADDARG \<or> k = SHELLSPAWN_SETEXEC")
      (auto intro: collects_addarg collects_setexec collects_other)
qed

text \<open>A whole command other than \<open>GO\<close>.\<close>

definition plain :: "received \<Rightarrow> command option" where
  "plain m =
     (case m of Short \<Rightarrow> None
      | Received c \<Rightarrow>
          (case param_of c of None \<Rightarrow> None
           | Some p \<Rightarrow> if cmd c = SHELLSPAWN_GO then None else Some (cmd c, p)))"

lemma read_loop_plain:
  assumes "plain m = Some (k, p)"
  shows "read_loop (m # ms) st = read_loop ms (apply_cmd k p st)"
  using assms by (auto simp: plain_def split: received.splits option.splits if_splits)

lemma read_loop_collects:
  assumes "map plain pre = map Some cs" and "collects ds st"
  shows "\<exists>st'. read_loop (pre @ ms) st = read_loop ms st' \<and> collects (ds @ cs) st'"
  using assms
proof (induction pre arbitrary: cs ds st)
  case (Cons m pre)
  then obtain k p cs' where cs: "cs = (k, p) # cs'" "plain m = Some (k, p)" "map plain pre = map Some cs'"
    by (cases cs) auto
  then show ?case
    using Cons.IH [of cs' "ds @ [(k, p)]" "apply_cmd k p st"] Cons.prems(2)
    by (simp add: read_loop_plain collects_snoc)
qed auto

text \<open>Every stream either runs into a \<open>GO\<close> that carries three descriptors or makes the
  loop return -1 in a configuration that represents a prefix of it.\<close>

lemma read_loop_result:
  assumes "collects ds st"
  shows "\<exists>cs st'. collects cs st' \<and>
           (read_loop ms st = Inl (fst st') \<or>
            (\<exists>fds. read_loop ms st = Inr ((fst st')\<lparr>shellfd := fds\<rparr>, snd st')))"
  using assms
proof (induction ms arbitrary: ds st)
  case Nil
  then show ?case by (metis read_loop.simps(1))
next
  case (Cons m ms)
  show ?case
  proof (cases "plain m")
    case None
    then have "read_loop (m # ms) st = Inl (fst st) \<or>
        (\<exists>fds. read_loop (m # ms) st = Inr ((fst st)\<lparr>shellfd := fds\<rparr>, snd st))"
      by (cases m) (auto simp: plain_def split: option.splits control.splits if_splits)
    then show ?thesis
      using Cons.prems by blast
  next
    case (Some kp)
    then have "plain m = Some (fst kp, snd kp)" by simp
    then show ?thesis
      using Cons.IH [OF collects_snoc [OF Cons.prems, of "fst kp" "snd kp"]]
      by (simp only: read_loop_plain)
  qed
qed

lemma free_argv_live: "free_argv (map Ptr xs @ cs) = free_argv cs"
  by (induction xs) auto

lemma exec_args_live: "exec_args (map Ptr xs @ [Null]) = Some (map c_str xs)"
  by (induction xs) auto

lemma collects_argv:
  assumes "collects cs (cfg, argc)"
  shows "free_argv (argv cfg) = None"
    and "(realloc_cells (argc + 1) (argv cfg))[argc := Null] = map Ptr (req_args cs) @ [Null]"
proof -
  have "argv cfg = map Ptr (req_args cs) @ drop argc (argv cfg)"
    using collectsD(2) [OF assms] append_take_drop_id [of argc "argv cfg"] by metis
  moreover have "free_argv (drop argc (argv cfg)) = None"
    using collectsD(3) [OF assms] by (cases "drop argc (argv cfg)") force+
  ultimately show "free_argv (argv cfg) = None"
    by (metis free_argv_live)
qed (simp add: collects_store [OF assms])

section \<open>Properties\<close>

text \<open>C23. The launcher's request is what the child carries out.  When the commands
  before \<open>GO\<close> arrive whole and \<open>GO\<close> brings three descriptors, \<open>read_commands\<close>
  returns 0 and the child enters the last requested directory, sets the first 1024
  requested environment strings, changes group before user, connects the three
  descriptors to its standard streams and executes the last \<open>SETEXEC\<close> program with
  the arguments added since (\<open>/bin/bash --login\<close> and all arguments without one); the
  daemon can free the configuration.\<close>

theorem read_commands_request:
  assumes "map plain pre = map Some cs"
    and "cmd go = SHELLSPAWN_GO" and "param_of go \<noteq> None" and "ctl go = Some (Rights [a, b, c])"
  shows "\<exists>cfg. read_commands (pre @ Received go # post) = (0, cfg) \<and> free_cfg cfg = Some () \<and>
           child_calls r w cfg =
             [Close r] @
             (case req_dir cs of None \<Rightarrow> [] | Some p \<Rightarrow> [Chdir (c_str p)]) @
             map (\<lambda>e. Putenv (c_str e)) (req_envs cs) @
             (if snd (req_ids cs) \<noteq> -1 then [Setgid (snd (req_ids cs))] else []) @
             (if fst (req_ids cs) \<noteq> -1 then [Setuid (fst (req_ids cs))] else []) @
             [Setsid, Setpgrp, Dup2 a 0, Dup2 b 1, Dup2 c 2, Tiocsctty, Cloexec w,
              Execv (case req_exec cs of None \<Rightarrow> str ''/bin/bash'' | Some p \<Rightarrow> c_str p)
                (Some (map c_str (req_args cs))),
              Write_byte w, Exit_child 127]"
proof -
  obtain cfg argc where st: "read_loop (pre @ Received go # post) (cfg_start, 2) = read_loop (Received go # post) (cfg, argc)"
      and coll: "collects cs (cfg, argc)"
    using read_loop_collects [OF assms(1) collects_start] by fastforce
  then have "read_commands (pre @ Received go # post) =
      (0, cfg\<lparr>shellfd := [a, b, c], argv := map Ptr (req_args cs) @ [Null]\<rparr>)"
    using assms(2-) collects_argv(2) [OF coll] by (auto simp: read_commands_def)
  then show ?thesis
    using collectsD(4-6) [OF coll] collectsD(7) [OF coll, symmetric]
    by (simp add: free_cfg_def free_argv_live child_calls_def exec_args_live)
qed

theorem read_commands_request_witness:
  "let addarg = \<lparr>cmd = 1, data_length = 2, data = [45, 99], ctl = None\<rparr>;
       setexec = \<lparr>cmd = 7, data_length = 2, data = [47, 120], ctl = None\<rparr>;
       ids = \<lparr>cmd = 6, data_length = 8, data = [5, 0, 0, 0, 20, 0, 0, 0], ctl = None\<rparr>;
       go = \<lparr>cmd = 4, data_length = 0, data = [], ctl = Some (Rights [10, 11, 12])\<rparr>
   in \<exists>cfg. read_commands (map Received [addarg, setexec, ids, addarg] @ [Received go]) = (0, cfg) \<and>
        free_cfg cfg = Some () \<and>
        child_calls 20 21 cfg =
          [Close 20, Setgid 20, Setuid 5, Setsid, Setpgrp, Dup2 10 0, Dup2 11 1, Dup2 12 2, Tiocsctty, Cloexec 21,
           Execv [47, 120] (Some [[45, 99]]), Write_byte 21, Exit_child 127]"
  using read_commands_request
    [of "map Received
           [\<lparr>cmd = 1, data_length = 2, data = [45, 99], ctl = None\<rparr>,
            \<lparr>cmd = 7, data_length = 2, data = [47, 120], ctl = None\<rparr>,
            \<lparr>cmd = 6, data_length = 8, data = [5, 0, 0, 0, 20, 0, 0, 0], ctl = None\<rparr>,
            \<lparr>cmd = 1, data_length = 2, data = [45, 99], ctl = None\<rparr>]"
        "[(1, Some [45, 99]), (7, Some [47, 120]), (6, Some [5, 0, 0, 0, 20, 0, 0, 0]), (1, Some [45, 99])]"
        "\<lparr>cmd = 4, data_length = 0, data = [], ctl = Some (Rights [10, 11, 12])\<rparr>" 10 11 12 "[]" 20 21]
  by (simp add: plain_def param_of_def shellspawn_cmds req_defs payloads_def map_filter_def int_at_def slice_def
      c_str_def MAX_ENVS_def)

text \<open>C38. After every failure of \<open>read_commands\<close> the cleanup in \<open>start_spawn\<close> is
  undefined: \<open>free_cfg\<close> walks \<open>argv\<close> up to a \<open>NULL\<close> that only a successful read stores,
  so it reads a cell that was never written or lies behind the array, or frees the
  dangling pointer that \<open>SETEXEC\<close> left.  \<open>free_cfg\<close> is defined exactly when the read
  succeeded.\<close>

theorem free_cfg_after_read:
  "free_cfg (snd (read_commands ms)) = Some () \<longleftrightarrow> fst (read_commands ms) = 0"
proof -
  obtain cs cfg argc where coll: "collects cs (cfg, argc)"
    and "read_loop ms (cfg_start, 2) = Inl cfg \<or>
         (\<exists>fds. read_loop ms (cfg_start, 2) = Inr (cfg\<lparr>shellfd := fds\<rparr>, argc))"
    using read_loop_result [OF collects_start, of ms] by auto
  then show ?thesis
    using collects_argv [OF coll] by (auto simp: read_commands_def free_cfg_def free_argv_live)
qed

end
