(* ===== verification/Shellspawn.thy ===== *)
theory Shellspawn
  imports Shell_Commands
begin

text \<open>
  The daemon of \<open>src/src/darwin/shellspawn/shellspawn.c\<close>: the slot table
  \<open>g_spawns\<close>, \<open>start_spawn\<close>, \<open>handle_control\<close>, \<open>finish_spawn\<close> and the event loop of
  \<open>listenForConnections\<close>.

  The state holds the table and what the kernel keeps for the process: the open
  descriptors, the kqueue filters with the slot each points to (\<open>udata\<close>), the
  children not yet waited for.  It also logs what the daemon wrote on each
  control socket, the signals it sent and every \<open>close\<close> of a descriptor that is
  not open.  One event of the loop is one step, since the loop fetches one event
  per \<open>kevent\<close> call and handles it before the next.  The results of system
  calls are inputs of the events; what the steps assume of them is that new
  descriptors and process ids are not in use, that only registered filters fire,
  and that \<open>waitpid\<close> on a child that was not waited for returns.

  Shown: in every reachable state the filters point to live slots, the slots own
  distinct open descriptors, every target is waited for exactly once and nothing
  is closed twice; a launcher is told \<open>started\<close> and then one exit code; and the
  daemon's descriptors are exactly those of its live spawns as long as no
  attempt takes one of the paths that lose the launcher's descriptors.
\<close>

section \<open>State\<close>

record spawn =
  sfd :: fd
  spid :: int
  sshellfd :: "fd list"

datatype wire = Started | Exit_code int

record daemon =
  g_serverSocket :: fd
  kq :: fd
  g_spawns :: "spawn list"
  open_fds :: "fd set"
  bad_close :: "fd list"
  read_filter :: "fd \<rightharpoonup> nat"
  proc_filter :: "int \<rightharpoonup> nat"
  children :: "int set"
  talk :: "fd \<Rightarrow> wire list"
  ended :: "wire list list"
  kills :: "(int \<times> int) list"

definition MAX_SPAWNS :: nat where "MAX_SPAWNS = 8192"

definition SIGKILL :: int where "SIGKILL = 9"

fun spawn_slot :: "spawn list \<Rightarrow> nat option" where
  "spawn_slot [] = None"
| "spawn_slot (s # ss) = (if sfd s = -1 then Some 0 else map_option Suc (spawn_slot ss))"

section \<open>System calls\<close>

text \<open>\<open>close\<close> also drops the kqueue filter of the descriptor.\<close>

definition close_fd :: "fd \<Rightarrow> daemon \<Rightarrow> daemon" where
  "close_fd fd s =
     (if fd \<in> open_fds s
      then s\<lparr>open_fds := open_fds s - {fd}, read_filter := (read_filter s)(fd := None)\<rparr>
      else s\<lparr>bad_close := fd # bad_close s\<rparr>)"

definition close_shellfds :: "fd list \<Rightarrow> daemon \<Rightarrow> daemon" where
  "close_shellfds fds s = fold (\<lambda>fd s. if fd \<noteq> -1 then close_fd fd s else s) fds s"

definition close_conn :: "fd \<Rightarrow> daemon \<Rightarrow> daemon" where
  "close_conn fd s = (close_fd fd s)\<lparr>ended := ended s @ [talk s fd]\<rparr>"

definition say :: "fd \<Rightarrow> wire \<Rightarrow> daemon \<Rightarrow> daemon" where
  "say fd w s = s\<lparr>talk := (talk s)(fd := talk s fd @ [w])\<rparr>"

definition send_signal :: "int \<Rightarrow> int \<Rightarrow> daemon \<Rightarrow> daemon" where
  "send_signal pid sig s = s\<lparr>kills := kills s @ [(pid, sig)]\<rparr>"

text \<open>\<open>wt\<close> is the status when \<open>waitpid\<close> returns the process, \<open>None\<close> when it does not.\<close>

definition wait_child :: "int option \<Rightarrow> int \<Rightarrow> daemon \<Rightarrow> daemon" where
  "wait_child wt pid s = (case wt of None \<Rightarrow> s | Some _ \<Rightarrow> s\<lparr>children := children s - {pid}\<rparr>)"

definition WEXITSTATUS :: "int \<Rightarrow> int" where
  "WEXITSTATUS st = (st div 256) mod 256"

section \<open>The handlers\<close>

definition finish_spawn :: "int option \<Rightarrow> nat \<Rightarrow> daemon \<Rightarrow> daemon" where
  "finish_spawn wt i s =
     (let sl = g_spawns s ! i;
          wstatus = (case wt of None \<Rightarrow> 0 | Some st \<Rightarrow> st);
          s1 = say (sfd sl) (Exit_code (WEXITSTATUS wstatus)) (wait_child wt (spid sl) s);
          s2 = s1\<lparr>read_filter := (read_filter s1)(sfd sl := None)\<rparr>;
          s3 = close_shellfds (sshellfd sl) (close_conn (sfd sl) s2)
      in s3\<lparr>g_spawns := (g_spawns s3)[i := sl\<lparr>sfd := -1\<rparr>]\<rparr>)"

text \<open>What the reads on a readable control socket return: less than a command; a
  command and, for a signal, its number when that read is complete.\<close>

datatype control_input = Short_read | Command u16 u16 "int option"

definition handle_control :: "control_input \<Rightarrow> int \<Rightarrow> nat \<Rightarrow> daemon \<Rightarrow> daemon" where
  "handle_control inp tcgetpgrp i s =
     (let sl = g_spawns s ! i in
      case inp of
        Short_read \<Rightarrow> send_signal (spid sl) SIGKILL s
      | Command k len num \<Rightarrow>
          if k = SHELLSPAWN_SIGNAL \<and> len = 4 then
            (case num of
               None \<Rightarrow> s
             | Some linux_signal \<Rightarrow>
                 let darwin_signal = signum_linux_to_bsd linux_signal in
                 if darwin_signal \<noteq> 0 then
                   (if tcgetpgrp \<noteq> -1 then send_signal tcgetpgrp darwin_signal s
                    else send_signal (- spid sl) darwin_signal s)
                 else s)
          else s)"

text \<open>The results of the system calls of one connection: the accepted socket, the
  messages on it, \<open>pipe\<close>, \<open>fork\<close> in the parent, the \<open>read\<close> of the exec check, whether
  the started byte was written, whether the two filters were added, and \<open>waitpid\<close>.\<close>

record attempt =
  conn :: fd
  msgs :: "received list"
  pipe :: "(fd \<times> fd) option"
  fork :: int
  exec_read :: int
  write_ok :: bool
  read_add :: bool
  proc_add :: bool
  wait :: "int option"

text \<open>The descriptors that the kernel installed for the messages that were read.\<close>

fun rights :: "control option \<Rightarrow> fd list" where
  "rights (Some (Rights fds)) = fds"
| "rights _ = []"

fun arrived :: "received list \<Rightarrow> fd list" where
  "arrived [] = []"
| "arrived (Short # ms) = []"
| "arrived (Received c # ms) =
     rights (ctl c) @ (if param_of c = None \<or> cmd c = SHELLSPAWN_GO then [] else arrived ms)"

definition open_new :: "fd list \<Rightarrow> daemon \<Rightarrow> daemon" where
  "open_new fds s = s\<lparr>open_fds := open_fds s \<union> set fds\<rparr>"

definition accept_conn :: "attempt \<Rightarrow> daemon \<Rightarrow> daemon" where
  "accept_conn a s = open_new [conn a] (s\<lparr>talk := (talk s)(conn a := [])\<rparr>)"

definition kill_target :: "attempt \<Rightarrow> daemon \<Rightarrow> daemon" where
  "kill_target a s = wait_child (wait a) (fork a) (send_signal (fork a) SIGKILL s)"

text \<open>The last part of \<open>start_spawn\<close>: the slot and the two filters.\<close>

definition register_spawn :: "attempt \<Rightarrow> fd list \<Rightarrow> nat \<Rightarrow> daemon \<Rightarrow> daemon" where
  "register_spawn a fds i s =
     (let s1 = s\<lparr>g_spawns := (g_spawns s)[i := \<lparr>sfd = conn a, spid = fork a, sshellfd = fds\<rparr>],
                 read_filter := (if read_add a then (read_filter s)(conn a \<mapsto> i) else read_filter s)\<rparr>
      in if proc_add a then s1\<lparr>proc_filter := (proc_filter s1)(fork a \<mapsto> i)\<rparr>
         else finish_spawn (wait a) i s1)"

text \<open>\<open>start_spawn\<close> in the daemon.  \<open>None\<close>: \<open>free_cfg\<close> has no defined behaviour.\<close>

definition start_spawn :: "attempt \<Rightarrow> daemon \<Rightarrow> daemon option" where
  "start_spawn a s =
     (let (rc, cfg) = read_commands (msgs a);
          s1 = open_new (arrived (msgs a)) s
      in if rc \<noteq> 0 then map_option (\<lambda>_. close_conn (conn a) s1) (free_cfg cfg)
         else case pipe a of
           None \<Rightarrow> map_option (\<lambda>_. close_conn (conn a) s1) (free_cfg cfg)
         | Some (rfd, wfd) \<Rightarrow>
             let pid = fork a;
                 s2 = open_new [rfd, wfd] s1;
                 s3 = (if pid > 0 then s2\<lparr>children := insert pid (children s2)\<rparr> else s2);
                 s4 = close_fd rfd (close_fd wfd s3);
                 n = (if pid < 0 then -1 else exec_read a)
             in map_option (\<lambda>_.
                  if pid < 0 \<or> n = 1 then
                    close_conn (conn a) (close_shellfds (shellfd cfg) (if pid > 0 then kill_target a s4 else s4))
                  else if \<not> write_ok a then
                    close_conn (conn a) (close_shellfds (shellfd cfg) (kill_target a s4))
                  else
                    let s5 = say (conn a) Started s4 in
                    case spawn_slot (g_spawns s5) of
                      None \<Rightarrow> close_conn (conn a) (kill_target a s5)
                    | Some i \<Rightarrow> register_spawn a (shellfd cfg) i s5)
                  (free_cfg cfg))"

section \<open>The event loop\<close>

text \<open>\<open>listenForConnections\<close> up to the loop, after \<open>setupSocket\<close>.\<close>

definition shellspawn_init :: "daemon \<Rightarrow> bool" where
  "shellspawn_init s \<longleftrightarrow>
     length (g_spawns s) = MAX_SPAWNS \<and> (\<forall>sl \<in> set (g_spawns s). sfd sl = -1) \<and>
     open_fds s = {g_serverSocket s, kq s} \<and> 0 \<le> g_serverSocket s \<and> 0 \<le> kq s \<and>
     bad_close s = [] \<and> read_filter s = Map.empty \<and> proc_filter s = Map.empty \<and>
     children s = {} \<and> ended s = [] \<and> kills s = []"

text \<open>What an attempt may assume of the kernel.\<close>

definition new_fds :: "attempt \<Rightarrow> fd list" where
  "new_fds a = conn a # arrived (msgs a) @ (case pipe a of None \<Rightarrow> [] | Some (r, w) \<Rightarrow> [r, w])"

definition kernel_ok :: "daemon \<Rightarrow> attempt \<Rightarrow> bool" where
  "kernel_ok s a \<longleftrightarrow>
     distinct (new_fds a) \<and> (\<forall>f \<in> set (new_fds a). 0 \<le> f \<and> f \<notin> open_fds s) \<and>
     fork a \<noteq> 0 \<and> (0 < fork a \<longrightarrow> fork a \<notin> children s) \<and> wait a \<noteq> None"

text \<open>One round of the loop.  \<open>Q\<close> restricts the attempts that launchers make.\<close>

inductive shellspawn_step :: "(daemon \<Rightarrow> attempt \<Rightarrow> bool) \<Rightarrow> daemon \<Rightarrow> daemon \<Rightarrow> bool" for Q where
  step_accept:
    "kernel_ok s a \<Longrightarrow> Q s a \<Longrightarrow> start_spawn a (accept_conn a s) = Some t \<Longrightarrow> shellspawn_step Q s t"
| step_exit:
    "proc_filter s pid = Some i \<Longrightarrow>
     shellspawn_step Q s (finish_spawn (Some st) i (s\<lparr>proc_filter := (proc_filter s)(pid := None)\<rparr>))"
| step_control:
    "read_filter s fd = Some i \<Longrightarrow> shellspawn_step Q s (handle_control inp pg i s)"

section \<open>Invariant\<close>

definition live :: "daemon \<Rightarrow> nat \<Rightarrow> bool" where
  "live s i \<longleftrightarrow> i < length (g_spawns s) \<and> sfd (g_spawns s ! i) \<noteq> -1"

definition slot_fds :: "daemon \<Rightarrow> nat \<Rightarrow> fd list" where
  "slot_fds s i = sfd (g_spawns s ! i) # sshellfd (g_spawns s ! i)"

definition conv_ok :: "wire list \<Rightarrow> bool" where
  "conv_ok c \<longleftrightarrow> c = [] \<or> c = [Started] \<or> (\<exists>n. c = [Started, Exit_code n] \<and> 0 \<le> n \<and> n < 256)"

text \<open>A slot's descriptors are its own, open, and not the daemon's two.\<close>

definition fds_inv :: "daemon \<Rightarrow> bool" where
  "fds_inv s \<longleftrightarrow>
     {g_serverSocket s, kq s} \<subseteq> open_fds s \<and> bad_close s = [] \<and> (\<forall>f \<in> open_fds s. 0 \<le> f) \<and>
     (\<forall>i. live s i \<longrightarrow> distinct (slot_fds s i) \<and> set (slot_fds s i) \<subseteq> open_fds s - {g_serverSocket s, kq s}) \<and>
     (\<forall>i j. live s i \<longrightarrow> live s j \<longrightarrow> i \<noteq> j \<longrightarrow> set (slot_fds s i) \<inter> set (slot_fds s j) = {})"

text \<open>The filters point to live slots, every live slot but those in \<open>X\<close> has its exit
  filter, and the children are the targets of the live slots.\<close>

definition filter_inv :: "nat set \<Rightarrow> daemon \<Rightarrow> bool" where
  "filter_inv X s \<longleftrightarrow>
     (\<forall>fd i. read_filter s fd = Some i \<longrightarrow> live s i \<and> sfd (g_spawns s ! i) = fd) \<and>
     (\<forall>pid i. proc_filter s pid = Some i \<longleftrightarrow> live s i \<and> i \<notin> X \<and> spid (g_spawns s ! i) = pid) \<and>
     (\<forall>i j. live s i \<longrightarrow> live s j \<longrightarrow> spid (g_spawns s ! i) = spid (g_spawns s ! j) \<longrightarrow> i = j) \<and>
     children s = {spid (g_spawns s ! i) | i. live s i}"

definition talk_inv :: "daemon \<Rightarrow> bool" where
  "talk_inv s \<longleftrightarrow>
     (\<forall>i. live s i \<longrightarrow> talk s (sfd (g_spawns s ! i)) = [Started]) \<and> (\<forall>c \<in> set (ended s). conv_ok c)"

definition slots_inv :: "nat set \<Rightarrow> daemon \<Rightarrow> bool" where
  "slots_inv X s \<longleftrightarrow> fds_inv s \<and> filter_inv X s \<and> talk_inv s"

lemmas slots_inv_defs = fds_inv_def filter_inv_def talk_inv_def

text \<open>Two states that agree on the table, the children and the exit filters.\<close>

definition same_table :: "daemon \<Rightarrow> daemon \<Rightarrow> bool" where
  "same_table s t \<longleftrightarrow>
     g_spawns t = g_spawns s \<and> children t = children s \<and> proc_filter t = proc_filter s \<and>
     g_serverSocket t = g_serverSocket s \<and> kq t = kq s"

lemma same_table_live: "same_table s t \<Longrightarrow> live t = live s \<and> slot_fds t = slot_fds s"
  by (simp add: same_table_def live_def slot_fds_def fun_eq_iff)

text \<open>More open descriptors, fewer read filters and another finished conversation
  keep the invariant.\<close>

lemma slots_inv_mono:
  assumes inv: "slots_inv X s" and same: "same_table s t"
    and "open_fds s \<subseteq> open_fds t" and "\<forall>f \<in> open_fds t. 0 \<le> f" and "bad_close t = []"
    and "read_filter t \<subseteq>\<^sub>m read_filter s" and "\<forall>f \<in> open_fds s. talk t f = talk s f"
    and "\<forall>c \<in> set (ended t). conv_ok c"
  shows "slots_inv X t"
proof -
  have l: "live t = live s" "slot_fds t = slot_fds s"
    using same_table_live [OF same] by simp_all
  have fds: "fds_inv s" using inv by (simp add: slots_inv_def)
  have "fds_inv t"
    using fds same assms(3-5) unfolding fds_inv_def l same_table_def
    by (elim conjE, intro conjI) (simp_all, blast+)
  moreover have "filter_inv X t"
    using inv assms(6) same
    by (simp add: slots_inv_def filter_inv_def l) (auto simp: same_table_def map_le_def dom_def)
  moreover have "talk_inv t"
  proof -
    have "sfd (g_spawns s ! i) \<in> open_fds s" if "live s i" for i
      using inv that by (auto simp: slots_inv_def fds_inv_def slot_fds_def)
    then show ?thesis
      using inv assms(7,8) same by (auto simp: slots_inv_def talk_inv_def l same_table_def)
  qed
  ultimately show ?thesis by (simp add: slots_inv_def)
qed

lemma init_slots_inv: "shellspawn_init s \<Longrightarrow> slots_inv {} s"
  by (auto simp: slots_inv_def slots_inv_defs shellspawn_init_def live_def)

section \<open>Closing descriptors\<close>

lemma close_fd_open:
  "fd \<in> open_fds s \<Longrightarrow>
   close_fd fd s = s\<lparr>open_fds := open_fds s - {fd}, read_filter := read_filter s |` (- {fd})\<rparr>"
  by (simp add: close_fd_def restrict_complement_singleton_eq)

lemma close_shellfds_open:
  assumes "set fds \<subseteq> open_fds s" and "distinct fds" and "-1 \<notin> set fds"
  shows "close_shellfds fds s = s\<lparr>open_fds := open_fds s - set fds, read_filter := read_filter s |` (- set fds)\<rparr>"
  using assms
proof (induction fds arbitrary: s)
  case (Cons f fds)
  then have "close_shellfds (f # fds) s = close_shellfds fds (close_fd f s)"
    by (simp add: close_shellfds_def)
  moreover have "close_shellfds fds (close_fd f s) = s\<lparr>open_fds := open_fds s - {f} - set fds, read_filter := read_filter s |` (- {f} \<inter> - set fds)\<rparr>"
    using Cons.prems by (subst Cons.IH) (auto simp: close_fd_open)
  moreover have "- {f} \<inter> - set fds = - set (f # fds)" "open_fds s - {f} - set fds = open_fds s - set (f # fds)"
    by auto
  ultimately show ?case by (simp only:)
qed (simp add: close_shellfds_def restrict_map_def)


section \<open>Tearing a spawn down\<close>

lemma fds_invD:
  assumes "fds_inv s"
  shows "bad_close s = []" "f \<in> open_fds s \<Longrightarrow> 0 \<le> f" "g_serverSocket s \<in> open_fds s" "kq s \<in> open_fds s"
    "live s i \<Longrightarrow> distinct (slot_fds s i)" "live s i \<Longrightarrow> set (slot_fds s i) \<subseteq> open_fds s"
    "live s i \<Longrightarrow> g_serverSocket s \<notin> set (slot_fds s i) \<and> kq s \<notin> set (slot_fds s i)"
    "live s i \<Longrightarrow> live s j \<Longrightarrow> i \<noteq> j \<Longrightarrow> set (slot_fds s i) \<inter> set (slot_fds s j) = {}"
  using assms unfolding fds_inv_def by (auto simp: subset_iff)

lemma slot_fds_nonneg:
  assumes "fds_inv s" and "live s i"
  shows "-1 \<notin> set (slot_fds s i)"
  using fds_invD(2) [OF assms(1), of "-1"] fds_invD(6) [OF assms] by auto

lemma finish_spawn_eq:
  assumes "fds_inv s" and "live s i"
  shows "finish_spawn (Some st) i s =
    s\<lparr>g_spawns := (g_spawns s)[i := (g_spawns s ! i)\<lparr>sfd := -1\<rparr>],
      open_fds := open_fds s - set (slot_fds s i), read_filter := read_filter s |` (- set (slot_fds s i)),
      children := children s - {spid (g_spawns s ! i)},
      talk := (talk s)(sfd (g_spawns s ! i) := talk s (sfd (g_spawns s ! i)) @ [Exit_code (WEXITSTATUS st)]),
      ended := ended s @ [talk s (sfd (g_spawns s ! i)) @ [Exit_code (WEXITSTATUS st)]]\<rparr>"
proof -
  let ?sl = "g_spawns s ! i"
  have d: "distinct (sfd ?sl # sshellfd ?sl)" "set (sfd ?sl # sshellfd ?sl) \<subseteq> open_fds s" "-1 \<notin> set (sfd ?sl # sshellfd ?sl)"
    using fds_invD(5,6) [OF assms(1) assms(2)] slot_fds_nonneg [OF assms] by (simp_all add: slot_fds_def)
  then have "(- {sfd ?sl}) \<inter> (- {sfd ?sl}) \<inter> - set (sshellfd ?sl) = - set (slot_fds s i)"
    "open_fds s - {sfd ?sl} - set (sshellfd ?sl) = open_fds s - set (slot_fds s i)"
    by (auto simp: slot_fds_def)
  then show ?thesis
    using d
    by (simp add: finish_spawn_def Let_def say_def wait_child_def close_conn_def close_fd_open close_shellfds_open
        subset_Diff_insert restrict_complement_singleton_eq [symmetric])
qed

lemma finish_spawn_live:
  assumes "fds_inv s" and "live s i" and "t = finish_spawn (Some st) i s"
  shows "live t j \<longleftrightarrow> live s j \<and> j \<noteq> i"
    and "j \<noteq> i \<Longrightarrow> g_spawns t ! j = g_spawns s ! j"
    and "j \<noteq> i \<Longrightarrow> slot_fds t j = slot_fds s j"
  unfolding assms(3) finish_spawn_eq [OF assms(1,2)]
  by (cases "j = i"; simp add: live_def slot_fds_def)+

lemma finish_spawn_fields:
  assumes "fds_inv s" and "live s i" and "t = finish_spawn (Some st) i s"
  shows "open_fds t = open_fds s - set (slot_fds s i)" "bad_close t = bad_close s"
    "g_serverSocket t = g_serverSocket s" "kq t = kq s" "proc_filter t = proc_filter s"
    "read_filter t = read_filter s |` (- set (slot_fds s i))"
    "children t = children s - {spid (g_spawns s ! i)}"
    "f \<noteq> sfd (g_spawns s ! i) \<Longrightarrow> talk t f = talk s f"
    "ended t = ended s @ [talk s (sfd (g_spawns s ! i)) @ [Exit_code (WEXITSTATUS st)]]"
  unfolding assms(3) finish_spawn_eq [OF assms(1,2)] by simp_all

lemma finish_spawn_inv:
  assumes inv: "slots_inv {i} s" and live: "live s i"
  shows "slots_inv {} (finish_spawn (Some st) i s)"
proof -
  define t where "t = finish_spawn (Some st) i s"
  have fds: "fds_inv s" and filt: "filter_inv {i} s" and talk: "talk_inv s"
    using inv by (simp_all add: slots_inv_def)
  note f = finish_spawn_fields [OF fds live t_def]
  note l = finish_spawn_live [OF fds live t_def]
  note d = fds_invD [OF fds]
  have "fds_inv t"
    unfolding fds_inv_def
  proof (intro conjI allI impI)
    fix j assume "live t j"
    then show "set (slot_fds t j) \<subseteq> open_fds t - {g_serverSocket t, kq t}"
      using d(6,7) [of j] d(8) [OF live, of j] by (auto simp: l f)
  qed (use d live in \<open>auto simp: l f\<close>)
  moreover have "filter_inv {} t"
    unfolding filter_inv_def
  proof (intro conjI allI impI)
    show "children t = {spid (g_spawns t ! j) | j. live t j}"
      using filt live unfolding filter_inv_def by (auto simp: l f) (metis l(2))
    fix g j assume "read_filter t g = Some j"
    then have "read_filter s g = Some j" "g \<notin> set (slot_fds s i)"
      by (auto simp: f restrict_map_def split: if_splits)
    then have "live s j" "sfd (g_spawns s ! j) = g" "j \<noteq> i"
      using filt by (auto simp: filter_inv_def slot_fds_def)
    then show "live t j" "sfd (g_spawns t ! j) = g"
      by (simp_all add: l)
  qed (use filt in \<open>auto simp: filter_inv_def l f\<close>)
  moreover have "talk_inv t"
    unfolding talk_inv_def
  proof (intro conjI allI impI)
    fix j assume "live t j"
    then show "talk t (sfd (g_spawns t ! j)) = [Started]"
      using talk d(8) [OF live, of j] by (auto simp: talk_inv_def l f slot_fds_def)
  next
    show "\<forall>c \<in> set (ended t). conv_ok c"
      using talk live by (auto simp: talk_inv_def f conv_ok_def WEXITSTATUS_def)
  qed
  ultimately show ?thesis by (simp add: slots_inv_def t_def)
qed


section \<open>Starting a spawn\<close>

lemma read_loop_fds:
  "read_loop ms st = Inr r \<Longrightarrow> length (shellfd (fst r)) = 3 \<and> (\<exists>pre. arrived ms = pre @ shellfd (fst r))"
proof (induction ms st rule: read_loop.induct)
  case (3 c ms st)
  then show ?case
    by (fastforce split: option.splits control.splits if_splits)
qed simp_all

lemma read_commands_fds:
  assumes "read_commands ms = (0, cfg)"
  shows "length (shellfd cfg) = 3" and "\<exists>pre. arrived ms = pre @ shellfd cfg" and "free_cfg cfg = Some ()"
  using assms read_loop_fds [of ms "(cfg_start, 2)"] free_cfg_after_read [of ms]
  by (auto simp: read_commands_def split: sum.splits)

text \<open>An attempt that ends without a slot, and the state just before a slot is
  taken; \<open>L\<close> are the descriptors that stay open.\<close>

definition refused :: "attempt \<Rightarrow> daemon \<Rightarrow> fd set \<Rightarrow> daemon \<Rightarrow> bool" where
  "refused a s L t \<longleftrightarrow>
     same_table s t \<and> open_fds t = open_fds s \<union> L \<and> bad_close t = bad_close s \<and>
     read_filter t \<subseteq>\<^sub>m read_filter s \<and> (\<forall>f. f \<noteq> conn a \<longrightarrow> talk t f = talk s f) \<and>
     (\<exists>c. ended t = ended s @ [c] \<and> (c = [] \<or> c = [Started] \<and> spawn_slot (g_spawns s) = None))"

text \<open>The attempts that lose no descriptor.\<close>

definition tidy :: "daemon \<Rightarrow> attempt \<Rightarrow> bool" where
  "tidy s a \<longleftrightarrow>
     arrived (msgs a) = shellfd (snd (read_commands (msgs a))) \<and> pipe a \<noteq> None \<and> spawn_slot (g_spawns s) \<noteq> None"

lemma map_le_restrict: "m |` A \<subseteq>\<^sub>m m"
  by (auto simp: map_le_def restrict_map_def split: if_splits)

lemma kernel_okD:
  assumes "kernel_ok s a"
  shows "conn a \<notin> open_fds s" "conn a \<notin> set (arrived (msgs a))" "set (arrived (msgs a)) \<inter> open_fds s = {}"
    "distinct (arrived (msgs a))" "-1 \<notin> set (arrived (msgs a))" "fork a \<noteq> 0" "\<exists>st. wait a = Some st"
    "0 < fork a \<Longrightarrow> fork a \<notin> children s" "0 \<le> conn a" "f \<in> set (arrived (msgs a)) \<Longrightarrow> 0 \<le> f"
proof -
  have "\<forall>f \<in> set (arrived (msgs a)). 0 \<le> f"
    using assms by (auto simp: kernel_ok_def new_fds_def)
  then show "-1 \<notin> set (arrived (msgs a))" "f \<in> set (arrived (msgs a)) \<Longrightarrow> 0 \<le> f"
    by force+
qed (use assms in \<open>auto simp: kernel_ok_def new_fds_def\<close>)

text \<open>The state after the pipe of the exec check is closed again.\<close>

definition forked :: "attempt \<Rightarrow> daemon \<Rightarrow> daemon" where
  "forked a s =
     s\<lparr>children := (if 0 < fork a then insert (fork a) (children s) else children s),
       open_fds := open_fds s \<union> set (conn a # arrived (msgs a)), talk := (talk s)(conn a := []),
       read_filter := (case pipe a of None \<Rightarrow> read_filter s | Some (r, w) \<Rightarrow> read_filter s |` (- {r, w}))\<rparr>"

lemma pipe_closed:
  assumes "kernel_ok s a" and "pipe a = Some (r, w)"
  shows "close_fd r (close_fd w
     (let s2 = open_new [r, w] (open_new (arrived (msgs a)) (accept_conn a s)) in
      if 0 < fork a then s2\<lparr>children := insert (fork a) (children s2)\<rparr> else s2)) = forked a s"
proof -
  have "r \<noteq> w" "r \<notin> open_fds s" "w \<notin> open_fds s" "r \<notin> set (conn a # arrived (msgs a))" "w \<notin> set (conn a # arrived (msgs a))"
    using assms by (auto simp: kernel_ok_def new_fds_def)
  then have "open_fds s \<union> {conn a} \<union> set (arrived (msgs a)) \<union> {r, w} - {w} - {r} =
      open_fds s \<union> set (conn a # arrived (msgs a))" "- {w} \<inter> - {r} = - {r, w}"
    by auto
  then show ?thesis
    using assms(2) \<open>r \<noteq> w\<close> by (simp add: forked_def open_new_def accept_conn_def close_fd_open Let_def)
qed

lemma start_spawn_forked:
  assumes ok: "kernel_ok s a" and "pipe a = Some rw" and "read_commands (msgs a) = (0, cfg)"
  shows "start_spawn a (accept_conn a s) = Some (
     if fork a < 0 \<or> exec_read a = 1 then
       close_conn (conn a) (close_shellfds (shellfd cfg) (if fork a > 0 then kill_target a (forked a s) else forked a s))
     else if \<not> write_ok a then
       close_conn (conn a) (close_shellfds (shellfd cfg) (kill_target a (forked a s)))
     else case spawn_slot (g_spawns s) of
       None \<Rightarrow> close_conn (conn a) (kill_target a (say (conn a) Started (forked a s)))
     | Some i \<Rightarrow> register_spawn a (shellfd cfg) i (say (conn a) Started (forked a s)))"
proof -
  obtain r w where rw: "rw = (r, w)" by force
  have "g_spawns (say (conn a) Started (forked a s)) = g_spawns s"
    by (simp add: say_def forked_def)
  then show ?thesis
    using pipe_closed [OF ok, of r w] read_commands_fds(3) [OF assms(3)] assms rw
    by (cases "0 < fork a") (simp_all add: start_spawn_def Let_def)
qed

lemma forked_simps [simp]:
  "open_fds (forked a s) = open_fds s \<union> set (conn a # arrived (msgs a))" "bad_close (forked a s) = bad_close s"
  "g_spawns (forked a s) = g_spawns s" "proc_filter (forked a s) = proc_filter s"
  "g_serverSocket (forked a s) = g_serverSocket s" "kq (forked a s) = kq s"
  "talk (forked a s) = (talk s)(conn a := [])" "ended (forked a s) = ended s"
  "children (forked a s) = (if 0 < fork a then insert (fork a) (children s) else children s)"
  by (simp_all add: forked_def)

lemma forked_filter: "read_filter (forked a s) \<subseteq>\<^sub>m read_filter s"
  by (auto simp: forked_def map_le_restrict split: option.split)

text \<open>Giving up after the fork, with or without closing the launcher's descriptors.\<close>

lemma refused_close:
  assumes ok: "kernel_ok s a" and fds: "arrived (msgs a) = pre @ fds"
    and u: "same_table s u" "open_fds u = open_fds s \<union> set (conn a # arrived (msgs a))" "bad_close u = bad_close s"
      "read_filter u \<subseteq>\<^sub>m read_filter s" "\<forall>f. f \<noteq> conn a \<longrightarrow> talk u f = talk s f" "talk u (conn a) = [] \<or> talk u (conn a) = [Started] \<and> spawn_slot (g_spawns s) = None"
      "ended u = ended s"
  shows "refused a s (set pre) (close_conn (conn a) (close_shellfds fds u))"
    and "refused a s (set (arrived (msgs a))) (close_conn (conn a) u)"
proof -
  note new = kernel_okD [OF ok]
  have "close_shellfds fds u = u\<lparr>open_fds := open_fds u - set fds, read_filter := read_filter u |` (- set fds)\<rparr>"
    using new fds u(2) by (intro close_shellfds_open) auto
  moreover have "open_fds s \<union> set (conn a # arrived (msgs a)) - set fds - {conn a} = open_fds s \<union> set pre"
    "open_fds s \<union> set (conn a # arrived (msgs a)) - {conn a} = open_fds s \<union> set (arrived (msgs a))"
    "conn a \<notin> set fds"
    using new fds by auto
  moreover have "read_filter u |` A \<subseteq>\<^sub>m read_filter s" for A
    using map_le_trans [OF map_le_restrict u(4)] .
  ultimately show "refused a s (set pre) (close_conn (conn a) (close_shellfds fds u))"
    "refused a s (set (arrived (msgs a))) (close_conn (conn a) u)"
    using u by (simp_all add: refused_def close_conn_def close_fd_open same_table_def)
qed

lemma kill_target_same:
  assumes "kernel_ok s a" and "0 < fork a"
  shows "same_table s (kill_target a (forked a s))"
    "same_table s (kill_target a (say (conn a) Started (forked a s)))"
  using kernel_okD(7,8) [OF assms(1)] assms(2)
  by (auto simp: kill_target_def send_signal_def wait_child_def say_def same_table_def)

lemma kill_target_simps [simp]:
  "open_fds (kill_target a s) = open_fds s" "bad_close (kill_target a s) = bad_close s"
  "read_filter (kill_target a s) = read_filter s" "talk (kill_target a s) = talk s" "ended (kill_target a s) = ended s"
  by (simp_all add: kill_target_def send_signal_def wait_child_def split: option.split)

lemma start_spawn_cases:
  assumes ok: "kernel_ok s a" and start: "start_spawn a (accept_conn a s) = Some t"
  obtains
    (refused) L where "refused a s L t" "L \<subseteq> set (arrived (msgs a))" "tidy s a \<Longrightarrow> L = {}"
  | (running) i fds where "spawn_slot (g_spawns s) = Some i" "0 < fork a"
      "length fds = 3" "\<exists>pre. arrived (msgs a) = pre @ fds" "tidy s a \<Longrightarrow> fds = arrived (msgs a)"
      "t = register_spawn a fds i (say (conn a) Started (forked a s))"
proof -
  obtain rc cfg where rd: "read_commands (msgs a) = (rc, cfg)" by force
  have rc: "rc = 0"
    using start rd free_cfg_after_read [of "msgs a"] by (auto simp: start_spawn_def split: if_splits)
  note rd0 = rd [unfolded rc]
  note fds = read_commands_fds [OF rd0]
  note new = kernel_okD [OF ok]
  obtain pre where pre: "arrived (msgs a) = pre @ shellfd cfg" using fds(2) by blast
  have tidy: "pre = []" if "tidy s a"
    using that pre rd by (simp add: tidy_def)
  note rc1 = refused_close(1) [OF ok pre]
  show thesis
  proof (cases "pipe a")
    case None
    let ?u = "open_new (arrived (msgs a)) (accept_conn a s)"
    have "refused a s (set (arrived (msgs a))) (close_conn (conn a) ?u)"
      by (rule refused_close(2) [OF ok pre])
        (auto simp: same_table_def open_new_def accept_conn_def)
    moreover have "t = close_conn (conn a) ?u"
      using start rd0 fds(3) None by (simp add: start_spawn_def)
    ultimately show thesis
      using refused None by (simp add: tidy_def)
  next
    case (Some rw)
    note t = start [unfolded start_spawn_forked [OF ok Some rd0], symmetric]
    consider "fork a < 0" | "0 < fork a" "exec_read a = 1 \<or> \<not> write_ok a"
      | "0 < fork a" "exec_read a \<noteq> 1" "write_ok a"
      using new(6) by linarith
    then show thesis
    proof cases
      case 1
      then have "refused a s (set pre) t"
        using t rc1 [of "forked a s"] forked_filter by (simp add: same_table_def)
      then show thesis using refused pre tidy by simp
    next
      case 2
      then have "t = close_conn (conn a) (close_shellfds (shellfd cfg) (kill_target a (forked a s)))"
        using t by auto
      then have "refused a s (set pre) t"
        using rc1 [of "kill_target a (forked a s)"] forked_filter kill_target_same(1) [OF ok 2(1)]
        by simp
      then show thesis using refused pre tidy by simp
    next
      case 3
      let ?u = "say (conn a) Started (forked a s)"
      show thesis
      proof (cases "spawn_slot (g_spawns s)")
        case None
        then have "t = close_conn (conn a) (kill_target a ?u)"
          using t 3 by simp
        moreover have "refused a s (set (arrived (msgs a))) (close_conn (conn a) (kill_target a ?u))"
          by (rule refused_close(2) [OF ok pre])
            (use kill_target_same(2) [OF ok 3(1)] forked_filter None in \<open>simp_all add: say_def\<close>)
        ultimately show thesis
          using refused None by (simp add: tidy_def)
      next
        case (Some i)
        then show thesis
          using running [of i "shellfd cfg"] t 3 pre fds(1) tidy by simp
      qed
    qed
  qed
qed


lemma spawn_slot_free: "spawn_slot ss = Some i \<Longrightarrow> i < length ss \<and> sfd (ss ! i) = -1"
  by (induction ss arbitrary: i) (auto split: if_splits)

text \<open>The slot filled, before the exit filter is added.\<close>

definition occupied :: "attempt \<Rightarrow> fd list \<Rightarrow> nat \<Rightarrow> daemon \<Rightarrow> daemon" where
  "occupied a fds i s =
     (say (conn a) Started (forked a s))\<lparr>
       g_spawns := (g_spawns s)[i := \<lparr>sfd = conn a, spid = fork a, sshellfd = fds\<rparr>],
       read_filter := (if read_add a then (read_filter (forked a s))(conn a \<mapsto> i) else read_filter (forked a s))\<rparr>"

lemma register_spawn_eq:
  "register_spawn a fds i (say (conn a) Started (forked a s)) =
     (if proc_add a then (occupied a fds i s)\<lparr>proc_filter := (proc_filter s)(fork a \<mapsto> i)\<rparr>
      else finish_spawn (wait a) i (occupied a fds i s))"
  by (simp add: register_spawn_def occupied_def say_def Let_def)

lemma occupied_fields:
  "open_fds (occupied a fds i s) = open_fds s \<union> set (conn a # arrived (msgs a))"
  "bad_close (occupied a fds i s) = bad_close s" "g_serverSocket (occupied a fds i s) = g_serverSocket s"
  "kq (occupied a fds i s) = kq s" "proc_filter (occupied a fds i s) = proc_filter s"
  "0 < fork a \<Longrightarrow> children (occupied a fds i s) = insert (fork a) (children s)"
  "talk (occupied a fds i s) = (talk s)(conn a := [Started])" "ended (occupied a fds i s) = ended s"
  by (simp_all add: occupied_def say_def)

lemma occupied_filter:
  "read_filter (occupied a fds i s) f = Some j \<Longrightarrow> (f = conn a \<and> j = i) \<or> read_filter s f = Some j"
  using forked_filter [of a s] by (auto simp: occupied_def map_le_def dom_def split: if_splits)

lemma spawn_slot_not_live: "spawn_slot (g_spawns s) = Some i \<Longrightarrow> \<not> live s i"
  using spawn_slot_free by (auto simp: live_def)

lemma occupied_live:
  assumes "spawn_slot (g_spawns s) = Some i" and "0 \<le> conn a"
  shows "live (occupied a fds i s) j \<longleftrightarrow> live s j \<or> j = i"
    and "j \<noteq> i \<Longrightarrow> g_spawns (occupied a fds i s) ! j = g_spawns s ! j"
    and "j \<noteq> i \<Longrightarrow> slot_fds (occupied a fds i s) j = slot_fds s j"
    and "g_spawns (occupied a fds i s) ! i = \<lparr>sfd = conn a, spid = fork a, sshellfd = fds\<rparr>"
    and "slot_fds (occupied a fds i s) i = conn a # fds"
  using spawn_slot_free [OF assms(1)] assms(2)
  by (cases "j = i"; simp add: live_def slot_fds_def occupied_def say_def)+

lemma occupied_inv:
  assumes inv: "slots_inv {} s" and ok: "kernel_ok s a" and pid: "0 < fork a"
    and slot: "spawn_slot (g_spawns s) = Some i" and fds: "arrived (msgs a) = pre @ fds"
  shows "slots_inv {i} (occupied a fds i s)"
proof -
  define t where "t = occupied a fds i s"
  note new = kernel_okD [OF ok]
  note l = occupied_live [OF slot new(9), where fds = fds, folded t_def]
  note free = spawn_slot_not_live [OF slot]
  note f = occupied_fields [of a fds i s, folded t_def]
  have fd: "fds_inv s" and filt: "filter_inv {} s" and talk: "talk_inv s"
    using inv by (simp_all add: slots_inv_def)
  note d = fds_invD [OF fd]
  have own: "set (slot_fds s j) \<inter> set (conn a # fds) = {}" if "live s j" for j
    using d(6) [OF that] new(1,3) fds by auto
  have two: "g_serverSocket s \<notin> set (conn a # fds)" "kq s \<notin> set (conn a # fds)"
    using d(3,4) new(1,3) fds by auto
  have "fds_inv t"
    unfolding fds_inv_def
  proof (intro conjI allI impI)
    show "\<forall>f \<in> open_fds t. 0 \<le> f"
      using d(2) new(9,10) by (auto simp: f)
    fix j assume lj: "live t j"
    show "distinct (slot_fds t j)"
      using lj d(5) new(2,4) fds by (cases "j = i") (auto simp: l)
    show "set (slot_fds t j) \<subseteq> open_fds t - {g_serverSocket t, kq t}"
      using lj d(6,7) [of j] two fds by (cases "j = i") (auto simp: l f)
    fix k assume "live t k" "j \<noteq> k"
    then show "set (slot_fds t j) \<inter> set (slot_fds t k) = {}"
      using lj own [of j] own [of k] d(8) [of j k]
      by (cases "j = i"; cases "k = i") (simp_all add: l Int_commute)
  qed (use d in \<open>simp_all add: f\<close>)
  moreover have "filter_inv {i} t"
    unfolding filter_inv_def
  proof (intro conjI allI impI)
    have ch: "children s = {spid (g_spawns s ! j) | j. live s j}"
      using filt by (simp add: filter_inv_def)
    show "children t = {spid (g_spawns t ! j) | j. live t j}"
      using free unfolding f(6) [OF pid] ch by (auto simp: l(1)) (metis l(2,4) spawn.select_convs(2))+
    show "proc_filter t p = Some j \<longleftrightarrow> live t j \<and> j \<notin> {i} \<and> spid (g_spawns t ! j) = p" for p j
      using filt free by (cases "j = i") (simp_all add: filter_inv_def f l)
    show "j = k" if "live t j" "live t k" "spid (g_spawns t ! j) = spid (g_spawns t ! k)" for j k
      using that filt new(8) [OF pid] unfolding ch filter_inv_def
      by (cases "j = i"; cases "k = i") (auto simp: l)
    fix g j assume "read_filter t g = Some j"
    then show "live t j" "sfd (g_spawns t ! j) = g"
      using occupied_filter [of a fds i s g j, folded t_def] filt free
      by (cases "j = i"; auto simp: filter_inv_def l)+
  qed
  moreover have "talk_inv t"
    unfolding talk_inv_def
  proof (intro conjI allI impI)
    fix j assume "live t j"
    then show "talk t (sfd (g_spawns t ! j)) = [Started]"
      using talk own [of j] by (cases "j = i") (auto simp: talk_inv_def l f slot_fds_def)
  qed (use talk in \<open>simp add: talk_inv_def f\<close>)
  ultimately show ?thesis by (simp add: slots_inv_def t_def)
qed


section \<open>Every step keeps the invariant\<close>

lemma proc_filter_added:
  assumes "slots_inv {i} s" and "live s i" and "spid (g_spawns s ! i) = p"
  shows "slots_inv {} (s\<lparr>proc_filter := (proc_filter s)(p \<mapsto> i)\<rparr>)"
  using assms
  by (auto simp: slots_inv_def fds_inv_def filter_inv_def talk_inv_def live_def slot_fds_def)

lemma proc_filter_fired:
  assumes "slots_inv {} s" and "proc_filter s p = Some i"
  shows "slots_inv {i} (s\<lparr>proc_filter := (proc_filter s)(p := None)\<rparr>)"
    and "live (s\<lparr>proc_filter := (proc_filter s)(p := None)\<rparr>) i"
  using assms
  by (auto simp: slots_inv_def fds_inv_def filter_inv_def talk_inv_def live_def slot_fds_def)

lemma handle_control_same:
  "\<exists>k. handle_control inp pg i s = s\<lparr>kills := k\<rparr>"
  unfolding handle_control_def
  by (cases inp) (auto simp: send_signal_def Let_def split: option.split intro: exI [of _ "kills s"])

lemma slots_inv_kills [simp]: "slots_inv X (s\<lparr>kills := k\<rparr>) = slots_inv X s"
  by (simp add: slots_inv_def slots_inv_defs live_def slot_fds_def)

lemma register_spawn_inv:
  assumes inv: "slots_inv {} s" and ok: "kernel_ok s a" and pid: "0 < fork a"
    and slot: "spawn_slot (g_spawns s) = Some i" and fds: "arrived (msgs a) = pre @ fds"
  shows "slots_inv {} (register_spawn a fds i (say (conn a) Started (forked a s)))"
proof -
  note occ = occupied_inv [OF assms]
  note l = occupied_live [OF slot kernel_okD(9) [OF ok], where fds = fds]
  obtain st where "wait a = Some st" using kernel_okD(7) [OF ok] by blast
  then show ?thesis
    using finish_spawn_inv [OF occ, of st] proc_filter_added [OF occ]
    by (simp add: register_spawn_eq l occupied_fields)
qed

lemma refused_inv:
  assumes inv: "slots_inv {} s" and ok: "kernel_ok s a" and ref: "refused a s L t"
    and "L \<subseteq> set (arrived (msgs a))"
  shows "slots_inv {} t"
proof (rule slots_inv_mono [OF inv])
  have fd: "fds_inv s" and tk: "talk_inv s" using inv by (simp_all add: slots_inv_def)
  show "same_table s t" "open_fds s \<subseteq> open_fds t" "bad_close t = []" "read_filter t \<subseteq>\<^sub>m read_filter s"
    using ref fds_invD(1) [OF fd] by (auto simp: refused_def)
  show "\<forall>f \<in> open_fds t. 0 \<le> f"
    using ref assms(4) fds_invD(2) [OF fd] kernel_okD(10) [OF ok] by (auto simp: refused_def)
  show "\<forall>f \<in> open_fds s. talk t f = talk s f"
    using ref kernel_okD(1) [OF ok] unfolding refused_def by metis
  show "\<forall>c \<in> set (ended t). conv_ok c"
    using ref tk by (auto simp: refused_def talk_inv_def conv_ok_def)
qed

lemma accept_inv:
  assumes "slots_inv {} s" and "kernel_ok s a" and "start_spawn a (accept_conn a s) = Some t"
  shows "slots_inv {} t"
  using assms(2,3)
proof (cases rule: start_spawn_cases)
  case (refused L)
  then show ?thesis using refused_inv [OF assms(1,2)] by blast
next
  case (running i fds)
  then show ?thesis using register_spawn_inv [OF assms(1,2)] by blast
qed

lemma step_inv:
  assumes "shellspawn_step Q s t" and "slots_inv {} s"
  shows "slots_inv {} t"
  using assms
proof cases
  case (step_accept a)
  then show ?thesis using accept_inv assms(2) by blast
next
  case (step_exit pid i st)
  then show ?thesis using finish_spawn_inv proc_filter_fired [OF assms(2)] by blast
next
  case (step_control fd i inp pg)
  then show ?thesis using handle_control_same [of inp pg i s] assms(2) by auto
qed

interpretation shellspawn: inductive_system shellspawn_init "shellspawn_step Q" "slots_inv {}"
  by unfold_locales (auto intro: init_slots_inv step_inv)


section \<open>Attempts that lose nothing\<close>

definition exact_fds :: "daemon \<Rightarrow> bool" where
  "exact_fds s \<longleftrightarrow>
     open_fds s = {g_serverSocket s, kq s} \<union> (\<Union>i \<in> {i. live s i}. set (slot_fds s i)) \<and>
     (\<forall>c \<in> set (ended s). c \<noteq> [Started])"

definition tidy_inv :: "daemon \<Rightarrow> bool" where
  "tidy_inv s \<longleftrightarrow> slots_inv {} s \<and> exact_fds s"

lemma finish_spawn_exact:
  assumes inv: "slots_inv {i} s" and live: "live s i" and ex: "exact_fds s"
  shows "exact_fds (finish_spawn (Some st) i s)"
proof -
  define t where "t = finish_spawn (Some st) i s"
  have fd: "fds_inv s" and tk: "talk_inv s" using inv by (simp_all add: slots_inv_def)
  note f = finish_spawn_fields [OF fd live t_def]
  note l = finish_spawn_live [OF fd live t_def]
  have "(\<Union>j \<in> {j. live t j}. set (slot_fds t j)) = (\<Union>j \<in> {j. live s j}. set (slot_fds s j)) - set (slot_fds s i)"
    using fds_invD(8) [OF fd live] live by (auto simp: l(1,3))
  then have "open_fds t = {g_serverSocket t, kq t} \<union> (\<Union>i \<in> {i. live t i}. set (slot_fds t i))"
    using ex fds_invD(7) [OF fd live] unfolding exact_fds_def f by auto
  then show ?thesis
    using ex tk live by (simp add: exact_fds_def f talk_inv_def flip: t_def)
qed

lemma occupied_exact:
  assumes ok: "kernel_ok s a" and slot: "spawn_slot (g_spawns s) = Some i" and ex: "exact_fds s"
  shows "exact_fds (occupied a (arrived (msgs a)) i s)"
proof -
  define t where "t = occupied a (arrived (msgs a)) i s"
  note l = occupied_live [OF slot kernel_okD(9) [OF ok], where fds = "arrived (msgs a)", folded t_def]
  have "(\<Union>j \<in> {j. live t j}. set (slot_fds t j)) =
      (\<Union>j \<in> {j. live s j}. set (slot_fds s j)) \<union> set (conn a # arrived (msgs a))"
    using spawn_slot_not_live [OF slot] by (auto simp: l(1,3,5)) (metis l(3))+
  then show ?thesis
    using ex unfolding exact_fds_def by (auto simp: occupied_fields simp flip: t_def) (auto simp: t_def occupied_fields)
qed

lemma exact_fds_frame [simp]:
  "exact_fds (s\<lparr>proc_filter := m\<rparr>) = exact_fds s" "exact_fds (s\<lparr>kills := k\<rparr>) = exact_fds s"
  by (simp_all add: exact_fds_def live_def slot_fds_def)

lemma accept_tidy:
  assumes inv: "tidy_inv s" and ok: "kernel_ok s a" and start: "start_spawn a (accept_conn a s) = Some t"
    and tidy: "tidy s a"
  shows "exact_fds t"
  using ok start
proof (cases rule: start_spawn_cases)
  case (refused L)
  then have "same_table s t" "open_fds t = open_fds s" "\<exists>c. ended t = ended s @ [c] \<and> c \<noteq> [Started]"
    using tidy by (auto simp: refused_def tidy_def)
  then show ?thesis
    using inv same_table_live [of s t] by (auto simp: tidy_inv_def exact_fds_def same_table_def)
next
  case (running i fds)
  then have eq: "fds = arrived (msgs a)" using tidy by blast
  have s: "slots_inv {} s" "exact_fds s" using inv by (simp_all add: tidy_inv_def)
  note ex = occupied_exact [OF ok running(1) s(2)]
  have "slots_inv {i} (occupied a fds i s)" "live (occupied a fds i s) i"
    using occupied_inv [OF s(1) ok running(2,1)] running(4) occupied_live(1) [OF running(1) kernel_okD(9) [OF ok]]
    by blast+
  then show ?thesis
    using ex finish_spawn_exact kernel_okD(7) [OF ok] unfolding running(6) register_spawn_eq eq by auto
qed

lemma step_tidy:
  assumes "shellspawn_step tidy s t" and inv: "tidy_inv s"
  shows "tidy_inv t"
proof -
  have s: "slots_inv {} s" "exact_fds s" using inv by (simp_all add: tidy_inv_def)
  have "exact_fds t"
    using assms(1)
  proof cases
    case (step_accept a)
    then show ?thesis using accept_tidy [OF inv] by blast
  next
    case (step_exit pid i st)
    then show ?thesis
      using finish_spawn_exact proc_filter_fired [OF s(1)] s(2) by simp
  next
    case (step_control fd i inp pg)
    then show ?thesis using handle_control_same [of inp pg i s] s(2) by auto
  qed
  then show ?thesis
    using step_inv [OF assms(1) s(1)] by (simp add: tidy_inv_def)
qed

lemma init_tidy: "shellspawn_init s \<Longrightarrow> tidy_inv s"
  using init_slots_inv [of s] by (auto simp: tidy_inv_def exact_fds_def shellspawn_init_def live_def)

interpretation tidy_shellspawn: inductive_system shellspawn_init "shellspawn_step tidy" tidy_inv
  by unfold_locales (auto intro: init_tidy step_tidy)


section \<open>Properties\<close>

text \<open>A daemon that just started, and a launcher that asks for the default shell.\<close>

definition fresh_daemon :: daemon where
  "fresh_daemon =
     \<lparr>g_serverSocket = 3, kq = 4, g_spawns = replicate MAX_SPAWNS \<lparr>sfd = -1, spid = 0, sshellfd = [0, 0, 0]\<rparr>,
      open_fds = {3, 4}, bad_close = [], read_filter = Map.empty, proc_filter = Map.empty, children = {},
      talk = (\<lambda>_. []), ended = [], kills = []\<rparr>"

definition go_cmd :: shellspawn_cmd where
  "go_cmd = \<lparr>cmd = SHELLSPAWN_GO, data_length = 0, data = [], ctl = Some (Rights [6, 7, 8])\<rparr>"

definition shell_attempt :: attempt where
  "shell_attempt =
     \<lparr>conn = 5, msgs = [Received go_cmd], pipe = Some (9, 10), fork = 77, exec_read = 0, write_ok = True,
      read_add = True, proc_add = True, wait = Some 0\<rparr>"

definition one_spawn :: daemon where
  "one_spawn = the (start_spawn shell_attempt (accept_conn shell_attempt fresh_daemon))"

lemma fresh_daemon_init: "shellspawn_init fresh_daemon"
  by (simp add: shellspawn_init_def fresh_daemon_def)

lemma fresh_slot: "spawn_slot (g_spawns fresh_daemon) = Some 0"
proof -
  have "spawn_slot (replicate n sl) = Some 0" if "0 < n" "sfd sl = -1" for n sl
    using that by (cases n) simp_all
  then show ?thesis
    by (simp add: fresh_daemon_def MAX_SPAWNS_def)
qed

lemma shell_attempt_runs:
  "0 < fork shell_attempt" "exec_read shell_attempt = 0" "write_ok shell_attempt" "proc_add shell_attempt"
  "msgs shell_attempt = [Received go_cmd]" "pipe shell_attempt = Some (9, 10)" "fork shell_attempt = 77"
  by (simp_all add: shell_attempt_def)

lemma read_go: "read_commands [Received go_cmd] = (0, cfg_start\<lparr>shellfd := [6, 7, 8],
    argv := [Ptr (str ''/bin/bash''), Ptr (str ''--login''), Null]\<rparr>)"
  by (simp add: read_commands_def go_cmd_def param_of_def cfg_start_def realloc_cells_def numeral_2_eq_2)

lemma shell_attempt_ok: "kernel_ok fresh_daemon shell_attempt" "tidy fresh_daemon shell_attempt"
  by (simp_all add: kernel_ok_def new_fds_def tidy_def fresh_slot shell_attempt_def read_go)
    (simp_all add: go_cmd_def param_of_def fresh_daemon_def)

lemma one_spawn_eq:
  "start_spawn shell_attempt (accept_conn shell_attempt fresh_daemon) = Some one_spawn"
  "one_spawn = (occupied shell_attempt [6, 7, 8] 0 fresh_daemon)\<lparr>proc_filter := [77 \<mapsto> 0]\<rparr>"
proof -
  have "start_spawn shell_attempt (accept_conn shell_attempt fresh_daemon) =
      Some ((occupied shell_attempt [6, 7, 8] 0 fresh_daemon)\<lparr>proc_filter := [77 \<mapsto> 0]\<rparr>)"
    using start_spawn_forked [OF shell_attempt_ok(1) shell_attempt_runs(6), unfolded shell_attempt_runs(5), OF read_go]
    by (simp add: fresh_slot register_spawn_eq shell_attempt_runs) (simp add: fresh_daemon_def)
  then show "start_spawn shell_attempt (accept_conn shell_attempt fresh_daemon) = Some one_spawn"
    "one_spawn = (occupied shell_attempt [6, 7, 8] 0 fresh_daemon)\<lparr>proc_filter := [77 \<mapsto> 0]\<rparr>"
    by (simp_all add: one_spawn_def)
qed

lemma one_spawn_step: "shellspawn_step tidy fresh_daemon one_spawn"
  using step_accept shell_attempt_ok one_spawn_eq(1) by blast

lemma one_spawn_reached: "(shellspawn_step tidy)\<^sup>*\<^sup>* fresh_daemon one_spawn"
  using one_spawn_step by blast

lemma one_spawn_live: "live one_spawn i \<longleftrightarrow> i = 0" "proc_filter one_spawn 77 = Some 0"
  using occupied_live(1) [OF fresh_slot, of shell_attempt "[6, 7, 8]" i]
  by (auto simp: one_spawn_eq(2) live_def shell_attempt_def) (auto simp: fresh_daemon_def)



text \<open>C24. What a launcher is told.  Every finished conversation is empty (refused),
  the byte \<open>started\<close> alone, or \<open>started\<close> followed by one exit code from 0 to 255;
  when a target exits, its launcher has been told \<open>started\<close>, gets the exit code of the
  target's status and nothing else, and the slot is free again.\<close>

theorem shellspawn_conversations:
  assumes "shellspawn_init s" and "(shellspawn_step Q)\<^sup>*\<^sup>* s t"
  shows "(\<forall>c \<in> set (ended t). c = [] \<or> c = [Started] \<or> (\<exists>n. c = [Started, Exit_code n] \<and> 0 \<le> n \<and> n < 256)) \<and>
    (\<forall>pid i st. proc_filter t pid = Some i \<longrightarrow>
       (let u = finish_spawn (Some st) i (t\<lparr>proc_filter := (proc_filter t)(pid := None)\<rparr>) in
        ended u = ended t @ [[Started, Exit_code (st div 256 mod 256)]] \<and> \<not> live u i \<and> pid \<notin> children u))"
proof -
  have inv: "slots_inv {} t" by (rule shellspawn.reachable_invar [OF assms])
  have "let u = finish_spawn (Some st) i (t\<lparr>proc_filter := (proc_filter t)(pid := None)\<rparr>) in
        ended u = ended t @ [[Started, Exit_code (st div 256 mod 256)]] \<and> \<not> live u i \<and> pid \<notin> children u"
    if "proc_filter t pid = Some i" for pid i st
  proof -
    let ?t = "t\<lparr>proc_filter := (proc_filter t)(pid := None)\<rparr>"
    note fired = proc_filter_fired [OF inv that]
    have "fds_inv ?t" using fired(1) by (simp add: slots_inv_def)
    note f = finish_spawn_fields [OF this fired(2) refl, of st] finish_spawn_live(1) [OF this fired(2) refl, of st i]
    have "talk t (sfd (g_spawns t ! i)) = [Started]" "spid (g_spawns t ! i) = pid"
      using inv that by (auto simp: slots_inv_def talk_inv_def filter_inv_def)
    then show ?thesis
      using f by (simp add: WEXITSTATUS_def)
  qed
  then show ?thesis
    using inv by (simp add: slots_inv_def talk_inv_def conv_ok_def)
qed

theorem shellspawn_conversations_witness:
  "ended (finish_spawn (Some 512) 0 (one_spawn\<lparr>proc_filter := (proc_filter one_spawn)(77 := None)\<rparr>)) =
     ended one_spawn @ [[Started, Exit_code 2]]"
  using shellspawn_conversations [OF fresh_daemon_init one_spawn_reached] one_spawn_live(2)
  by (fastforce simp: Let_def)



text \<open>When \<open>pipe\<close> fails, the launcher's three descriptors stay open in the daemon
  although no slot refers to them.\<close>

lemma pipe_failure_loses_descriptors:
  "\<exists>t. start_spawn (shell_attempt\<lparr>pipe := None\<rparr>) (accept_conn shell_attempt fresh_daemon) = Some t \<and>
     open_fds t = {3, 4, 6, 7, 8} \<and> (\<forall>i. \<not> live t i)"
  by (simp add: start_spawn_def shell_attempt_def read_go free_cfg_def open_new_def accept_conn_def close_conn_def
      close_fd_def live_def)
    (auto simp: fresh_daemon_def go_cmd_def param_of_def)

text \<open>A target killed by a signal is reported as a success.\<close>

lemma signalled_target_reported_zero: "0 \<le> sig \<Longrightarrow> sig < 256 \<Longrightarrow> WEXITSTATUS sig = 0"
  by (simp add: WEXITSTATUS_def)

end
