(* ===== verification/Spec2Isabelle.thy ===== *)
theory Spec2Isabelle
  imports Base64 Simple_Lock Simple_Once Simple_RWLock Launch_Msg NS_Directories GMalloc LZFSE_Roundtrip Shellspawn
begin

text \<open>
  Cider runs macOS programs on Linux.  Its tree holds a small amount of C code of its own
  and code of Apple's that it has taken over and builds as part of its system libraries and
  daemons, all under \<open>src/src/darwin/\<close>.  This development models the parts of that C code
  that carry logic of their own, and proves what makes them correct.  All paths below are
  relative to \<open>src/src/darwin/\<close>.

  \<^bold>\<open>The parts and their theories.\<close>

  \<^item> Compression, \<open>libcompression/\<close>.  \<open>src/compression.c\<close> is the public interface
    (\<open>compression_encode_buffer\<close>, \<open>compression_decode_buffer\<close>); behind it is the LZFSE codec
    (\<open>lzfse/lzfse_*.c\<close>), which uses the FSE entropy coder (\<open>lzfse/lzfse_fse.[ch]\<close>) and, for short
    sources, the LZVN codec (\<open>lzfse/lzvn_*.[ch]\<close>).
    \<open>LZ_Memory\<close>: the loads, stores and copy loops of \<open>lzfse_internal.h\<close>.
    \<open>LZVN_Decode\<close>: \<open>lzvn_decode\<close>, one definition per label of its computed goto, with the saved state.
    \<open>LZVN_Encode\<close>: the match search and the emitters of \<open>lzvn_encode_base.c\<close>.
    \<open>LZVN_Roundtrip\<close>: both together.
    \<open>FSE_Stream\<close>: the two bit streams as views of one stack of bits.
    \<open>FSE_Tables\<close>: the encoder and decoder tables and one coding step.
    \<open>FSE_Normalize\<close>: \<open>fse_normalize_freq\<close>.
    \<open>LZFSE_Format\<close>, \<open>LZFSE_Header\<close>: constants, value classes, and the block headers in both directions.
    \<open>LZFSE_Decode\<close>: \<open>lzfse_decode\<close> with its three kinds of blocks, and the buffer functions of \<open>lzfse_decode.c\<close>;
    \<open>LZFSE_Safety\<close>: its invariant.
    \<open>LZFSE_Encode\<close>: \<open>lzfse_encode_base.c\<close> and \<open>lzfse_encode.c\<close>, from the writing of a block to the
    match search, the chunks of huge sources and the choice of the kind of block.
    \<open>LZFSE_Payload\<close>, \<open>LZFSE_Block\<close>, \<open>LZFSE_Coded\<close>: a block from encoder to decoder, first the bit
    streams, then the triples, then the bytes.
    \<open>LZFSE_Backend\<close>, \<open>LZFSE_Search\<close>: the invariants of the encoder; \<open>LZFSE_Progress\<close>: that it completes.
    \<open>LZFSE_Wrapped\<close>: uncompressed blocks and wrapped LZVN streams.
    \<open>LZFSE_Roundtrip\<close>: the public functions together.

  \<^item> liblaunch, \<open>launchd/liblaunch/liblaunch.c\<close>.  \<open>Launch_Data\<close>: the values
    (\<open>struct _launch_data\<close> as a datatype) with the dictionary and array operations.
    \<open>Launch_Wire\<close>: \<open>launch_data_pack\<close> and \<open>launch_data_unpack\<close>.  \<open>Launch_Msg\<close>: \<open>struct _launch\<close>, sending and
    receiving over a socket with partial transfers, \<open>launch_msg_getmsgs\<close>.

  \<^item> libsimple, \<open>libsimple/src/lock.c\<close>.  \<open>Simple_Lock\<close>: futex lock and condition variable;
    \<open>Simple_Once\<close>; \<open>Simple_RWLock\<close>.  Any number of threads, one inductive rule per atomic
    access or system call, the program points of the code as a datatype.

  \<^item> shellspawn, \<open>shellspawn/\<close>.  \<open>Shell_Commands\<close>: the command stream a launcher sends
    (\<open>read_commands\<close>, \<open>free_cfg\<close>), what the child does with it, the signal numbers of \<open>duct_signals.c\<close>.
    \<open>Shellspawn\<close>: the slot table, the handlers and the event loop of the daemon.

  \<^item> \<open>Base64\<close>: the command \<open>base64/base64.c\<close>.
  \<^item> \<open>NS_Directories\<close>: \<open>libsystem_coreservices/NSSystemDirectories.c\<close>.
  \<^item> \<open>GMalloc\<close>: the guard allocator \<open>libgmalloc/gmalloc.c\<close>.
  \<^item> \<open>Cider_Prelude\<close>: C integer types, little-endian numbers, \<open>poke\<close> and \<open>slice\<close>, facts on words and lists,
    and the interfaces.

  \<^bold>\<open>How code becomes definitions.\<close>  A C struct is a \<open>record\<close> with the fields of the
  source, a tagged union or set of program points a \<open>datatype\<close>, a function a \<open>fun\<close> or
  \<open>definition\<close> of the same name that takes and returns the state; a loop is a recursive
  function with its termination proof.  Buffers are byte lists, pointers indices into
  them; a function is \<open>None\<close> when the C code would touch memory outside a buffer, index outside an
  array, shift by a count outside the word or overflow a signed integer, so that a theorem
  \<open>f x = Some y\<close> says that this does not happen.  Error returns and early
  exits are values (a status, a sum or an inner option).  Integers have the width of the code where
  it matters: as words, or as integers with \<open>mod 2 ^ w\<close> written out.  Results of system calls and of
  \<open>malloc\<close> are arguments.

  \<^bold>\<open>Interfaces.\<close>  \<open>codec\<close> (decoding undoes encoding) is interpreted on the wire format of liblaunch and on the
  LZFSE buffer functions; \<open>inductive_system\<close> (a transition system with an inductive invariant)
  on the locks, the rwlock, once and the daemon; \<open>keyed_dict\<close> (a dictionary that compares keys by a canonical
  form) on liblaunch's dictionaries, whose keys ignore case; \<open>literal_copier\<close> on the two ways the LZVN encoder
  copies literals.

  \<^bold>\<open>What the lemmas show.\<close>

  \<^item> Compression.  The decoders return for every source and every saved state, stay inside their buffers and leave
    well-formed states; LZVN decoding in pieces equals decoding at once and is what the
    instruction stream denotes.  A normalised table assigns all states; coding a symbol and
    decoding it gives back symbol, state and stream; a header written is read back.  A block decodes to exactly
    what its triples and literals denote, and is written whenever the destination has room for it.
    The encoder's search keeps its invariant (\<open>search_inv\<close>): what lies in the
    destination decodes to a prefix of the source and what is collected extends it.  Together:
    \<open>compression_decode_buffer\<close> undoes \<open>compression_encode_buffer\<close>, and the encoder completes when the destination is large enough.
  \<^item> liblaunch.  Packing and unpacking are inverse and bounded; every sequence of messages arrives through any
    partial reads and writes; the dictionary laws; errors: a string length that wraps, a header
    that is lost after \<open>EAGAIN\<close>.
  \<^item> libsimple.  Exclusion and no lost wake-up for each lock, in every interleaving; the callback of once
    runs once; a notification of one waiter can be lost.
  \<^item> shellspawn.  The command stream yields the request it describes; filters, slots and
    descriptors of the daemon stay consistent; what each launcher is told.
  \<^item> base64, NSSystemDirectories, gmalloc.  Round trip, wrapping and error behaviour of the
    command; the enumeration lists the table; the guard page is adjacent to the block.

  \<^bold>\<open>Bounds and parameters.\<close>  The encoder's theorems need a source of at most \<open>2^31 - 262139\<close> bytes: above,
  the 32-bit sum in the distance test overflows (\<open>LZFSE_Search.one_chunk_below_4_GiB\<close>), and the code splits a source into chunks only
  from 4 GiB on.  The decoder's theorems need a destination below 2 GiB, the range of \<open>int32_t\<close>.
  \<open>ub\<close> stands for the result of the shift by -1 in \<open>fse_init_encoder_table\<close>; the theorems hold for
  every value.  \<open>pad\<close> is what lies in memory behind the source: the decoder can read one byte of it.
  \<open>LZFSE_Progress.plenty\<close> is the room that the encoder never needs more than: 779 bytes, 8 for each triple, 2 for each literal
  collected and 10 for each byte of the source to come.
  The recursions end by measures, the positions in the buffers, and use no fuel; only
  \<open>NS_Directories.enumerate_paths\<close>, the loop of a client of the enumeration, is given a number of rounds, and its theorem holds
  for every number above the length of the list.
  The 64-bit variants of the code are modelled.

  \<^bold>\<open>Not modelled, and why.\<close>

  \<^item> Within the modelled components: \<open>launch_client_init\<close>, the request and reply exchange of \<open>launch_msg\<close> and the check-in of
    Mach ports (system calls and Mach messages only); \<open>setupSocket\<close>, \<open>setupSigchild\<close> (a fixed sequence of system calls), \<open>ts_mark\<close>
    (timing output), \<open>reapAll\<close> (never called) of shellspawn; the scratch size functions (constants) and
    \<open>compression_stream_*\<close> (return an error at once) of libcompression.
  \<^item> \<open>launchd/src/\<close> (the daemon, its logging and tracing), \<open>launchd/support/\<close> (launchctl, launchproxy, wait4path), \<open>libbootstrap.c\<close>,
    \<open>libvproc.c\<close>: they work through Mach messages, kqueue and stubs that MIG generates during
    the build, which are not in the tree.
  \<^item> \<open>launchd/SystemStarter/\<close>, \<open>PlistBuddy/\<close>: built on CoreFoundation collections, which are
    not in the tree; without them there is nothing to translate.
  \<^item> \<open>xcselect/\<close>, \<open>clt/\<close>, \<open>tools/\<close>, \<open>dirhelper.c\<close>, \<open>sysdir.c\<close>: path lookups, directory creation and \<open>execv\<close>.
  \<^item> \<open>libm/\<close>: floating point.
  \<^item> \<open>frameworks/\<close>, \<open>private-frameworks/\<close> and the stub libraries (Accelerate with LAPACK and BLAS, CoreMedia and many
    others): generated functions that print a message or return a constant; most of the C lines
    of the tree are these.
  \<^item> Objective-C, C++, Swift and Rust code (frameworks, CoreAudio, the container server and launcher),
    host build tools, headers, vendored sources and tests.
\<close>

end
